(* ===== verification/Prelude.thy ===== *)
theory Prelude
  imports Main "HOL-Library.Word"
begin

text \<open>
  Shared vocabulary of the development: what the Go code takes from the language
  itself. A run-time panic (and a \<open>log.Fatal\<close>, which ends the process) is a value
  of type \<open>panic\<close>, a computation that may panic is of type \<open>'a go\<close>, slices are
  lists whose indexing and slicing check their bounds, \<open>time.Time\<close> is a number of
  nanoseconds and \<open>time.Duration\<close> a 64-bit word read as two's complement.
  The generic lemmas on these operations are collected in \<open>go_simps\<close> and
  \<open>go_intros\<close>.
\<close>

named_theorems go_simps \<open>equations of the Go primitives\<close>
named_theorems go_intros \<open>introduction rules for computations that do not panic\<close>

section \<open>Panics as values\<close>

datatype panic =
    IndexOutOfRange
  | SliceOutOfRange
  | NilDereference
  | DecodeError
  | TypeAssertion
  | DivideByZero
  | ClosedChannel
  | Fatal string

type_synonym 'a go = "panic + 'a"

definition go_bind :: "'a go \<Rightarrow> ('a \<Rightarrow> 'b go) \<Rightarrow> 'b go" where
  "go_bind m f = (case m of Inl p \<Rightarrow> Inl p | Inr x \<Rightarrow> f x)"

lemma go_bind_simps [simp]:
  "go_bind (Inl p) f = Inl p"
  "go_bind (Inr x) f = f x"
  by (simp_all add: go_bind_def)

lemma go_bind_Inr_iff [go_simps]:
  "go_bind m f = Inr y \<longleftrightarrow> (\<exists>x. m = Inr x \<and> f x = Inr y)"
  by (cases m) auto

lemma go_bind_cong [fundef_cong]:
  "m = m' \<Longrightarrow> (\<And>x. m' = Inr x \<Longrightarrow> f x = f' x) \<Longrightarrow> go_bind m f = go_bind m' f'"
  by (cases m') auto

text \<open>The computation returns, with a value that satisfies \<open>P\<close>.\<close>

definition go_ok :: "('a \<Rightarrow> bool) \<Rightarrow> 'a go \<Rightarrow> bool" where
  "go_ok P m = (case m of Inl p \<Rightarrow> False | Inr x \<Rightarrow> P x)"

lemma go_ok_iff: "go_ok P m \<longleftrightarrow> (\<exists>x. m = Inr x \<and> P x)"
  by (cases m) (auto simp: go_ok_def)

section \<open>Slices\<close>

text \<open>
  Indexing and slicing panic out of range. Go bounds the upper end of a slice
  expression by the capacity; the length is used here, which is the stricter of the two.
\<close>

definition go_len :: "'a list \<Rightarrow> int" where
  "go_len xs = int (length xs)"

definition go_index :: "'a list \<Rightarrow> int \<Rightarrow> 'a go" where
  "go_index xs i = (if 0 \<le> i \<and> i < go_len xs then Inr (xs ! nat i) else Inl IndexOutOfRange)"

definition go_set :: "'a list \<Rightarrow> int \<Rightarrow> 'a \<Rightarrow> 'a list go" where
  "go_set xs i v = (if 0 \<le> i \<and> i < go_len xs then Inr (xs[nat i := v]) else Inl IndexOutOfRange)"

definition go_prefix :: "'a list \<Rightarrow> int \<Rightarrow> 'a list go" where
  "go_prefix xs hi = (if 0 \<le> hi \<and> hi \<le> go_len xs then Inr (take (nat hi) xs) else Inl SliceOutOfRange)"

definition go_slice :: "'a list \<Rightarrow> int \<Rightarrow> int \<Rightarrow> 'a list go" where
  "go_slice xs lo hi =
     (if 0 \<le> lo \<and> lo \<le> hi \<and> hi \<le> go_len xs
      then Inr (drop (nat lo) (take (nat hi) xs)) else Inl SliceOutOfRange)"

lemma go_len_simps [simp]:
  "go_len [] = 0"
  "go_len (x # xs) = go_len xs + 1"
  "go_len (xs @ ys) = go_len xs + go_len ys"
  "go_len (xs[i := v]) = go_len xs"
  by (simp_all add: go_len_def)

lemma go_len_nonneg [simp]: "0 \<le> go_len xs"
  by (simp add: go_len_def)

lemma go_len_pos_iff [simp]: "0 < go_len xs \<longleftrightarrow> xs \<noteq> []"
  by (simp add: go_len_def)

lemma one_le_go_len_iff [simp]: "1 \<le> go_len xs \<longleftrightarrow> xs \<noteq> []"
  by (cases xs) (simp_all add: go_len_def)

lemma go_len_neq_neg [simp]: "go_len xs \<noteq> - 1"
  by (simp add: go_len_def)

lemma nat_go_len [simp]: "nat (go_len xs) = length xs"
  by (simp add: go_len_def)

lemma go_index_in [go_intros]: "0 \<le> i \<Longrightarrow> i < go_len xs \<Longrightarrow> go_index xs i = Inr (xs ! nat i)"
  by (simp add: go_index_def)

lemma go_index_Inr_iff [go_simps]:
  "go_index xs i = Inr x \<longleftrightarrow> 0 \<le> i \<and> i < go_len xs \<and> x = xs ! nat i"
  by (auto simp: go_index_def)

lemma go_index_last [simp]: "xs \<noteq> [] \<Longrightarrow> go_index xs (go_len xs - 1) = Inr (last xs)"
  by (cases xs rule: rev_cases) (auto simp: go_index_def nth_append go_len_def)

lemma go_set_in [go_intros]: "0 \<le> i \<Longrightarrow> i < go_len xs \<Longrightarrow> go_set xs i v = Inr (xs[nat i := v])"
  by (simp add: go_set_def)

lemma go_set_Inr_iff [go_simps]:
  "go_set xs i v = Inr ys \<longleftrightarrow> 0 \<le> i \<and> i < go_len xs \<and> ys = xs[nat i := v]"
  by (auto simp: go_set_def)

lemma go_prefix_in [go_intros]: "0 \<le> i \<Longrightarrow> i \<le> go_len xs \<Longrightarrow> go_prefix xs i = Inr (take (nat i) xs)"
  by (simp add: go_prefix_def)

lemma go_prefix_Inr_iff [go_simps]:
  "go_prefix xs i = Inr ys \<longleftrightarrow> 0 \<le> i \<and> i \<le> go_len xs \<and> ys = take (nat i) xs"
  by (auto simp: go_prefix_def)

lemma go_slice_in [go_intros]:
  "0 \<le> lo \<Longrightarrow> lo \<le> hi \<Longrightarrow> hi \<le> go_len xs \<Longrightarrow> go_slice xs lo hi = Inr (drop (nat lo) (take (nat hi) xs))"
  by (simp add: go_slice_def)

lemma go_slice_Inr_iff [go_simps]:
  "go_slice xs lo hi = Inr ys \<longleftrightarrow>
     0 \<le> lo \<and> lo \<le> hi \<and> hi \<le> go_len xs \<and> ys = drop (nat lo) (take (nat hi) xs)"
  by (auto simp: go_slice_def)

section \<open>Time\<close>

text \<open>
  \<open>time.Duration\<close> is an \<open>int64\<close> number of nanoseconds. \<open>Time.Sub\<close>, and with it
  \<open>time.Since\<close>, saturates at the ends of that type.
\<close>

type_synonym duration = "64 word"

definition max_duration :: int where
  "max_duration = 2 ^ 63 - 1"

definition min_duration :: int where
  "min_duration = - (2 ^ 63)"

definition time_since :: "int \<Rightarrow> int \<Rightarrow> duration" where
  "time_since now t = word_of_int (max min_duration (min max_duration (now - t)))"

abbreviation millisecond :: duration where
  "millisecond \<equiv> 1000000"

definition duration_ge :: "duration \<Rightarrow> duration \<Rightarrow> bool" where
  "duration_ge a b \<longleftrightarrow> sint b \<le> sint a"

lemma sint_time_since: "t \<le> now \<Longrightarrow> sint (time_since now t) = min max_duration (now - t)"
proof -
  assume "t \<le> now"
  then have r: "max min_duration (min max_duration (now - t)) = min max_duration (now - t)"
    by (simp add: min_duration_def max_duration_def)
  show ?thesis unfolding time_since_def r using \<open>t \<le> now\<close>
    by (subst signed_of_int) (simp add: signed_take_bit_int_eq_self_iff max_duration_def)
qed

section \<open>Lists\<close>

lemma take_Suc_last: "n < length xs \<Longrightarrow> take (Suc n) xs = take n xs @ [xs ! n]"
  by (simp add: take_Suc_conv_app_nth)

lemma take_eq_mono: "take n xs = take n ys \<Longrightarrow> m \<le> n \<Longrightarrow> take m xs = take m ys"
  by (metis min.absorb1 take_take)

lemma sorted_le_last: "sorted xs \<Longrightarrow> x \<in> set xs \<Longrightarrow> x \<le> last xs"
  by (induction xs) (auto split: if_splits)

lemma nth_eq_of_take_eq: "take n xs = take n ys \<Longrightarrow> i < n \<Longrightarrow> xs ! i = ys ! i"
  by (metis nth_take)

lemma upto_append: "a \<le> m + 1 \<Longrightarrow> m \<le> (c::int) \<Longrightarrow> [a..m] @ [m + 1..c] = [a..c]"
  using upto_split2[of a m c] by (cases "a = m + 1") auto

lemma distinct_count_list: "distinct xs \<Longrightarrow> x \<in> set xs \<Longrightarrow> count_list xs x = 1"
  by (induction xs) auto

lemma Nil_iff_parts: "xs = [] \<longleftrightarrow> {a \<in> set xs. \<not> P a} = {} \<and> {a \<in> set xs. P a} = {}"
  by (cases xs) auto

lemma ex_less_split:
  fixes Q :: "nat \<Rightarrow> nat \<Rightarrow> bool"
  shows "(\<exists>p q. p < q \<and> Q p q) \<longleftrightarrow> (\<exists>q. Q 0 (Suc q)) \<or> (\<exists>p q. p < q \<and> Q (Suc p) (Suc q))"
proof
  assume "\<exists>p q. p < q \<and> Q p q"
  then obtain p q where "p < q" "Q p q" by blast
  then show "(\<exists>q. Q 0 (Suc q)) \<or> (\<exists>p q. p < q \<and> Q (Suc p) (Suc q))" by (cases q; cases p) auto
qed auto


section \<open>Lists whose elements have at most one key each\<close>

definition unique_keys :: "('g \<Rightarrow> 'k option) \<Rightarrow> 'g list \<Rightarrow> bool" where
  "unique_keys key ts \<longleftrightarrow> (\<forall>k k'. k < length ts \<and> k' < length ts \<and> k \<noteq> k' \<and> key (ts ! k) \<noteq> None \<longrightarrow> key (ts ! k) \<noteq> key (ts ! k'))"

lemma unique_keysD: "unique_keys key ts \<Longrightarrow> k < length ts \<Longrightarrow> k' < length ts \<Longrightarrow> key (ts ! k) = Some a \<Longrightarrow> key (ts ! k') = Some a \<Longrightarrow> k = k'"
  unfolding unique_keys_def by (metis option.distinct(1))

lemma unique_keys_update:
  assumes "unique_keys key ts" and "key g = None \<or> key g = key (ts ! k)"
  shows "unique_keys key (ts[k := g])"
  unfolding unique_keys_def
proof (intro allI impI)
  fix a b
  assume a: "a < length (ts[k := g]) \<and> b < length (ts[k := g]) \<and> a \<noteq> b \<and> key (ts[k := g] ! a) \<noteq> None"
  then have ab: "a < length ts" "b < length ts" "a \<noteq> b" by auto
  then have "key (ts ! a) \<noteq> None \<Longrightarrow> key (ts ! a) \<noteq> key (ts ! b)" "key (ts ! b) \<noteq> None \<Longrightarrow> key (ts ! b) \<noteq> key (ts ! a)"
    using assms(1) unfolding unique_keys_def by blast+
  with a ab assms(2) show "key (ts[k := g] ! a) \<noteq> key (ts[k := g] ! b)"
    by (cases "a = k"; cases "b = k") auto
qed

lemma unique_keys_append:
  assumes "unique_keys key ts" and "unique_keys key gs" and new: "\<And>g h a. g \<in> set ts \<Longrightarrow> h \<in> set gs \<Longrightarrow> key g = Some a \<Longrightarrow> key h \<noteq> Some a"
  shows "unique_keys key (ts @ gs)"
  unfolding unique_keys_def
proof (intro allI impI)
  fix a b
  assume ab: "a < length (ts @ gs) \<and> b < length (ts @ gs) \<and> a \<noteq> b \<and> key ((ts @ gs) ! a) \<noteq> None"
  have apart: "key g \<noteq> key h" if "g \<in> set ts" "h \<in> set gs" "key g \<noteq> None \<or> key h \<noteq> None" for g h
    using new[OF that(1,2)] that(3) by (cases "key g") auto
  have mem: "gs ! (k - length ts) \<in> set gs" if "\<not> k < length ts" "k < length (ts @ gs)" for k using that by (intro nth_mem) simp
  show "key ((ts @ gs) ! a) \<noteq> key ((ts @ gs) ! b)"
  proof (cases "a < length ts"; cases "b < length ts")
    assume "a < length ts" "b < length ts"
    then show ?thesis using ab assms(1) by (simp add: nth_append unique_keys_def)
  next
    assume c: "a < length ts" "\<not> b < length ts"
    then show ?thesis using ab apart[of "ts ! a" "gs ! (b - length ts)"] mem by (simp add: nth_append)
  next
    assume c: "\<not> a < length ts" "b < length ts"
    then show ?thesis using ab apart[of "ts ! b" "gs ! (a - length ts)"] mem by (auto simp: nth_append)
  next
    assume c: "\<not> a < length ts" "\<not> b < length ts"
    then have "a - length ts < length gs" "b - length ts < length gs" "a - length ts \<noteq> b - length ts" using ab by auto
    then show ?thesis using c ab assms(2) by (simp add: nth_append unique_keys_def)
  qed
qed

lemma unique_keys_append_other: "unique_keys key ts \<Longrightarrow> (\<And>g. g \<in> set gs \<Longrightarrow> key g = None) \<Longrightarrow> unique_keys key (ts @ gs)"
  by (rule unique_keys_append) (auto simp: unique_keys_def)

lemma unique_keys_map: "distinct xs \<Longrightarrow> inj_on (key \<circ> f) (set xs) \<Longrightarrow> unique_keys key (map f xs)"
  by (auto simp: unique_keys_def inj_on_def distinct_conv_nth) (metis nth_mem option.exhaust)


section \<open>Loops over a range\<close>

text \<open>A loop whose body may panic, over the elements of a list and with the state threaded through.\<close>

fun go_each :: "('x \<Rightarrow> 's \<Rightarrow> 's go) \<Rightarrow> 'x list \<Rightarrow> 's \<Rightarrow> 's go" where
  "go_each f [] s = Inr s"
| "go_each f (x # xs) s = go_bind (f x s) (go_each f xs)"

lemma go_each_append: "go_each f (xs @ ys) s = go_bind (go_each f xs s) (go_each f ys)"
proof (induction xs arbitrary: s)
  case (Cons x xs)
  then show ?case by (cases "f x s") auto
qed simp

lemma go_each_total:
  assumes "\<And>x s. x \<in> set xs \<Longrightarrow> P s \<Longrightarrow> f x s = Inr (g x s) \<and> P (g x s)" and "P s"
  shows "go_each f xs s = Inr (fold g xs s)" and "P (fold g xs s)"
  using assms by (induction xs arbitrary: s) auto

lemma go_each_inv:
  assumes "go_each f xs s = Inr s'" and "P s" and "\<And>x s s'. x \<in> set xs \<Longrightarrow> P s \<Longrightarrow> f x s = Inr s' \<Longrightarrow> P s'"
  shows "P s'"
  using assms
proof (induction xs arbitrary: s)
  case (Cons x xs)
  then obtain s1 where s1: "f x s = Inr s1" "go_each f xs s1 = Inr s'" by (auto simp: go_simps)
  then show ?case using Cons.IH[OF s1(2)] Cons.prems(2,3) by (meson list.set_intros)
qed simp

lemma go_each_returns:
  assumes "P s" and "\<And>x s. x \<in> set xs \<Longrightarrow> P s \<Longrightarrow> \<exists>s'. f x s = Inr s' \<and> P s'"
  shows "\<exists>s'. go_each f xs s = Inr s' \<and> P s'"
  using assms
proof (induction xs arbitrary: s)
  case (Cons x xs)
  then obtain s1 where "f x s = Inr s1" "P s1" by (meson list.set_intros(1))
  then show ?case using Cons by auto
qed simp

section \<open>Distinct names\<close>

text \<open>A name for every pair of numbers, standing in for random strings in examples.\<close>

definition unary_names :: "nat \<Rightarrow> nat \<Rightarrow> string" where
  "unary_names i j = replicate i CHR ''a'' @ CHR ''b'' # replicate j CHR ''a''"

lemma unary_names_inj: "inj_on (\<lambda>(i, j). unary_names i j) A"
proof (rule inj_onI, clarify)
  fix i j i' j' assume "unary_names i j = unary_names i' j'"
  then have "takeWhile (\<lambda>c. c = CHR ''a'') (unary_names i j) = takeWhile (\<lambda>c. c = CHR ''a'') (unary_names i' j')"
    and "length (unary_names i j) = length (unary_names i' j')" by simp_all
  then show "i = i' \<and> j = j'" by (simp add: unary_names_def takeWhile_append)
qed

section \<open>Decimal numbers\<close>

text \<open>\<open>strconv.Itoa\<close>.\<close>

function digits :: "nat \<Rightarrow> string" where
  "digits n = (if n < 10 then [char_of (48 + n)] else digits (n div 10) @ [char_of (48 + n mod 10)])"
  by pat_completeness auto
termination
  by (relation "measure id") auto

declare digits.simps [simp del]

definition Itoa :: "int \<Rightarrow> string" where
  "Itoa i = (if i < 0 then ''-'' @ digits (nat (- i)) else digits (nat i))"

end
