(* ===== verification/Persister.thy ===== *)
theory Persister
  imports Prelude
begin

text \<open>
  \<open>src/src/raft/persister.go\<close>: the object that stands for a server's disk. Each
  method runs under the persister's own mutex and is one atomic operation on the two
  stored byte slices; a nil slice is the empty list, which the only reader
  (\<open>readPersist\<close>) treats alike. The element type is left open: the Raft theory stores
  encoded values in it. The interface Raft relies on is the locale \<open>stable_storage\<close>.
\<close>

section \<open>The object and its methods\<close>

record 'b Persister =
  raftstate :: "'b list"
  snapshot :: "'b list"

definition MakePersister :: "'b Persister" where
  "MakePersister = \<lparr>raftstate = [], snapshot = []\<rparr>"

definition Copy :: "'b Persister \<Rightarrow> 'b Persister" where
  "Copy ps =
     (let np = MakePersister;
          np = np\<lparr>raftstate := raftstate ps\<rparr>
      in np\<lparr>snapshot := snapshot ps\<rparr>)"

definition SaveRaftState :: "'b list \<Rightarrow> 'b Persister \<Rightarrow> 'b Persister" where
  "SaveRaftState st ps = ps\<lparr>raftstate := st\<rparr>"

definition ReadRaftState :: "'b Persister \<Rightarrow> 'b list" where
  "ReadRaftState ps = raftstate ps"

definition RaftStateSize :: "'b Persister \<Rightarrow> int" where
  "RaftStateSize ps = go_len (raftstate ps)"

definition SaveStateAndSnapshot :: "'b list \<Rightarrow> 'b list \<Rightarrow> 'b Persister \<Rightarrow> 'b Persister" where
  "SaveStateAndSnapshot st snap ps = ps\<lparr>raftstate := st, snapshot := snap\<rparr>"

definition ReadSnapshot :: "'b Persister \<Rightarrow> 'b list" where
  "ReadSnapshot ps = snapshot ps"

definition SnapshotSize :: "'b Persister \<Rightarrow> int" where
  "SnapshotSize ps = go_len (snapshot ps)"

lemmas persister_defs =
  MakePersister_def Copy_def SaveRaftState_def ReadRaftState_def RaftStateSize_def
  SaveStateAndSnapshot_def ReadSnapshot_def SnapshotSize_def

section \<open>The interface to the disk\<close>

text \<open>
  What a client of the disk relies on: a read returns the last save, saving again
  replaces it, and a copy taken at a crash reads as the original did.
\<close>

locale stable_storage =
  fixes blank :: "'p"
    and save :: "'d \<Rightarrow> 'p \<Rightarrow> 'p"
    and load :: "'p \<Rightarrow> 'd"
    and dup :: "'p \<Rightarrow> 'p"
    and nothing :: "'d"
  assumes load_blank: "load blank = nothing"
    and load_save: "load (save d p) = d"
    and save_save: "save d (save d' p) = save d p"
    and load_dup: "load (dup p) = load p"
begin

lemma load_saves: "ds \<noteq> [] \<Longrightarrow> load (fold save ds p) = last ds"
  by (induction ds arbitrary: p rule: rev_induct) (simp_all add: load_save)

lemma load_dup_save: "load (dup (save d p)) = d"
  by (simp add: load_dup load_save)

lemma load_after_restart: "load (save d (dup (save d' p))) = d"
  by (rule load_save)

end

interpretation disk: stable_storage MakePersister SaveRaftState ReadRaftState Copy "[]"
  by unfold_locales (simp_all add: persister_defs)

text \<open>
  The snapshot half is independent of the Raft half, except through the atomic
  \<open>SaveStateAndSnapshot\<close>.
\<close>

lemma ReadSnapshot_SaveRaftState [simp]:
  "ReadSnapshot (SaveRaftState st ps) = ReadSnapshot ps"
  by (simp add: persister_defs)

section \<open>Crash and restart\<close>

text \<open>
  What \<open>crash1\<close> and \<open>start1\<close> of \<open>src/src/raft/config.go\<close> do with the disk of a server: the
  crash isolates it from the old instance and keeps only the Raft state, and the restart
  gives the new instance a copy of its own.
\<close>

definition crash1_saved :: "'b Persister \<Rightarrow> 'b Persister" where
  "crash1_saved saved =
     (let saved = Copy saved; raftlog = ReadRaftState saved
      in SaveRaftState raftlog MakePersister)"

definition start1_saved :: "'b Persister \<Rightarrow> 'b Persister" where
  "start1_saved saved = Copy (crash1_saved saved)"

lemma ReadRaftState_restart [simp]:
  "ReadRaftState (crash1_saved ps) = ReadRaftState ps"
  "ReadRaftState (start1_saved ps) = ReadRaftState ps"
  by (simp_all add: crash1_saved_def start1_saved_def Let_def disk.load_save disk.load_dup)

end
