(* ===== verification/Raft.thy ===== *)
theory Raft
  imports Persister
begin

text \<open>
  \<open>src/src/raft/raft.go\<close>: one Raft peer. A \<open>Raft\<close> struct is the record \<open>Raft\<close>;
  each RPC handler, each API call and each section that a goroutine executes while it
  holds \<open>rf.mu\<close> is one function on that record, so that the interleavings of the
  program are the interleavings of these functions. What the code reads from outside
  (the clock, the random timeouts) is an argument. Go's \<open>int\<close> is \<open>int\<close>;
  \<open>electionTimeout\<close>, which the code doubles repeatedly, keeps its 64 bits.
  The fields keep the source's names with a prefix per struct.
\<close>

section \<open>Data\<close>

abbreviation (input) LEADER :: int where "LEADER \<equiv> 0"
abbreviation (input) FOLLOWER :: int where "FOLLOWER \<equiv> 1"
abbreviation (input) CANDIDATE :: int where "CANDIDATE \<equiv> 2"

record 'c ApplyMsg =
  CommandValid :: bool
  am_Command :: "'c option"
  CommandIndex :: int

text \<open>A command is an \<open>interface{}\<close>: \<open>None\<close> is nil, as in the sentinel entry 0.\<close>

record 'c LogEntry =
  le_Command :: "'c option"
  le_Term :: int

text \<open>
  The encoded state. \<open>labgob\<close> writes a sequence of values to a buffer and reads them
  back in order; the buffer is modelled at the granularity of those values.
\<close>

datatype 'c gob = GobInt int | GobLog "'c LogEntry list"

fun DecodeInt :: "'c gob list \<Rightarrow> (int \<times> 'c gob list) option" where
  "DecodeInt (GobInt i # bs) = Some (i, bs)"
| "DecodeInt _ = None"

fun DecodeLog :: "'c gob list \<Rightarrow> ('c LogEntry list \<times> 'c gob list) option" where
  "DecodeLog (GobLog l # bs) = Some (l, bs)"
| "DecodeLog _ = None"

record 'c Raft =
  rf_peers :: nat
  rf_persister :: "'c gob Persister"
  rf_me :: int
  rf_dead :: int
  rf_applyCh :: "'c ApplyMsg list"
  rf_electionTimeout :: duration
  rf_lastHeartbeat :: int
  rf_state :: int
  rf_currentTerm :: int
  rf_votedFor :: int
  rf_log :: "'c LogEntry list"
  rf_commitIndex :: int
  rf_lastApplied :: int
  rf_nextIndex :: "int list"
  rf_matchIndex :: "int list"

record 'c AppendEntriesArgs =
  ae_Term :: int
  ae_LeaderId :: int
  ae_PrevLogIndex :: int
  ae_PrevLogTerm :: int
  ae_Entries :: "'c LogEntry list"
  ae_LeaderCommit :: int

record AppendEntriesReply =
  aer_Term :: int
  aer_Success :: bool
  aer_XLen :: int
  aer_XTerm :: int
  aer_XIndex :: int

record RequestVoteArgs =
  rv_Term :: int
  rv_CandidateId :: int
  rv_LastLogIndex :: int
  rv_LastLogTerm :: int

record RequestVoteReply =
  rvr_Term :: int
  rvr_VoteGranted :: bool

definition AppendEntriesReply0 :: AppendEntriesReply where
  "AppendEntriesReply0 = \<lparr>aer_Term = 0, aer_Success = False, aer_XLen = 0, aer_XTerm = 0, aer_XIndex = 0\<rparr>"

definition RequestVoteReply0 :: RequestVoteReply where
  "RequestVoteReply0 = \<lparr>rvr_Term = 0, rvr_VoteGranted = False\<rparr>"

section \<open>State and persistence\<close>

definition GetState :: "'c Raft \<Rightarrow> int \<times> bool" where
  "GetState rf = (rf_currentTerm rf, rf_state rf = LEADER)"

definition persist :: "'c Raft \<Rightarrow> 'c Raft" where
  "persist rf =
     (let data = [GobInt (rf_state rf), GobInt (rf_currentTerm rf), GobInt (rf_votedFor rf),
                  GobLog (rf_log rf)]
      in rf\<lparr>rf_persister := SaveRaftState data (rf_persister rf)\<rparr>)"

definition readPersist :: "'c gob list \<Rightarrow> 'c Raft \<Rightarrow> 'c Raft go" where
  "readPersist data rf =
     (if go_len data < 1 then Inr rf
      else case DecodeInt data of
        None \<Rightarrow> Inl DecodeError
      | Some (st, r1) \<Rightarrow> (case DecodeInt r1 of
          None \<Rightarrow> Inl DecodeError
        | Some (currentTerm, r2) \<Rightarrow> (case DecodeInt r2 of
            None \<Rightarrow> Inl DecodeError
          | Some (votedFor, r3) \<Rightarrow> (case DecodeLog r3 of
              None \<Rightarrow> Inl DecodeError
            | Some (lg, r4) \<Rightarrow>
                Inr (rf\<lparr>rf_state := st, rf_currentTerm := currentTerm,
                        rf_votedFor := votedFor, rf_log := lg\<rparr>)))))"

section \<open>The AppendEntries handler\<close>

text \<open>
  Lines 203-208: scan the log downwards for the last entry whose term is below
  \<open>XTerm\<close>; \<open>XIndex\<close> is the index after it, and keeps its zero if there is none.
\<close>

fun find_XIndex :: "'c LogEntry list \<Rightarrow> nat \<Rightarrow> int \<Rightarrow> int" where
  "find_XIndex lg 0 t = 0"
| "find_XIndex lg (Suc i) t = (if le_Term (lg ! i) < t then int i + 1 else find_XIndex lg i t)"

text \<open>
  Lines 222-227: does some new entry differ in term from the entry the log has at its
  place?
\<close>

fun RPCstale :: "'c LogEntry list \<Rightarrow> int \<Rightarrow> 'c LogEntry list \<Rightarrow> bool go" where
  "RPCstale lg k [] = Inr False"
| "RPCstale lg k (v # vs) =
     go_bind (go_index lg k) (\<lambda>e. if le_Term e \<noteq> le_Term v then Inr True else RPCstale lg (k + 1) vs)"

text \<open>
  Lines 218-237: store the entries after \<open>PrevLogIndex\<close>. A nil \<open>Entries\<close> is \<open>[]\<close>:
  the wire format does not distinguish nil from empty.
\<close>

definition store_entries :: "'c AppendEntriesArgs \<Rightarrow> 'c LogEntry list \<Rightarrow> 'c LogEntry list go" where
  "store_entries args lg =
     (let prev = ae_PrevLogIndex args; es = ae_Entries args;
          overwrite = go_bind (go_prefix lg (prev + 1)) (\<lambda>pre. Inr (pre @ es))
      in if es \<noteq> [] then
           (if prev + 1 + go_len es < go_len lg then
              go_bind (RPCstale lg (prev + 1) es) (\<lambda>stale. if stale then overwrite else Inr lg)
            else overwrite)
         else Inr lg)"

definition AppendEntries ::
  "int \<Rightarrow> 'c AppendEntriesArgs \<Rightarrow> 'c Raft \<Rightarrow> ('c Raft \<times> AppendEntriesReply) go" where
  "AppendEntries now args rf =
     (let reply = AppendEntriesReply0 in
      if ae_Term args < rf_currentTerm rf then
        Inr (rf, reply\<lparr>aer_Term := rf_currentTerm rf\<rparr>)
      else
        let rf = rf\<lparr>rf_lastHeartbeat := now, rf_currentTerm := ae_Term args\<rparr>;
            reply = reply\<lparr>aer_Term := ae_Term args\<rparr>;
            rf = (if rf_state rf \<noteq> FOLLOWER then rf\<lparr>rf_state := FOLLOWER\<rparr> else rf);
            rf = persist rf
        in if go_len (rf_log rf) - 1 < ae_PrevLogIndex args then
             Inr (rf, reply\<lparr>aer_XLen := go_len (rf_log rf)\<rparr>)
           else
             let reply = reply\<lparr>aer_XLen := -1\<rparr> in
             go_bind (go_index (rf_log rf) (ae_PrevLogIndex args)) (\<lambda>e.
               if le_Term e \<noteq> ae_PrevLogTerm args then
                 let reply = reply\<lparr>aer_XTerm := le_Term e,
                       aer_XIndex := find_XIndex (rf_log rf) (length (rf_log rf)) (le_Term e)\<rparr>
                 in go_bind (go_prefix (rf_log rf) (ae_PrevLogIndex args)) (\<lambda>lg.
                      Inr (persist (rf\<lparr>rf_log := lg\<rparr>), reply))
               else
                 go_bind (store_entries args (rf_log rf)) (\<lambda>lg.
                   let rf = persist (rf\<lparr>rf_log := lg\<rparr>);
                       rf = (if rf_commitIndex rf < ae_LeaderCommit args
                             then rf\<lparr>rf_commitIndex :=
                                    (if ae_LeaderCommit args > go_len (rf_log rf) - 1
                                     then go_len (rf_log rf) - 1 else ae_LeaderCommit args)\<rparr>
                             else rf)
                   in Inr (rf, reply\<lparr>aer_Success := True\<rparr>))))"

section \<open>The RequestVote handler\<close>

definition up_to_date :: "RequestVoteArgs \<Rightarrow> 'c LogEntry list \<Rightarrow> bool go" where
  "up_to_date args lg =
     go_bind (go_index lg (go_len lg - 1)) (\<lambda>e.
       Inr (rv_LastLogTerm args > le_Term e \<or>
            rv_LastLogTerm args = le_Term e \<and> rv_LastLogIndex args \<ge> go_len lg - 1))"

definition RequestVote ::
  "int \<Rightarrow> RequestVoteArgs \<Rightarrow> 'c Raft \<Rightarrow> ('c Raft \<times> RequestVoteReply) go" where
  "RequestVote now args rf =
     (let reply = RequestVoteReply0 in
      if rv_Term args < rf_currentTerm rf then
        Inr (rf, reply\<lparr>rvr_Term := rf_currentTerm rf\<rparr>)
      else if rf_currentTerm rf = rv_Term args \<and> rf_votedFor rf \<noteq> -1 \<and>
              rf_votedFor rf \<noteq> rv_CandidateId args then
        go_bind (up_to_date args (rf_log rf)) (\<lambda>utd.
          Inr (if utd then rf\<lparr>rf_electionTimeout := rf_electionTimeout rf * 2\<rparr> else rf,
               reply\<lparr>rvr_Term := rf_currentTerm rf\<rparr>))
      else
        go_bind (up_to_date args (rf_log rf)) (\<lambda>utd.
          if utd then
            Inr (persist (rf\<lparr>rf_currentTerm := rv_Term args,
                             rf_votedFor := rv_CandidateId args,
                             rf_lastHeartbeat := now,
                             rf_state := FOLLOWER\<rparr>),
                 reply\<lparr>rvr_Term := rv_Term args, rvr_VoteGranted := True\<rparr>)
          else Inr (rf, reply\<lparr>rvr_Term := rf_currentTerm rf\<rparr>)))"

section \<open>The service API\<close>

definition Start :: "'c \<Rightarrow> 'c Raft \<Rightarrow> 'c Raft \<times> (int \<times> int \<times> bool)" where
  "Start command rf =
     (let term = rf_currentTerm rf in
      if rf_state rf = LEADER then
        (persist (rf\<lparr>rf_log := rf_log rf @ [\<lparr>le_Command = Some command, le_Term = term\<rparr>]\<rparr>),
         (go_len (rf_log rf), term, True))
      else (rf, (-1, term, False)))"

definition Kill :: "'c Raft \<Rightarrow> 'c Raft" where
  "Kill rf = rf\<lparr>rf_dead := 1\<rparr>"

definition killed :: "'c Raft \<Rightarrow> bool" where
  "killed rf \<longleftrightarrow> rf_dead rf = 1"

text \<open>
  \<open>rnd\<close> is the value of \<open>rand.Intn(1000)\<close>. The loop that fills \<open>nextIndex\<close> and
  \<open>matchIndex\<close> runs over all peers, so that both end up constant.
\<close>

definition Make :: "nat \<Rightarrow> int \<Rightarrow> 'c gob Persister \<Rightarrow> int \<Rightarrow> nat \<Rightarrow> 'c Raft go" where
  "Make npeers me persister now rnd =
     (let rf = \<lparr>rf_peers = npeers, rf_persister = persister, rf_me = me, rf_dead = 0,
               rf_applyCh = [],
               rf_electionTimeout = of_nat (500 + rnd) * millisecond,
               rf_lastHeartbeat = now, rf_state = FOLLOWER, rf_currentTerm = 0,
               rf_votedFor = -1, rf_log = [\<lparr>le_Command = None, le_Term = 0\<rparr>],
               rf_commitIndex = 0, rf_lastApplied = 0,
               rf_nextIndex = replicate npeers 0, rf_matchIndex = replicate npeers 0\<rparr>
      in go_bind (readPersist (ReadRaftState persister) rf) (\<lambda>rf.
           Inr (rf\<lparr>rf_nextIndex := replicate npeers (go_len (rf_log rf)),
                   rf_matchIndex := replicate npeers 0\<rparr>)))"

section \<open>The election goroutines\<close>

text \<open>
  \<open>checkElection\<close>, lines 483-497 and 579-582: the locked section at the top of the
  loop. \<open>None\<close> when no election starts; \<open>rnd\<close> is \<open>rand.Intn(200)\<close>.
\<close>

definition checkElection :: "int \<Rightarrow> nat \<Rightarrow> 'c Raft \<Rightarrow> 'c Raft option" where
  "checkElection now rnd rf =
     (if rf_state rf \<noteq> LEADER \<and>
         duration_ge (time_since now (rf_lastHeartbeat rf)) (rf_electionTimeout rf)
      then Some (persist (rf\<lparr>rf_state := CANDIDATE,
                             rf_currentTerm := rf_currentTerm rf + 1,
                             rf_votedFor := rf_me rf,
                             rf_lastHeartbeat := now,
                             rf_electionTimeout := of_nat (300 + rnd) * millisecond\<rparr>))
      else None)"

text \<open>Lines 498-503: a goroutine for every peer but \<open>me\<close>, from the last down.\<close>

definition other_peers :: "'c Raft \<Rightarrow> nat list" where
  "other_peers rf = filter (\<lambda>i. int i \<noteq> rf_me rf) (rev [0..<rf_peers rf])"

text \<open>Lines 505-518: the goroutine builds its request under the lock.\<close>

definition requestVoteArgs :: "'c Raft \<Rightarrow> RequestVoteArgs go" where
  "requestVoteArgs rf =
     go_bind (go_index (rf_log rf) (go_len (rf_log rf) - 1)) (\<lambda>e.
       Inr \<lparr>rv_Term = rf_currentTerm rf, rv_CandidateId = rf_me rf,
            rv_LastLogIndex = go_len (rf_log rf) - 1, rv_LastLogTerm = le_Term e\<rparr>)"

text \<open>
  Lines 528-577: what the goroutine does with a reply, on the peer and on the
  \<open>grantedCnt\<close> of its election.
\<close>

definition handleVoteReply ::
  "int \<Rightarrow> RequestVoteArgs \<Rightarrow> RequestVoteReply \<Rightarrow> 'c Raft \<times> int \<Rightarrow> 'c Raft \<times> int" where
  "handleVoteReply now args reply = (\<lambda>(rf, grantedCnt).
     if rvr_Term reply < rv_Term args then
       let rf = rf\<lparr>rf_state := FOLLOWER\<rparr>;
           rf = rf\<lparr>rf_state := -1\<rparr>
       in (persist (rf\<lparr>rf_lastHeartbeat := now\<rparr>), grantedCnt)
     else if rv_Term args \<noteq> rf_currentTerm rf then (rf, grantedCnt)
     else if rvr_Term reply > rf_currentTerm rf then
       (persist (rf\<lparr>rf_currentTerm := rvr_Term reply, rf_state := FOLLOWER\<rparr>), grantedCnt)
     else
       let grantedCnt = (if rf_state rf = CANDIDATE \<and> rvr_VoteGranted reply
                         then grantedCnt + 1 else grantedCnt)
       in if 2 * grantedCnt > int (rf_peers rf) then
            (if rf_state rf \<noteq> CANDIDATE then (rf, grantedCnt)
             else ((persist (rf\<lparr>rf_state := LEADER\<rparr>))
                     \<lparr>rf_nextIndex := map (\<lambda>_. go_len (rf_log rf)) (rf_nextIndex rf),
                      rf_matchIndex := map (\<lambda>_. 0) (rf_matchIndex rf)\<rparr>, grantedCnt))
          else (rf, grantedCnt))"

section \<open>The heartbeat goroutines\<close>

text \<open>Lines 596-602: what one round of \<open>sendHeartbeat\<close> captures.\<close>

record HeartbeatRound =
  hb_currentTerm :: int
  hb_currentLogLen :: int
  hb_changeCommit :: bool
  hb_currentCommitIndex :: int

definition sendHeartbeat :: "'c Raft \<Rightarrow> HeartbeatRound option go" where
  "sendHeartbeat rf =
     (if rf_state rf = LEADER then
        let currentLogLen = go_len (rf_log rf) in
        go_bind (go_index (rf_log rf) (currentLogLen - 1)) (\<lambda>e.
          Inr (Some \<lparr>hb_currentTerm = rf_currentTerm rf, hb_currentLogLen = currentLogLen,
                     hb_changeCommit = (le_Term e = rf_currentTerm rf),
                     hb_currentCommitIndex = rf_commitIndex rf\<rparr>))
      else Inr None)"

text \<open>Lines 611-628: the request for peer \<open>i\<close>; \<open>None\<close> is the early return.\<close>

definition appendEntriesArgs ::
  "HeartbeatRound \<Rightarrow> nat \<Rightarrow> 'c Raft \<Rightarrow> 'c AppendEntriesArgs option go" where
  "appendEntriesArgs hb i rf =
     (if rf_state rf \<noteq> LEADER \<or> hb_currentTerm hb \<noteq> rf_currentTerm rf then Inr None
      else
        go_bind (go_index (rf_nextIndex rf) (int i)) (\<lambda>ni.
        go_bind (go_index (rf_log rf) (ni - 1)) (\<lambda>e.
        let args = \<lparr>ae_Term = hb_currentTerm hb, ae_LeaderId = rf_me rf,
                    ae_PrevLogIndex = ni - 1, ae_PrevLogTerm = le_Term e,
                    ae_Entries = [], ae_LeaderCommit = hb_currentCommitIndex hb\<rparr>
        in if ni < hb_currentLogLen hb then
             go_bind (go_slice (rf_log rf) ni (hb_currentLogLen hb)) (\<lambda>es.
               Inr (Some (args\<lparr>ae_Entries := es\<rparr>)))
           else Inr (Some args))))"

text \<open>Lines 674-679: the leader's last entry with term \<open>XTerm\<close>, if it has one.\<close>

fun find_XTerm :: "'c LogEntry list \<Rightarrow> nat \<Rightarrow> int \<Rightarrow> int \<Rightarrow> int" where
  "find_XTerm lg 0 t d = d"
| "find_XTerm lg (Suc j) t d = (if le_Term (lg ! j) = t then int j else find_XTerm lg j t d)"

definition backup_nextIndex :: "AppendEntriesReply \<Rightarrow> 'c LogEntry list \<Rightarrow> int" where
  "backup_nextIndex reply lg =
     (if aer_XLen reply \<noteq> -1 then aer_XLen reply
      else find_XTerm lg (length lg) (aer_XTerm reply) (aer_XIndex reply))"

text \<open>
  Lines 633-694: what the goroutine of peer \<open>i\<close> does when \<open>Call\<close> returns. The result
  says whether its loop goes round again.
\<close>

datatype loop_exit = Return | Again

definition handleAppendReply ::
  "HeartbeatRound \<Rightarrow> nat \<Rightarrow> 'c AppendEntriesArgs \<Rightarrow> bool \<Rightarrow> AppendEntriesReply \<Rightarrow>
   'c Raft \<times> int \<Rightarrow> (('c Raft \<times> int) \<times> loop_exit) go" where
  "handleAppendReply hb i args ok reply = (\<lambda>(rf, replCount).
     if rf_state rf \<noteq> LEADER \<or> hb_currentTerm hb \<noteq> rf_currentTerm rf then
       Inr ((rf, replCount), Return)
     else go_bind (go_index (rf_nextIndex rf) (int i)) (\<lambda>ni.
       if ni \<noteq> ae_PrevLogIndex args + 1 then Inr ((rf, replCount), Return)
       else if \<not> ok then Inr ((rf, replCount), Again)
       else if \<not> aer_Success reply then
         (if aer_Term reply > rf_currentTerm rf then
            Inr ((persist (rf\<lparr>rf_currentTerm := aer_Term reply, rf_state := FOLLOWER\<rparr>),
                  replCount), Return)
          else
            go_bind (go_set (rf_nextIndex rf) (int i) (backup_nextIndex reply (rf_log rf))) (\<lambda>nis.
              Inr ((rf\<lparr>rf_nextIndex := nis\<rparr>, replCount), Again)))
       else
         let match = ae_PrevLogIndex args + go_len (ae_Entries args) in
         go_bind (go_set (rf_matchIndex rf) (int i) match) (\<lambda>mis.
         go_bind (go_set (rf_nextIndex rf) (int i) (match + 1)) (\<lambda>nis.
           let rf = rf\<lparr>rf_matchIndex := mis, rf_nextIndex := nis\<rparr>;
               replCount = replCount + 1;
               nextCommitIndex = hb_currentLogLen hb - 1;
               rf = (if hb_changeCommit hb \<and> 2 * replCount > int (rf_peers rf) \<and>
                        rf_commitIndex rf < nextCommitIndex
                     then rf\<lparr>rf_commitIndex := nextCommitIndex\<rparr> else rf)
           in Inr ((rf, replCount), Return)))))"

section \<open>The apply goroutine\<close>

text \<open>Lines 708-725: one pass of \<open>checkApply\<close>, all under the lock.\<close>

function checkApply :: "'c Raft \<Rightarrow> 'c Raft go" where
  "checkApply rf =
     (if rf_lastApplied rf < rf_commitIndex rf then
        let commandIndex = rf_lastApplied rf + 1 in
        go_bind (go_index (rf_log rf) commandIndex) (\<lambda>e.
          checkApply (rf\<lparr>rf_lastApplied := commandIndex,
                         rf_applyCh := rf_applyCh rf @
                           [\<lparr>CommandValid = True, am_Command = le_Command e,
                             CommandIndex = commandIndex\<rparr>]\<rparr>))
      else Inr rf)"
  by pat_completeness auto
termination
  by (relation "measure (\<lambda>rf. nat (rf_commitIndex rf - rf_lastApplied rf))") auto

declare checkApply.simps [simp del]

end
