(* ===== verification/Raft_Peer.thy ===== *)
theory Raft_Peer
  imports Raft "HOL-Library.Sublist"
begin

text \<open>
  One peer on its own: the well-formedness invariant \<open>raft_ok\<close> of a \<open>Raft\<close> struct
  and that every handler, API call and goroutine section keeps it without a panic;
  what is on disk; what the vote handler grants; the arithmetic of the election
  timeout; and the order in which entries reach the service.
\<close>

section \<open>Frame lemmas\<close>

lemma persist_frame [simp]:
  "rf_peers (persist rf) = rf_peers rf"
  "rf_me (persist rf) = rf_me rf"
  "rf_dead (persist rf) = rf_dead rf"
  "rf_applyCh (persist rf) = rf_applyCh rf"
  "rf_electionTimeout (persist rf) = rf_electionTimeout rf"
  "rf_lastHeartbeat (persist rf) = rf_lastHeartbeat rf"
  "rf_state (persist rf) = rf_state rf"
  "rf_currentTerm (persist rf) = rf_currentTerm rf"
  "rf_votedFor (persist rf) = rf_votedFor rf"
  "rf_log (persist rf) = rf_log rf"
  "rf_commitIndex (persist rf) = rf_commitIndex rf"
  "rf_lastApplied (persist rf) = rf_lastApplied rf"
  "rf_nextIndex (persist rf) = rf_nextIndex rf"
  "rf_matchIndex (persist rf) = rf_matchIndex rf"
  by (simp_all add: persist_def Let_def)

text \<open>What the disk holds, as \<open>persist\<close> writes it.\<close>

definition image :: "'c Raft \<Rightarrow> 'c gob list" where
  "image rf = [GobInt (rf_state rf), GobInt (rf_currentTerm rf), GobInt (rf_votedFor rf),
               GobLog (rf_log rf)]"

definition blank_image :: "'c gob list" where
  "blank_image = [GobInt FOLLOWER, GobInt 0, GobInt (-1), GobLog [\<lparr>le_Command = None, le_Term = 0\<rparr>]]"

text \<open>
  Memory and disk agree: the disk holds the peer's state, or nothing yet while the peer
  still has the values \<open>Make\<close> gave it.
\<close>

definition synced :: "'c Raft \<Rightarrow> bool" where
  "synced rf \<longleftrightarrow> ReadRaftState (rf_persister rf) = image rf \<or>
     ReadRaftState (rf_persister rf) = [] \<and> image rf = blank_image"

lemma persist_persister [simp]:
  "rf_persister (persist rf) = SaveRaftState (image rf) (rf_persister rf)"
  by (simp add: persist_def image_def Let_def)

lemma synced_persist [simp, intro]: "synced (persist rf)"
  by (simp add: synced_def disk.load_save) (simp add: image_def)

lemma synced_cong:
  assumes "synced rf" and "rf_persister rf' = rf_persister rf" and "rf_state rf' = rf_state rf"
    and "rf_currentTerm rf' = rf_currentTerm rf" and "rf_votedFor rf' = rf_votedFor rf"
    and "rf_log rf' = rf_log rf"
  shows "synced rf'"
  using assms by (simp add: synced_def image_def)

lemma synced_volatile [simp]:
  "synced (rf\<lparr>rf_commitIndex := c\<rparr>) = synced rf"
  "synced (rf\<lparr>rf_electionTimeout := d\<rparr>) = synced rf"
  "synced (rf\<lparr>rf_nextIndex := ns\<rparr>) = synced rf"
  "synced (rf\<lparr>rf_matchIndex := ms\<rparr>) = synced rf"
  "synced (rf\<lparr>rf_lastApplied := l\<rparr>) = synced rf"
  "synced (rf\<lparr>rf_applyCh := ch\<rparr>) = synced rf"
  by (simp_all add: synced_def image_def)

section \<open>Well-formed logs and peers\<close>

text \<open>
  The log starts with the sentinel of term 0, terms never decrease along it, real
  entries have terms of at least 1 and none is above the given term.
\<close>

definition log_ok :: "int \<Rightarrow> 'c LogEntry list \<Rightarrow> bool" where
  "log_ok ct lg \<longleftrightarrow> lg \<noteq> [] \<and> le_Term (hd lg) = 0 \<and> sorted (map le_Term lg) \<and>
     list_all (\<lambda>e. 1 \<le> le_Term e) (tl lg) \<and> list_all (\<lambda>e. le_Term e \<le> ct) lg"

definition raft_ok :: "'c Raft \<Rightarrow> bool" where
  "raft_ok rf \<longleftrightarrow> log_ok (rf_currentTerm rf) (rf_log rf) \<and>
     length (rf_nextIndex rf) = rf_peers rf \<and> length (rf_matchIndex rf) = rf_peers rf \<and>
     0 \<le> rf_me rf \<and> rf_me rf < int (rf_peers rf) \<and>
     (rf_state rf = LEADER \<longrightarrow>
        list_all (\<lambda>ni. 1 \<le> ni \<and> ni \<le> go_len (rf_log rf)) (rf_nextIndex rf))"

text \<open>
  A request as a well-formed leader sends it: the entries continue the term order after
  \<open>PrevLogTerm\<close> and none is newer than the leader's term.
\<close>

definition args_ok :: "'c AppendEntriesArgs \<Rightarrow> bool" where
  "args_ok args \<longleftrightarrow> 0 \<le> ae_PrevLogIndex args \<and>
     (ae_PrevLogIndex args = 0 \<longrightarrow> ae_PrevLogTerm args = 0) \<and>
     sorted (ae_PrevLogTerm args # map le_Term (ae_Entries args)) \<and>
     list_all (\<lambda>e. 1 \<le> le_Term e \<and> le_Term e \<le> ae_Term args) (ae_Entries args)"

lemma log_okD:
  assumes "log_ok ct lg"
  shows "lg \<noteq> []" and "le_Term (lg ! 0) = 0" and "sorted (map le_Term lg)"
    and "i < length lg \<Longrightarrow> le_Term (lg ! i) \<le> ct"
    and "0 < i \<Longrightarrow> i < length lg \<Longrightarrow> 1 \<le> le_Term (lg ! i)"
proof -
  from assms show ne: "lg \<noteq> []" and "sorted (map le_Term lg)"
    by (simp_all add: log_ok_def)
  from assms ne show "le_Term (lg ! 0) = 0"
    by (simp add: log_ok_def hd_conv_nth)
  from assms show "i < length lg \<Longrightarrow> le_Term (lg ! i) \<le> ct"
    by (simp add: log_ok_def list_all_length)
  assume "0 < i" "i < length lg"
  with assms show "1 \<le> le_Term (lg ! i)"
    by (cases lg; cases i) (auto simp: log_ok_def list_all_length)
qed

lemma log_ok_mono: "log_ok ct lg \<Longrightarrow> ct \<le> ct' \<Longrightarrow> log_ok ct' lg"
  by (auto simp: log_ok_def list_all_iff)

lemma log_ok_take:
  assumes "log_ok ct lg" and "0 < n"
  shows "log_ok ct (take n lg)"
proof -
  obtain e l where "lg = e # l"
    using assms(1) by (cases lg) (auto simp: log_ok_def)
  with assms show ?thesis
    by (cases n) (auto simp: log_ok_def list_all_iff dest!: in_set_takeD
        intro: sorted_wrt_take simp flip: take_map)
qed

lemma log_ok_append:
  assumes "log_ok ct lg" and "sorted (le_Term (last lg) # map le_Term es)"
    and "list_all (\<lambda>e. 1 \<le> le_Term e \<and> le_Term e \<le> ct) es"
  shows "log_ok ct (lg @ es)"
proof -
  have ne: "lg \<noteq> []" and srt: "sorted (map le_Term lg)"
    using assms(1) by (simp_all add: log_ok_def)
  have "le_Term e \<le> le_Term (last lg)" if "e \<in> set lg" for e
    using sorted_le_last[OF srt, of "le_Term e"] that ne by (auto simp: last_map)
  with assms ne srt show ?thesis
    by (fastforce simp: log_ok_def list_all_iff sorted_append)
qed

lemma log_ok_last_le: "log_ok ct lg \<Longrightarrow> le_Term (last lg) \<le> ct"
  using log_okD(4)[of ct lg "length lg - 1"] log_okD(1)[of ct lg] by (simp add: last_conv_nth)

section \<open>The term scans\<close>

lemma find_XIndex_bounds:
  "0 \<le> find_XIndex lg n t \<and> find_XIndex lg n t \<le> int n"
  by (induction n) auto

lemma find_XIndex_split:
  assumes "sorted (map le_Term lg)" and "n \<le> length lg" and "i < n"
  shows "int i < find_XIndex lg n t \<longleftrightarrow> le_Term (lg ! i) < t"
  using assms(2,3)
proof (induction n)
  case (Suc n)
  show ?case
  proof (cases "le_Term (lg ! n) < t")
    case True
    moreover have "le_Term (lg ! i) \<le> le_Term (lg ! n)"
      using assms(1) Suc.prems by (auto simp: sorted_iff_nth_mono)
    ultimately show ?thesis using Suc.prems by auto
  next
    case False
    with Suc show ?thesis
      using find_XIndex_bounds[of lg n t] by (cases "i = n") auto
  qed
qed simp

lemma find_XTerm_cases:
  "find_XTerm lg n t d = d \<and> (\<forall>j<n. le_Term (lg ! j) \<noteq> t) \<or>
   (\<exists>j<n. find_XTerm lg n t d = int j \<and> le_Term (lg ! j) = t \<and>
          (\<forall>k. j < k \<and> k < n \<longrightarrow> le_Term (lg ! k) \<noteq> t))"
proof (induction n)
  case (Suc n)
  then show ?case
    by (cases "le_Term (lg ! n) = t") (auto simp: less_Suc_eq)
qed simp

section \<open>Storing entries\<close>

text \<open>
  \<open>RPCstale\<close> in range never panics and says whether some term differs; \<open>store_entries\<close>
  keeps the log when every new entry is already there, and otherwise replaces all that
  follows \<open>PrevLogIndex\<close>.
\<close>

lemma RPCstale_eq:
  "0 \<le> k \<Longrightarrow> k + go_len es \<le> go_len lg \<Longrightarrow>
   RPCstale lg k es = Inr (\<exists>i < length es. le_Term (lg ! (nat k + i)) \<noteq> le_Term (es ! i))"
proof (induction es arbitrary: k)
  case (Cons v vs)
  have "RPCstale lg (k + 1) vs = Inr (\<exists>i<length vs. le_Term (lg ! (nat k + Suc i)) \<noteq> le_Term (vs ! i))"
    using Cons by (auto simp: nat_add_distrib)
  moreover have "k < go_len lg"
    using Cons.prems go_len_nonneg[of vs] unfolding go_len_simps by linarith
  ultimately show ?case
    using Cons.prems by (auto simp: go_index_def less_Suc_eq_0_disj)
qed simp

definition stored :: "'c AppendEntriesArgs \<Rightarrow> 'c LogEntry list \<Rightarrow> 'c LogEntry list" where
  "stored args lg =
     (let k = Suc (nat (ae_PrevLogIndex args)); es = ae_Entries args in
      if es = [] \<or>
         k + length es < length lg \<and> map le_Term (take (length es) (drop k lg)) = map le_Term es
      then lg else take k lg @ es)"

lemma terms_differ_iff:
  "k + length es \<le> length lg \<Longrightarrow>
   (\<exists>i < length es. le_Term (lg ! (k + i)) \<noteq> le_Term (es ! i)) \<longleftrightarrow>
   map le_Term (take (length es) (drop k lg)) \<noteq> map le_Term es"
  by (auto simp: list_eq_iff_nth_eq)

lemma store_entries_eq:
  assumes "0 \<le> ae_PrevLogIndex args" and "ae_PrevLogIndex args < go_len lg"
  shows "store_entries args lg = Inr (stored args lg)"
proof -
  let ?k = "Suc (nat (ae_PrevLogIndex args))" and ?es = "ae_Entries args"
  have k: "nat (ae_PrevLogIndex args + 1) = ?k" "?k \<le> length lg"
    using assms by (simp_all add: go_len_def)
  show ?thesis
  proof (cases "ae_PrevLogIndex args + 1 + go_len ?es < go_len lg")
    case True
    then have le: "?k + length ?es < length lg" using assms by (simp add: go_len_def)
    have "RPCstale lg (ae_PrevLogIndex args + 1) ?es =
        Inr (map le_Term (take (length ?es) (drop ?k lg)) \<noteq> map le_Term ?es)"
      using assms True le terms_differ_iff[of ?k ?es lg]
      by (subst RPCstale_eq) (simp_all add: k)
    with True le assms k show ?thesis
      by (auto simp: store_entries_def stored_def Let_def go_prefix_def)
  next
    case False
    then have "length lg \<le> ?k + length ?es" using assms by (simp add: go_len_def)
    with False assms k show ?thesis
      by (auto simp: store_entries_def stored_def Let_def go_prefix_def)
  qed
qed

lemma stored_ok:
  assumes lg: "log_ok ct lg" and args: "args_ok args" and ct: "ae_Term args \<le> ct"
    and p: "ae_PrevLogIndex args < go_len lg"
    and t: "le_Term (lg ! nat (ae_PrevLogIndex args)) = ae_PrevLogTerm args"
  shows "log_ok ct (stored args lg)"
proof -
  let ?k = "Suc (nat (ae_PrevLogIndex args))"
  have k: "nat (ae_PrevLogIndex args) < length lg"
    using args p by (simp add: args_ok_def go_len_def nat_less_iff)
  then have "last (take ?k lg) = lg ! nat (ae_PrevLogIndex args)"
    by (simp add: take_Suc_conv_app_nth)
  then have "log_ok ct (take ?k lg @ ae_Entries args)"
    using args ct t lg
    by (intro log_ok_append log_ok_take) (auto simp: args_ok_def list_all_iff)
  with lg show ?thesis by (simp add: stored_def Let_def)
qed

section \<open>The handlers, case by case\<close>

text \<open>
  What \<open>AppendEntries\<close> does on each of its four paths: a stale term, a log that is too
  short, a conflicting entry at \<open>PrevLogIndex\<close>, and acceptance.
\<close>

definition accept_term :: "int \<Rightarrow> int \<Rightarrow> 'c Raft \<Rightarrow> 'c Raft" where
  "accept_term now t rf = persist (rf\<lparr>rf_lastHeartbeat := now, rf_currentTerm := t, rf_state := FOLLOWER\<rparr>)"

lemma accept_term_frame [simp]:
  "rf_peers (accept_term now t rf) = rf_peers rf"
  "rf_me (accept_term now t rf) = rf_me rf"
  "rf_dead (accept_term now t rf) = rf_dead rf"
  "rf_applyCh (accept_term now t rf) = rf_applyCh rf"
  "rf_electionTimeout (accept_term now t rf) = rf_electionTimeout rf"
  "rf_state (accept_term now t rf) = FOLLOWER"
  "rf_currentTerm (accept_term now t rf) = t"
  "rf_votedFor (accept_term now t rf) = rf_votedFor rf"
  "rf_log (accept_term now t rf) = rf_log rf"
  "rf_commitIndex (accept_term now t rf) = rf_commitIndex rf"
  "rf_lastApplied (accept_term now t rf) = rf_lastApplied rf"
  "rf_nextIndex (accept_term now t rf) = rf_nextIndex rf"
  "rf_matchIndex (accept_term now t rf) = rf_matchIndex rf"
  by (simp_all add: accept_term_def)

definition new_commit :: "'c AppendEntriesArgs \<Rightarrow> 'c LogEntry list \<Rightarrow> int \<Rightarrow> int" where
  "new_commit args lg c =
     (if c < ae_LeaderCommit args then min (ae_LeaderCommit args) (go_len lg - 1) else c)"

lemma follower_eq:
  "(if rf_state rf \<noteq> FOLLOWER then rf\<lparr>rf_state := FOLLOWER\<rparr> else rf) = rf\<lparr>rf_state := FOLLOWER\<rparr>"
  by simp

lemma AppendEntries_stale:
  "ae_Term args < rf_currentTerm rf \<Longrightarrow>
   AppendEntries now args rf = Inr (rf, AppendEntriesReply0\<lparr>aer_Term := rf_currentTerm rf\<rparr>)"
  by (simp add: AppendEntries_def)

lemma AppendEntries_short:
  "\<not> ae_Term args < rf_currentTerm rf \<Longrightarrow> go_len (rf_log rf) \<le> ae_PrevLogIndex args \<Longrightarrow>
   AppendEntries now args rf =
     Inr (accept_term now (ae_Term args) rf,
          AppendEntriesReply0\<lparr>aer_Term := ae_Term args, aer_XLen := go_len (rf_log rf)\<rparr>)"
  by (simp add: AppendEntries_def accept_term_def Let_def follower_eq)

lemma AppendEntries_conflict:
  assumes "\<not> ae_Term args < rf_currentTerm rf" and "ae_PrevLogIndex args < go_len (rf_log rf)"
    and "0 \<le> ae_PrevLogIndex args"
    and "le_Term (rf_log rf ! nat (ae_PrevLogIndex args)) \<noteq> ae_PrevLogTerm args"
  shows "AppendEntries now args rf =
     Inr (persist ((accept_term now (ae_Term args) rf)
                    \<lparr>rf_log := take (nat (ae_PrevLogIndex args)) (rf_log rf)\<rparr>),
          AppendEntriesReply0\<lparr>aer_Term := ae_Term args, aer_XLen := -1,
            aer_XTerm := le_Term (rf_log rf ! nat (ae_PrevLogIndex args)),
            aer_XIndex := find_XIndex (rf_log rf) (length (rf_log rf))
                            (le_Term (rf_log rf ! nat (ae_PrevLogIndex args)))\<rparr>)"
  using assms
  by (simp add: AppendEntries_def accept_term_def Let_def follower_eq go_index_in go_prefix_in)

lemma AppendEntries_accept:
  assumes "\<not> ae_Term args < rf_currentTerm rf" and "ae_PrevLogIndex args < go_len (rf_log rf)"
    and "0 \<le> ae_PrevLogIndex args"
    and "le_Term (rf_log rf ! nat (ae_PrevLogIndex args)) = ae_PrevLogTerm args"
  shows "AppendEntries now args rf =
     Inr ((persist ((accept_term now (ae_Term args) rf)\<lparr>rf_log := stored args (rf_log rf)\<rparr>))
            \<lparr>rf_commitIndex := new_commit args (stored args (rf_log rf)) (rf_commitIndex rf)\<rparr>,
          AppendEntriesReply0\<lparr>aer_Term := ae_Term args, aer_XLen := -1, aer_Success := True\<rparr>)"
proof -
  have "store_entries args (rf_log rf) = Inr (stored args (rf_log rf))"
    using assms by (intro store_entries_eq) auto
  then show ?thesis
    using assms
    by (auto simp: AppendEntries_def accept_term_def Let_def follower_eq go_index_in new_commit_def
        min_def)
qed

text \<open>The four paths cover every well-formed request.\<close>

lemma AppendEntries_cases:
  assumes "0 \<le> ae_PrevLogIndex args"
  obtains (stale) "ae_Term args < rf_currentTerm rf"
  | (short) "\<not> ae_Term args < rf_currentTerm rf" "go_len (rf_log rf) \<le> ae_PrevLogIndex args"
  | (conflict) "\<not> ae_Term args < rf_currentTerm rf" "ae_PrevLogIndex args < go_len (rf_log rf)"
      "le_Term (rf_log rf ! nat (ae_PrevLogIndex args)) \<noteq> ae_PrevLogTerm args"
  | (accept) "\<not> ae_Term args < rf_currentTerm rf" "ae_PrevLogIndex args < go_len (rf_log rf)"
      "le_Term (rf_log rf ! nat (ae_PrevLogIndex args)) = ae_PrevLogTerm args"
  using that by force

lemmas AppendEntries_paths =
  AppendEntries_stale AppendEntries_short AppendEntries_conflict AppendEntries_accept

lemma up_to_date_eq:
  "lg \<noteq> [] \<Longrightarrow> up_to_date args lg =
     Inr (le_Term (last lg) < rv_LastLogTerm args \<or>
          le_Term (last lg) = rv_LastLogTerm args \<and> go_len lg - 1 \<le> rv_LastLogIndex args)"
  by (auto simp: up_to_date_def)

definition votable :: "RequestVoteArgs \<Rightarrow> 'c Raft \<Rightarrow> bool" where
  "votable args rf \<longleftrightarrow> rf_currentTerm rf < rv_Term args \<or>
     rf_currentTerm rf = rv_Term args \<and> (rf_votedFor rf = -1 \<or> rf_votedFor rf = rv_CandidateId args)"

definition newer :: "RequestVoteArgs \<Rightarrow> 'c LogEntry list \<Rightarrow> bool" where
  "newer args lg \<longleftrightarrow> le_Term (last lg) < rv_LastLogTerm args \<or>
     le_Term (last lg) = rv_LastLogTerm args \<and> go_len lg - 1 \<le> rv_LastLogIndex args"

definition grant :: "int \<Rightarrow> RequestVoteArgs \<Rightarrow> 'c Raft \<Rightarrow> 'c Raft" where
  "grant now args rf = persist (rf\<lparr>rf_currentTerm := rv_Term args, rf_votedFor := rv_CandidateId args,
                                   rf_lastHeartbeat := now, rf_state := FOLLOWER\<rparr>)"

lemma grant_frame [simp]:
  "rf_peers (grant now args rf) = rf_peers rf"
  "rf_me (grant now args rf) = rf_me rf"
  "rf_dead (grant now args rf) = rf_dead rf"
  "rf_applyCh (grant now args rf) = rf_applyCh rf"
  "rf_state (grant now args rf) = FOLLOWER"
  "rf_currentTerm (grant now args rf) = rv_Term args"
  "rf_votedFor (grant now args rf) = rv_CandidateId args"
  "rf_log (grant now args rf) = rf_log rf"
  "rf_commitIndex (grant now args rf) = rf_commitIndex rf"
  "rf_lastApplied (grant now args rf) = rf_lastApplied rf"
  "rf_nextIndex (grant now args rf) = rf_nextIndex rf"
  "rf_matchIndex (grant now args rf) = rf_matchIndex rf"
  by (simp_all add: grant_def)

text \<open>
  The vote handler in closed form: on a non-empty log it never panics, and it answers
  with a vote exactly when the request is votable and the candidate's log is at least as
  new. A request it may not vote for doubles the election timeout when the candidate's
  log is at least as new.
\<close>

lemma RequestVote_eq:
  assumes "rf_log rf \<noteq> []"
  shows "RequestVote now args rf =
    (if votable args rf \<and> newer args (rf_log rf) then
       Inr (grant now args rf, \<lparr>rvr_Term = rv_Term args, rvr_VoteGranted = True\<rparr>)
     else if rv_Term args = rf_currentTerm rf \<and> \<not> votable args rf \<and> newer args (rf_log rf) then
       Inr (rf\<lparr>rf_electionTimeout := rf_electionTimeout rf * 2\<rparr>,
            \<lparr>rvr_Term = rf_currentTerm rf, rvr_VoteGranted = False\<rparr>)
     else Inr (rf, \<lparr>rvr_Term = rf_currentTerm rf, rvr_VoteGranted = False\<rparr>))"
proof -
  have "up_to_date args (rf_log rf) = Inr (newer args (rf_log rf))"
    using assms by (simp add: up_to_date_eq newer_def)
  then show ?thesis
    by (auto simp: RequestVote_def votable_def grant_def RequestVoteReply0_def Let_def)
qed

section \<open>Every section keeps a peer well-formed and never panics\<close>

lemma raft_okD:
  assumes "raft_ok rf"
  shows "log_ok (rf_currentTerm rf) (rf_log rf)" and "rf_log rf \<noteq> []"
    and "length (rf_nextIndex rf) = rf_peers rf" and "length (rf_matchIndex rf) = rf_peers rf"
    and "rf_state rf = LEADER \<Longrightarrow> i < rf_peers rf \<Longrightarrow>
         1 \<le> rf_nextIndex rf ! i \<and> rf_nextIndex rf ! i \<le> go_len (rf_log rf)"
  using assms by (auto simp: raft_ok_def list_all_length dest: log_okD(1))

lemma raft_ok_frame:
  assumes "raft_ok rf" and "rf_currentTerm rf \<le> rf_currentTerm rf'"
    and "log_ok (rf_currentTerm rf') (rf_log rf')"
    and "rf_peers rf' = rf_peers rf" and "rf_me rf' = rf_me rf"
    and "length (rf_nextIndex rf') = rf_peers rf" and "length (rf_matchIndex rf') = rf_peers rf"
    and "rf_state rf' \<noteq> LEADER"
  shows "raft_ok rf'"
  using assms by (auto simp: raft_ok_def)

lemma AppendEntries_ok:
  assumes rf: "raft_ok rf" and args: "args_ok args"
  shows "\<exists>rf' reply. AppendEntries now args rf = Inr (rf', reply) \<and> raft_ok rf'"
proof -
  let ?lg = "rf_log rf" and ?p = "ae_PrevLogIndex args"
  have p: "0 \<le> ?p" using args by (simp add: args_ok_def)
  have lg: "log_ok (ae_Term args) ?lg" if "\<not> ae_Term args < rf_currentTerm rf"
    using that raft_okD(1)[OF rf] by (rule_tac log_ok_mono) auto
  from p show ?thesis
  proof (cases rule: AppendEntries_cases[where rf = rf])
    case stale
    with rf show ?thesis by (simp add: AppendEntries_stale)
  next
    case short
    with rf lg show ?thesis
      by (auto simp: AppendEntries_short raft_okD intro!: raft_ok_frame[OF rf])
  next
    case conflict
    have "nat ?p > 0"
      using conflict(3) args log_okD(2)[OF lg[OF conflict(1)]] p by (cases "?p = 0") (auto simp: args_ok_def)
    with conflict rf lg p show ?thesis
      by (auto simp: AppendEntries_conflict raft_okD intro!: raft_ok_frame[OF rf] log_ok_take)
  next
    case accept
    with rf lg p args show ?thesis
      by (auto simp: AppendEntries_accept raft_okD intro!: raft_ok_frame[OF rf] stored_ok)
  qed
qed

lemma RequestVote_ok:
  assumes rf: "raft_ok rf"
  shows "\<exists>rf' reply. RequestVote now args rf = Inr (rf', reply) \<and> raft_ok rf'"
proof -
  have "raft_ok (grant now args rf)" if "votable args rf"
    using that rf raft_okD[OF rf]
    by (intro raft_ok_frame[OF rf]) (auto simp: votable_def intro: log_ok_mono)
  moreover have "raft_ok (rf\<lparr>rf_electionTimeout := x\<rparr>)" for x
    using rf by (simp add: raft_ok_def)
  ultimately show ?thesis
    using rf by (auto simp: RequestVote_eq raft_okD)
qed

lemma Start_ok: "raft_ok rf \<Longrightarrow> 1 \<le> rf_currentTerm rf \<Longrightarrow> raft_ok (fst (Start c rf))"
  using log_ok_append[of "rf_currentTerm rf" "rf_log rf" "[\<lparr>le_Command = Some c, le_Term = rf_currentTerm rf\<rparr>]"]
    log_ok_last_le[of "rf_currentTerm rf" "rf_log rf"]
  by (auto simp: Start_def raft_ok_def Let_def list_all_iff intro: order_trans)

lemma checkElection_ok:
  assumes "raft_ok rf" and "checkElection now rnd rf = Some rf'"
  shows "raft_ok rf'"
  using assms(2) raft_okD[OF assms(1)] log_ok_mono[OF raft_okD(1)[OF assms(1)], of "rf_currentTerm rf + 1"]
  by (intro raft_ok_frame[OF assms(1)]) (auto simp: checkElection_def split: if_splits)

lemma handleVoteReply_ok:
  assumes "raft_ok rf" and "handleVoteReply now args reply (rf, cnt) = (rf', cnt')"
  shows "raft_ok rf'"
  using assms raft_okD[OF assms(1)] log_okD(1)[of "rf_currentTerm rf" "rf_log rf"]
  by (auto simp: handleVoteReply_def Let_def raft_ok_def list_all_iff split: if_splits
      intro: log_ok_mono elim!: log_ok_mono)

text \<open>
  A reply that rejects a request of the sender's own term names a place at or before
  \<open>PrevLogIndex\<close>, and never the sentinel.
\<close>

definition reply_ok :: "'c AppendEntriesArgs \<Rightarrow> AppendEntriesReply \<Rightarrow> bool" where
  "reply_ok args reply \<longleftrightarrow> ae_Term args \<le> aer_Term reply \<and>
     (\<not> aer_Success reply \<and> aer_Term reply = ae_Term args \<longrightarrow>
        (if aer_XLen reply \<noteq> -1 then 1 \<le> aer_XLen reply \<and> aer_XLen reply \<le> ae_PrevLogIndex args
         else 1 \<le> aer_XTerm reply \<and> 1 \<le> aer_XIndex reply \<and> aer_XIndex reply \<le> ae_PrevLogIndex args))"

lemma AppendEntries_reply_ok:
  assumes rf: "raft_ok rf" and args: "args_ok args"
    and ret: "AppendEntries now args rf = Inr (rf', reply)"
  shows "reply_ok args reply"
proof -
  let ?lg = "rf_log rf" and ?p = "ae_PrevLogIndex args"
  note lg = log_okD[OF raft_okD(1)[OF rf]]
  have p: "0 \<le> ?p" using args by (simp add: args_ok_def)
  then show ?thesis
  proof (cases rule: AppendEntries_cases[where rf = rf])
    case stale
    with ret show ?thesis by (auto simp: AppendEntries_stale reply_ok_def AppendEntriesReply0_def)
  next
    case short
    then show ?thesis
      using ret lg(1) by (auto simp: AppendEntries_short reply_ok_def AppendEntriesReply0_def)
  next
    case conflict
    let ?t = "le_Term (?lg ! nat ?p)" and ?x = "find_XIndex ?lg (length ?lg) (le_Term (?lg ! nat ?p))"
    have np: "nat ?p < length ?lg" using conflict(2) p by (simp add: go_len_def nat_less_iff)
    have "?p \<noteq> 0" using conflict(3) args lg(2) by (auto simp: args_ok_def)
    then have t: "1 \<le> ?t" using lg(5)[of "nat ?p"] np p by simp
    have "0 < ?x" using find_XIndex_split[OF lg(3) order.refl, of 0 ?t] lg(1,2) t by simp
    moreover have "\<not> int (nat ?p) < ?x" using find_XIndex_split[OF lg(3) order.refl np, of ?t] by simp
    ultimately show ?thesis
      using ret conflict t p by (auto simp: AppendEntries_conflict reply_ok_def AppendEntriesReply0_def)
  next
    case accept
    with ret p show ?thesis by (auto simp: AppendEntries_accept reply_ok_def AppendEntriesReply0_def)
  qed
qed

lemma backup_nextIndex_range:
  assumes lg: "log_ok ct lg" and r: "reply_ok args reply" "\<not> aer_Success reply"
    "aer_Term reply = ae_Term args" and p: "ae_PrevLogIndex args < go_len lg"
  shows "1 \<le> backup_nextIndex reply lg \<and> backup_nextIndex reply lg \<le> go_len lg"
proof (cases "aer_XLen reply = -1")
  case True
  have x: "1 \<le> aer_XTerm reply" "1 \<le> aer_XIndex reply" "aer_XIndex reply \<le> ae_PrevLogIndex args"
    using r True by (auto simp: reply_ok_def)
  have "1 \<le> int j" if "le_Term (lg ! j) = aer_XTerm reply" for j
    using that x(1) log_okD(2)[OF lg] by (cases j) auto
  then show ?thesis
    using find_XTerm_cases[of lg "length lg" "aer_XTerm reply" "aer_XIndex reply"] x p True
    by (auto simp: backup_nextIndex_def go_len_def)
next
  case False
  with r p show ?thesis by (auto simp: backup_nextIndex_def reply_ok_def)
qed

text \<open>
  A heartbeat round and a request are consistent with the leader that issued them as long
  as that leader has not left its term.
\<close>

definition round_ok :: "HeartbeatRound \<Rightarrow> 'c Raft \<Rightarrow> bool" where
  "round_ok hb rf \<longleftrightarrow> 1 \<le> hb_currentLogLen hb \<and> hb_currentLogLen hb \<le> go_len (rf_log rf)"

definition args_fit :: "'c AppendEntriesArgs \<Rightarrow> 'c Raft \<Rightarrow> bool" where
  "args_fit args rf \<longleftrightarrow> ae_PrevLogIndex args + 1 + go_len (ae_Entries args) \<le> go_len (rf_log rf)"

lemma sendHeartbeat_ok:
  assumes "raft_ok rf"
  shows "\<exists>h. sendHeartbeat rf = Inr h \<and> (\<forall>hb. h = Some hb \<longrightarrow>
     rf_state rf = LEADER \<and> hb_currentTerm hb = rf_currentTerm rf \<and> round_ok hb rf)"
  using raft_okD(2)[OF assms] by (auto simp: sendHeartbeat_def round_ok_def Let_def)

lemma sorted_slice_terms:
  assumes lg: "log_ok ct lg" and k: "0 < k" "k \<le> length lg"
  shows "sorted (le_Term (lg ! (k - 1)) # map le_Term (drop k (take m lg)))"
    and "list_all (\<lambda>e. 1 \<le> le_Term e \<and> le_Term e \<le> ct) (drop k (take m lg))"
proof -
  have srt: "sorted (map le_Term (take m lg))"
    using log_okD(3)[OF lg] by (simp add: sorted_wrt_take flip: take_map)
  have mono: "le_Term (lg ! i) \<le> le_Term (lg ! j)" if "i \<le> j" "j < length lg" for i j
    using log_okD(3)[OF lg] that by (auto simp: sorted_iff_nth_mono)
  have "le_Term (lg ! (k - 1)) \<le> le_Term e" if "e \<in> set (drop k (take m lg))" for e
    using that k by (auto simp: in_set_conv_nth intro!: mono)
  moreover have "sorted (map le_Term (drop k (take m lg)))"
    using srt by (simp add: sorted_wrt_drop flip: drop_map)
  ultimately show "sorted (le_Term (lg ! (k - 1)) # map le_Term (drop k (take m lg)))"
    by auto
  show "list_all (\<lambda>e. 1 \<le> le_Term e \<and> le_Term e \<le> ct) (drop k (take m lg))"
    using k log_okD(4,5)[OF lg] by (auto simp: list_all_length)
qed

lemma appendEntriesArgs_ok:
  assumes rf: "raft_ok rf" and hb: "rf_state rf = LEADER \<Longrightarrow> hb_currentTerm hb = rf_currentTerm rf \<Longrightarrow> round_ok hb rf"
    and i: "i < rf_peers rf"
  shows "\<exists>a. appendEntriesArgs hb i rf = Inr a \<and> (\<forall>args. a = Some args \<longrightarrow>
     args_ok args \<and> args_fit args rf \<and> rf_state rf = LEADER \<and> ae_Term args = rf_currentTerm rf \<and>
     hb_currentTerm hb = rf_currentTerm rf)"
proof (cases "rf_state rf = LEADER \<and> hb_currentTerm hb = rf_currentTerm rf")
  case True
  let ?lg = "rf_log rf" and ?ni = "rf_nextIndex rf ! i"
  have lg: "log_ok (rf_currentTerm rf) ?lg" by (rule raft_okD[OF rf])
  have ni: "1 \<le> ?ni" "?ni \<le> go_len ?lg" using raft_okD(5)[OF rf _ i] True by auto
  have m: "hb_currentLogLen hb \<le> go_len ?lg" using hb True by (simp add: round_ok_def)
  have idx: "go_index (rf_nextIndex rf) (int i) = Inr ?ni"
    using i raft_okD(3)[OF rf] by (simp add: go_index_def go_len_def)
  have e: "go_index ?lg (?ni - 1) = Inr (?lg ! (nat ?ni - 1))"
    using ni by (simp add: go_index_def nat_diff_distrib)
  have k: "0 < nat ?ni" "nat ?ni \<le> length ?lg" using ni by (auto simp: go_len_def)
  have first: "le_Term (?lg ! (nat ?ni - 1)) = 0" if "?ni = 1"
    using that log_okD(2)[OF lg] by simp
  note tl = sorted_slice_terms[OF lg k, of "nat (hb_currentLogLen hb)"]
  show ?thesis
  proof (cases "?ni < hb_currentLogLen hb")
    case less: True
    have sl: "go_slice ?lg ?ni (hb_currentLogLen hb) =
        Inr (drop (nat ?ni) (take (nat (hb_currentLogLen hb)) ?lg))"
      using less ni m by (simp add: go_slice_def)
    have "?ni + go_len (drop (nat ?ni) (take (nat (hb_currentLogLen hb)) ?lg)) \<le> go_len ?lg"
      using less ni m by (simp add: go_len_def)
    then show ?thesis
      using True less ni tl first
      by (simp add: appendEntriesArgs_def idx e sl Let_def args_ok_def args_fit_def)
  next
    case False
    with True ni first show ?thesis
      by (simp add: appendEntriesArgs_def idx e Let_def args_ok_def args_fit_def)
  qed
qed (auto simp: appendEntriesArgs_def)

lemma list_all_update: "list_all P xs \<Longrightarrow> P v \<Longrightarrow> list_all P (xs[i := v])"
  by (auto simp: list_all_iff dest!: set_update_subset_insert[THEN subsetD])

lemma handleAppendReply_ok:
  assumes rf: "raft_ok rf" and i: "i < rf_peers rf"
    and args: "rf_state rf = LEADER \<Longrightarrow> hb_currentTerm hb = rf_currentTerm rf \<Longrightarrow>
      args_fit args rf \<and> ae_Term args = rf_currentTerm rf \<and> (ok \<longrightarrow> reply_ok args reply)"
  shows "\<exists>rf' cnt' ex. handleAppendReply hb i args ok reply (rf, cnt) = Inr ((rf', cnt'), ex) \<and> raft_ok rf'"
proof (cases "rf_state rf = LEADER \<and> hb_currentTerm hb = rf_currentTerm rf")
  case True
  let ?ni = "rf_nextIndex rf ! i" and ?n = "backup_nextIndex reply (rf_log rf)"
  have idx: "go_index (rf_nextIndex rf) (int i) = Inr ?ni"
    using i raft_okD(3)[OF rf] by (simp add: go_index_def go_len_def)
  have upd: "go_set (rf_nextIndex rf) (int i) v = Inr ((rf_nextIndex rf)[i := v])"
      "go_set (rf_matchIndex rf) (int i) v = Inr ((rf_matchIndex rf)[i := v])" for v
    using i raft_okD(3,4)[OF rf] by (simp_all add: go_set_def go_len_def)
  have fit: "args_fit args rf" and t: "ae_Term args = rf_currentTerm rf"
    and r: "ok \<Longrightarrow> reply_ok args reply"
    using args True by auto
  have ni: "1 \<le> ?ni" "?ni \<le> go_len (rf_log rf)" using raft_okD(5)[OF rf _ i] True by auto
  have bck: "1 \<le> ?n \<and> ?n \<le> go_len (rf_log rf)"
    if "ok" "\<not> aer_Success reply" "\<not> aer_Term reply > rf_currentTerm rf" "?ni = ae_PrevLogIndex args + 1"
    using that r t ni raft_okD(1)[OF rf]
    by (intro backup_nextIndex_range[of "rf_currentTerm rf" _ args]) (auto simp: reply_ok_def)
  have upd_ok: "raft_ok (rf\<lparr>rf_nextIndex := (rf_nextIndex rf)[i := v]\<rparr>)"
      "raft_ok (rf\<lparr>rf_matchIndex := (rf_matchIndex rf)[i := w], rf_nextIndex := (rf_nextIndex rf)[i := v]\<rparr>)"
      "raft_ok (rf\<lparr>rf_matchIndex := (rf_matchIndex rf)[i := w], rf_nextIndex := (rf_nextIndex rf)[i := v],
                   rf_commitIndex := c\<rparr>)"
    if "1 \<le> v \<and> v \<le> go_len (rf_log rf)" for v w c
    using rf that by (auto simp: raft_ok_def intro: list_all_update)
  have down: "raft_ok (persist (rf\<lparr>rf_currentTerm := aer_Term reply, rf_state := FOLLOWER\<rparr>))"
    if "rf_currentTerm rf < aer_Term reply"
    using that raft_okD[OF rf] log_ok_mono[OF raft_okD(1)[OF rf], of "aer_Term reply"]
    by (intro raft_ok_frame[OF rf]) auto
  have fitv: "1 \<le> ae_PrevLogIndex args + go_len (ae_Entries args) + 1 \<and>
      ae_PrevLogIndex args + go_len (ae_Entries args) + 1 \<le> go_len (rf_log rf)"
    if "?ni = ae_PrevLogIndex args + 1"
    using that ni fit go_len_nonneg[of "ae_Entries args"] unfolding args_fit_def by linarith
  show ?thesis
    using True rf bck down fitv
    by (simp add: handleAppendReply_def idx upd Let_def upd_ok)
qed (use rf in \<open>auto simp: handleAppendReply_def\<close>)

section \<open>The disk\<close>

text \<open>
  Every section that changes the term, the vote, the state or the log has written them
  to disk before it lets go of the lock.
\<close>

lemma AppendEntries_synced:
  assumes "synced rf" and "0 \<le> ae_PrevLogIndex args" and "AppendEntries now args rf = Inr (rf', reply)"
  shows "synced rf'"
  using assms(2)
  by (cases rule: AppendEntries_cases[where rf = rf])
    (use assms in \<open>auto simp: AppendEntries_paths accept_term_def\<close>)

lemma RequestVote_synced:
  assumes "synced rf" and "rf_log rf \<noteq> []" and "RequestVote now args rf = Inr (rf', reply)"
  shows "synced rf'"
  using assms by (auto simp: RequestVote_eq grant_def split: if_splits)

lemma Start_synced: "synced rf \<Longrightarrow> synced (fst (Start c rf))"
  by (simp add: Start_def Let_def)

lemma checkElection_synced: "checkElection now rnd rf = Some rf' \<Longrightarrow> synced rf'"
  by (auto simp: checkElection_def split: if_splits)

lemma handleVoteReply_synced:
  "synced rf \<Longrightarrow> handleVoteReply now args reply (rf, cnt) = (rf', cnt') \<Longrightarrow> synced rf'"
  by (auto simp: handleVoteReply_def Let_def split: if_splits)

lemma handleAppendReply_synced:
  "synced rf \<Longrightarrow> handleAppendReply hb i args ok reply (rf, cnt) = Inr ((rf', cnt'), ex) \<Longrightarrow> synced rf'"
  by (auto simp: handleAppendReply_def Let_def go_simps split: if_splits)

lemma checkApply_frame:
  "checkApply rf = Inr rf' \<Longrightarrow>
   rf_persister rf' = rf_persister rf \<and> rf_state rf' = rf_state rf \<and>
   rf_currentTerm rf' = rf_currentTerm rf \<and> rf_votedFor rf' = rf_votedFor rf \<and>
   rf_log rf' = rf_log rf \<and> rf_peers rf' = rf_peers rf \<and> rf_me rf' = rf_me rf \<and>
   rf_nextIndex rf' = rf_nextIndex rf \<and> rf_matchIndex rf' = rf_matchIndex rf \<and>
   rf_commitIndex rf' = rf_commitIndex rf"
proof (induction rf rule: checkApply.induct)
  case (1 rf)
  then show ?case
    by (subst (asm) (2) checkApply.simps) (auto simp: Let_def go_simps split: if_splits)
qed

lemma checkApply_synced: "synced rf \<Longrightarrow> checkApply rf = Inr rf' \<Longrightarrow> synced rf'"
  by (frule checkApply_frame) (auto elim: synced_cong)

text \<open>A restart reads back exactly what the crashed peer had.\<close>

lemma Make_fresh:
  "Make n me MakePersister now rnd =
     Inr \<lparr>rf_peers = n, rf_persister = MakePersister, rf_me = me, rf_dead = 0, rf_applyCh = [],
          rf_electionTimeout = of_nat (500 + rnd) * millisecond, rf_lastHeartbeat = now,
          rf_state = FOLLOWER, rf_currentTerm = 0, rf_votedFor = -1,
          rf_log = [\<lparr>le_Command = None, le_Term = 0\<rparr>], rf_commitIndex = 0, rf_lastApplied = 0,
          rf_nextIndex = replicate n 1, rf_matchIndex = replicate n 0\<rparr>"
  by (simp add: Make_def readPersist_def disk.load_blank Let_def)

lemma Make_restart:
  assumes "synced rf"
  shows "Make n me (start1_saved (rf_persister rf)) now rnd =
     Inr \<lparr>rf_peers = n, rf_persister = start1_saved (rf_persister rf), rf_me = me, rf_dead = 0,
          rf_applyCh = [], rf_electionTimeout = of_nat (500 + rnd) * millisecond,
          rf_lastHeartbeat = now, rf_state = rf_state rf, rf_currentTerm = rf_currentTerm rf,
          rf_votedFor = rf_votedFor rf, rf_log = rf_log rf, rf_commitIndex = 0, rf_lastApplied = 0,
          rf_nextIndex = replicate n (go_len (rf_log rf)), rf_matchIndex = replicate n 0\<rparr>"
proof -
  consider "ReadRaftState (start1_saved (rf_persister rf)) = image rf"
    | "ReadRaftState (start1_saved (rf_persister rf)) = []" "image rf = blank_image"
    using assms by (auto simp: synced_def)
  then show ?thesis
    by cases (simp_all add: Make_def readPersist_def image_def blank_image_def Let_def)
qed

section \<open>How a peer evolves\<close>

text \<open>
  What every section of code guarantees about the peer it runs on, whatever the message:
  the term never goes back; within a term the vote is given at most once, a peer never
  becomes a candidate, becomes leader only from candidate, and as leader only extends its
  log; and no peer enters a new term as leader.
\<close>

definition evolves :: "'c Raft \<Rightarrow> 'c Raft \<Rightarrow> bool" where
  "evolves rf rf' \<longleftrightarrow> rf_peers rf' = rf_peers rf \<and> rf_me rf' = rf_me rf \<and>
     rf_currentTerm rf \<le> rf_currentTerm rf' \<and>
     (rf_currentTerm rf' = rf_currentTerm rf \<longrightarrow>
        (rf_votedFor rf' = rf_votedFor rf \<or> rf_votedFor rf = -1) \<and>
        (rf_state rf' = CANDIDATE \<longrightarrow> rf_state rf = CANDIDATE) \<and>
        (rf_state rf' = LEADER \<longrightarrow>
           rf_state rf = LEADER \<and> prefix (rf_log rf) (rf_log rf') \<or> rf_state rf = CANDIDATE)) \<and>
     (rf_currentTerm rf' \<noteq> rf_currentTerm rf \<longrightarrow> rf_state rf' \<noteq> LEADER)"

lemma evolves_refl [simp, intro]: "evolves rf rf"
  by (simp add: evolves_def)

lemma AppendEntries_evolves:
  assumes "0 \<le> ae_PrevLogIndex args" and "AppendEntries now args rf = Inr (rf', reply)"
  shows "evolves rf rf'"
  using assms(1)
  by (cases rule: AppendEntries_cases[where rf = rf])
    (use assms in \<open>auto simp: AppendEntries_paths evolves_def\<close>)

lemma RequestVote_evolves:
  assumes "rf_log rf \<noteq> []" and "RequestVote now args rf = Inr (rf', reply)"
  shows "evolves rf rf'"
  using assms by (auto simp: RequestVote_eq evolves_def votable_def split: if_splits)

lemma Start_evolves: "evolves rf (fst (Start c rf))"
  by (simp add: Start_def evolves_def Let_def)

lemma checkElection_evolves: "checkElection now rnd rf = Some rf' \<Longrightarrow> evolves rf rf'"
  by (auto simp: checkElection_def evolves_def split: if_splits)

lemma handleVoteReply_evolves: "handleVoteReply now args reply (rf, cnt) = (rf', cnt') \<Longrightarrow> evolves rf rf'"
  by (auto simp: handleVoteReply_def evolves_def Let_def split: if_splits)

lemma handleAppendReply_evolves:
  "handleAppendReply hb i args ok reply (rf, cnt) = Inr ((rf', cnt'), ex) \<Longrightarrow> evolves rf rf'"
  by (auto simp: handleAppendReply_def evolves_def Let_def go_simps split: if_splits)

lemma checkApply_evolves: "checkApply rf = Inr rf' \<Longrightarrow> evolves rf rf'"
  by (drule checkApply_frame) (auto simp: evolves_def)

lemma Make_evolves:
  "synced rf \<Longrightarrow> Make (rf_peers rf) (rf_me rf) (start1_saved (rf_persister rf)) now rnd = Inr rf' \<Longrightarrow> evolves rf rf'"
  by (auto simp: Make_restart evolves_def)

section \<open>Well-formed peers in a cluster\<close>

definition peer_ok :: "nat \<Rightarrow> nat \<Rightarrow> 'c Raft \<Rightarrow> bool" where
  "peer_ok n i rf \<longleftrightarrow> raft_ok rf \<and> rf_peers rf = n \<and> rf_me rf = int i \<and> synced rf \<and>
     0 \<le> rf_currentTerm rf \<and> (rf_state rf = LEADER \<or> rf_state rf = CANDIDATE \<longrightarrow> 1 \<le> rf_currentTerm rf)"

lemma peer_ok_evolves:
  assumes "peer_ok n i rf" and "evolves rf rf'" and "raft_ok rf'" and "synced rf'"
  shows "peer_ok n i rf'"
  using assms by (auto simp: peer_ok_def evolves_def)

lemma peer_okD:
  assumes "peer_ok n i rf"
  shows "raft_ok rf" and "synced rf" and "rf_peers rf = n" and "rf_me rf = int i" and "rf_log rf \<noteq> []"
  using assms raft_okD(2) by (auto simp: peer_ok_def)

lemma AppendEntries_peer:
  assumes rf: "peer_ok n i rf" and args: "args_ok args"
  obtains rf' reply where "AppendEntries now args rf = Inr (rf', reply)" "peer_ok n i rf'"
    "evolves rf rf'" "reply_ok args reply"
proof -
  note ok = peer_okD[OF rf]
  obtain rf' reply where r: "AppendEntries now args rf = Inr (rf', reply)" "raft_ok rf'"
    using AppendEntries_ok[OF ok(1) args] by blast
  moreover have "0 \<le> ae_PrevLogIndex args" using args by (simp add: args_ok_def)
  ultimately have ev: "evolves rf rf'" and sy: "synced rf'"
    using AppendEntries_evolves[of args now rf rf' reply] AppendEntries_synced[of rf args now rf' reply] ok(2)
    by blast+
  show thesis
    using that[OF r(1) peer_ok_evolves[OF rf ev r(2) sy] ev AppendEntries_reply_ok[OF ok(1) args r(1)]] .
qed

lemma RequestVote_peer:
  assumes rf: "peer_ok n i rf"
  obtains rf' reply where "RequestVote now args rf = Inr (rf', reply)" "peer_ok n i rf'" "evolves rf rf'"
proof -
  obtain rf' reply where r: "RequestVote now args rf = Inr (rf', reply)" "raft_ok rf'"
    using RequestVote_ok[OF peer_okD(1)[OF rf]] by blast
  have "evolves rf rf'" by (rule RequestVote_evolves[OF peer_okD(5)[OF rf] r(1)])
  moreover have "synced rf'" by (rule RequestVote_synced[OF peer_okD(2,5)[OF rf] r(1)])
  ultimately show thesis using that r peer_ok_evolves[OF rf] by blast
qed

lemma Start_peer:
  assumes rf: "peer_ok n i rf"
  shows "peer_ok n i (fst (Start c rf))"
proof (cases "rf_state rf = LEADER")
  case True
  then have "raft_ok (fst (Start c rf))"
    using rf Start_ok[OF peer_okD(1)[OF rf]] by (simp add: peer_ok_def)
  then show ?thesis
    by (rule peer_ok_evolves[OF rf Start_evolves _ Start_synced[OF peer_okD(2)[OF rf]]])
qed (use rf in \<open>simp add: Start_def Let_def\<close>)

lemma checkElection_peer:
  "peer_ok n i rf \<Longrightarrow> checkElection now rnd rf = Some rf' \<Longrightarrow> peer_ok n i rf'"
  using checkElection_ok[of rf now rnd rf'] checkElection_synced[of now rnd rf rf']
  by (auto simp: peer_ok_def) (auto simp: checkElection_def split: if_splits)

lemma handleVoteReply_peer:
  "peer_ok n i rf \<Longrightarrow> handleVoteReply now args reply (rf, cnt) = (rf', cnt') \<Longrightarrow> peer_ok n i rf'"
  using handleVoteReply_evolves[of now args reply rf cnt rf' cnt'] handleVoteReply_ok[of rf now args reply cnt rf' cnt']
    handleVoteReply_synced[of rf now args reply cnt rf' cnt'] peer_okD(1,2)[of n i rf]
    peer_ok_evolves[of n i rf rf'] by blast

lemma handleAppendReply_peer:
  assumes "peer_ok n j rf" and "i < n"
    and "rf_state rf = LEADER \<Longrightarrow> hb_currentTerm hb = rf_currentTerm rf \<Longrightarrow>
      args_fit args rf \<and> ae_Term args = rf_currentTerm rf \<and> (ok \<longrightarrow> reply_ok args reply)"
  obtains rf' cnt' ex where "handleAppendReply hb i args ok reply (rf, cnt) = Inr ((rf', cnt'), ex)"
    "peer_ok n j rf'" "evolves rf rf'"
proof -
  obtain rf' cnt' ex where r: "handleAppendReply hb i args ok reply (rf, cnt) = Inr ((rf', cnt'), ex)" "raft_ok rf'"
    using handleAppendReply_ok[OF peer_okD(1)[OF assms(1)], of i hb args ok reply cnt] assms(2,3)
      peer_okD(3)[OF assms(1)] by blast
  have "evolves rf rf'" by (rule handleAppendReply_evolves[OF r(1)])
  moreover have "synced rf'" by (rule handleAppendReply_synced[OF peer_okD(2)[OF assms(1)] r(1)])
  ultimately show thesis using that r peer_ok_evolves[OF assms(1)] by blast
qed

lemma Make_peer_fresh: "i < n \<Longrightarrow> Make n (int i) MakePersister now rnd = Inr rf \<Longrightarrow> peer_ok n i rf"
  by (auto simp: Make_fresh peer_ok_def raft_ok_def log_ok_def synced_def image_def blank_image_def
      disk.load_blank)

lemma Make_peer_restart:
  assumes "peer_ok n i rf"
  obtains rf' where "Make n (int i) (start1_saved (rf_persister rf)) now rnd = Inr rf'" "peer_ok n i rf'" "evolves rf rf'"
proof -
  obtain rf' where m: "Make n (int i) (start1_saved (rf_persister rf)) now rnd = Inr rf'"
    using Make_restart[OF peer_okD(2)[OF assms]] by blast
  note eq = m[unfolded Make_restart[OF peer_okD(2)[OF assms]], THEN sum.inject(2)[THEN iffD1], symmetric]
  have "raft_ok rf'" and "synced rf'"
    using peer_okD[OF assms] unfolding eq
    by (auto simp: raft_ok_def list_all_iff synced_def image_def)
  moreover have "evolves rf rf'"
    using m Make_evolves[of rf now rnd rf'] peer_okD[OF assms] by simp
  ultimately show thesis using that m peer_ok_evolves[OF assms] by blast
qed

section \<open>What one pass of the apply loop delivers\<close>

lemma checkApply_delivers:
  assumes "0 \<le> rf_lastApplied rf" and "rf_commitIndex rf < go_len (rf_log rf)"
  shows "checkApply rf = Inr (rf
     \<lparr>rf_lastApplied := max (rf_lastApplied rf) (rf_commitIndex rf),
      rf_applyCh := rf_applyCh rf @ map (\<lambda>i. \<lparr>CommandValid = True, am_Command = le_Command (rf_log rf ! nat i),
        CommandIndex = i\<rparr>) [rf_lastApplied rf + 1..rf_commitIndex rf]\<rparr>)"
  using assms
proof (induction rf rule: checkApply.induct)
  case (1 rf)
  show ?case
  proof (cases "rf_lastApplied rf < rf_commitIndex rf")
    case True
    let ?k = "rf_lastApplied rf + 1"
    have e: "go_index (rf_log rf) ?k = Inr (rf_log rf ! nat ?k)"
      using True 1(2,3) by (intro go_index_in) auto
    have u: "[?k..rf_commitIndex rf] = ?k # [?k + 1..rf_commitIndex rf]"
      using True by (simp add: upto_rec1)
    show ?thesis
      using True 1(1)[OF True refl e] 1(2,3) u
      by (subst checkApply.simps) (simp add: e Let_def max_def)
  next
    case False
    then show ?thesis by (subst checkApply.simps) (simp add: max_def)
  qed
qed

lemma checkApply_panics:
  assumes "0 \<le> rf_lastApplied rf" and "rf_lastApplied rf < go_len (rf_log rf)" and "go_len (rf_log rf) \<le> rf_commitIndex rf"
  shows "checkApply rf = Inl IndexOutOfRange"
  using assms
proof (induction rf rule: checkApply.induct)
  case (1 rf)
  let ?k = "rf_lastApplied rf + 1"
  have lt: "rf_lastApplied rf < rf_commitIndex rf" using 1 by simp
  show ?case
  proof (cases "?k < go_len (rf_log rf)")
    case True
    have e: "go_index (rf_log rf) ?k = Inr (rf_log rf ! nat ?k)"
      using True 1(2,3) by (intro go_index_in) auto
    show ?thesis
      using lt True 1(1)[OF lt refl e] 1(2,4)
      by (subst checkApply.simps) (simp add: e Let_def)
  next
    case False
    then have "go_index (rf_log rf) ?k = Inl IndexOutOfRange" by (simp add: go_index_def)
    with lt show ?thesis by (subst checkApply.simps) (simp add: Let_def)
  qed
qed

end
