(* ===== verification/Quorums.thy ===== *)
theory Quorums
  imports Prelude
begin

text \<open>
  The counting rule of the code, \<open>2 * count > len(rf.peers)\<close>, as an interface: sets of
  servers that are quorums, of which any two share a server. What elections and commits
  need from majorities is proved once in the locale and reached through its
  interpretation on the code's rule.
\<close>

locale quorums =
  fixes quorum :: "'a set \<Rightarrow> bool"
  assumes meet: "quorum A \<Longrightarrow> quorum B \<Longrightarrow> \<exists>x. x \<in> A \<and> x \<in> B"
begin

lemma nonempty: "quorum A \<Longrightarrow> A \<noteq> {}"
  using meet by blast

text \<open>If every voter votes at most once, two candidates cannot both have a quorum.\<close>

lemma unique_winner:
  assumes once: "\<And>v c c'. voted v c \<Longrightarrow> voted v c' \<Longrightarrow> c = c'"
    and A: "quorum A" "\<And>v. v \<in> A \<Longrightarrow> voted v a"
    and B: "quorum B" "\<And>v. v \<in> B \<Longrightarrow> voted v b"
  shows "a = b"
proof -
  obtain v where "v \<in> A" "v \<in> B" using meet[OF A(1) B(1)] by blast
  then show ?thesis using A(2) B(2) once by blast
qed

end

definition majority :: "nat \<Rightarrow> nat set \<Rightarrow> bool" where
  "majority n A \<longleftrightarrow> A \<subseteq> {..<n} \<and> n < 2 * card A"

lemma majorities_meet:
  assumes "majority n A" and "majority n B"
  shows "\<exists>x. x \<in> A \<and> x \<in> B"
proof (rule ccontr)
  assume "\<not> ?thesis"
  then have disj: "A \<inter> B = {}" by blast
  have fin: "finite A" "finite B" "A \<union> B \<subseteq> {..<n}"
    using assms by (auto simp: majority_def intro: finite_subset)
  then have "card A + card B \<le> card {..<n}"
    using card_Un_disjoint[OF fin(1,2) disj] card_mono[OF _ fin(3)] by simp
  with assms show False by (simp add: majority_def)
qed

interpretation maj: quorums "majority n" for n
  by unfold_locales (rule majorities_meet)

text \<open>A count of distinct servers that passes the code's test is a majority.\<close>

lemma majority_of_count:
  assumes "distinct vs" and "set vs \<subseteq> {..<n}" and "2 * int (length vs) > int n"
  shows "majority n (set vs)"
  using assms by (simp add: majority_def distinct_card)

end
