(* ===== verification/Raft_Cluster.thy ===== *)
theory Raft_Cluster
  imports Raft_Peer Quorums
begin

text \<open>
  A cluster of Raft peers and the goroutines that run in it. A step is one critical
  section of one goroutine, or the delivery or loss of one RPC, or a crash with restart;
  \<open>cstep\<close> is total on enabled actions and reports a panic of the section it runs. A
  goroutine keeps the place it has reached and what it has captured. The network may
  delay requests and replies for any time, reorder them and lose them, but runs a request
  at most once, as \<open>labrpc\<close> does.

  The components named \<open>h_...\<close> are history: no step reads them.
\<close>

section \<open>The state of a cluster\<close>

text \<open>
  One election of \<open>checkElection\<close>: the peer and incarnation that started it and its
  \<open>grantedCnt\<close>; as history the term it was started for and whose votes were counted.
\<close>

record election =
  el_server :: nat
  el_inc :: nat
  el_grantedCnt :: int
  h_el_term :: int
  h_el_voters :: "nat list"

text \<open>One round of \<open>sendHeartbeat\<close> with its \<open>replCount\<close>.\<close>

record hb_round =
  hr_server :: nat
  hr_inc :: nat
  hr_hb :: HeartbeatRound
  hr_replCount :: int

text \<open>
  Goroutines, by the place they have reached: before the request is built, in \<open>Call\<close>
  with the request on its way, in \<open>Call\<close> with the reply on its way, finished. The first
  two arguments are the election or round and the peer.
\<close>

datatype 'c goroutine =
    VoteReady nat nat
  | VoteCalling nat nat RequestVoteArgs
  | VoteReturned nat nat RequestVoteArgs RequestVoteReply
  | HeartReady nat nat
  | HeartCalling nat nat "'c AppendEntriesArgs"
  | HeartReturned nat nat "'c AppendEntriesArgs" AppendEntriesReply
  | Finished

record 'c cluster =
  servers :: "'c Raft list"
  incs :: "nat list"
  threads :: "'c goroutine list"
  elections :: "election list"
  rounds :: "hb_round list"
  h_votes :: "(nat \<times> int \<times> int) list"
  h_leaders :: "(int \<times> nat) list"

definition fresh_cluster :: "'c Raft list \<Rightarrow> 'c cluster" where
  "fresh_cluster rfs = \<lparr>servers = rfs, incs = replicate (length rfs) 0, threads = [], elections = [],
                        rounds = [], h_votes = [], h_leaders = []\<rparr>"

section \<open>Steps\<close>

datatype 'c action =
    Tick nat int nat
  | VoteBuild nat
  | VoteDeliver nat int
  | VoteLose nat
  | VoteReply nat int
  | Beat nat
  | HeartBuild nat
  | HeartDeliver nat int
  | HeartLose nat
  | HeartReply nat
  | ClientStart nat 'c
  | ApplyCommitted nat
  | Restart nat int nat

definition set_thread :: "nat \<Rightarrow> 'c goroutine \<Rightarrow> 'c cluster \<Rightarrow> 'c cluster" where
  "set_thread k g cl = cl\<lparr>threads := (threads cl)[k := g]\<rparr>"

definition set_server :: "nat \<Rightarrow> 'c Raft \<Rightarrow> 'c cluster \<Rightarrow> 'c cluster" where
  "set_server i rf cl = cl\<lparr>servers := (servers cl)[i := rf]\<rparr>"

definition election_live :: "'c cluster \<Rightarrow> nat \<Rightarrow> bool" where
  "election_live cl e \<longleftrightarrow> incs cl ! el_server (elections cl ! e) = el_inc (elections cl ! e)"

definition round_live :: "'c cluster \<Rightarrow> nat \<Rightarrow> bool" where
  "round_live cl r \<longleftrightarrow> incs cl ! hr_server (rounds cl ! r) = hr_inc (rounds cl ! r)"

text \<open>\<open>checkElection\<close> on server \<open>i\<close>: a new election and a goroutine for each other peer.\<close>

definition tick :: "nat \<Rightarrow> int \<Rightarrow> nat \<Rightarrow> 'c cluster \<Rightarrow> 'c cluster go option" where
  "tick i now rnd cl =
     (if i < length (servers cl) then
        (case checkElection now rnd (servers cl ! i) of
           None \<Rightarrow> None
         | Some rf \<Rightarrow>
             Some (Inr ((set_server i rf cl)
               \<lparr>elections := elections cl @
                  [\<lparr>el_server = i, el_inc = incs cl ! i, el_grantedCnt = 1,
                    h_el_term = rf_currentTerm rf, h_el_voters = [i]\<rparr>],
                threads := threads cl @ map (VoteReady (length (elections cl))) (other_peers rf),
                h_votes := (i, rf_currentTerm rf, rf_votedFor rf) # h_votes cl\<rparr>)))
      else None)"

text \<open>
  A goroutine of an instance that has been killed finds its end points disabled: its
  \<open>Call\<close> fails.
\<close>

definition vote_build :: "nat \<Rightarrow> 'c cluster \<Rightarrow> 'c cluster go option" where
  "vote_build k cl =
     (if k < length (threads cl) then
        (case threads cl ! k of
           VoteReady e p \<Rightarrow>
             Some (if election_live cl e then
                     go_bind (requestVoteArgs (servers cl ! el_server (elections cl ! e)))
                       (\<lambda>args. Inr (set_thread k (VoteCalling e p args) cl))
                   else Inr (set_thread k Finished cl))
         | _ \<Rightarrow> None)
      else None)"

definition vote_deliver :: "nat \<Rightarrow> int \<Rightarrow> 'c cluster \<Rightarrow> 'c cluster go option" where
  "vote_deliver k now cl =
     (if k < length (threads cl) then
        (case threads cl ! k of
           VoteCalling e p args \<Rightarrow>
             Some (go_bind (RequestVote now args (servers cl ! p)) (\<lambda>(rf, reply).
               Inr ((set_thread k (VoteReturned e p args reply) (set_server p rf cl))
                 \<lparr>h_votes := (if rvr_VoteGranted reply
                              then (p, rv_Term args, rv_CandidateId args) # h_votes cl
                              else h_votes cl)\<rparr>)))
         | _ \<Rightarrow> None)
      else None)"

definition vote_lose :: "nat \<Rightarrow> 'c cluster \<Rightarrow> 'c cluster go option" where
  "vote_lose k cl =
     (if k < length (threads cl) then
        (case threads cl ! k of
           VoteCalling e p args \<Rightarrow> Some (Inr (set_thread k Finished cl))
         | VoteReturned e p args reply \<Rightarrow> Some (Inr (set_thread k Finished cl))
         | _ \<Rightarrow> None)
      else None)"

definition vote_reply :: "nat \<Rightarrow> int \<Rightarrow> 'c cluster \<Rightarrow> 'c cluster go option" where
  "vote_reply k now cl =
     (if k < length (threads cl) then
        (case threads cl ! k of
           VoteReturned e p args reply \<Rightarrow>
             Some (Inr (if election_live cl e then
               let el = elections cl ! e; s = el_server el; rf = servers cl ! s;
                   (rf', cnt) = handleVoteReply now args reply (rf, el_grantedCnt el)
               in (set_thread k Finished (set_server s rf' cl))
                    \<lparr>elections := (elections cl)[e := el
                       \<lparr>el_grantedCnt := cnt,
                        h_el_voters := (if cnt = el_grantedCnt el then h_el_voters el
                                        else p # h_el_voters el)\<rparr>],
                     h_leaders := (if rf_state rf' = LEADER \<and> rf_state rf \<noteq> LEADER
                                   then (rf_currentTerm rf', s) # h_leaders cl else h_leaders cl)\<rparr>
             else set_thread k Finished cl))
         | _ \<Rightarrow> None)
      else None)"

definition beat :: "nat \<Rightarrow> 'c cluster \<Rightarrow> 'c cluster go option" where
  "beat i cl =
     (if i < length (servers cl) then
        Some (go_bind (sendHeartbeat (servers cl ! i)) (\<lambda>h.
          case h of
            None \<Rightarrow> Inr cl
          | Some hb \<Rightarrow>
              Inr (cl\<lparr>rounds := rounds cl @ [\<lparr>hr_server = i, hr_inc = incs cl ! i, hr_hb = hb,
                                               hr_replCount = 1\<rparr>],
                      threads := threads cl @ map (HeartReady (length (rounds cl)))
                                   (rev (other_peers (servers cl ! i)))\<rparr>)))
      else None)"

definition heart_build :: "nat \<Rightarrow> 'c cluster \<Rightarrow> 'c cluster go option" where
  "heart_build k cl =
     (if k < length (threads cl) then
        (case threads cl ! k of
           HeartReady r p \<Rightarrow>
             Some (if round_live cl r then
                     go_bind (appendEntriesArgs (hr_hb (rounds cl ! r)) p
                                (servers cl ! hr_server (rounds cl ! r))) (\<lambda>a.
                       case a of
                         None \<Rightarrow> Inr (set_thread k Finished cl)
                       | Some args \<Rightarrow> Inr (set_thread k (HeartCalling r p args) cl))
                   else Inr (set_thread k Finished cl))
         | _ \<Rightarrow> None)
      else None)"

definition heart_deliver :: "nat \<Rightarrow> int \<Rightarrow> 'c cluster \<Rightarrow> 'c cluster go option" where
  "heart_deliver k now cl =
     (if k < length (threads cl) then
        (case threads cl ! k of
           HeartCalling r p args \<Rightarrow>
             Some (go_bind (AppendEntries now args (servers cl ! p)) (\<lambda>(rf, reply).
               Inr (set_thread k (HeartReturned r p args reply) (set_server p rf cl))))
         | _ \<Rightarrow> None)
      else None)"

text \<open>\<open>Call\<close> has returned: the rest of the loop body, for a reply or for a failed call.\<close>

definition heart_finish ::
  "nat \<Rightarrow> nat \<Rightarrow> nat \<Rightarrow> 'c AppendEntriesArgs \<Rightarrow> bool \<Rightarrow> AppendEntriesReply \<Rightarrow> 'c cluster \<Rightarrow> 'c cluster go" where
  "heart_finish k r p args ok reply cl =
     (if round_live cl r then
        let hr = rounds cl ! r; s = hr_server hr in
        go_bind (handleAppendReply (hr_hb hr) p args ok reply (servers cl ! s, hr_replCount hr))
          (\<lambda>((rf, cnt), ex).
            Inr ((set_thread k (case ex of Return \<Rightarrow> Finished | Again \<Rightarrow> HeartReady r p)
                    (set_server s rf cl))\<lparr>rounds := (rounds cl)[r := hr\<lparr>hr_replCount := cnt\<rparr>]\<rparr>))
      else Inr (set_thread k Finished cl))"

definition heart_reply :: "nat \<Rightarrow> 'c cluster \<Rightarrow> 'c cluster go option" where
  "heart_reply k cl =
     (if k < length (threads cl) then
        (case threads cl ! k of
           HeartReturned r p args reply \<Rightarrow> Some (heart_finish k r p args True reply cl)
         | _ \<Rightarrow> None)
      else None)"

definition heart_lose :: "nat \<Rightarrow> 'c cluster \<Rightarrow> 'c cluster go option" where
  "heart_lose k cl =
     (if k < length (threads cl) then
        (case threads cl ! k of
           HeartCalling r p args \<Rightarrow> Some (heart_finish k r p args False AppendEntriesReply0 cl)
         | HeartReturned r p args reply \<Rightarrow> Some (heart_finish k r p args False AppendEntriesReply0 cl)
         | _ \<Rightarrow> None)
      else None)"

definition client_start :: "nat \<Rightarrow> 'c \<Rightarrow> 'c cluster \<Rightarrow> 'c cluster go option" where
  "client_start i c cl =
     (if i < length (servers cl) then Some (Inr (set_server i (fst (Start c (servers cl ! i))) cl))
      else None)"

definition apply_committed :: "nat \<Rightarrow> 'c cluster \<Rightarrow> 'c cluster go option" where
  "apply_committed i cl =
     (if i < length (servers cl) then
        Some (go_bind (checkApply (servers cl ! i)) (\<lambda>rf. Inr (set_server i rf cl)))
      else None)"

text \<open>
  A crash and restart as the tester performs it: the new instance is made from what the crash left of
  the disk of the old one, and the old instance's goroutines have lost their end points.
\<close>

definition restart :: "nat \<Rightarrow> int \<Rightarrow> nat \<Rightarrow> 'c cluster \<Rightarrow> 'c cluster go option" where
  "restart i now rnd cl =
     (if i < length (servers cl) then
        Some (go_bind (Make (length (servers cl)) (int i) (start1_saved (rf_persister (servers cl ! i))) now rnd)
          (\<lambda>rf. Inr ((set_server i rf cl)\<lparr>incs := (incs cl)[i := Suc (incs cl ! i)]\<rparr>)))
      else None)"

fun cstep :: "'c action \<Rightarrow> 'c cluster \<Rightarrow> 'c cluster go option" where
  "cstep (Tick i now rnd) cl = tick i now rnd cl"
| "cstep (VoteBuild k) cl = vote_build k cl"
| "cstep (VoteDeliver k now) cl = vote_deliver k now cl"
| "cstep (VoteLose k) cl = vote_lose k cl"
| "cstep (VoteReply k now) cl = vote_reply k now cl"
| "cstep (Beat i) cl = beat i cl"
| "cstep (HeartBuild k) cl = heart_build k cl"
| "cstep (HeartDeliver k now) cl = heart_deliver k now cl"
| "cstep (HeartLose k) cl = heart_lose k cl"
| "cstep (HeartReply k) cl = heart_reply k cl"
| "cstep (ClientStart i c) cl = client_start i c cl"
| "cstep (ApplyCommitted i) cl = apply_committed i cl"
| "cstep (Restart i now rnd) cl = restart i now rnd cl"

text \<open>
  The clusters reachable from \<open>n\<close> new peers when every step satisfies the scheduling
  assumption \<open>sched\<close>.
\<close>

inductive creach :: "('c cluster \<Rightarrow> 'c action \<Rightarrow> bool) \<Rightarrow> nat \<Rightarrow> 'c cluster \<Rightarrow> bool"
  for sched n where
  boot: "length rfs = n \<Longrightarrow>
     \<forall>i<n. \<exists>now rnd. Make n (int i) MakePersister now rnd = Inr (rfs ! i) \<Longrightarrow>
     creach sched n (fresh_cluster rfs)"
| step: "creach sched n cl \<Longrightarrow> sched cl a \<Longrightarrow> cstep a cl = Some (Inr cl') \<Longrightarrow> creach sched n cl'"

text \<open>No assumption; and the assumption that vote requests are built in their own election's term.\<close>

definition any_schedule :: "'c cluster \<Rightarrow> 'c action \<Rightarrow> bool" where
  "any_schedule cl a = True"

definition prompt :: "'c cluster \<Rightarrow> 'c action \<Rightarrow> bool" where
  "prompt cl a =
     (case a of
        VoteBuild k \<Rightarrow>
          (case threads cl ! k of
             VoteReady e p \<Rightarrow>
               election_live cl e \<longrightarrow>
               rf_currentTerm (servers cl ! el_server (elections cl ! e)) = h_el_term (elections cl ! e)
           | _ \<Rightarrow> True)
      | _ \<Rightarrow> True)"

lemma creach_any: "creach sched n cl \<Longrightarrow> creach any_schedule n cl"
proof (induction rule: creach.induct)
  case (boot rfs)
  then show ?case by (rule creach.boot)
next
  case (step cl a cl')
  have "any_schedule cl a" by (simp add: any_schedule_def)
  with step show ?case by (blast intro: creach.step)
qed

section \<open>Running a schedule\<close>

text \<open>
  Execution of a list of actions from \<open>n\<close> peers made at time 0 with the shortest
  timeout; \<open>None\<close> when an action is not enabled, panics or violates the assumption.
\<close>

fun crun :: "('c cluster \<Rightarrow> 'c action \<Rightarrow> bool) \<Rightarrow> 'c action list \<Rightarrow> 'c cluster \<Rightarrow> 'c cluster option" where
  "crun sched [] cl = Some cl"
| "crun sched (a # as) cl =
     (if sched cl a then
        (case cstep a cl of
           Some (Inr cl') \<Rightarrow> crun sched as cl'
         | _ \<Rightarrow> None)
      else None)"

definition new_peer :: "nat \<Rightarrow> nat \<Rightarrow> 'c Raft" where
  "new_peer n i =
     \<lparr>rf_peers = n, rf_persister = MakePersister, rf_me = int i, rf_dead = 0, rf_applyCh = [],
      rf_electionTimeout = 500 * millisecond, rf_lastHeartbeat = 0,
      rf_state = FOLLOWER, rf_currentTerm = 0, rf_votedFor = -1,
      rf_log = [\<lparr>le_Command = None, le_Term = 0\<rparr>], rf_commitIndex = 0, rf_lastApplied = 0,
      rf_nextIndex = replicate n 1, rf_matchIndex = replicate n 0\<rparr>"

definition boot_cluster :: "nat \<Rightarrow> 'c cluster" where
  "boot_cluster n = fresh_cluster (map (new_peer n) [0..<n])"

lemma boot_creach: "creach sched n (boot_cluster n)"
  unfolding boot_cluster_def
proof (rule creach.boot)
  show "\<forall>i<n. \<exists>now rnd. Make n (int i) MakePersister now rnd = Inr (map (new_peer n) [0..<n] ! i)"
    using Make_fresh[of n _ 0 0] by (auto simp: new_peer_def intro!: exI[of _ 0])
qed simp

lemma crun_creach: "creach sched n cl \<Longrightarrow> crun sched as cl = Some cl' \<Longrightarrow> creach sched n cl'"
  by (induction as arbitrary: cl)
    (auto split: if_splits option.splits sum.splits intro: creach.step)

end
