(* ===== verification/Raft_Safety.thy ===== *)
theory Raft_Safety
  imports Raft_Cluster
begin

text \<open>
  What holds in every reachable cluster. First, under no assumption on the schedule: the
  peers stay well-formed and on disk, the requests and replies under way fit the leaders
  that wait for them, and no handler and no goroutine section panics. Second, when vote
  requests are built in the term of their own election: at most one leader per term, over
  the whole history and across crashes. Third, a run that shows why that assumption is
  needed.
\<close>

section \<open>The invariant\<close>

definition round_inv :: "nat \<Rightarrow> 'c cluster \<Rightarrow> hb_round \<Rightarrow> bool" where
  "round_inv n cl hr \<longleftrightarrow>
     hr_server hr < n \<and> hr_inc hr \<le> incs cl ! hr_server hr \<and>
     (incs cl ! hr_server hr = hr_inc hr \<longrightarrow>
        hb_currentTerm (hr_hb hr) \<le> rf_currentTerm (servers cl ! hr_server hr) \<and>
        (hb_currentTerm (hr_hb hr) = rf_currentTerm (servers cl ! hr_server hr) \<longrightarrow>
           rf_state (servers cl ! hr_server hr) \<noteq> CANDIDATE \<and>
           (rf_state (servers cl ! hr_server hr) = LEADER \<longrightarrow>
              round_ok (hr_hb hr) (servers cl ! hr_server hr))))"

definition call_inv :: "nat \<Rightarrow> 'c cluster \<Rightarrow> nat \<Rightarrow> nat \<Rightarrow> 'c AppendEntriesArgs \<Rightarrow> bool" where
  "call_inv n cl r p args \<longleftrightarrow> r < length (rounds cl) \<and> p < n \<and> args_ok args \<and>
     ae_Term args = hb_currentTerm (hr_hb (rounds cl ! r)) \<and>
     (round_live cl r \<and> rf_state (servers cl ! hr_server (rounds cl ! r)) = LEADER \<and>
      hb_currentTerm (hr_hb (rounds cl ! r)) = rf_currentTerm (servers cl ! hr_server (rounds cl ! r)) \<longrightarrow>
        args_fit args (servers cl ! hr_server (rounds cl ! r)))"

fun thread_inv :: "nat \<Rightarrow> 'c cluster \<Rightarrow> 'c goroutine \<Rightarrow> bool" where
  "thread_inv n cl (VoteReady e p) = (e < length (elections cl) \<and> p < n)"
| "thread_inv n cl (VoteCalling e p args) = (e < length (elections cl) \<and> p < n)"
| "thread_inv n cl (VoteReturned e p args reply) = (e < length (elections cl) \<and> p < n)"
| "thread_inv n cl (HeartReady r p) = (r < length (rounds cl) \<and> p < n)"
| "thread_inv n cl (HeartCalling r p args) = call_inv n cl r p args"
| "thread_inv n cl (HeartReturned r p args reply) = (call_inv n cl r p args \<and> reply_ok args reply)"
| "thread_inv n cl Finished = True"

definition cinv :: "nat \<Rightarrow> 'c cluster \<Rightarrow> bool" where
  "cinv n cl \<longleftrightarrow> length (servers cl) = n \<and> length (incs cl) = n \<and>
     (\<forall>i<n. peer_ok n i (servers cl ! i)) \<and>
     (\<forall>el\<in>set (elections cl). el_server el < n) \<and>
     (\<forall>hr\<in>set (rounds cl). round_inv n cl hr) \<and>
     (\<forall>g\<in>set (threads cl). thread_inv n cl g)"

lemma cinvD:
  assumes "cinv n cl"
  shows "length (servers cl) = n" and "length (incs cl) = n"
    and "i < n \<Longrightarrow> peer_ok n i (servers cl ! i)"
    and "e < length (elections cl) \<Longrightarrow> el_server (elections cl ! e) < n"
    and "r < length (rounds cl) \<Longrightarrow> round_inv n cl (rounds cl ! r)"
    and "k < length (threads cl) \<Longrightarrow> thread_inv n cl (threads cl ! k)"
  using assms by (auto simp: cinv_def)

section \<open>Updates that keep the invariant\<close>

lemma round_ok_prefix: "round_ok hb rf \<Longrightarrow> prefix (rf_log rf) (rf_log rf') \<Longrightarrow> round_ok hb rf'"
  using prefix_length_le[of "rf_log rf" "rf_log rf'"] by (auto simp: round_ok_def go_len_def)

lemma args_fit_prefix: "args_fit args rf \<Longrightarrow> prefix (rf_log rf) (rf_log rf') \<Longrightarrow> args_fit args rf'"
  using prefix_length_le[of "rf_log rf" "rf_log rf'"] by (auto simp: args_fit_def go_len_def)

text \<open>A peer still leading the term of a live round has led it since, and only appended.\<close>

lemma still_leader:
  assumes "round_inv n cl hr" and "incs cl ! hr_server hr = hr_inc hr"
    and "evolves (servers cl ! hr_server hr) rf'"
    and "hb_currentTerm (hr_hb hr) = rf_currentTerm rf'" and "rf_state rf' = LEADER"
  shows "rf_state (servers cl ! hr_server hr) = LEADER"
    and "hb_currentTerm (hr_hb hr) = rf_currentTerm (servers cl ! hr_server hr)"
    and "prefix (rf_log (servers cl ! hr_server hr)) (rf_log rf')"
  using assms by (auto simp: round_inv_def evolves_def)

lemma round_inv_set_server:
  assumes "round_inv n cl hr" and "i < length (servers cl)" and ev: "evolves (servers cl ! i) rf'"
  shows "round_inv n (set_server i rf' cl) hr"
proof (cases "hr_server hr = i \<and> incs cl ! hr_server hr = hr_inc hr")
  case True
  then have live: "incs cl ! hr_server hr = hr_inc hr" and ev': "evolves (servers cl ! hr_server hr) rf'"
    using ev by auto
  have "round_ok (hr_hb hr) rf'" if "hb_currentTerm (hr_hb hr) = rf_currentTerm rf'" "rf_state rf' = LEADER"
    using still_leader[OF assms(1) live ev' that] assms(1) live
    by (auto simp: round_inv_def intro: round_ok_prefix)
  with True assms show ?thesis
    by (auto simp: round_inv_def set_server_def evolves_def)
qed (use assms in \<open>auto simp: round_inv_def set_server_def nth_list_update\<close>)

lemma round_live_frame [simp]:
  "round_live (set_server i rf cl) r = round_live cl r"
  "round_live (set_thread k g cl) r = round_live cl r"
  "election_live (set_server i rf cl) e = election_live cl e"
  "election_live (set_thread k g cl) e = election_live cl e"
  by (simp_all add: round_live_def election_live_def set_server_def set_thread_def)

lemma call_inv_set_server:
  assumes "call_inv n cl r p args" and "round_inv n cl (rounds cl ! r)"
    and "i < length (servers cl)" and ev: "evolves (servers cl ! i) rf'"
  shows "call_inv n (set_server i rf' cl) r p args"
proof (cases "hr_server (rounds cl ! r) = i \<and> round_live cl r")
  case True
  then have live: "incs cl ! hr_server (rounds cl ! r) = hr_inc (rounds cl ! r)"
    and ev': "evolves (servers cl ! hr_server (rounds cl ! r)) rf'"
    using ev by (auto simp: round_live_def)
  have "args_fit args rf'"
    if "hb_currentTerm (hr_hb (rounds cl ! r)) = rf_currentTerm rf'" "rf_state rf' = LEADER"
    using still_leader[OF assms(2) live ev' that] assms(1) True
    by (auto simp: call_inv_def intro: args_fit_prefix)
  with True assms show ?thesis
    by (auto simp: call_inv_def set_server_def round_live_def)
qed (use assms in \<open>auto simp: call_inv_def set_server_def nth_list_update round_live_def\<close>)

lemma cinv_set_server:
  assumes inv: "cinv n cl" and i: "i < n" and ok: "peer_ok n i rf'" and ev: "evolves (servers cl ! i) rf'"
  shows "cinv n (set_server i rf' cl)"
proof -
  have len: "i < length (servers cl)" using inv i by (simp add: cinv_def)
  have "thread_inv n (set_server i rf' cl) g" if "g \<in> set (threads cl)" for g
  proof -
    have "thread_inv n cl g" using inv that by (simp add: cinv_def)
    moreover have "call_inv n (set_server i rf' cl) r p args" if "call_inv n cl r p args" for r p args
      using that inv len ev by (intro call_inv_set_server) (auto simp: cinv_def call_inv_def)
    ultimately show ?thesis by (cases g) (auto simp: set_server_def)
  qed
  moreover have "round_inv n (set_server i rf' cl) hr" if "hr \<in> set (rounds cl)" for hr
    using that inv len ev by (intro round_inv_set_server) (auto simp: cinv_def)
  moreover have "peer_ok n j ((servers cl)[i := rf'] ! j)" if "j < n" for j
    using that inv ok by (cases "j = i") (auto simp: cinv_def)
  ultimately show ?thesis
    using inv by (auto simp: cinv_def set_server_def)
qed

lemma call_inv_frame [simp]: "call_inv n (cl\<lparr>threads := ts\<rparr>) r p args = call_inv n cl r p args"
  by (simp add: call_inv_def round_live_def)

lemma thread_inv_frame [simp]:
  "thread_inv n (cl\<lparr>threads := ts\<rparr>) g = thread_inv n cl g"
  "thread_inv n (cl\<lparr>h_votes := vs\<rparr>) g = thread_inv n cl g"
  "thread_inv n (cl\<lparr>h_leaders := ls\<rparr>) g = thread_inv n cl g"
  "round_inv n (cl\<lparr>threads := ts\<rparr>) hr = round_inv n cl hr"
  "round_inv n (cl\<lparr>elections := es\<rparr>) hr = round_inv n cl hr"
  "round_inv n (cl\<lparr>rounds := rs\<rparr>) hr = round_inv n cl hr"
  "round_inv n (cl\<lparr>h_votes := vs\<rparr>) hr = round_inv n cl hr"
  "round_inv n (cl\<lparr>h_leaders := ls\<rparr>) hr = round_inv n cl hr"
  by (cases g; simp add: call_inv_def round_live_def round_inv_def)+

lemma cinv_history [simp]:
  "cinv n (cl\<lparr>h_votes := vs\<rparr>) = cinv n cl"
  "cinv n (cl\<lparr>h_leaders := ls\<rparr>) = cinv n cl"
  by (simp_all add: cinv_def)

lemma cinv_set_thread: "cinv n cl \<Longrightarrow> thread_inv n cl g \<Longrightarrow> cinv n (set_thread k g cl)"
  by (auto simp: cinv_def set_thread_def dest!: set_update_subset_insert[THEN subsetD])

lemma cinv_add_threads:
  "cinv n cl \<Longrightarrow> (\<And>g. g \<in> set gs \<Longrightarrow> thread_inv n cl g) \<Longrightarrow> cinv n (cl\<lparr>threads := threads cl @ gs\<rparr>)"
  by (auto simp: cinv_def)

lemma thread_inv_elections:
  "length (elections cl) \<le> length es \<Longrightarrow> thread_inv n cl g \<Longrightarrow> thread_inv n (cl\<lparr>elections := es\<rparr>) g"
  by (cases g) (auto simp: call_inv_def round_live_def)

lemma cinv_elections:
  "cinv n cl \<Longrightarrow> length (elections cl) \<le> length es \<Longrightarrow> (\<And>el. el \<in> set es \<Longrightarrow> el_server el < n) \<Longrightarrow>
   cinv n (cl\<lparr>elections := es\<rparr>)"
  by (auto simp: cinv_def intro: thread_inv_elections)

lemma call_inv_rounds:
  assumes "call_inv n cl r p args" and "length (rounds cl) \<le> length rs"
    and "\<And>j. j < length (rounds cl) \<Longrightarrow> hr_server (rs ! j) = hr_server (rounds cl ! j) \<and>
       hr_inc (rs ! j) = hr_inc (rounds cl ! j) \<and> hr_hb (rs ! j) = hr_hb (rounds cl ! j)"
  shows "call_inv n (cl\<lparr>rounds := rs\<rparr>) r p args"
  using assms by (auto simp: call_inv_def round_live_def)

lemma cinv_rounds:
  assumes "cinv n cl" and "length (rounds cl) \<le> length rs"
    and "\<And>j. j < length (rounds cl) \<Longrightarrow> hr_server (rs ! j) = hr_server (rounds cl ! j) \<and>
       hr_inc (rs ! j) = hr_inc (rounds cl ! j) \<and> hr_hb (rs ! j) = hr_hb (rounds cl ! j)"
    and "\<And>hr. hr \<in> set rs \<Longrightarrow> round_inv n cl hr"
  shows "cinv n (cl\<lparr>rounds := rs\<rparr>)"
proof -
  have "thread_inv n (cl\<lparr>rounds := rs\<rparr>) g" if "thread_inv n cl g" for g
    using that assms(2) call_inv_rounds[OF _ assms(2,3)] by (cases g) auto
  with assms(1,4) show ?thesis by (auto simp: cinv_def)
qed

lemma cinv_bump:
  assumes inv: "cinv n cl" and i: "i < n"
  shows "cinv n (cl\<lparr>incs := (incs cl)[i := Suc (incs cl ! i)]\<rparr>)"
proof -
  let ?cl = "cl\<lparr>incs := (incs cl)[i := Suc (incs cl ! i)]\<rparr>"
  have r: "round_inv n ?cl hr" if "round_inv n cl hr" for hr
    using that inv i by (cases "hr_server hr = i") (auto simp: round_inv_def cinv_def)
  have "call_inv n ?cl r p args" if "call_inv n cl r p args" for r p args
    using that inv i cinvD(5)[OF inv, of r]
    by (cases "hr_server (rounds cl ! r) = i") (auto simp: call_inv_def round_live_def round_inv_def cinv_def)
  then have "thread_inv n ?cl g" if "thread_inv n cl g" for g
    using that by (cases g) auto
  with inv r show ?thesis by (auto simp: cinv_def)
qed

section \<open>Every step keeps the invariant, and none panics\<close>

text \<open>
  One lemma per action: on an invariant cluster the section returns (no panic) and the
  cluster it leaves is invariant.
\<close>

definition safe_step :: "nat \<Rightarrow> 'c cluster go option \<Rightarrow> bool" where
  "safe_step n r \<longleftrightarrow> (\<forall>x. r = Some x \<longrightarrow> (\<exists>cl'. x = Inr cl' \<and> cinv n cl'))"

lemma safe_stepI:
  "(\<And>x. r = Some x \<Longrightarrow> \<exists>cl'. x = Inr cl' \<and> cinv n cl') \<Longrightarrow> safe_step n r"
  by (auto simp: safe_step_def)

lemma other_peers_bound: "p \<in> set (other_peers rf) \<Longrightarrow> p < rf_peers rf"
  by (auto simp: other_peers_def)

lemma tick_safe:
  assumes inv: "cinv n cl"
  shows "safe_step n (tick i now rnd cl)"
proof (cases "i < n")
  case True
  show ?thesis
  proof (cases "checkElection now rnd (servers cl ! i)")
    case (Some rf)
    let ?el = "\<lparr>el_server = i, el_inc = incs cl ! i, el_grantedCnt = 1,
                h_el_term = rf_currentTerm rf, h_el_voters = [i]\<rparr>"
    let ?cl1 = "set_server i rf cl"
    let ?cl2 = "?cl1\<lparr>elections := elections ?cl1 @ [?el]\<rparr>"
    let ?gs = "map (VoteReady (length (elections cl))) (other_peers rf)"
    have ok: "peer_ok n i rf" "evolves (servers cl ! i) rf"
      using checkElection_peer[OF cinvD(3)[OF inv True] Some] checkElection_evolves[OF Some] by auto
    have "cinv n ?cl1" by (rule cinv_set_server[OF inv True ok])
    then have "cinv n ?cl2"
      using True inv by (intro cinv_elections) (auto simp: cinv_def set_server_def)
    then have "cinv n (?cl2\<lparr>threads := threads ?cl2 @ ?gs\<rparr>)"
      using peer_okD(3)[OF ok(1)] other_peers_bound[of _ rf]
      by (intro cinv_add_threads) (auto simp: set_server_def)
    then show ?thesis
      using True Some cinvD(1)[OF inv] by (simp add: safe_step_def tick_def set_server_def)
  qed (use True cinvD(1)[OF inv] in \<open>simp add: safe_step_def tick_def\<close>)
qed (use cinvD(1)[OF inv] in \<open>simp add: safe_step_def tick_def\<close>)

lemma vote_build_safe:
  assumes inv: "cinv n cl"
  shows "safe_step n (vote_build k cl)"
proof (cases "k < length (threads cl)")
  case True
  note th = cinvD(6)[OF inv True]
  show ?thesis
  proof (cases "threads cl ! k")
    case (VoteReady e p)
    let ?rf = "servers cl ! el_server (elections cl ! e)"
    have "rf_log ?rf \<noteq> []"
      using th VoteReady peer_okD(5)[OF cinvD(3)[OF inv cinvD(4)[OF inv]]] by simp
    then show ?thesis
      using th VoteReady True cinv_set_thread[OF inv]
      by (auto simp: safe_step_def vote_build_def requestVoteArgs_def)
  qed (auto simp: safe_step_def vote_build_def)
qed (simp add: safe_step_def vote_build_def)

lemma vote_deliver_safe:
  assumes inv: "cinv n cl"
  shows "safe_step n (vote_deliver k now cl)"
proof (cases "k < length (threads cl)")
  case True
  note th = cinvD(6)[OF inv True]
  show ?thesis
  proof (cases "threads cl ! k")
    case (VoteCalling e p args)
    then have p: "p < n" and e: "e < length (elections cl)" using th by auto
    obtain rf reply where r: "RequestVote now args (servers cl ! p) = Inr (rf, reply)"
      "peer_ok n p rf" "evolves (servers cl ! p) rf"
      using RequestVote_peer[OF cinvD(3)[OF inv p]] by blast
    have "cinv n (set_thread k (VoteReturned e p args reply) (set_server p rf cl))"
      using p e by (intro cinv_set_thread cinv_set_server[OF inv p r(2,3)]) (simp add: set_server_def)
    then show ?thesis using True VoteCalling r(1) by (simp add: safe_step_def vote_deliver_def)
  qed (auto simp: safe_step_def vote_deliver_def)
qed (simp add: safe_step_def vote_deliver_def)

lemma vote_lose_safe: "cinv n cl \<Longrightarrow> safe_step n (vote_lose k cl)"
  by (cases "threads cl ! k") (auto simp: safe_step_def vote_lose_def intro: cinv_set_thread)

lemma vote_reply_safe:
  assumes inv: "cinv n cl"
  shows "safe_step n (vote_reply k now cl)"
proof (cases "k < length (threads cl)")
  case True
  note th = cinvD(6)[OF inv True]
  show ?thesis
  proof (cases "threads cl ! k")
    case (VoteReturned e p args reply)
    let ?el = "elections cl ! e"
    let ?s = "el_server ?el"
    have e: "e < length (elections cl)" using th VoteReturned by auto
    have s: "?s < n" by (rule cinvD(4)[OF inv e])
    obtain rf cnt where r: "handleVoteReply now args reply (servers cl ! ?s, el_grantedCnt ?el) = (rf, cnt)"
      by (metis surj_pair)
    have ok: "peer_ok n ?s rf" "evolves (servers cl ! ?s) rf"
      using handleVoteReply_peer[OF cinvD(3)[OF inv s] r] handleVoteReply_evolves[OF r] by auto
    let ?cl = "set_thread k Finished (set_server ?s rf cl)"
    have cl: "cinv n ?cl" by (intro cinv_set_thread cinv_set_server[OF inv s ok]) simp
    have "cinv n (?cl\<lparr>elections := (elections ?cl)[e := ?el\<lparr>el_grantedCnt := c, h_el_voters := v\<rparr>]\<rparr>)" for c v
      using cl inv s
      by (intro cinv_elections)
        (auto simp: cinv_def set_server_def set_thread_def dest!: set_update_subset_insert[THEN subsetD])
    then show ?thesis
      using True VoteReturned r inv
      by (auto simp: safe_step_def vote_reply_def Let_def set_server_def set_thread_def
          intro: cinv_set_thread[unfolded set_thread_def])
  qed (auto simp: safe_step_def vote_reply_def)
qed (simp add: safe_step_def vote_reply_def)

lemma beat_safe:
  assumes inv: "cinv n cl"
  shows "safe_step n (beat i cl)"
proof (cases "i < n")
  case True
  let ?rf = "servers cl ! i"
  note ok = cinvD(3)[OF inv True]
  obtain h where h: "sendHeartbeat ?rf = Inr h"
    "\<And>hb. h = Some hb \<Longrightarrow> rf_state ?rf = LEADER \<and> hb_currentTerm hb = rf_currentTerm ?rf \<and> round_ok hb ?rf"
    using sendHeartbeat_ok[OF peer_okD(1)[OF ok]] by blast
  show ?thesis
  proof (cases h)
    case None
    with True h(1) inv show ?thesis by (simp add: safe_step_def beat_def cinv_def)
  next
    case (Some hb)
    let ?hr = "\<lparr>hr_server = i, hr_inc = incs cl ! i, hr_hb = hb, hr_replCount = 1\<rparr>"
    let ?cl = "cl\<lparr>rounds := rounds cl @ [?hr]\<rparr>"
    have "round_inv n cl ?hr" using h(2)[OF Some] True by (auto simp: round_inv_def)
    then have "cinv n ?cl"
      using inv by (intro cinv_rounds) (auto simp: nth_append cinv_def)
    then have "cinv n (?cl\<lparr>threads := threads ?cl @ map (HeartReady (length (rounds cl))) (rev (other_peers ?rf))\<rparr>)"
      using peer_okD(3)[OF ok] other_peers_bound[of _ ?rf] by (intro cinv_add_threads) auto
    then show ?thesis
      using True h(1) Some cinvD(1)[OF inv] by (simp add: safe_step_def beat_def)
  qed
qed (use cinvD(1)[OF inv] in \<open>simp add: safe_step_def beat_def\<close>)

lemma heart_build_safe:
  assumes inv: "cinv n cl"
  shows "safe_step n (heart_build k cl)"
proof (cases "k < length (threads cl)")
  case True
  note th = cinvD(6)[OF inv True]
  show ?thesis
  proof (cases "threads cl ! k")
    case (HeartReady r p)
    let ?hr = "rounds cl ! r"
    let ?rf = "servers cl ! hr_server ?hr"
    have r: "r < length (rounds cl)" and p: "p < n" using th HeartReady by auto
    note ri = cinvD(5)[OF inv r]
    have ok: "peer_ok n (hr_server ?hr) ?rf" using ri by (intro cinvD(3)[OF inv]) (simp add: round_inv_def)
    show ?thesis
    proof (cases "round_live cl r")
      case live: True
      obtain a where a: "appendEntriesArgs (hr_hb ?hr) p ?rf = Inr a"
        "\<And>args. a = Some args \<Longrightarrow> args_ok args \<and> args_fit args ?rf \<and>
           ae_Term args = rf_currentTerm ?rf \<and> hb_currentTerm (hr_hb ?hr) = rf_currentTerm ?rf"
        using appendEntriesArgs_ok[OF peer_okD(1)[OF ok], of "hr_hb ?hr" p] ri live p peer_okD(3)[OF ok]
        by (auto simp: round_inv_def round_live_def)
      have "cinv n (set_thread k (HeartCalling r p args) cl)" if "a = Some args" for args
        using a(2)[OF that] r p by (intro cinv_set_thread[OF inv]) (simp add: call_inv_def)
      then show ?thesis
        using True HeartReady live a(1) cinv_set_thread[OF inv]
        by (auto simp: safe_step_def heart_build_def split: option.splits)
    qed (use True HeartReady cinv_set_thread[OF inv] in \<open>auto simp: safe_step_def heart_build_def\<close>)
  qed (auto simp: safe_step_def heart_build_def)
qed (simp add: safe_step_def heart_build_def)

lemma heart_deliver_safe:
  assumes inv: "cinv n cl"
  shows "safe_step n (heart_deliver k now cl)"
proof (cases "k < length (threads cl)")
  case True
  note th = cinvD(6)[OF inv True]
  show ?thesis
  proof (cases "threads cl ! k")
    case (HeartCalling r p args)
    then have ci: "call_inv n cl r p args" and p: "p < n" and args: "args_ok args"
      using th by (auto simp: call_inv_def)
    obtain rf reply where d: "AppendEntries now args (servers cl ! p) = Inr (rf, reply)"
      "peer_ok n p rf" "evolves (servers cl ! p) rf" "reply_ok args reply"
      using AppendEntries_peer[OF cinvD(3)[OF inv p] args] by blast
    have "call_inv n (set_server p rf cl) r p args"
      using ci p d(3) cinvD(1)[OF inv] cinvD(5)[OF inv, of r]
      by (intro call_inv_set_server) (auto simp: call_inv_def)
    then have "cinv n (set_thread k (HeartReturned r p args reply) (set_server p rf cl))"
      using d(4) by (intro cinv_set_thread cinv_set_server[OF inv p d(2,3)]) simp
    then show ?thesis using True HeartCalling d(1) by (simp add: safe_step_def heart_deliver_def)
  qed (auto simp: safe_step_def heart_deliver_def)
qed (simp add: safe_step_def heart_deliver_def)

lemma heart_finish_safe:
  assumes inv: "cinv n cl" and ci: "call_inv n cl r p args" and rep: "ok \<Longrightarrow> reply_ok args reply"
  shows "\<exists>cl'. heart_finish k r p args ok reply cl = Inr cl' \<and> cinv n cl'"
proof (cases "round_live cl r")
  case live: True
  let ?hr = "rounds cl ! r"
  let ?s = "hr_server ?hr"
  have r: "r < length (rounds cl)" and p: "p < n" using ci by (auto simp: call_inv_def)
  note ri = cinvD(5)[OF inv r]
  have s: "?s < n" using ri by (simp add: round_inv_def)
  obtain rf cnt ex where h:
      "handleAppendReply (hr_hb ?hr) p args ok reply (servers cl ! ?s, hr_replCount ?hr) = Inr ((rf, cnt), ex)"
      "peer_ok n ?s rf" "evolves (servers cl ! ?s) rf"
    using handleAppendReply_peer[OF cinvD(3)[OF inv s] p, of "hr_hb ?hr" args ok reply "hr_replCount ?hr"]
      ci live rep by (auto simp: call_inv_def)
  let ?g = "case ex of Return \<Rightarrow> Finished | Again \<Rightarrow> HeartReady r p"
  let ?cl = "set_thread k ?g (set_server ?s rf cl)"
  have "thread_inv n (set_server ?s rf cl) ?g"
    using r p by (cases ex) (auto simp: set_server_def)
  then have cl: "cinv n ?cl" by (intro cinv_set_thread cinv_set_server[OF inv s h(2,3)])
  have "round_inv n ?cl (?hr\<lparr>hr_replCount := cnt\<rparr>)"
    using cinvD(5)[OF cl, of r] r by (simp add: set_server_def set_thread_def round_inv_def)
  then have "cinv n (?cl\<lparr>rounds := (rounds ?cl)[r := ?hr\<lparr>hr_replCount := cnt\<rparr>]\<rparr>)"
    using cl r by (intro cinv_rounds)
      (auto simp: nth_list_update set_server_def set_thread_def cinv_def
        dest!: set_update_subset_insert[THEN subsetD])
  then show ?thesis
    using live h(1) by (simp add: heart_finish_def Let_def set_server_def set_thread_def)
qed (use cinv_set_thread[OF inv, of Finished k] in \<open>simp add: heart_finish_def\<close>)

lemma heart_reply_safe: "cinv n cl \<Longrightarrow> safe_step n (heart_reply k cl)"
  using heart_finish_safe[of n cl _ _ _ True] cinvD(6)[of n cl k]
  by (cases "threads cl ! k") (auto simp: safe_step_def heart_reply_def)

lemma heart_lose_safe: "cinv n cl \<Longrightarrow> safe_step n (heart_lose k cl)"
  using heart_finish_safe[of n cl _ _ _ False] cinvD(6)[of n cl k]
  by (cases "threads cl ! k") (auto simp: safe_step_def heart_lose_def)

lemma client_start_safe: "cinv n cl \<Longrightarrow> safe_step n (client_start i c cl)"
  using cinvD(1,3)[of n cl]
  by (auto simp: safe_step_def client_start_def intro!: cinv_set_server Start_peer Start_evolves)

lemma restart_safe:
  assumes inv: "cinv n cl"
  shows "safe_step n (restart i now rnd cl)"
proof (cases "i < n")
  case True
  obtain rf where m: "Make n (int i) (start1_saved (rf_persister (servers cl ! i))) now rnd = Inr rf"
      "peer_ok n i rf" "evolves (servers cl ! i) rf"
    using Make_peer_restart[OF cinvD(3)[OF inv True]] by blast
  have "cinv n ((set_server i rf cl)\<lparr>incs := (incs (set_server i rf cl))[i := Suc (incs (set_server i rf cl) ! i)]\<rparr>)"
    by (intro cinv_bump[OF _ True] cinv_set_server[OF inv True m(2,3)])
  then show ?thesis
    using True m(1) cinvD(1)[OF inv] by (simp add: safe_step_def restart_def set_server_def)
qed (use cinvD(1)[OF inv] in \<open>simp add: safe_step_def restart_def\<close>)

lemmas step_safe =
  tick_safe vote_build_safe vote_deliver_safe vote_lose_safe vote_reply_safe beat_safe
  heart_build_safe heart_deliver_safe heart_reply_safe heart_lose_safe client_start_safe restart_safe

text \<open>
  The apply section indexes the log at \<open>commitIndex\<close>; where it does not panic it keeps
  the invariant.
\<close>

lemma apply_committed_cinv:
  assumes inv: "cinv n cl" and "apply_committed i cl = Some (Inr cl')"
  shows "cinv n cl'"
proof -
  obtain rf where i: "i < n" and a: "checkApply (servers cl ! i) = Inr rf" and cl': "cl' = set_server i rf cl"
    using assms cinvD(1)[OF inv] by (auto simp: apply_committed_def go_simps split: if_splits)
  note ok = cinvD(3)[OF inv i]
  have "raft_ok rf" using peer_okD(1)[OF ok] checkApply_frame[OF a] by (simp add: raft_ok_def)
  then have "peer_ok n i rf"
    using checkApply_evolves[OF a] checkApply_synced[OF peer_okD(2)[OF ok] a] by (rule_tac peer_ok_evolves[OF ok])
  then show ?thesis using cinv_set_server[OF inv i _ checkApply_evolves[OF a]] cl' by simp
qed

definition applies :: "'c action \<Rightarrow> bool" where
  "applies a = (case a of ApplyCommitted i \<Rightarrow> True | _ \<Rightarrow> False)"

lemma cstep_safe: "cinv n cl \<Longrightarrow> \<not> applies a \<Longrightarrow> safe_step n (cstep a cl)"
  by (cases a) (simp_all add: step_safe applies_def)

lemma cstep_cinv: "cinv n cl \<Longrightarrow> cstep a cl = Some (Inr cl') \<Longrightarrow> cinv n cl'"
  using cstep_safe[of n cl a] apply_committed_cinv[of n cl _ cl']
  by (cases "applies a") (auto simp: safe_step_def applies_def split: action.splits)

lemma fresh_cinv:
  assumes "length rfs = n" and "\<forall>i<n. \<exists>now rnd. Make n (int i) MakePersister now rnd = Inr (rfs ! i)"
  shows "cinv n (fresh_cluster rfs)"
  using assms by (auto simp: cinv_def fresh_cluster_def dest: Make_peer_fresh)

lemma creach_cinv: "creach sched n cl \<Longrightarrow> cinv n cl"
  by (induction rule: creach.induct) (auto intro: fresh_cinv cstep_cinv)

section \<open>Every step lets every peer evolve\<close>

lemma evolves_update:
  "evolves (servers cl ! i) rf \<Longrightarrow> evolves (servers cl ! j) ((servers cl)[i := rf] ! j)"
  by (cases "i = j"; cases "i < length (servers cl)") (auto simp: list_update_beyond)

lemma cstep_evolves:
  assumes inv: "cinv n cl" and st: "cstep a cl = Some (Inr cl')" and j: "j < n"
  shows "evolves (servers cl ! j) (servers cl' ! j)"
proof -
  note th = cinvD(6)[OF inv] and sv = cinvD(1)[OF inv] and ok = cinvD(3)[OF inv]
  have ne: "i < n \<Longrightarrow> rf_log (servers cl ! i) \<noteq> []" and sy: "i < n \<Longrightarrow> synced (servers cl ! i)"
    and mk: "i < n \<Longrightarrow> rf_peers (servers cl ! i) = n \<and> rf_me (servers cl ! i) = int i" for i
    using ok by (auto dest: peer_okD)
  show ?thesis
  proof (cases a)
    case (VoteDeliver k now)
    with st show ?thesis
      by (auto simp: vote_deliver_def go_simps set_server_def set_thread_def split: if_splits goroutine.splits
          intro!: evolves_update dest!: th dest: RequestVote_evolves[OF ne])
  next
    case (HeartDeliver k now)
    with st show ?thesis
      by (auto simp: heart_deliver_def go_simps set_server_def set_thread_def call_inv_def args_ok_def
          split: if_splits goroutine.splits intro!: evolves_update dest!: th dest: AppendEntries_evolves)
  next
    case (Restart i now rnd)
    with st sv show ?thesis
      using mk[of i] Make_evolves[OF sy, of i now rnd]
      by (auto simp: restart_def go_simps set_server_def split: if_splits intro!: evolves_update)
  qed (use st in \<open>auto simp: tick_def vote_build_def vote_lose_def vote_reply_def beat_def heart_build_def
      heart_reply_def heart_lose_def heart_finish_def client_start_def apply_committed_def Let_def
      go_simps set_server_def set_thread_def split: if_splits goroutine.splits option.splits prod.splits
      intro!: evolves_update Start_evolves
      dest: checkElection_evolves handleVoteReply_evolves handleAppendReply_evolves checkApply_evolves\<close>)
qed
end
