(* ===== verification/Raft_Election.thy ===== *)
theory Raft_Election
  imports Raft_Safety
begin

text \<open>
  Election safety: when every vote request is built in the term of the election that
  spawned it (\<open>prompt\<close>), no term ever has two leaders, across crashes, restarts, lost
  and late messages. The counting argument is the one of the locale \<open>quorums\<close>.
\<close>

section \<open>No promotion outside an election\<close>

lemma AppendEntries_leader:
  assumes "0 \<le> ae_PrevLogIndex args" and "AppendEntries now args rf = Inr (rf', reply)" and "rf_state rf' = LEADER"
  shows "rf_state rf = LEADER"
  using assms(1)
  by (cases rule: AppendEntries_cases[where rf = rf]) (use assms in \<open>auto simp: AppendEntries_paths\<close>)

lemma RequestVote_leader:
  "rf_log rf \<noteq> [] \<Longrightarrow> RequestVote now args rf = Inr (rf', reply) \<Longrightarrow> rf_state rf' = LEADER \<Longrightarrow> rf_state rf = LEADER"
  by (auto simp: RequestVote_eq split: if_splits)

lemma handleAppendReply_leader:
  "handleAppendReply hb i args ok reply (rf, cnt) = Inr ((rf', cnt'), ex) \<Longrightarrow> rf_state rf' = LEADER \<Longrightarrow> rf_state rf = LEADER"
  by (auto simp: handleAppendReply_def Let_def go_simps split: if_splits)

lemma handleVoteReply_count:
  assumes "handleVoteReply now args reply (rf, cnt) = (rf', cnt')"
  shows "cnt' = cnt \<or> cnt' = cnt + 1 \<and> rvr_VoteGranted reply"
    and "rf_state rf' = LEADER \<Longrightarrow> rf_state rf \<noteq> LEADER \<Longrightarrow>
         rv_Term args = rf_currentTerm rf' \<and> rf_currentTerm rf' = rf_currentTerm rf \<and> int (rf_peers rf) < 2 * cnt'"
    and "rf_state rf' = LEADER \<Longrightarrow> rf_currentTerm rf' = rf_currentTerm rf"
  using assms by (auto simp: handleVoteReply_def Let_def split: if_splits)

lemma RequestVote_granted:
  assumes "rf_log rf \<noteq> []" and "RequestVote now args rf = Inr (rf', reply)" and "rvr_VoteGranted reply"
  shows "rf_currentTerm rf' = rv_Term args" and "rf_votedFor rf' = rv_CandidateId args"
  using assms by (auto simp: RequestVote_eq split: if_splits)

section \<open>The vote invariant\<close>

definition votes_inv :: "nat \<Rightarrow> 'c cluster \<Rightarrow> bool" where
  "votes_inv n cl \<longleftrightarrow>
     (\<forall>v t c. (v, t, c) \<in> set (h_votes cl) \<longrightarrow> v < n \<and> 0 \<le> c \<and> t \<le> rf_currentTerm (servers cl ! v) \<and>
        (t = rf_currentTerm (servers cl ! v) \<longrightarrow> rf_votedFor (servers cl ! v) = c)) \<and>
     (\<forall>v t c c'. (v, t, c) \<in> set (h_votes cl) \<longrightarrow> (v, t, c') \<in> set (h_votes cl) \<longrightarrow> c = c')"

definition election_inv :: "'c cluster \<Rightarrow> election \<Rightarrow> bool" where
  "election_inv cl el \<longleftrightarrow> el_grantedCnt el = int (length (h_el_voters el)) \<and> distinct (h_el_voters el) \<and>
     (\<forall>v\<in>set (h_el_voters el). (v, h_el_term el, int (el_server el)) \<in> set (h_votes cl))"

fun vote_thread_inv :: "'c cluster \<Rightarrow> 'c goroutine \<Rightarrow> bool" where
  "vote_thread_inv cl (VoteReady e p) = (p \<notin> set (h_el_voters (elections cl ! e)))"
| "vote_thread_inv cl (VoteCalling e p args) =
     (p \<notin> set (h_el_voters (elections cl ! e)) \<and> rv_Term args = h_el_term (elections cl ! e) \<and>
      rv_CandidateId args = int (el_server (elections cl ! e)))"
| "vote_thread_inv cl (VoteReturned e p args reply) =
     (p \<notin> set (h_el_voters (elections cl ! e)) \<and> rv_Term args = h_el_term (elections cl ! e) \<and>
      (rvr_VoteGranted reply \<longrightarrow>
         (p, h_el_term (elections cl ! e), int (el_server (elections cl ! e))) \<in> set (h_votes cl)))"
| "vote_thread_inv cl _ = True"

fun vote_key :: "'c goroutine \<Rightarrow> (nat \<times> nat) option" where
  "vote_key (VoteReady e p) = Some (e, p)"
| "vote_key (VoteCalling e p args) = Some (e, p)"
| "vote_key (VoteReturned e p args reply) = Some (e, p)"
| "vote_key _ = None"

abbreviation keys_inv :: "'c goroutine list \<Rightarrow> bool" where
  "keys_inv ts \<equiv> unique_keys vote_key ts"

definition leaders_inv :: "nat \<Rightarrow> 'c cluster \<Rightarrow> bool" where
  "leaders_inv n cl \<longleftrightarrow>
     (\<forall>t i. (t, i) \<in> set (h_leaders cl) \<longrightarrow>
        (\<exists>A. majority n A \<and> (\<forall>v\<in>A. (v, t, int i) \<in> set (h_votes cl)))) \<and>
     (\<forall>i<n. rf_state (servers cl ! i) = LEADER \<longrightarrow> (rf_currentTerm (servers cl ! i), i) \<in> set (h_leaders cl))"

definition vinv :: "nat \<Rightarrow> 'c cluster \<Rightarrow> bool" where
  "vinv n cl \<longleftrightarrow> cinv n cl \<and> votes_inv n cl \<and> (\<forall>el\<in>set (elections cl). election_inv cl el) \<and>
     (\<forall>g\<in>set (threads cl). vote_thread_inv cl g) \<and> keys_inv (threads cl) \<and> leaders_inv n cl"

lemma vinvD:
  assumes "vinv n cl"
  shows "cinv n cl" and "votes_inv n cl" and "e < length (elections cl) \<Longrightarrow> election_inv cl (elections cl ! e)"
    and "k < length (threads cl) \<Longrightarrow> vote_thread_inv cl (threads cl ! k)" and "keys_inv (threads cl)"
    and "leaders_inv n cl"
  using assms by (auto simp: vinv_def)

section \<open>Updates that keep the vote invariant\<close>

lemma votes_inv_set_server:
  assumes "votes_inv n cl" and "length (servers cl) = n" and ev: "evolves (servers cl ! i) rf'"
  shows "votes_inv n (set_server i rf' cl)"
proof -
  have "t \<le> rf_currentTerm (servers (set_server i rf' cl) ! v) \<and>
        (t = rf_currentTerm (servers (set_server i rf' cl) ! v) \<longrightarrow>
         rf_votedFor (servers (set_server i rf' cl) ! v) = c)"
    if "(v, t, c) \<in> set (h_votes cl)" for v t c
  proof (cases "v = i")
    case True
    have i: "i < n" using assms(1) that True by (auto simp: votes_inv_def)
    have o: "0 \<le> c" "t \<le> rf_currentTerm (servers cl ! i)"
        "t = rf_currentTerm (servers cl ! i) \<longrightarrow> rf_votedFor (servers cl ! i) = c"
      using assms(1) that True by (auto simp: votes_inv_def)
    have "t \<le> rf_currentTerm rf'" using o(2) ev by (auto simp: evolves_def)
    moreover have "rf_votedFor rf' = c" if "t = rf_currentTerm rf'"
      using that o ev by (auto simp: evolves_def)
    ultimately show ?thesis using True i assms(2) by (simp add: set_server_def)
  qed (use assms that in \<open>auto simp: votes_inv_def set_server_def\<close>)
  with assms(1) show ?thesis by (auto simp: votes_inv_def set_server_def)
qed

lemma vote_frame [simp]:
  "election_inv (set_server i rf cl) el = election_inv cl el"
  "election_inv (cl\<lparr>threads := ts\<rparr>) el = election_inv cl el"
  "election_inv (cl\<lparr>elections := es\<rparr>) el = election_inv cl el"
  "election_inv (cl\<lparr>rounds := rs\<rparr>) el = election_inv cl el"
  "election_inv (cl\<lparr>incs := js\<rparr>) el = election_inv cl el"
  "election_inv (cl\<lparr>h_leaders := ls\<rparr>) el = election_inv cl el"
  "vote_thread_inv (set_server i rf cl) g = vote_thread_inv cl g"
  "vote_thread_inv (cl\<lparr>threads := ts\<rparr>) g = vote_thread_inv cl g"
  "vote_thread_inv (cl\<lparr>rounds := rs\<rparr>) g = vote_thread_inv cl g"
  "vote_thread_inv (cl\<lparr>incs := js\<rparr>) g = vote_thread_inv cl g"
  "vote_thread_inv (cl\<lparr>h_leaders := ls\<rparr>) g = vote_thread_inv cl g"
  "votes_inv n (cl\<lparr>threads := ts\<rparr>) = votes_inv n cl"
  "votes_inv n (cl\<lparr>elections := es\<rparr>) = votes_inv n cl"
  "votes_inv n (cl\<lparr>rounds := rs\<rparr>) = votes_inv n cl"
  "votes_inv n (cl\<lparr>incs := js\<rparr>) = votes_inv n cl"
  "votes_inv n (cl\<lparr>h_leaders := ls\<rparr>) = votes_inv n cl"
  "leaders_inv n (cl\<lparr>threads := ts\<rparr>) = leaders_inv n cl"
  "leaders_inv n (cl\<lparr>elections := es\<rparr>) = leaders_inv n cl"
  "leaders_inv n (cl\<lparr>rounds := rs\<rparr>) = leaders_inv n cl"
  "leaders_inv n (cl\<lparr>incs := js\<rparr>) = leaders_inv n cl"
  by (cases g; simp add: election_inv_def votes_inv_def leaders_inv_def set_server_def)+

lemma leaders_inv_set_server:
  assumes "leaders_inv n cl" and "rf_state rf' = LEADER \<Longrightarrow> rf_state (servers cl ! i) = LEADER"
    and "evolves (servers cl ! i) rf'" and "length (servers cl) = n"
  shows "leaders_inv n (set_server i rf' cl)"
proof -
  have "(rf_currentTerm (servers (set_server i rf' cl) ! j), j) \<in> set (h_leaders cl)"
    if "j < n" "rf_state (servers (set_server i rf' cl) ! j) = LEADER" for j
    using that assms by (cases "j = i") (auto simp: leaders_inv_def set_server_def evolves_def)
  with assms(1) show ?thesis by (auto simp: leaders_inv_def set_server_def)
qed

lemma vinv_set_server:
  assumes inv: "vinv n cl" and i: "i < n" "peer_ok n i rf'" "evolves (servers cl ! i) rf'"
    and "rf_state rf' = LEADER \<Longrightarrow> rf_state (servers cl ! i) = LEADER"
  shows "vinv n (set_server i rf' cl)"
proof -
  have "length (servers cl) = n" by (rule cinvD(1)[OF vinvD(1)[OF inv]])
  then show ?thesis
    using inv cinv_set_server[OF vinvD(1)[OF inv] i] votes_inv_set_server[OF vinvD(2)[OF inv] _ i(3)]
      leaders_inv_set_server[OF vinvD(6)[OF inv] assms(5) i(3)]
    by (auto simp: vinv_def) (auto simp: set_server_def)
qed

text \<open>Recording the vote a peer has just given.\<close>

lemma vinv_add_vote:
  assumes inv: "vinv n cl" and v: "v < n" "0 \<le> c" "rf_currentTerm (servers cl ! v) = t" "rf_votedFor (servers cl ! v) = c"
  shows "vinv n (cl\<lparr>h_votes := (v, t, c) # h_votes cl\<rparr>)"
proof -
  let ?cl = "cl\<lparr>h_votes := (v, t, c) # h_votes cl\<rparr>"
  have once: "c' = c" if "(v, t, c') \<in> set (h_votes cl)" for c'
    using that v vinvD(2)[OF inv] by (auto simp: votes_inv_def)
  have "votes_inv n ?cl" using vinvD(2)[OF inv] v once by (auto simp: votes_inv_def)
  moreover have "election_inv ?cl el" if "election_inv cl el" for el
    using that by (auto simp: election_inv_def)
  moreover have "vote_thread_inv ?cl g" if "vote_thread_inv cl g" for g
    using that by (cases g) auto
  moreover have "leaders_inv n ?cl"
    using vinvD(6)[OF inv] by (auto simp: leaders_inv_def) blast
  ultimately show ?thesis using inv by (auto simp: vinv_def)
qed


lemma thread_key_bound: "vote_key g = Some (e, p) \<Longrightarrow> thread_inv n cl g \<Longrightarrow> e < length (elections cl)"
  by (cases g) auto

lemma vinv_set_thread:
  assumes inv: "vinv n cl" and "thread_inv n cl g" "vote_thread_inv cl g"
    and "vote_key g = None \<or> vote_key g = vote_key (threads cl ! k)"
  shows "vinv n (set_thread k g cl)"
  using assms cinv_set_thread[OF vinvD(1)[OF inv], of g k] unique_keys_update[OF vinvD(5)[OF inv], of g k]
  by (auto simp: vinv_def set_thread_def dest!: set_update_subset_insert[THEN subsetD])

section \<open>Every prompt step keeps it\<close>

lemma tick_vinv:
  assumes inv: "vinv n cl" and st: "tick i now rnd cl = Some (Inr cl')"
  shows "vinv n cl'"
proof -
  note ci = vinvD(1)[OF inv]
  obtain rf where i: "i < n" and e: "checkElection now rnd (servers cl ! i) = Some rf"
    using st cinvD(1)[OF ci] by (auto simp: tick_def split: if_splits option.splits)
  let ?el = "\<lparr>el_server = i, el_inc = incs cl ! i, el_grantedCnt = 1,
                h_el_term = rf_currentTerm rf, h_el_voters = [i]\<rparr>"
  let ?cl1 = "set_server i rf cl"
  let ?cl2 = "?cl1\<lparr>h_votes := (i, rf_currentTerm rf, rf_votedFor rf) # h_votes ?cl1\<rparr>"
  let ?gs = "map (VoteReady (length (elections cl))) (other_peers rf)"
  note ok = checkElection_peer[OF cinvD(3)[OF ci i] e]
  have me: "rf_votedFor rf = int i" "rf_state rf \<noteq> LEADER"
    using e peer_okD(4)[OF ok] by (auto simp: checkElection_def split: if_splits)
  have "vinv n ?cl1"
    using me by (intro vinv_set_server[OF inv i ok checkElection_evolves[OF e]]) simp
  then have v2: "vinv n ?cl2"
    using i me cinvD(1)[OF ci] by (intro vinv_add_vote) (auto simp: set_server_def)
  have cl': "cl' = ?cl2\<lparr>elections := elections cl @ [?el], threads := threads cl @ ?gs\<rparr>"
    using st i e cinvD(1)[OF ci] by (auto simp: tick_def set_server_def intro!: cluster.equality)
  have "cinv n cl'"
    using tick_safe[OF ci, of i now rnd] st by (simp add: safe_step_def)
  moreover have "election_inv cl' ?el"
    using me cl' by (simp add: election_inv_def set_server_def)
  moreover have "vote_thread_inv cl' g" if "g \<in> set (threads cl @ ?gs)" for g
  proof (cases "g \<in> set (threads cl)")
    case True
    have "vote_thread_inv ?cl2 g" "thread_inv n cl g"
      using v2 ci True by (auto simp: vinv_def cinv_def set_server_def)
    then show ?thesis
      unfolding cl' by (cases g) (auto simp: nth_append set_server_def)
  next
    case False
    with that obtain p where "g = VoteReady (length (elections cl)) p" "p \<in> set (other_peers rf)" by auto
    then show ?thesis
      using peer_okD(4)[OF ok] unfolding cl' by (auto simp: other_peers_def)
  qed
  moreover have "keys_inv (threads cl @ ?gs)"
  proof (rule unique_keys_append[OF vinvD(5)[OF inv]])
    show "keys_inv ?gs" by (rule unique_keys_map) (auto simp: other_peers_def inj_on_def)
    show "vote_key h \<noteq> Some a" if "g \<in> set (threads cl)" "h \<in> set ?gs" "vote_key g = Some a" for g h a
      using that ci thread_key_bound[of g "fst a" "snd a" n cl] by (auto simp: cinv_def)
  qed
  ultimately show ?thesis
    using v2 unfolding vinv_def cl' by (auto simp: set_server_def)
qed

lemma vote_build_vinv:
  assumes inv: "vinv n cl" and st: "vote_build k cl = Some (Inr cl')" and pr: "prompt cl (VoteBuild k)"
  shows "vinv n cl'"
proof -
  note ci = vinvD(1)[OF inv]
  obtain e p where k: "k < length (threads cl)" and g: "threads cl ! k = VoteReady e p"
    using st by (auto simp: vote_build_def split: if_splits goroutine.splits)
  have vt: "p \<notin> set (h_el_voters (elections cl ! e))" and e: "e < length (elections cl)" and p: "p < n"
    using vinvD(4)[OF inv k] cinvD(6)[OF ci k] g by auto
  note ok = cinvD(3)[OF ci cinvD(4)[OF ci e]]
  show ?thesis
  proof (cases "election_live cl e")
    case True
    then obtain args where a: "requestVoteArgs (servers cl ! el_server (elections cl ! e)) = Inr args"
      and cl': "cl' = set_thread k (VoteCalling e p args) cl"
      using st k g by (auto simp: vote_build_def go_simps)
    have "rv_Term args = h_el_term (elections cl ! e)" "rv_CandidateId args = int (el_server (elections cl ! e))"
      using a pr g True peer_okD(4)[OF ok] by (auto simp: requestVoteArgs_def prompt_def go_simps)
    then show ?thesis
      unfolding cl' using vt e p g by (intro vinv_set_thread[OF inv]) auto
  next
    case False
    then have "cl' = set_thread k Finished cl" using st k g by (simp add: vote_build_def)
    then show ?thesis by (auto intro: vinv_set_thread[OF inv])
  qed
qed

lemma vote_deliver_vinv:
  assumes inv: "vinv n cl" and st: "vote_deliver k now cl = Some (Inr cl')"
  shows "vinv n cl'"
proof -
  note ci = vinvD(1)[OF inv]
  obtain e p args rf reply where k: "k < length (threads cl)" and g: "threads cl ! k = VoteCalling e p args"
    and r: "RequestVote now args (servers cl ! p) = Inr (rf, reply)"
    and cl': "cl' = (set_thread k (VoteReturned e p args reply) (set_server p rf cl))
        \<lparr>h_votes := (if rvr_VoteGranted reply then (p, rv_Term args, rv_CandidateId args) # h_votes cl else h_votes cl)\<rparr>"
    using st by (auto simp: vote_deliver_def go_simps split: if_splits goroutine.splits)
  have vt: "p \<notin> set (h_el_voters (elections cl ! e))" "rv_Term args = h_el_term (elections cl ! e)"
      "rv_CandidateId args = int (el_server (elections cl ! e))"
    and e: "e < length (elections cl)" and p: "p < n"
    using vinvD(4)[OF inv k] cinvD(6)[OF ci k] g by auto
  obtain rf2 reply2 where r2: "RequestVote now args (servers cl ! p) = Inr (rf2, reply2)" "peer_ok n p rf2"
      "evolves (servers cl ! p) rf2"
    using RequestVote_peer[OF cinvD(3)[OF ci p]] by blast
  have ok: "peer_ok n p rf" "evolves (servers cl ! p) rf" using r r2 by auto
  note ne = peer_okD(5)[OF cinvD(3)[OF ci p]]
  have v1: "vinv n (set_server p rf cl)"
    using RequestVote_leader[OF ne r] by (intro vinv_set_server[OF inv p ok])
  let ?cl1 = "(set_server p rf cl)\<lparr>h_votes := (if rvr_VoteGranted reply
      then (p, rv_Term args, rv_CandidateId args) # h_votes (set_server p rf cl) else h_votes (set_server p rf cl))\<rparr>"
  have v2: "vinv n ?cl1"
    using v1 vinv_add_vote[OF v1 p, of "rv_CandidateId args" "rv_Term args"] vt(3)
      RequestVote_granted[OF ne r] p cinvD(1)[OF ci]
    by (auto simp: set_server_def)
  have "vinv n (set_thread k (VoteReturned e p args reply) ?cl1)"
    using e p g vt by (intro vinv_set_thread[OF v2]) (auto simp: set_server_def)
  moreover have "cl' = set_thread k (VoteReturned e p args reply) ?cl1"
    by (auto simp: cl' set_thread_def set_server_def intro!: cluster.equality)
  ultimately show ?thesis by simp
qed

lemma vote_lose_vinv: "vinv n cl \<Longrightarrow> vote_lose k cl = Some (Inr cl') \<Longrightarrow> vinv n cl'"
  by (auto simp: vote_lose_def split: if_splits goroutine.splits intro!: vinv_set_thread)

text \<open>
  The heart of the argument: a reply is counted at most once per peer, the counted votes
  were all given in the election's term, and a candidate that passes the test
  \<open>2 * grantedCnt > len(rf.peers)\<close> in that term has a majority of its votes.
\<close>

lemma vote_reply_vinv:
  assumes inv: "vinv n cl" and st: "vote_reply k now cl = Some (Inr cl')"
  shows "vinv n cl'"
proof -
  note ci = vinvD(1)[OF inv]
  obtain e p args reply where k: "k < length (threads cl)" and g: "threads cl ! k = VoteReturned e p args reply"
    using st by (auto simp: vote_reply_def split: if_splits goroutine.splits)
  let ?el = "elections cl ! e"
  let ?s = "el_server ?el" and ?t = "h_el_term ?el"
  have vt: "p \<notin> set (h_el_voters ?el)" "rv_Term args = ?t"
      "rvr_VoteGranted reply \<Longrightarrow> (p, ?t, int ?s) \<in> set (h_votes cl)"
    and e: "e < length (elections cl)" and p: "p < n"
    using vinvD(4)[OF inv k] cinvD(6)[OF ci k] g by auto
  note s = cinvD(4)[OF ci e]
  show ?thesis
  proof (cases "election_live cl e")
    case False
    then have "cl' = set_thread k Finished cl" using st k g by (simp add: vote_reply_def)
    then show ?thesis by (auto intro: vinv_set_thread[OF inv])
  next
    case True
    obtain rf cnt where h: "handleVoteReply now args reply (servers cl ! ?s, el_grantedCnt ?el) = (rf, cnt)"
      by (metis surj_pair)
    define el' where "el' = ?el\<lparr>el_grantedCnt := cnt,
        h_el_voters := (if cnt = el_grantedCnt ?el then h_el_voters ?el else p # h_el_voters ?el)\<rparr>"
    define ls where "ls = (if rf_state rf = LEADER \<and> rf_state (servers cl ! ?s) \<noteq> LEADER
        then (rf_currentTerm rf, ?s) # h_leaders cl else h_leaders cl)"
    have cl': "cl' = (set_thread k Finished (set_server ?s rf cl))
        \<lparr>elections := (elections cl)[e := el'], h_leaders := ls\<rparr>"
      using st k g True h by (auto simp: vote_reply_def Let_def el'_def ls_def)
    have ok: "peer_ok n ?s rf" "evolves (servers cl ! ?s) rf"
      using handleVoteReply_peer[OF cinvD(3)[OF ci s] h] handleVoteReply_evolves[OF h] by auto
    note cnt = handleVoteReply_count[OF h]
    have ei: "election_inv cl el'"
      using vinvD(3)[OF inv e] cnt(1) vt(1,3) by (auto simp: election_inv_def el'_def)
    have len: "length (servers cl) = n" by (rule cinvD(1)[OF ci])
    have "cinv n cl'"
      using vote_reply_safe[OF ci, of k now] st by (simp add: safe_step_def)
    moreover have "votes_inv n cl'"
      using votes_inv_set_server[OF vinvD(2)[OF inv] len ok(2)] by (simp add: cl' set_thread_def)
    moreover have "election_inv cl' el" if "el \<in> set (elections cl')" for el
      using that ei inv by (auto simp: cl' vinv_def set_thread_def set_server_def election_inv_def
          dest!: set_update_subset_insert[THEN subsetD])
    moreover have "vote_thread_inv cl' (threads cl' ! a)" if a: "a < length (threads cl')" for a
    proof (cases "a = k")
      case False
      have a': "a < length (threads cl)" using a by (simp add: cl' set_thread_def set_server_def)
      have "vote_key (threads cl ! a) \<noteq> Some (e, p)"
        using vinvD(5)[OF inv] a' k g False unfolding unique_keys_def by (metis option.distinct(1) vote_key.simps(3))
      then show ?thesis
        using vinvD(4)[OF inv a'] False e
        by (cases "threads cl ! a") (auto simp: cl' set_thread_def set_server_def el'_def nth_list_update)
    qed (use a in \<open>simp add: cl' set_thread_def set_server_def\<close>)
    moreover have "keys_inv (threads cl')"
      using unique_keys_update[OF vinvD(5)[OF inv], of Finished k] by (simp add: cl' set_thread_def set_server_def)
    moreover have "leaders_inv n cl'"
    proof (cases "rf_state rf = LEADER \<and> rf_state (servers cl ! ?s) \<noteq> LEADER")
      case True
      then have win: "rf_currentTerm rf = ?t" "int n < 2 * cnt"
        using cnt(2) vt(2) peer_okD(3)[OF cinvD(3)[OF ci s]] by auto
      have vs: "\<forall>v\<in>set (h_el_voters el'). (v, ?t, int ?s) \<in> set (h_votes cl)"
        using ei by (auto simp: election_inv_def el'_def)
      then have "set (h_el_voters el') \<subseteq> {..<n}"
        using vinvD(2)[OF inv] unfolding votes_inv_def by blast
      moreover have "distinct (h_el_voters el')" "cnt = int (length (h_el_voters el'))"
        using ei by (simp_all add: election_inv_def el'_def)
      ultimately have "majority n (set (h_el_voters el'))" and "\<forall>v\<in>set (h_el_voters el'). (v, ?t, int ?s) \<in> set (h_votes cl)"
        using win(2) vs by (auto intro!: majority_of_count)
      then show ?thesis
        using vinvD(6)[OF inv] True win(1) len s
        by (auto simp: leaders_inv_def cl' ls_def set_thread_def set_server_def nth_list_update)
    next
      case False
      then have "leaders_inv n (set_server ?s rf cl)"
        by (intro leaders_inv_set_server[OF vinvD(6)[OF inv] _ ok(2) len]) auto
      moreover have "ls = h_leaders cl" using False by (simp add: ls_def)
      ultimately show ?thesis by (simp add: cl' set_thread_def leaders_inv_def set_server_def)
    qed
    ultimately show ?thesis by (auto simp: vinv_def in_set_conv_nth)
  qed
qed

text \<open>The steps that have nothing to do with votes.\<close>

lemma vote_thread_inv_other: "vote_key g = None \<Longrightarrow> vote_thread_inv cl g"
  by (cases g) auto

lemma vinv_set_other: "vinv n cl \<Longrightarrow> thread_inv n cl g \<Longrightarrow> vote_key g = None \<Longrightarrow> vinv n (set_thread k g cl)"
  by (rule vinv_set_thread) (auto intro: vote_thread_inv_other)

lemma vinv_rounds: "vinv n cl \<Longrightarrow> cinv n (cl\<lparr>rounds := rs\<rparr>) \<Longrightarrow> vinv n (cl\<lparr>rounds := rs\<rparr>)"
  by (simp add: vinv_def)

lemma vinv_incs: "vinv n cl \<Longrightarrow> cinv n (cl\<lparr>incs := js\<rparr>) \<Longrightarrow> vinv n (cl\<lparr>incs := js\<rparr>)"
  by (simp add: vinv_def)


lemma vinv_add_threads:
  "vinv n cl \<Longrightarrow> cinv n (cl\<lparr>threads := threads cl @ gs\<rparr>) \<Longrightarrow> (\<And>g. g \<in> set gs \<Longrightarrow> vote_key g = None) \<Longrightarrow>
   vinv n (cl\<lparr>threads := threads cl @ gs\<rparr>)"
  by (auto simp: vinv_def intro: unique_keys_append_other vote_thread_inv_other)

lemma beat_vinv:
  assumes inv: "vinv n cl" and st: "beat i cl = Some (Inr cl')"
  shows "vinv n cl'"
proof -
  have ci: "cinv n cl'" using beat_safe[OF vinvD(1)[OF inv], of i] st by (simp add: safe_step_def)
  obtain h where h: "sendHeartbeat (servers cl ! i) = Inr h"
    using st by (auto simp: beat_def go_simps split: if_splits)
  show ?thesis
  proof (cases h)
    case None
    with st h inv show ?thesis by (simp add: beat_def split: if_splits)
  next
    case (Some hb)
    let ?cl = "cl\<lparr>rounds := rounds cl @ [\<lparr>hr_server = i, hr_inc = incs cl ! i, hr_hb = hb, hr_replCount = 1\<rparr>]\<rparr>"
    let ?gs = "map (HeartReady (length (rounds cl))) (rev (other_peers (servers cl ! i)))"
    have cl': "cl' = ?cl\<lparr>threads := threads ?cl @ ?gs\<rparr>"
      using st h Some by (auto simp: beat_def split: if_splits intro!: cluster.equality)
    have "cinv n ?cl" using ci unfolding cl' by (auto simp: cinv_def)
    then have "vinv n ?cl" by (rule vinv_rounds[OF inv])
    then show ?thesis using ci unfolding cl' by (intro vinv_add_threads) auto
  qed
qed

lemma heart_build_vinv:
  assumes inv: "vinv n cl" and st: "heart_build k cl = Some (Inr cl')"
  shows "vinv n cl'"
proof -
  have ci: "cinv n cl'" using heart_build_safe[OF vinvD(1)[OF inv], of k] st by (simp add: safe_step_def)
  obtain g where g: "cl' = set_thread k g cl" "vote_key g = None" and k: "k < length (threads cl)"
    using st by (auto simp: heart_build_def go_simps split: if_splits goroutine.splits option.splits)
  have "thread_inv n cl g"
    using cinvD(6)[OF ci, of k] k unfolding g(1) by (simp add: set_thread_def)
  then show ?thesis unfolding g(1) by (rule vinv_set_other[OF inv _ g(2)])
qed

lemma heart_deliver_vinv:
  assumes inv: "vinv n cl" and st: "heart_deliver k now cl = Some (Inr cl')"
  shows "vinv n cl'"
proof -
  note ci = vinvD(1)[OF inv]
  have ci': "cinv n cl'" using heart_deliver_safe[OF ci, of k now] st by (simp add: safe_step_def)
  obtain r p args rf reply where k: "k < length (threads cl)" and g: "threads cl ! k = HeartCalling r p args"
    and d: "AppendEntries now args (servers cl ! p) = Inr (rf, reply)"
    and cl': "cl' = set_thread k (HeartReturned r p args reply) (set_server p rf cl)"
    using st by (auto simp: heart_deliver_def go_simps split: if_splits goroutine.splits)
  have p: "p < n" and args: "args_ok args" using cinvD(6)[OF ci k] g by (auto simp: call_inv_def)
  have prev: "0 \<le> ae_PrevLogIndex args" using args by (simp add: args_ok_def)
  obtain rf2 reply2 where "AppendEntries now args (servers cl ! p) = Inr (rf2, reply2)" "peer_ok n p rf2"
      "evolves (servers cl ! p) rf2"
    using AppendEntries_peer[OF cinvD(3)[OF ci p] args] by blast
  then have "vinv n (set_server p rf cl)"
    using d AppendEntries_leader[OF prev d] by (intro vinv_set_server[OF inv p]) auto
  moreover have "thread_inv n (set_server p rf cl) (HeartReturned r p args reply)"
    using cinvD(6)[OF ci', of k] k unfolding cl' by (simp add: set_thread_def set_server_def)
  ultimately show ?thesis unfolding cl' by (rule vinv_set_other) simp
qed

lemma heart_finish_vinv:
  assumes inv: "vinv n cl" and call: "call_inv n cl r p args" and rep: "ok \<Longrightarrow> reply_ok args reply"
    and k: "k < length (threads cl)" and st: "heart_finish k r p args ok reply cl = Inr cl'"
  shows "vinv n cl'"
proof (cases "round_live cl r")
  case True
  note ci = vinvD(1)[OF inv]
  let ?hr = "rounds cl ! r"
  let ?s = "hr_server ?hr"
  have ci': "cinv n cl'" using heart_finish_safe[OF ci call, of ok reply k] rep st by auto
  obtain rf cnt ex where h: "handleAppendReply (hr_hb ?hr) p args ok reply (servers cl ! ?s, hr_replCount ?hr) = Inr ((rf, cnt), ex)"
    and cl': "cl' = (set_thread k (case ex of Return \<Rightarrow> Finished | Again \<Rightarrow> HeartReady r p) (set_server ?s rf cl))
        \<lparr>rounds := (rounds cl)[r := ?hr\<lparr>hr_replCount := cnt\<rparr>]\<rparr>"
    using st True by (auto simp: heart_finish_def Let_def go_simps)
  have r: "r < length (rounds cl)" and p: "p < n" using call by (auto simp: call_inv_def)
  have s: "?s < n" using cinvD(5)[OF ci r] by (simp add: round_inv_def)
  obtain rf2 cnt2 ex2 where
      "handleAppendReply (hr_hb ?hr) p args ok reply (servers cl ! ?s, hr_replCount ?hr) = Inr ((rf2, cnt2), ex2)"
      "peer_ok n ?s rf2" "evolves (servers cl ! ?s) rf2"
    using handleAppendReply_peer[OF cinvD(3)[OF ci s] p, of "hr_hb ?hr" args ok reply "hr_replCount ?hr"]
      call True rep by (auto simp: call_inv_def)
  then have "vinv n (set_server ?s rf cl)"
    using h handleAppendReply_leader[OF h] by (intro vinv_set_server[OF inv s]) auto
  moreover have "thread_inv n (set_server ?s rf cl) (case ex of Return \<Rightarrow> Finished | Again \<Rightarrow> HeartReady r p)"
    using r p by (cases ex) (auto simp: set_server_def)
  moreover have "vote_key (case ex of Return \<Rightarrow> Finished | Again \<Rightarrow> HeartReady r p) = None"
    by (cases ex) auto
  ultimately have "vinv n (set_thread k (case ex of Return \<Rightarrow> Finished | Again \<Rightarrow> HeartReady r p) (set_server ?s rf cl))"
    by (rule vinv_set_other)
  then show ?thesis using ci' unfolding cl' by (rule vinv_rounds)
qed (use st inv in \<open>auto simp: heart_finish_def intro: vinv_set_other\<close>)

lemma heart_reply_vinv: "vinv n cl \<Longrightarrow> heart_reply k cl = Some (Inr cl') \<Longrightarrow> vinv n cl'"
  using heart_finish_vinv[where n = n and cl = cl and ok = True and k = k] cinvD(6)[OF vinvD(1)[of n cl], of k]
  by (auto simp: heart_reply_def split: if_splits goroutine.splits)

lemma heart_lose_vinv: "vinv n cl \<Longrightarrow> heart_lose k cl = Some (Inr cl') \<Longrightarrow> vinv n cl'"
  using heart_finish_vinv[where n = n and cl = cl and ok = False and k = k] cinvD(6)[OF vinvD(1)[of n cl], of k]
  by (auto simp: heart_lose_def split: if_splits goroutine.splits)

lemma client_start_vinv:
  assumes inv: "vinv n cl" and "client_start i c cl = Some (Inr cl')"
  shows "vinv n cl'"
proof -
  have i: "i < n" and cl': "cl' = set_server i (fst (Start c (servers cl ! i))) cl"
    using assms cinvD(1)[OF vinvD(1)[OF inv]] by (auto simp: client_start_def split: if_splits)
  show ?thesis
    unfolding cl'
    by (intro vinv_set_server[OF inv i Start_peer[OF cinvD(3)[OF vinvD(1)[OF inv] i]] Start_evolves])
      (auto simp: Start_def Let_def split: if_splits)
qed

lemma apply_committed_vinv:
  assumes inv: "vinv n cl" and st: "apply_committed i cl = Some (Inr cl')"
  shows "vinv n cl'"
proof -
  note ci = vinvD(1)[OF inv]
  obtain rf where i: "i < n" and a: "checkApply (servers cl ! i) = Inr rf" and cl': "cl' = set_server i rf cl"
    using st cinvD(1)[OF ci] by (auto simp: apply_committed_def go_simps split: if_splits)
  have "peer_ok n i rf"
    using cinvD(3)[OF apply_committed_cinv[OF ci st] i] i cinvD(1)[OF ci] by (simp add: cl' set_server_def)
  then show ?thesis
    unfolding cl' using checkApply_evolves[OF a] checkApply_frame[OF a] by (intro vinv_set_server[OF inv i]) auto
qed

lemma restart_vinv:
  assumes inv: "vinv n cl" and st: "restart i now rnd cl = Some (Inr cl')"
  shows "vinv n cl'"
proof -
  note ci = vinvD(1)[OF inv]
  have ci': "cinv n cl'" using restart_safe[OF ci, of i now rnd] st by (simp add: safe_step_def)
  obtain rf where i: "i < n" and m: "Make n (int i) (start1_saved (rf_persister (servers cl ! i))) now rnd = Inr rf"
    and cl': "cl' = (set_server i rf cl)\<lparr>incs := (incs cl)[i := Suc (incs cl ! i)]\<rparr>"
    using st cinvD(1)[OF ci] by (auto simp: restart_def go_simps split: if_splits)
  note ok = cinvD(3)[OF ci i]
  obtain rf2 where "Make n (int i) (start1_saved (rf_persister (servers cl ! i))) now rnd = Inr rf2" "peer_ok n i rf2"
      "evolves (servers cl ! i) rf2"
    using Make_peer_restart[OF ok] by blast
  moreover have "rf_state rf = rf_state (servers cl ! i)"
    using m Make_restart[OF peer_okD(2)[OF ok], of n "int i" now rnd] by auto
  ultimately have "vinv n (set_server i rf cl)"
    using m by (intro vinv_set_server[OF inv i]) auto
  then show ?thesis using ci' unfolding cl' by (rule vinv_incs)
qed

lemmas step_vinv =
  tick_vinv vote_build_vinv vote_deliver_vinv vote_lose_vinv vote_reply_vinv beat_vinv heart_build_vinv
  heart_deliver_vinv heart_reply_vinv heart_lose_vinv client_start_vinv apply_committed_vinv restart_vinv

lemma cstep_vinv: "vinv n cl \<Longrightarrow> prompt cl a \<Longrightarrow> cstep a cl = Some (Inr cl') \<Longrightarrow> vinv n cl'"
  by (cases a) (auto intro: step_vinv)

lemma fresh_vinv:
  assumes "length rfs = n" and "\<forall>i<n. \<exists>now rnd. Make n (int i) MakePersister now rnd = Inr (rfs ! i)"
  shows "vinv n (fresh_cluster rfs)"
proof -
  have "rf_state (rfs ! i) \<noteq> LEADER" if "i < n" for i
  proof -
    obtain now rnd where m: "Make n (int i) MakePersister now rnd = Inr (rfs ! i)"
      using assms(2) \<open>i < n\<close> by blast
    have "rf_state rf = FOLLOWER" if "Make n (int i) MakePersister now rnd = Inr rf" for rf :: "'a Raft"
      using that by (auto simp: Make_fresh)
    from this[OF m] show ?thesis by simp
  qed
  with fresh_cinv[OF assms] show ?thesis
    by (auto simp: vinv_def votes_inv_def leaders_inv_def unique_keys_def fresh_cluster_def)
qed

lemma creach_vinv: "creach prompt n cl \<Longrightarrow> vinv n cl"
  by (induction rule: creach.induct) (auto intro: fresh_vinv cstep_vinv)


section \<open>One leader per term\<close>

lemma leaders_unique:
  assumes "vinv n cl" and "(t, i) \<in> set (h_leaders cl)" and "(t, j) \<in> set (h_leaders cl)"
  shows "i = j"
proof -
  note inv = vinvD[OF assms(1)]
  obtain A B where A: "majority n A" "\<forall>v\<in>A. (v, t, int i) \<in> set (h_votes cl)"
    and B: "majority n B" "\<forall>v\<in>B. (v, t, int j) \<in> set (h_votes cl)"
    using inv(6) assms(2,3) unfolding leaders_inv_def by blast
  have "int i = int j"
  proof (rule maj.unique_winner[OF _ A(1) _ B(1)])
    fix v c c' assume "(v, t, c) \<in> set (h_votes cl)" "(v, t, c') \<in> set (h_votes cl)"
    then show "c = c'" using inv(2) unfolding votes_inv_def by blast
  qed (use A(2) B(2) in blast)+
  then show ?thesis by simp
qed

lemma leading_recorded:
  "vinv n cl \<Longrightarrow> i < n \<Longrightarrow> rf_state (servers cl ! i) = LEADER \<Longrightarrow> (rf_currentTerm (servers cl ! i), i) \<in> set (h_leaders cl)"
  by (drule vinvD(6)) (simp add: leaders_inv_def)

text \<open>The record of the leaders only grows.\<close>

lemma cstep_leaders: "cstep a cl = Some (Inr cl') \<Longrightarrow> set (h_leaders cl) \<subseteq> set (h_leaders cl')"
  by (cases a)
    (auto simp: tick_def vote_build_def vote_deliver_def vote_lose_def vote_reply_def beat_def heart_build_def heart_deliver_def
      heart_reply_def heart_lose_def heart_finish_def client_start_def apply_committed_def restart_def set_thread_def set_server_def
      go_simps Let_def split: if_splits option.splits goroutine.splits prod.splits)

lemma crun_leaders: "crun sched as cl = Some cl' \<Longrightarrow> set (h_leaders cl) \<subseteq> set (h_leaders cl')"
proof (induction as arbitrary: cl)
  case (Cons a as)
  then obtain cl1 where "cstep a cl = Some (Inr cl1)" "crun sched as cl1 = Some cl'"
    by (auto split: if_splits option.splits sum.splits)
  then show ?case using Cons.IH cstep_leaders by blast
qed simp

end
