(* ===== verification/Raft_Log.thy ===== *)
theory Raft_Log
  imports Raft_Peer
begin

text \<open>
  Log replication between one leader and one follower: what an accepted request leaves in
  the follower's log, that a delayed request never removes entries that agree with it,
  how far the follower may move its commit index, and that the back-up protocol of
  \<open>XLen\<close>, \<open>XTerm\<close> and \<open>XIndex\<close> brings the two logs together in a bounded number of
  exchanges.
\<close>

section \<open>Logs that match\<close>

text \<open>Two logs match when they agree up to every index at which their terms agree.\<close>

definition log_matching :: "'c LogEntry list \<Rightarrow> 'c LogEntry list \<Rightarrow> bool" where
  "log_matching l1 l2 \<longleftrightarrow>
     (\<forall>i < min (length l1) (length l2). le_Term (l1 ! i) = le_Term (l2 ! i) \<longrightarrow> take (Suc i) l1 = take (Suc i) l2)"

lemma log_matching_take: "log_matching l1 l2 \<Longrightarrow> log_matching (take n l1) l2"
  by (auto simp: log_matching_def min_def)

lemma log_matching_of_take_eq:
  assumes "take m l1 = take m l2" and "m = length l1 \<or> m = length l2"
  shows "log_matching l1 l2"
proof -
  have "take (Suc i) l1 = take (Suc i) l2" if "i < length l1" "i < length l2" for i
    using assms that by (intro take_eq_mono[OF assms(1)]) auto
  then show ?thesis by (auto simp: log_matching_def)
qed

text \<open>
  The request \<open>args\<close> carries a piece of the log \<open>lg\<close>: its \<open>PrevLogTerm\<close> is the term
  there and its entries are what follows.
\<close>

definition carries :: "'c AppendEntriesArgs \<Rightarrow> 'c LogEntry list \<Rightarrow> bool" where
  "carries args lg \<longleftrightarrow> 0 \<le> ae_PrevLogIndex args \<and>
     ae_PrevLogIndex args + go_len (ae_Entries args) < go_len lg \<and>
     ae_PrevLogTerm args = le_Term (lg ! nat (ae_PrevLogIndex args)) \<and>
     ae_Entries args = take (length (ae_Entries args)) (drop (Suc (nat (ae_PrevLogIndex args))) lg)"

lemma take_of_carried:
  assumes "carries args lg"
  defines "k \<equiv> Suc (nat (ae_PrevLogIndex args))"
  shows "take (k + length (ae_Entries args)) lg = take k lg @ ae_Entries args"
    and "k + length (ae_Entries args) \<le> length lg"
proof -
  have "ae_Entries args = take (length (ae_Entries args)) (drop k lg)"
    using assms by (simp add: carries_def)
  then show "take (k + length (ae_Entries args)) lg = take k lg @ ae_Entries args"
    by (simp add: take_add)
  show "k + length (ae_Entries args) \<le> length lg"
    using assms(1) by (auto simp: carries_def k_def go_len_def)
qed

text \<open>
  Acceptance makes the follower's log agree with the leader's up to the last entry sent,
  and the two logs still match.
\<close>

lemma stored_agrees:
  assumes c: "carries args L" and m: "log_matching lg L" and p: "ae_PrevLogIndex args < go_len lg"
    and t: "le_Term (lg ! nat (ae_PrevLogIndex args)) = ae_PrevLogTerm args"
  defines "k \<equiv> Suc (nat (ae_PrevLogIndex args))" and "es \<equiv> ae_Entries args"
  shows "take (k + length es) (stored args lg) = take (k + length es) L"
    and "log_matching (stored args lg) L"
    and "k + length es \<le> length (stored args lg)"
proof -
  note L = take_of_carried[OF c, folded k_def es_def]
  have np: "nat (ae_PrevLogIndex args) < length lg" "nat (ae_PrevLogIndex args) < length L"
    using p c L(2) by (auto simp: k_def go_len_def carries_def nat_less_iff)
  then have pre: "take k lg = take k L"
    using m t c by (auto simp: log_matching_def carries_def k_def)
  show agree: "take (k + length es) (stored args lg) = take (k + length es) L"
  proof (cases "es \<noteq> [] \<and> k + length es < length lg \<and> map le_Term (take (length es) (drop k lg)) = map le_Term es")
    case True
    let ?j = "nat (ae_PrevLogIndex args) + length es"
    have "le_Term (take (length es) (drop k lg) ! (length es - 1)) = le_Term (es ! (length es - 1))"
      using True by (metis diff_less length_greater_0_conv length_map nth_map zero_less_one)
    moreover have "es ! (length es - 1) = L ! ?j"
    proof -
      have "(take (k + length es) L) ! ?j = es ! (length es - 1)"
        unfolding L(1) using True np by (auto simp: nth_append k_def)
      then show ?thesis by (simp add: k_def)
    qed
    ultimately have "le_Term (lg ! ?j) = le_Term (L ! ?j)"
      using True by (simp add: k_def) (metis Suc_pred add_Suc_right add_Suc_shift length_greater_0_conv)
    moreover have "?j < length lg" "?j < length L" using True L(2) by (auto simp: k_def)
    ultimately have "take (Suc ?j) lg = take (Suc ?j) L" using m by (auto simp: log_matching_def)
    then show ?thesis using True by (auto simp: stored_def Let_def k_def es_def)
  next
    case False
    then show ?thesis
      using pre L(1) by (auto simp: stored_def Let_def k_def es_def)
  qed
  show len: "k + length es \<le> length (stored args lg)"
    using np by (auto simp: stored_def Let_def k_def es_def)
  show "log_matching (stored args lg) L"
  proof (cases "stored args lg = lg")
    case False
    then have "length (stored args lg) = k + length es"
      using np by (auto simp: stored_def Let_def k_def es_def split: if_splits)
    then show ?thesis using agree by (intro log_matching_of_take_eq) auto
  qed (use m in simp)
qed

text \<open>
  A request that has been overtaken - everything it carries is already in place - leaves
  the follower's log alone.
\<close>

lemma stored_overtaken:
  assumes c: "carries args L" and "take m lg = take m L"
    and "nat (ae_PrevLogIndex args) + length (ae_Entries args) < m" and "m \<le> length lg"
  shows "stored args lg = lg"
proof -
  let ?k = "Suc (nat (ae_PrevLogIndex args))"
  note L = take_of_carried[OF c]
  have eq: "take (?k + length (ae_Entries args)) lg = take (?k + length (ae_Entries args)) L"
    using assms(2,3) by (intro take_eq_mono[OF assms(2)]) simp
  have "take ?k lg = take ?k L" using assms(2,3) by (intro take_eq_mono[OF assms(2)]) simp
  then have app: "take (?k + length (ae_Entries args)) lg = take ?k lg @ ae_Entries args"
    using eq L(1) by simp
  then have "take (length (ae_Entries args)) (drop ?k lg) = ae_Entries args"
    unfolding take_add by (simp only: same_append_eq)
  moreover have "take ?k lg @ ae_Entries args = lg" if "\<not> ?k + length (ae_Entries args) < length lg"
    using app that by simp
  ultimately show ?thesis by (auto simp: stored_def Let_def)
qed

section \<open>Catching up\<close>

text \<open>
  One iteration of the goroutine that \<open>sendHeartbeat\<close> starts for peer \<open>i\<close> when nothing
  else touches the two peers and no message is lost, and its loop, with the number of
  iterations bounded by the first argument.
\<close>

definition exchange ::
  "HeartbeatRound \<Rightarrow> nat \<Rightarrow> int \<Rightarrow> 'c Raft \<times> int \<Rightarrow> 'c Raft \<Rightarrow> ((('c Raft \<times> int) \<times> loop_exit) \<times> 'c Raft) go" where
  "exchange hb i now = (\<lambda>(rf, replCount) fol.
     go_bind (appendEntriesArgs hb i rf) (\<lambda>a.
       case a of
         None \<Rightarrow> Inr (((rf, replCount), Return), fol)
       | Some args \<Rightarrow>
           go_bind (AppendEntries now args fol) (\<lambda>(fol', reply).
           go_bind (handleAppendReply hb i args True reply (rf, replCount)) (\<lambda>r. Inr (r, fol')))))"

fun catch_up ::
  "nat \<Rightarrow> HeartbeatRound \<Rightarrow> nat \<Rightarrow> int \<Rightarrow> 'c Raft \<times> int \<Rightarrow> 'c Raft \<Rightarrow> (('c Raft \<times> int) \<times> 'c Raft) go option" where
  "catch_up 0 hb i now st fol = None"
| "catch_up (Suc n) hb i now st fol =
     (case exchange hb i now st fol of
        Inl p \<Rightarrow> Some (Inl p)
      | Inr ((st', Return), fol') \<Rightarrow> Some (Inr (st', fol'))
      | Inr ((st', Again), fol') \<Rightarrow> catch_up n hb i now st' fol')"

text \<open>
  What the loop decreases: a conflict shortens the follower's log, and a log found too
  short is not too short in the next iteration.
\<close>

definition distance :: "nat \<Rightarrow> 'c Raft \<Rightarrow> 'c Raft \<Rightarrow> nat" where
  "distance i rf fol = 2 * length (rf_log fol) + (if go_len (rf_log fol) < rf_nextIndex rf ! i then 1 else 0)"

definition leads :: "HeartbeatRound \<Rightarrow> nat \<Rightarrow> 'c Raft \<Rightarrow> 'c Raft \<Rightarrow> bool" where
  "leads hb i rf fol \<longleftrightarrow> raft_ok rf \<and> rf_state rf = LEADER \<and> hb_currentTerm hb = rf_currentTerm rf \<and>
     round_ok hb rf \<and> i < rf_peers rf \<and> raft_ok fol \<and> rf_currentTerm fol \<le> rf_currentTerm rf \<and>
     log_matching (rf_log fol) (rf_log rf)"

lemma appendEntriesArgs_carries:
  assumes l: "leads hb i rf fol"
  obtains args where "appendEntriesArgs hb i rf = Inr (Some args)" "args_ok args" "args_fit args rf"
    "ae_Term args = rf_currentTerm rf" "ae_PrevLogIndex args + 1 = rf_nextIndex rf ! i"
    "carries args (rf_log rf)" "hb_currentLogLen hb \<le> ae_PrevLogIndex args + 1 + go_len (ae_Entries args)"
    "ae_LeaderCommit args = hb_currentCommitIndex hb"
proof -
  let ?ni = "rf_nextIndex rf ! i" and ?lg = "rf_log rf"
  from l have ok: "raft_ok rf" and ld: "rf_state rf = LEADER" "hb_currentTerm hb = rf_currentTerm rf"
    and rd: "round_ok hb rf" and i: "i < rf_peers rf" by (auto simp: leads_def)
  have ni: "1 \<le> ?ni" "?ni \<le> go_len ?lg" using raft_okD(5)[OF ok ld(1) i] by auto
  have idx: "go_index (rf_nextIndex rf) (int i) = Inr ?ni"
    using raft_okD(3)[OF ok] i by (intro trans[OF go_index_in]) (auto simp: go_len_def)
  have e: "go_index ?lg (?ni - 1) = Inr (?lg ! nat (?ni - 1))" using ni by (intro go_index_in) auto
  define es where "es = (if ?ni < hb_currentLogLen hb then drop (nat ?ni) (take (nat (hb_currentLogLen hb)) ?lg) else [])"
  define args where "args = \<lparr>ae_Term = hb_currentTerm hb, ae_LeaderId = rf_me rf,
                    ae_PrevLogIndex = ?ni - 1, ae_PrevLogTerm = le_Term (?lg ! nat (?ni - 1)),
                    ae_Entries = es, ae_LeaderCommit = hb_currentCommitIndex hb\<rparr>"
  have built: "appendEntriesArgs hb i rf = Inr (Some args)"
    using ld rd ni by (auto simp: appendEntriesArgs_def idx e args_def es_def go_slice_def round_ok_def Let_def)
  have facts: "args_ok args" "args_fit args rf" "ae_Term args = rf_currentTerm rf"
    using appendEntriesArgs_ok[OF ok rd i] built by auto
  have len: "hb_currentLogLen hb \<le> ?ni + go_len es" "?ni + go_len es \<le> go_len ?lg"
    using ni rd by (auto simp: es_def round_ok_def go_len_def nat_le_iff min_def)
  have "es = take (length es) (drop (nat ?ni) ?lg)"
    by (auto simp: es_def drop_take min_def)
  moreover have "Suc (nat (?ni - 1)) = nat ?ni" using ni by simp
  ultimately have "carries args ?lg"
    using ni len by (simp add: carries_def args_def)
  with built facts len show ?thesis by (intro that[of args]) (auto simp: args_def)
qed

lemma handleAppendReply_success:
  assumes l: "leads hb i rf fol" and p: "ae_PrevLogIndex args + 1 = rf_nextIndex rf ! i" and s: "aer_Success reply"
  shows "\<exists>rf'. handleAppendReply hb i args True reply (rf, cnt) = Inr ((rf', cnt + 1), Return) \<and>
     rf_log rf' = rf_log rf \<and> rf_matchIndex rf' ! i = ae_PrevLogIndex args + go_len (ae_Entries args) \<and>
     rf_nextIndex rf' ! i = rf_matchIndex rf' ! i + 1"
proof -
  from l have ok: "raft_ok rf" and ld: "rf_state rf = LEADER" "hb_currentTerm hb = rf_currentTerm rf"
    and i: "i < rf_peers rf" by (auto simp: leads_def)
  have "go_index (rf_nextIndex rf) (int i) = Inr (rf_nextIndex rf ! i)"
      "go_set (rf_nextIndex rf) (int i) v = Inr ((rf_nextIndex rf)[i := v])"
      "go_set (rf_matchIndex rf) (int i) v = Inr ((rf_matchIndex rf)[i := v])" for v
    using i raft_okD(3,4)[OF ok] by (simp_all add: go_set_def go_index_def go_len_def)
  then show ?thesis
    using ld p s i raft_okD(3,4)[OF ok] by (simp add: handleAppendReply_def Let_def)
qed

lemma handleAppendReply_backup:
  assumes l: "leads hb i rf fol" and p: "ae_PrevLogIndex args + 1 = rf_nextIndex rf ! i"
    and s: "\<not> aer_Success reply" "aer_Term reply = rf_currentTerm rf"
  shows "handleAppendReply hb i args True reply (rf, cnt) =
     Inr ((rf\<lparr>rf_nextIndex := (rf_nextIndex rf)[i := backup_nextIndex reply (rf_log rf)]\<rparr>, cnt), Again)"
proof -
  from l have ok: "raft_ok rf" and ld: "rf_state rf = LEADER" "hb_currentTerm hb = rf_currentTerm rf"
    and i: "i < rf_peers rf" by (auto simp: leads_def)
  have "go_index (rf_nextIndex rf) (int i) = Inr (rf_nextIndex rf ! i)"
      "go_set (rf_nextIndex rf) (int i) v = Inr ((rf_nextIndex rf)[i := v])" for v
    using i raft_okD(3,4)[OF ok] by (simp_all add: go_set_def go_index_def go_len_def)
  then show ?thesis using ld p s by (simp add: handleAppendReply_def)
qed

lemma leads_frame:
  assumes "leads hb i rf fol" and "raft_ok fol'" "rf_currentTerm fol' \<le> rf_currentTerm rf"
    "log_matching (rf_log fol') (rf_log rf)" "raft_ok (rf\<lparr>rf_nextIndex := ns\<rparr>)"
  shows "leads hb i (rf\<lparr>rf_nextIndex := ns\<rparr>) fol'"
  using assms by (simp add: leads_def round_ok_def)

lemma exchange_progress:
  assumes l: "leads hb i rf fol"
  shows "(\<exists>rf' fol'. exchange hb i now (rf, cnt) fol = Inr (((rf', cnt + 1), Return), fol') \<and>
            rf_log rf' = rf_log rf \<and> hb_currentLogLen hb \<le> rf_matchIndex rf' ! i + 1 \<and>
            take (nat (rf_matchIndex rf' ! i + 1)) (rf_log fol') = take (nat (rf_matchIndex rf' ! i + 1)) (rf_log rf)) \<or>
         (\<exists>rf' fol'. exchange hb i now (rf, cnt) fol = Inr (((rf', cnt), Again), fol') \<and>
            leads hb i rf' fol' \<and> rf_log rf' = rf_log rf \<and> distance i rf' fol' < distance i rf fol)"
proof -
  from l have ok: "raft_ok rf" "raft_ok fol" and t: "rf_currentTerm fol \<le> rf_currentTerm rf"
    and m: "log_matching (rf_log fol) (rf_log rf)" and i: "i < rf_peers rf"
    and ld: "rf_state rf = LEADER" by (auto simp: leads_def)
  obtain args where a: "appendEntriesArgs hb i rf = Inr (Some args)" "args_ok args" "args_fit args rf"
    "ae_Term args = rf_currentTerm rf" "ae_PrevLogIndex args + 1 = rf_nextIndex rf ! i"
    "carries args (rf_log rf)" "hb_currentLogLen hb \<le> ae_PrevLogIndex args + 1 + go_len (ae_Entries args)"
    using appendEntriesArgs_carries[OF l] by metis
  obtain fol' reply where fr: "AppendEntries now args fol = Inr (fol', reply)" and ok': "raft_ok fol'"
    using AppendEntries_ok[OF ok(2) a(2)] by blast
  have rok: "reply_ok args reply" by (rule AppendEntries_reply_ok[OF ok(2) a(2) fr])
  have p: "0 \<le> ae_PrevLogIndex args" using a(2) by (simp add: args_ok_def)
  have nt: "\<not> ae_Term args < rf_currentTerm fol" using t a(4) by simp
  have len: "i < length (rf_nextIndex rf)" using i raft_okD(3)[OF ok(1)] by simp
  let ?rf = "rf\<lparr>rf_nextIndex := (rf_nextIndex rf)[i := backup_nextIndex reply (rf_log rf)]\<rparr>"
  have again: "exchange hb i now (rf, cnt) fol = Inr (((?rf, cnt), Again), fol') \<and> raft_ok ?rf"
    if "\<not> aer_Success reply" "aer_Term reply = ae_Term args"
  proof -
    have "handleAppendReply hb i args True reply (rf, cnt) = Inr ((?rf, cnt), Again)"
      using that a(4) by (intro handleAppendReply_backup[OF l a(5)]) auto
    moreover have "raft_ok ?rf"
      using calculation handleAppendReply_ok[OF ok(1) i, of hb args True reply cnt] a(3,4) rok by auto
    ultimately show ?thesis by (simp add: exchange_def a(1) fr)
  qed
  from p show ?thesis
  proof (cases rule: AppendEntries_cases[where rf = fol])
    case stale
    with nt show ?thesis by simp
  next
    case short
    then have e: "fol' = accept_term now (ae_Term args) fol" "reply = AppendEntriesReply0\<lparr>aer_Term := ae_Term args, aer_XLen := go_len (rf_log fol)\<rparr>"
      using fr by (auto simp: AppendEntries_short)
    have "leads hb i ?rf fol'" using again a(4) m ok' e by (intro leads_frame[OF l]) (auto simp: AppendEntriesReply0_def)
    moreover have "distance i ?rf fol' < distance i rf fol"
      using short a(5) len by (auto simp: distance_def e backup_nextIndex_def)
    ultimately show ?thesis using again by (auto simp: e AppendEntriesReply0_def)
  next
    case conflict
    then have e: "rf_log fol' = take (nat (ae_PrevLogIndex args)) (rf_log fol)" "rf_currentTerm fol' = ae_Term args"
        "\<not> aer_Success reply" "aer_Term reply = ae_Term args"
      using fr p by (auto simp: AppendEntries_conflict AppendEntriesReply0_def)
    have "leads hb i ?rf fol'" using again a(4) m ok' e by (intro leads_frame[OF l]) (auto intro: log_matching_take)
    moreover have "length (rf_log fol') < length (rf_log fol)"
      using conflict(2) p by (simp add: e go_len_def nat_less_iff)
    then have "distance i ?rf fol' < distance i rf fol" by (auto simp: distance_def)
    ultimately show ?thesis using again e by auto
  next
    case accept
    then have e: "rf_log fol' = stored args (rf_log fol)" "aer_Success reply"
      using fr p by (auto simp: AppendEntries_accept)
    obtain rf' where h: "handleAppendReply hb i args True reply (rf, cnt) = Inr ((rf', cnt + 1), Return)"
      "rf_log rf' = rf_log rf" "rf_matchIndex rf' ! i = ae_PrevLogIndex args + go_len (ae_Entries args)"
      using handleAppendReply_success[OF l a(5) e(2)] by blast
    have "nat (rf_matchIndex rf' ! i + 1) = Suc (nat (ae_PrevLogIndex args)) + length (ae_Entries args)"
      using p by (simp add: h(3) go_len_def)
    then show ?thesis
      using stored_agrees(1)[OF a(6) m accept(2,3)] a(7) h by (auto simp: exchange_def a(1) fr e(1))
  qed
qed

lemma catch_up_returns:
  assumes "leads hb i rf fol" and "distance i rf fol < n"
  shows "\<exists>rf' fol'. catch_up n hb i now (rf, cnt) fol = Some (Inr ((rf', cnt + 1), fol')) \<and>
     rf_log rf' = rf_log rf \<and> hb_currentLogLen hb \<le> rf_matchIndex rf' ! i + 1 \<and>
     take (nat (rf_matchIndex rf' ! i + 1)) (rf_log fol') = take (nat (rf_matchIndex rf' ! i + 1)) (rf_log rf)"
  using assms
proof (induction n arbitrary: rf fol)
  case (Suc n)
  from exchange_progress[OF Suc.prems(1), of now cnt] show ?case
  proof (elim disjE exE conjE)
    fix rf' fol'
    assume e: "exchange hb i now (rf, cnt) fol = Inr (((rf', cnt), Again), fol')"
      and l: "leads hb i rf' fol'" and s: "rf_log rf' = rf_log rf" and d: "distance i rf' fol' < distance i rf fol"
    from Suc.IH[OF l] d Suc.prems(2) show ?thesis by (simp add: e s)
  qed auto
qed simp
end
