(* ===== verification/Raft_Theorems.thy ===== *)
theory Raft_Theorems
  imports Raft_Election Raft_Log
begin

text \<open>
  What the Raft model guarantees: elections, votes, durability and absence of panics for
  every reachable cluster, and the behaviour of the two RPC handlers and of the apply
  loop for one peer. The schedules below are the concrete runs the witnesses use.
\<close>

section \<open>Two schedules\<close>

text \<open>Server 0 of three is elected in term 1 with the vote of server 2.\<close>

definition one_election :: "unit action list" where
  "one_election = [Tick 0 1000000000 0, VoteBuild 0, VoteDeliver 0 1000000000, VoteReply 0 1000000000]"

text \<open>
  Five servers. Server 3 votes for server 0 in term 1 and server 2 in term 2; the
  request to server 1 is built only in term 2, although the goroutine belongs to the
  election of term 1, so that its vote is added to the votes of term 1.
\<close>

definition late_votes :: "unit action list" where
  "late_votes =
    [Tick 0 1000000000 0, VoteBuild 3, VoteDeliver 3 1000000000, VoteReply 3 1000000000,
     Tick 0 2000000000 0, VoteBuild 2, VoteDeliver 2 2000000000, VoteReply 2 2000000000,
     Tick 3 1000000000 0, Tick 3 2000000000 0,
     VoteBuild 12, VoteDeliver 12 2000000000, VoteReply 12 2000000000,
     VoteBuild 14, VoteDeliver 14 2000000000, VoteReply 14 2000000000]"

definition elected :: "unit cluster" where
  "elected = the (crun prompt one_election (boot_cluster 3))"

lemma elected_reachable: "creach prompt 3 elected"
proof -
  have "crun prompt one_election (boot_cluster 3) \<noteq> None" by code_simp
  then show ?thesis
    unfolding elected_def by (metis crun_creach[OF boot_creach] option.exhaust_sel)
qed

lemma elected_run:
  "h_leaders elected = [(1, 0)]" "map rf_state (servers elected) = [0, 1, 1]"
  "map rf_currentTerm (servers elected) = [1, 0, 1]" "map rf_votedFor (servers elected) = [0, -1, 0]"
  by code_simp+

section \<open>Elections\<close>

text \<open>
  C2. Election safety. In every cluster that can be reached when vote requests are built
  in the term of their election, whatever is delayed, lost, reordered or restarted, a
  term has at most one leader: among all leaders ever elected and among the present ones.
\<close>

theorem election_safety:
  assumes "creach prompt n cl"
  shows "(\<forall>t i j. (t, i) \<in> set (h_leaders cl) \<longrightarrow> (t, j) \<in> set (h_leaders cl) \<longrightarrow> i = j) \<and>
     (\<forall>i j. i < n \<longrightarrow> j < n \<longrightarrow> rf_state (servers cl ! i) = LEADER \<longrightarrow> rf_state (servers cl ! j) = LEADER \<longrightarrow>
        rf_currentTerm (servers cl ! i) = rf_currentTerm (servers cl ! j) \<longrightarrow> i = j)"
proof -
  note inv = creach_vinv[OF assms]
  show ?thesis using leaders_unique[OF inv] leading_recorded[OF inv] by metis
qed

theorem election_safety_witness:
  "creach prompt 3 elected \<and> {j. (1, j) \<in> set (h_leaders elected)} = {0} \<and> 
   {j. j < 3 \<and> rf_state (servers elected ! j) = LEADER \<and> rf_currentTerm (servers elected ! j) = 1} = {0}"
proof -
  have "rf_state (servers elected ! 0) = 0" "rf_currentTerm (servers elected ! 0) = 1" by code_simp+
  moreover have "(1, 0) \<in> set (h_leaders elected)" using elected_run by simp
  ultimately show ?thesis
    using elected_reachable election_safety[OF elected_reachable] by fastforce
qed

text \<open>
  C6. Without that assumption election safety fails. A goroutine of \<open>checkElection\<close>
  builds its request from \<open>rf.currentTerm\<close> at the time it gets the lock, and adds the
  vote to the \<open>grantedCnt\<close> of the election that started it: five servers reach a state
  with two leaders of term 2.
\<close>

theorem late_votes_two_leaders:
  "\<exists>cl :: unit cluster. creach any_schedule 5 cl \<and> set (h_leaders cl) = {(2, 0), (2, 3)} \<and>
     GetState (servers cl ! 0) = (2, True) \<and> GetState (servers cl ! 3) = (2, True)"
proof -
  have "map_option (\<lambda>cl. (h_leaders cl, GetState (servers cl ! 0), GetState (servers cl ! 3)))
      (crun any_schedule late_votes (boot_cluster 5)) = Some ([(2, 3), (2, 0)], (2, True), (2, True))"
    by code_simp
  then obtain cl where "crun any_schedule late_votes (boot_cluster 5) = Some cl"
    and "h_leaders cl = [(2, 3), (2, 0)]" "GetState (servers cl ! 0) = (2, True)" "GetState (servers cl ! 3) = (2, True)"
    by auto
  then show ?thesis using crun_creach[OF boot_creach] by (intro exI[of _ cl]) auto
qed

text \<open>
  C7. Whatever happens in a step, with any scheduling, every peer's term stays or grows,
  and within a term a vote once cast is kept and leadership is only entered from
  candidacy; a leader only appends to its log. Crashes and restarts are steps too.
\<close>

theorem terms_and_votes_stable:
  assumes "creach sched n cl" and "cstep a cl = Some (Inr cl')" and "i < n"
  defines "rf \<equiv> servers cl ! i" and "rf' \<equiv> servers cl' ! i"
  shows "rf_currentTerm rf \<le> rf_currentTerm rf' \<and>
     (rf_currentTerm rf' = rf_currentTerm rf \<longrightarrow> rf_votedFor rf \<noteq> -1 \<longrightarrow> rf_votedFor rf' = rf_votedFor rf) \<and>
     (rf_state rf' = LEADER \<longrightarrow> rf_state rf = LEADER \<or> rf_state rf = CANDIDATE) \<and>
     (rf_state rf = LEADER \<longrightarrow> rf_state rf' = LEADER \<longrightarrow> prefix (rf_log rf) (rf_log rf'))"
  using cstep_evolves[OF creach_cinv[OF assms(1)] assms(2,3)]
  by (auto simp: evolves_def rf_def rf'_def)

theorem terms_and_votes_stable_witness:
  "\<exists>cl'. cstep (Restart 0 5 7) elected = Some (Inr cl') \<and> rf_state (servers cl' ! 0) = LEADER \<and>
     prefix (rf_log (servers elected ! 0)) (rf_log (servers cl' ! 0)) \<and>
     rf_currentTerm (servers elected ! 0) \<le> rf_currentTerm (servers cl' ! 0) \<and> rf_votedFor (servers cl' ! 0) = 0"
proof -
  have "(case cstep (Restart 0 5 7) elected of Some (Inr c) \<Rightarrow>
      rf_state (servers c ! 0) = 0 \<and> rf_currentTerm (servers c ! 0) = 1 | _ \<Rightarrow> False)" by code_simp
  then obtain cl' where c: "cstep (Restart 0 5 7) elected = Some (Inr cl')" "rf_state (servers cl' ! 0) = 0"
      "rf_currentTerm (servers cl' ! 0) = 1"
    by (auto split: option.splits sum.splits)
  have "rf_state (servers elected ! 0) = 0" "rf_currentTerm (servers elected ! 0) = 1" "rf_votedFor (servers elected ! 0) = 0"
    by code_simp+
  then show ?thesis
    using terms_and_votes_stable[OF elected_reachable c(1), of 0] c by auto
qed

section \<open>Panics and restarts\<close>

text \<open>
  C8. No section of the election, replication, client or restart code ever panics: in
  every reachable cluster, with any scheduling, every step other than the delivery of
  committed entries returns.
\<close>

theorem no_panic:
  assumes "creach sched n cl" and "\<not> applies a"
  shows "cstep a cl \<noteq> Some (Inl p)"
  using cstep_safe[OF creach_cinv[OF assms(1)] assms(2)] by (auto simp: safe_step_def)

theorem no_panic_witness:
  "\<not> applies (Beat 0 :: unit action) \<and> cstep (Beat 0) elected \<noteq> None \<and> (\<nexists>p. cstep (Beat 0) elected = Some (Inl p))"
proof -
  have "cstep (Beat 0) elected \<noteq> None" by code_simp
  moreover have "\<not> applies (Beat 0 :: unit action)" by (simp add: applies_def)
  ultimately show ?thesis using no_panic[OF elected_reachable, of "Beat 0"] by blast
qed

section \<open>The handlers\<close>

text \<open>
  C16. A peer grants its vote exactly when the request is not of an older term, the peer
  has not voted for another candidate in that term, and the candidate's log is at least
  as up to date. Then it is a follower of the request's term that has voted for the
  candidate and heard from it just now, the new state is on disk, the reply carries the
  new term, and nothing else has changed. Otherwise the reply carries the peer's term and
  nothing changes, but for one case: a request of the current term that comes too late,
  the vote being another's, from a candidate whose log is at least as up to date doubles
  the election timeout.
\<close>

theorem vote_granted_iff:
  assumes "rf_log rf \<noteq> []" and "RequestVote now args rf = Inr (rf', reply)"
  defines "up \<equiv> le_Term (last (rf_log rf)) < rv_LastLogTerm args \<or>
      le_Term (last (rf_log rf)) = rv_LastLogTerm args \<and> go_len (rf_log rf) - 1 \<le> rv_LastLogIndex args"
  shows "(rvr_VoteGranted reply \<longleftrightarrow>
      (rf_currentTerm rf < rv_Term args \<or>
       rf_currentTerm rf = rv_Term args \<and> rf_votedFor rf \<in> {-1, rv_CandidateId args}) \<and> up) \<and>
     (rvr_VoteGranted reply \<longrightarrow> rvr_Term reply = rv_Term args \<and>
      rf' = rf\<lparr>rf_currentTerm := rv_Term args, rf_votedFor := rv_CandidateId args, rf_state := FOLLOWER,
               rf_lastHeartbeat := now, rf_persister := rf_persister rf'\<rparr> \<and>
      ReadRaftState (rf_persister rf') = image rf' \<and>
      ReadSnapshot (rf_persister rf') = ReadSnapshot (rf_persister rf)) \<and>
     (\<not> rvr_VoteGranted reply \<longrightarrow> rvr_Term reply = rf_currentTerm rf \<and>
      rf' = (if rf_currentTerm rf = rv_Term args \<and> rf_votedFor rf \<notin> {-1, rv_CandidateId args} \<and> up
             then rf\<lparr>rf_electionTimeout := rf_electionTimeout rf * 2\<rparr> else rf))"
proof -
  have up: "up \<longleftrightarrow> newer args (rf_log rf)" by (simp add: up_def newer_def)
  show ?thesis
  proof (cases "votable args rf \<and> newer args (rf_log rf)")
    case True
    then have "rf' = grant now args rf \<and> reply = \<lparr>rvr_Term = rv_Term args, rvr_VoteGranted = True\<rparr>"
      using assms(1,2) by (simp add: RequestVote_eq)
    with True show ?thesis
      by (simp add: up votable_def grant_def persist_def image_def Let_def disk.load_save)
  next
    case False
    then have "\<not> rvr_VoteGranted reply \<and> rvr_Term reply = rf_currentTerm rf \<and>
      rf' = (if rv_Term args = rf_currentTerm rf \<and> \<not> votable args rf \<and> up
             then rf\<lparr>rf_electionTimeout := rf_electionTimeout rf * 2\<rparr> else rf)"
      using assms(1,2) by (auto simp: RequestVote_eq up split: if_splits)
    with False show ?thesis by (auto simp: up votable_def)
  qed
qed

theorem vote_granted_iff_witness:
  "\<exists>rf' reply. RequestVote 9 \<lparr>rv_Term = 1, rv_CandidateId = 2, rv_LastLogIndex = 0, rv_LastLogTerm = 0\<rparr>
      (new_peer 3 1 :: unit Raft) = Inr (rf', reply) \<and> rvr_VoteGranted reply \<and> rf_votedFor rf' = 2"
proof -
  let ?a = "\<lparr>rv_Term = 1, rv_CandidateId = 2, rv_LastLogIndex = 0, rv_LastLogTerm = 0\<rparr>"
  have ne: "rf_log (new_peer 3 1 :: unit Raft) \<noteq> []" by (simp add: new_peer_def)
  have "(case RequestVote 9 ?a (new_peer 3 1 :: unit Raft) of Inr _ \<Rightarrow> True | _ \<Rightarrow> False)" by code_simp
  then obtain rf' reply where r: "RequestVote 9 ?a (new_peer 3 1 :: unit Raft) = Inr (rf', reply)"
    by (auto split: sum.splits)
  have g: "rvr_VoteGranted reply" using vote_granted_iff[OF ne r] by (simp add: new_peer_def go_len_def)
  then have "rf' = (new_peer 3 1)\<lparr>rf_currentTerm := 1, rf_votedFor := 2, rf_state := FOLLOWER,
      rf_lastHeartbeat := 9, rf_persister := rf_persister rf'\<rparr>"
    using vote_granted_iff[OF ne r] by simp
  from arg_cong[OF this, of rf_votedFor] r g show ?thesis by auto
qed

section \<open>Replication\<close>

text \<open>The log of a leader of term 2.\<close>

definition sample_log :: "nat LogEntry list" where
  "sample_log = [\<lparr>le_Command = None, le_Term = 0\<rparr>, \<lparr>le_Command = Some 7, le_Term = 1\<rparr>, \<lparr>le_Command = Some 8, le_Term = 2\<rparr>]"

text \<open>A leader of term 2 in its first round and a follower with a conflicting last entry.\<close>

definition sample_leader :: "nat Raft" where
  "sample_leader = (new_peer 3 0)\<lparr>rf_state := LEADER, rf_currentTerm := 2, rf_log := sample_log,
     rf_commitIndex := 1, rf_nextIndex := [3, 3, 3]\<rparr>"

definition sample_follower :: "nat Raft" where
  "sample_follower = (new_peer 3 1)\<lparr>rf_log := [\<lparr>le_Command = None, le_Term = 0\<rparr>, \<lparr>le_Command = Some 7, le_Term = 1\<rparr>, \<lparr>le_Command = Some 9, le_Term = 1\<rparr>],
     rf_currentTerm := 1\<rparr>"

definition sample_round :: HeartbeatRound where
  "sample_round = \<lparr>hb_currentTerm = 2, hb_currentLogLen = 3, hb_changeCommit = True, hb_currentCommitIndex = 1\<rparr>"

lemma sample_leads: "leads sample_round 1 sample_leader sample_follower"
  by (auto simp: leads_def sample_round_def sample_leader_def sample_follower_def new_peer_def raft_ok_def
      log_ok_def sample_log_def round_ok_def log_matching_def less_Suc_eq numeral_3_eq_3)

text \<open>
  C17. The back-up loop ends. For a leader and a follower whose logs match in the sense of
  \<open>log_matching\<close>, the goroutine of \<open>sendHeartbeat\<close> returns after at most two more
  exchanges than twice the length of the follower's log, when no message is lost and
  nobody interferes; then the follower's log agrees with the leader's up to the recorded
  \<open>matchIndex\<close>, which covers the whole log the round started with, and the round has
  counted one more replica.
\<close>

theorem catch_up_terminates:
  assumes "leads hb i rf fol"
  shows "\<exists>rf' fol'. catch_up (2 * length (rf_log fol) + 2) hb i now (rf, cnt) fol = Some (Inr ((rf', cnt + 1), fol')) \<and>
     rf_log rf' = rf_log rf \<and> hb_currentLogLen hb \<le> rf_matchIndex rf' ! i + 1 \<and>
     take (nat (rf_matchIndex rf' ! i + 1)) (rf_log fol') = take (nat (rf_matchIndex rf' ! i + 1)) (rf_log rf)"
  by (rule catch_up_returns[OF assms]) (simp add: distance_def)

theorem catch_up_terminates_witness:
  "leads sample_round 1 sample_leader sample_follower \<and>
   (\<exists>rf' fol'. catch_up 8 sample_round 1 9 (sample_leader, 1) sample_follower = Some (Inr ((rf', 2), fol')) \<and>
     3 \<le> rf_matchIndex rf' ! 1 + 1)"
proof -
  have "2 * length (rf_log sample_follower) + 2 = 8" by (simp add: sample_follower_def)
  then obtain rf' fol' where "catch_up 8 sample_round 1 9 (sample_leader, 1) sample_follower = Some (Inr ((rf', 1 + 1), fol'))"
    "hb_currentLogLen sample_round \<le> rf_matchIndex rf' ! 1 + 1"
    using catch_up_terminates[OF sample_leads, of 9 1] by metis
  moreover have "hb_currentLogLen sample_round = 3" "1 + 1 = (2::int)" by (simp_all add: sample_round_def)
  ultimately show ?thesis using sample_leads by metis
qed

section \<open>Timeouts\<close>

text \<open>The same request refused \<open>k\<close> times.\<close>

fun refusals :: "nat \<Rightarrow> int \<Rightarrow> RequestVoteArgs \<Rightarrow> 'c Raft \<Rightarrow> 'c Raft go" where
  "refusals 0 now args rf = Inr rf"
| "refusals (Suc k) now args rf = go_bind (RequestVote now args rf) (\<lambda>(rf, _). refusals k now args rf)"

lemma refusals_eq:
  assumes "rf_log rf \<noteq> []" and "rv_Term args = rf_currentTerm rf" and "\<not> votable args rf" and "newer args (rf_log rf)"
  shows "refusals k now args rf = Inr (rf\<lparr>rf_electionTimeout := rf_electionTimeout rf * 2 ^ k\<rparr>)"
  using assms
proof (induction k arbitrary: rf)
  case (Suc k)
  let ?rf = "rf\<lparr>rf_electionTimeout := rf_electionTimeout rf * 2\<rparr>"
  have "RequestVote now args rf = Inr (?rf, \<lparr>rvr_Term = rf_currentTerm rf, rvr_VoteGranted = False\<rparr>)"
    using Suc.prems by (simp add: RequestVote_eq)
  moreover have "refusals k now args ?rf = Inr (?rf\<lparr>rf_electionTimeout := rf_electionTimeout ?rf * 2 ^ k\<rparr>)"
    using Suc.prems by (intro Suc.IH) (auto simp: votable_def)
  ultimately show ?case by (simp add: mult.assoc)
qed simp

lemma negative_timeout_starts:
  assumes "sint (rf_electionTimeout rf) < 0" and "rf_state rf \<noteq> LEADER" and "rf_lastHeartbeat rf \<le> now"
  shows "checkElection now rnd rf \<noteq> None"
  using assms by (simp add: checkElection_def duration_ge_def sint_time_since max_duration_def)

text \<open>
  C18. Every refused up-to-date request of the current term doubles \<open>electionTimeout\<close>, a
  64-bit duration, with nothing to stop it: after \<open>k\<close> refusals it is \<open>2 ^ k\<close> times the
  old one modulo \<open>2 ^ 64\<close>. From 500 ms, 35 refusals make it negative, and then a peer
  that does not lead starts an election at any moment from its last heartbeat on, without
  waiting at all.
\<close>

theorem refusals_double_timeout:
  assumes "rf_log rf \<noteq> []" and "rv_Term args = rf_currentTerm rf" and "\<not> votable args rf" and "newer args (rf_log rf)"
  shows "refusals k now args rf = Inr (rf\<lparr>rf_electionTimeout := rf_electionTimeout rf * 2 ^ k\<rparr>) \<and>
     (rf_electionTimeout rf = 500 * millisecond \<longrightarrow> rf_state rf \<noteq> LEADER \<longrightarrow>
      (\<exists>rf'. refusals 35 now args rf = Inr rf' \<and> sint (rf_electionTimeout rf') < 0 \<and>
         (\<forall>now' rnd. rf_lastHeartbeat rf \<le> now' \<longrightarrow> checkElection now' rnd rf' \<noteq> None)))"
proof -
  have "sint (500 * millisecond * 2 ^ 35) < 0" by code_simp
  then have "\<exists>rf'. refusals 35 now args rf = Inr rf' \<and> sint (rf_electionTimeout rf') < 0 \<and>
      (\<forall>now' rnd. rf_lastHeartbeat rf \<le> now' \<longrightarrow> checkElection now' rnd rf' \<noteq> None)"
    if "rf_electionTimeout rf = 500 * millisecond" and "rf_state rf \<noteq> LEADER"
    unfolding refusals_eq[OF assms]
    by (intro exI[of _ "rf\<lparr>rf_electionTimeout := rf_electionTimeout rf * 2 ^ 35\<rparr>"] conjI allI impI negative_timeout_starts)
      (simp_all add: that)
  then show ?thesis using refusals_eq[OF assms] by blast
qed

theorem refusals_double_timeout_witness:
  "\<exists>rf. refusals 35 9 \<lparr>rv_Term = 1, rv_CandidateId = 2, rv_LastLogIndex = 0, rv_LastLogTerm = 0\<rparr>
      ((new_peer 3 1 :: unit Raft)\<lparr>rf_currentTerm := 1, rf_votedFor := 0\<rparr>) = Inr rf \<and>
     sint (rf_electionTimeout rf) < 0 \<and> checkElection 0 0 rf \<noteq> None"
proof -
  let ?rf = "(new_peer 3 1 :: unit Raft)\<lparr>rf_currentTerm := 1, rf_votedFor := 0\<rparr>"
    and ?a = "\<lparr>rv_Term = 1, rv_CandidateId = 2, rv_LastLogIndex = 0, rv_LastLogTerm = 0\<rparr>"
  have "\<exists>rf'. refusals 35 9 ?a ?rf = Inr rf' \<and> sint (rf_electionTimeout rf') < 0 \<and>
      (\<forall>now' rnd. rf_lastHeartbeat ?rf \<le> now' \<longrightarrow> checkElection now' rnd rf' \<noteq> None)"
    by (intro refusals_double_timeout[of ?rf ?a, THEN conjunct2, rule_format])
      (auto simp: new_peer_def votable_def newer_def go_len_def)
  then show ?thesis by (auto simp: new_peer_def)
qed

end
