(* ===== verification/Labrpc.thy ===== *)
theory Labrpc
  imports Prelude
begin

text \<open>
  \<open>src/src/labrpc/labrpc.go\<close>: the simulated network all RPCs of the tests go through. Names
  of ends and servers, of type \<open>interface{}\<close>, are type parameters. Servers are addressed by
  number, as the code compares pointers to them, and live in the store \<open>n_srv\<close>. A method of
  a service is a function on the state of its receiver. \<open>encoding/gob\<close> is the record
  \<open>codec\<close>. \<open>processReq\<close>, which sleeps and gives up the lock several times, is a sequence of
  phases; each call has its own phase, and the steps of all calls and of the tester
  interleave.
\<close>

section \<open>Data\<close>

record 'e reqMsg =
  rq_endname :: 'e
  rq_svcMeth :: string
  rq_args :: string

record replyMsg =
  rp_ok :: bool
  rp_reply :: string

definition noReply :: replyMsg where
  "noReply = \<lparr>rp_ok = False, rp_reply = ''''\<rparr>"

text \<open>What \<open>reflect\<close> says about a method, and the method.\<close>

record ('o, 'a, 'r) Method =
  m_name :: string
  m_exported :: bool
  m_numIn :: nat
  m_replyPtr :: bool
  m_numOut :: nat
  m_func :: "'o \<Rightarrow> 'a \<Rightarrow> 'o \<times> 'r"

record ('o, 'a, 'r) Service =
  svc_name :: string
  svc_rcvr :: 'o
  svc_methods :: "string \<rightharpoonup> ('o, 'a, 'r) Method"

record ('o, 'a, 'r) Server =
  sv_services :: "string \<rightharpoonup> ('o, 'a, 'r) Service"
  sv_count :: int

record ('e, 'n, 'o, 'a, 'r) Network =
  n_reliable :: bool
  n_longDelays :: bool
  n_longReordering :: bool
  n_ends :: "'e set"
  n_enabled :: "'e \<Rightarrow> bool"
  n_servers :: "'n \<Rightarrow> nat option"
  n_connections :: "'e \<Rightarrow> 'n option"
  n_done :: bool
  n_count :: "32 word"
  n_bytes :: "64 word"
  n_srv :: "nat \<Rightarrow> ('o, 'a, 'r) Server"

text \<open>
  Encoding and decoding of arguments and replies. The server decodes arguments into a zeroed
  variable and ignores errors; the client decodes the reply into the variable it was given.
\<close>

record ('a, 'r) codec =
  encode_args :: "'a \<Rightarrow> string"
  decode_args :: "string \<Rightarrow> 'a"
  encode_reply :: "'r \<Rightarrow> string"
  decode_reply :: "string \<Rightarrow> 'r \<Rightarrow> 'r option"

section \<open>The tester's operations\<close>

definition MakeServer :: "('o, 'a, 'r) Server" where
  "MakeServer = \<lparr>sv_services = Map.empty, sv_count = 0\<rparr>"

definition MakeNetwork :: "('e, 'n, 'o, 'a, 'r) Network" where
  "MakeNetwork = \<lparr>n_reliable = True, n_longDelays = False, n_longReordering = False, n_ends = {}, n_enabled = (\<lambda>_. False),
     n_servers = (\<lambda>_. None), n_connections = (\<lambda>_. None), n_done = False, n_count = 0, n_bytes = 0, n_srv = (\<lambda>_. MakeServer)\<rparr>"

definition Cleanup :: "('e, 'n, 'o, 'a, 'r) Network \<Rightarrow> ('e, 'n, 'o, 'a, 'r) Network go" where
  "Cleanup rn = (if n_done rn then Inl ClosedChannel else Inr (rn\<lparr>n_done := True\<rparr>))"

definition Reliable :: "bool \<Rightarrow> ('e, 'n, 'o, 'a, 'r) Network \<Rightarrow> ('e, 'n, 'o, 'a, 'r) Network" where
  "Reliable yes rn = rn\<lparr>n_reliable := yes\<rparr>"

definition LongReordering :: "bool \<Rightarrow> ('e, 'n, 'o, 'a, 'r) Network \<Rightarrow> ('e, 'n, 'o, 'a, 'r) Network" where
  "LongReordering yes rn = rn\<lparr>n_longReordering := yes\<rparr>"

definition LongDelays :: "bool \<Rightarrow> ('e, 'n, 'o, 'a, 'r) Network \<Rightarrow> ('e, 'n, 'o, 'a, 'r) Network" where
  "LongDelays yes rn = rn\<lparr>n_longDelays := yes\<rparr>"

definition MakeEnd :: "'e \<Rightarrow> ('e, 'n, 'o, 'a, 'r) Network \<Rightarrow> ('e, 'n, 'o, 'a, 'r) Network go" where
  "MakeEnd endname rn =
     (if endname \<in> n_ends rn then Inl (Fatal ''MakeEnd: already exists'')
      else Inr (rn\<lparr>n_ends := insert endname (n_ends rn), n_enabled := (n_enabled rn)(endname := False),
                   n_connections := (n_connections rn)(endname := None)\<rparr>))"

definition AddServer :: "'n \<Rightarrow> nat \<Rightarrow> ('e, 'n, 'o, 'a, 'r) Network \<Rightarrow> ('e, 'n, 'o, 'a, 'r) Network" where
  "AddServer servername rs rn = rn\<lparr>n_servers := (n_servers rn)(servername := Some rs)\<rparr>"

definition DeleteServer :: "'n \<Rightarrow> ('e, 'n, 'o, 'a, 'r) Network \<Rightarrow> ('e, 'n, 'o, 'a, 'r) Network" where
  "DeleteServer servername rn = rn\<lparr>n_servers := (n_servers rn)(servername := None)\<rparr>"

definition Connect :: "'e \<Rightarrow> 'n \<Rightarrow> ('e, 'n, 'o, 'a, 'r) Network \<Rightarrow> ('e, 'n, 'o, 'a, 'r) Network" where
  "Connect endname servername rn = rn\<lparr>n_connections := (n_connections rn)(endname := Some servername)\<rparr>"

definition Enable :: "'e \<Rightarrow> bool \<Rightarrow> ('e, 'n, 'o, 'a, 'r) Network \<Rightarrow> ('e, 'n, 'o, 'a, 'r) Network" where
  "Enable endname enabled rn = rn\<lparr>n_enabled := (n_enabled rn)(endname := enabled)\<rparr>"

definition sv_GetCount :: "('o, 'a, 'r) Server \<Rightarrow> int" where
  "sv_GetCount rs = sv_count rs"

definition GetCount :: "'n \<Rightarrow> ('e, 'n, 'o, 'a, 'r) Network \<Rightarrow> int go" where
  "GetCount servername rn =
     (case n_servers rn servername of None \<Rightarrow> Inl NilDereference | Some svr \<Rightarrow> Inr (sv_GetCount (n_srv rn svr)))"

definition GetTotalCount :: "('e, 'n, 'o, 'a, 'r) Network \<Rightarrow> int" where
  "GetTotalCount rn = sint (n_count rn)"

definition GetTotalBytes :: "('e, 'n, 'o, 'a, 'r) Network \<Rightarrow> int" where
  "GetTotalBytes rn = sint (n_bytes rn)"

definition readEndnameInfo :: "'e \<Rightarrow> ('e, 'n, 'o, 'a, 'r) Network \<Rightarrow> bool \<times> 'n option \<times> nat option \<times> bool \<times> bool" where
  "readEndnameInfo endname rn =
     (let enabled = n_enabled rn endname;
          servername = n_connections rn endname;
          server = (case servername of None \<Rightarrow> None | Some nm \<Rightarrow> n_servers rn nm)
      in (enabled, servername, server, n_reliable rn, n_longReordering rn))"

definition isServerDead :: "'e \<Rightarrow> 'n \<Rightarrow> nat \<Rightarrow> ('e, 'n, 'o, 'a, 'r) Network \<Rightarrow> bool" where
  "isServerDead endname servername server rn =
     (if n_enabled rn endname = False \<or> n_servers rn servername \<noteq> Some server then True else False)"

section \<open>Servers and services\<close>

definition AddService :: "('o, 'a, 'r) Service \<Rightarrow> ('o, 'a, 'r) Server \<Rightarrow> ('o, 'a, 'r) Server" where
  "AddService svc rs = rs\<lparr>sv_services := (sv_services rs)(svc_name svc \<mapsto> svc)\<rparr>"

fun add_methods :: "('o, 'a, 'r) Method list \<Rightarrow> (string \<rightharpoonup> ('o, 'a, 'r) Method) \<Rightarrow> (string \<rightharpoonup> ('o, 'a, 'r) Method)" where
  "add_methods [] ms = ms"
| "add_methods (mt # mts) ms =
     (if \<not> m_exported mt \<or> m_numIn mt \<noteq> 3 \<or> \<not> m_replyPtr mt \<or> m_numOut mt \<noteq> 0 then add_methods mts ms
      else add_methods mts (ms(m_name mt \<mapsto> mt)))"

definition MakeService :: "string \<Rightarrow> 'o \<Rightarrow> ('o, 'a, 'r) Method list \<Rightarrow> ('o, 'a, 'r) Service" where
  "MakeService typeName rcvr methods =
     \<lparr>svc_name = typeName, svc_rcvr = rcvr, svc_methods = add_methods methods Map.empty\<rparr>"

definition svc_dispatch ::
  "('a, 'r) codec \<Rightarrow> string \<Rightarrow> 'e reqMsg \<Rightarrow> ('o, 'a, 'r) Service \<Rightarrow> (('o, 'a, 'r) Service \<times> replyMsg) go" where
  "svc_dispatch cd methname req svc =
     (case svc_methods svc methname of
        Some meth \<Rightarrow>
          let args = decode_args cd (rq_args req);
              (rcvr, replyv) = m_func meth (svc_rcvr svc) args
          in Inr (svc\<lparr>svc_rcvr := rcvr\<rparr>, \<lparr>rp_ok = True, rp_reply = encode_reply cd replyv\<rparr>)
      | None \<Rightarrow> Inl (Fatal ''labrpc.Service.dispatch(): unknown method''))"

text \<open>\<open>strings.LastIndex(s, ".")\<close>, \<open>-1\<close> when there is none.\<close>

fun last_dot :: "string \<Rightarrow> int" where
  "last_dot [] = -1"
| "last_dot (c # cs) =
     (let d = last_dot cs in if d \<ge> 0 then d + 1 else if c = CHR ''.'' then 0 else -1)"

definition sv_dispatch ::
  "('a, 'r) codec \<Rightarrow> 'e reqMsg \<Rightarrow> ('o, 'a, 'r) Server \<Rightarrow> (('o, 'a, 'r) Server \<times> replyMsg) go" where
  "sv_dispatch cd req rs =
     (let rs = rs\<lparr>sv_count := sv_count rs + 1\<rparr>;
          dot = last_dot (rq_svcMeth req)
      in go_bind (go_prefix (rq_svcMeth req) dot) (\<lambda>serviceName.
         go_bind (go_slice (rq_svcMeth req) (dot + 1) (go_len (rq_svcMeth req))) (\<lambda>methodName.
           case sv_services rs serviceName of
             Some service \<Rightarrow>
               go_bind (svc_dispatch cd methodName req service) (\<lambda>(service, reply).
                 Inr (rs\<lparr>sv_services := (sv_services rs)(serviceName \<mapsto> service)\<rparr>, reply))
           | None \<Rightarrow> Inl (Fatal ''labrpc.Server.dispatch(): unknown service''))))"

section \<open>A call in flight\<close>

text \<open>
  \<open>Call\<close> builds the request (lines 85-94); \<open>Inl\<close> is the immediate \<open>false\<close> when the network
  has been destroyed. \<open>Call_return\<close> is what it does with the answer (lines 110-120).
\<close>

definition Call_request :: "('a, 'r) codec \<Rightarrow> 'e \<Rightarrow> string \<Rightarrow> 'a \<Rightarrow> 'e reqMsg" where
  "Call_request cd endname svcMeth args =
     \<lparr>rq_endname = endname, rq_svcMeth = svcMeth, rq_args = encode_args cd args\<rparr>"

definition Call_return :: "('a, 'r) codec \<Rightarrow> replyMsg \<Rightarrow> 'r \<Rightarrow> (bool \<times> 'r) go" where
  "Call_return cd rep reply =
     (if rp_ok rep then
        (case decode_reply cd (rp_reply rep) reply of
           None \<Rightarrow> Inl (Fatal ''ClientEnd.Call(): decode reply'')
         | Some r \<Rightarrow> Inr (True, r))
      else Inr (False, reply))"

text \<open>
  The phases of \<open>processReq\<close>: received by the network's goroutine; the target looked up and
  the short delay under way, with the values of \<open>reliable\<close> and \<open>longreordering\<close> that were
  read; waiting for the handler; done waiting, with the reply if there is one; the answer
  on its way to the caller, with \<open>True\<close> when its size is still to be added to \<open>bytes\<close>;
  received by the caller.
\<close>

datatype 'n phase =
    Sent
  | Taken
  | Ready 'n nat bool bool
  | Waiting 'n nat bool bool
  | Waited 'n nat bool bool "replyMsg option"
  | Answer replyMsg bool
  | Returned replyMsg

text \<open>
  One call: its request, its phase, the goroutine that runs the handler (\<open>c_running\<close>, on
  which server) and its channel \<open>ech\<close>. \<open>c_execs\<close> records, for the statements only, the
  servers on which the handler ran, with the replies.
\<close>

record ('e, 'n) call =
  c_req :: "'e reqMsg"
  c_phase :: "'n phase"
  c_running :: "nat option"
  c_ech :: "replyMsg option"
  c_execs :: "(nat \<times> replyMsg) list"

definition new_call :: "'e reqMsg \<Rightarrow> ('e, 'n) call" where
  "new_call req = \<lparr>c_req = req, c_phase = Sent, c_running = None, c_ech = None, c_execs = []\<rparr>"

text \<open>Lines 152-155: the network's goroutine receives a request.\<close>

definition net_receive :: "('e, 'n) call \<Rightarrow> ('e, 'n, 'o, 'a, 'r) Network \<Rightarrow> ('e, 'n) call \<times> ('e, 'n, 'o, 'a, 'r) Network" where
  "net_receive c rn =
     (c\<lparr>c_phase := Taken\<rparr>,
      rn\<lparr>n_count := n_count rn + 1, n_bytes := n_bytes rn + of_nat (length (rq_args (c_req c)))\<rparr>)"

text \<open>Lines 217-219 and the branch of lines 290-304.\<close>

definition proc_lookup :: "('e, 'n, 'o, 'a, 'r) Network \<Rightarrow> ('e, 'n) call \<Rightarrow> ('e, 'n) call" where
  "proc_lookup rn c =
     (case readEndnameInfo (rq_endname (c_req c)) rn of
        (enabled, servername, server, reliable, longreordering) \<Rightarrow>
          (case (enabled, servername, server) of
             (True, Some nm, Some sv) \<Rightarrow> c\<lparr>c_phase := Ready nm sv reliable longreordering\<rparr>
           | _ \<Rightarrow> c\<lparr>c_phase := Answer noReply False\<rparr>))"

text \<open>Lines 226-240: the request is dropped, or the handler's goroutine is started.\<close>

definition proc_start :: "bool \<Rightarrow> ('e, 'n) call \<Rightarrow> ('e, 'n) call" where
  "proc_start lose c =
     (case c_phase c of
        Ready nm sv reliable longre \<Rightarrow>
          if reliable = False \<and> lose then c\<lparr>c_phase := Answer noReply False\<rparr>
          else c\<lparr>c_phase := Waiting nm sv reliable longre, c_running := Some sv\<rparr>
      | _ \<Rightarrow> c)"

text \<open>Lines 236-240: the handler runs and its answer goes to \<open>ech\<close>.\<close>

definition run_handler ::
  "('a, 'r) codec \<Rightarrow> ('e, 'n) call \<Rightarrow> ('e, 'n, 'o, 'a, 'r) Network \<Rightarrow> (('e, 'n) call \<times> ('e, 'n, 'o, 'a, 'r) Network) go" where
  "run_handler cd c rn =
     (case c_running c of
        None \<Rightarrow> Inr (c, rn)
      | Some sv \<Rightarrow>
          go_bind (sv_dispatch cd (c_req c) (n_srv rn sv)) (\<lambda>(server, r).
            Inr (c\<lparr>c_running := None, c_ech := Some r, c_execs := c_execs c @ [(sv, r)]\<rparr>,
                 rn\<lparr>n_srv := (n_srv rn)(sv := server)\<rparr>)))"

text \<open>Lines 248-260: one round of the waiting loop, in which the reply comes or the timer fires.\<close>

definition proc_reply :: "('e, 'n) call \<Rightarrow> ('e, 'n) call" where
  "proc_reply c =
     (case (c_phase c, c_ech c) of
        (Waiting nm sv reliable longre, Some r) \<Rightarrow> c\<lparr>c_phase := Waited nm sv reliable longre (Some r), c_ech := None\<rparr>
      | _ \<Rightarrow> c)"

definition proc_timer :: "('e, 'n, 'o, 'a, 'r) Network \<Rightarrow> ('e, 'n) call \<Rightarrow> ('e, 'n) call" where
  "proc_timer rn c =
     (case c_phase c of
        Waiting nm sv reliable longre \<Rightarrow>
          if isServerDead (rq_endname (c_req c)) nm sv rn then c\<lparr>c_phase := Waited nm sv reliable longre None\<rparr> else c
      | _ \<Rightarrow> c)"

text \<open>Lines 268-289, with the two coin flips.\<close>

definition proc_finish ::
  "bool \<Rightarrow> bool \<Rightarrow> ('e, 'n) call \<Rightarrow> ('e, 'n, 'o, 'a, 'r) Network \<Rightarrow> ('e, 'n) call \<times> ('e, 'n, 'o, 'a, 'r) Network" where
  "proc_finish lose delay c rn =
     (case c_phase c of
        Waited nm sv reliable longre reply \<Rightarrow>
          let serverDead = isServerDead (rq_endname (c_req c)) nm sv rn in
          (case reply of
             None \<Rightarrow> (c\<lparr>c_phase := Answer noReply False\<rparr>, rn)
           | Some r \<Rightarrow>
               if serverDead then (c\<lparr>c_phase := Answer noReply False\<rparr>, rn)
               else if reliable = False \<and> lose then (c\<lparr>c_phase := Answer noReply False\<rparr>, rn)
               else if longre \<and> delay then (c\<lparr>c_phase := Answer r True\<rparr>, rn)
               else (c\<lparr>c_phase := Answer r False\<rparr>, rn\<lparr>n_bytes := n_bytes rn + of_nat (length (rp_reply r))\<rparr>))
      | _ \<Rightarrow> (c, rn))"

definition proc_answer :: "('e, 'n) call \<Rightarrow> ('e, 'n, 'o, 'a, 'r) Network \<Rightarrow> ('e, 'n) call \<times> ('e, 'n, 'o, 'a, 'r) Network" where
  "proc_answer c rn =
     (case c_phase c of
        Answer r cnt \<Rightarrow>
          (c\<lparr>c_phase := Returned r\<rparr>, if cnt then rn\<lparr>n_bytes := n_bytes rn + of_nat (length (rp_reply r))\<rparr> else rn)
      | _ \<Rightarrow> (c, rn))"

section \<open>The whole network\<close>

record ('e, 'n, 'o, 'a, 'r) rpc_sys =
  y_net :: "('e, 'n, 'o, 'a, 'r) Network"
  y_calls :: "('e, 'n) call list"

text \<open>
  The tester's changes to the network. \<open>addable\<close> says which servers it may register:
  a server once removed is not registered again when \<open>addable\<close> excludes it.
\<close>

inductive admin :: "(nat \<Rightarrow> bool) \<Rightarrow> ('e, 'n, 'o, 'a, 'r) Network \<Rightarrow> ('e, 'n, 'o, 'a, 'r) Network \<Rightarrow> bool" for addable where
  "admin addable rn (Reliable yes rn)"
| "admin addable rn (LongReordering yes rn)"
| "admin addable rn (LongDelays yes rn)"
| "MakeEnd e rn = Inr rn' \<Longrightarrow> admin addable rn rn'"
| "addable rs \<Longrightarrow> admin addable rn (AddServer nm rs rn)"
| "admin addable rn (DeleteServer nm rn)"
| "admin addable rn (Connect e nm rn)"
| "admin addable rn (Enable e yes rn)"
| "Cleanup rn = Inr rn' \<Longrightarrow> admin addable rn rn'"
| "addable rs \<Longrightarrow> admin addable rn (rn\<lparr>n_srv := (n_srv rn)(rs := server)\<rparr>)"

text \<open>What can happen to one call, and to the network with it.\<close>

inductive call_step ::
  "('a, 'r) codec \<Rightarrow> ('e, 'n) call \<Rightarrow> ('e, 'n, 'o, 'a, 'r) Network \<Rightarrow> ('e, 'n) call \<Rightarrow> ('e, 'n, 'o, 'a, 'r) Network \<Rightarrow> bool" for cd where
  receive: "c_phase c = Sent \<Longrightarrow> net_receive c rn = (c', rn') \<Longrightarrow> call_step cd c rn c' rn'"
| destroyed: "c_phase c = Sent \<Longrightarrow> n_done rn \<Longrightarrow> call_step cd c rn (c\<lparr>c_phase := Returned noReply\<rparr>) rn"
| lookup: "c_phase c = Taken \<Longrightarrow> call_step cd c rn (proc_lookup rn c) rn"
| start: "call_step cd c rn (proc_start lose c) rn"
| handler: "run_handler cd c rn = Inr (c', rn') \<Longrightarrow> call_step cd c rn c' rn'"
| reply: "call_step cd c rn (proc_reply c) rn"
| timer: "call_step cd c rn (proc_timer rn c) rn"
| finish: "proc_finish lose delay c rn = (c', rn') \<Longrightarrow> call_step cd c rn c' rn'"
| answer: "proc_answer c rn = (c', rn') \<Longrightarrow> call_step cd c rn c' rn'"

inductive nstep ::
  "('a, 'r) codec \<Rightarrow> (nat \<Rightarrow> bool) \<Rightarrow> ('e, 'n, 'o, 'a, 'r) rpc_sys \<Rightarrow> ('e, 'n, 'o, 'a, 'r) rpc_sys \<Rightarrow> bool" for cd addable where
  tester: "admin addable (y_net y) rn \<Longrightarrow> nstep cd addable y (y\<lparr>y_net := rn\<rparr>)"
| call: "nstep cd addable y (y\<lparr>y_calls := y_calls y @ [new_call (Call_request cd e meth args)]\<rparr>)"
| step: "i < length (y_calls y) \<Longrightarrow> call_step cd (y_calls y ! i) (y_net y) c rn \<Longrightarrow>
     nstep cd addable y (y\<lparr>y_net := rn, y_calls := (y_calls y)[i := c]\<rparr>)"

inductive nreach :: "('a, 'r) codec \<Rightarrow> ('e, 'n, 'o, 'a, 'r) rpc_sys \<Rightarrow> bool" for cd where
  init: "nreach cd \<lparr>y_net = MakeNetwork, y_calls = []\<rparr>"
| more: "nreach cd y \<Longrightarrow> nstep cd (\<lambda>_. True) y y' \<Longrightarrow> nreach cd y'"

section \<open>At most once\<close>

text \<open>The handler has not run, or has run once and is not running.\<close>

definition once :: "nat \<Rightarrow> ('e, 'n) call \<Rightarrow> bool" where
  "once sv c \<longleftrightarrow> (c_running c = Some sv \<and> c_execs c = [] \<and> c_ech c = None) \<or>
     (c_running c = None \<and> (\<exists>r. rp_ok r \<and> c_execs c = [(sv, r)] \<and> (c_ech c = Some r \<or> c_ech c = None)))"

definition untouched :: "('e, 'n) call \<Rightarrow> bool" where
  "untouched c \<longleftrightarrow> c_running c = None \<and> c_execs c = [] \<and> c_ech c = None"

definition answered_ok :: "('e, 'n) call \<Rightarrow> replyMsg \<Rightarrow> bool" where
  "answered_ok c r \<longleftrightarrow> c_running c = None \<and> c_ech c = None \<and> (\<exists>sv. c_execs c = [(sv, r)]) \<and> rp_ok r"

lemma answered_once: "answered_ok c r \<Longrightarrow> c_execs c = [(sv, r)] \<Longrightarrow> once sv c"
  by (auto simp: answered_ok_def once_def)

definition call_ok :: "('e, 'n) call \<Rightarrow> bool" where
  "call_ok c \<longleftrightarrow>
     (case c_phase c of
        Sent \<Rightarrow> untouched c
      | Taken \<Rightarrow> untouched c
      | Ready nm sv _ _ \<Rightarrow> untouched c
      | Waiting nm sv _ _ \<Rightarrow> once sv c
      | Waited nm sv _ _ None \<Rightarrow> once sv c
      | Waited nm sv _ _ (Some r) \<Rightarrow> answered_ok c r \<and> c_execs c = [(sv, r)]
      | Answer r _ \<Rightarrow> (r = noReply \<and> (untouched c \<or> (\<exists>sv. once sv c))) \<or> answered_ok c r
      | Returned r \<Rightarrow> (r = noReply \<and> (untouched c \<or> (\<exists>sv. once sv c))) \<or> answered_ok c r)"

lemma dispatch_ok:
  "sv_dispatch cd req rs = Inr (rs', r) \<Longrightarrow> rp_ok r"
  by (auto simp: sv_dispatch_def svc_dispatch_def Let_def go_simps split: option.splits prod.splits)

lemma run_handler_cases:
  assumes "run_handler cd c rn = Inr (c', rn')"
  obtains "c_running c = None" and "c' = c" and "rn' = rn"
  | sv r where "c_running c = Some sv" and "rp_ok r" and "n_servers rn' = n_servers rn" and "n_enabled rn' = n_enabled rn"
      and "c' = c\<lparr>c_running := None, c_ech := Some r, c_execs := c_execs c @ [(sv, r)]\<rparr>"
  using assms dispatch_ok by (fastforce simp: run_handler_def go_simps split: option.splits)

lemma once_run: "once sv c \<Longrightarrow> run_handler cd c rn = Inr (c', rn') \<Longrightarrow> once sv c'"
  by (elim run_handler_cases) (auto simp: once_def)

lemma untouched_run: "untouched c \<Longrightarrow> run_handler cd c rn = Inr (c', rn') \<Longrightarrow> c' = c"
  by (elim run_handler_cases) (auto simp: untouched_def)

lemma answered_run: "answered_ok c r \<Longrightarrow> run_handler cd c rn = Inr (c', rn') \<Longrightarrow> c' = c"
  by (elim run_handler_cases) (auto simp: answered_ok_def)

lemma run_handler_phase: "run_handler cd c rn = Inr (c', rn') \<Longrightarrow> c_phase c' = c_phase c"
  by (elim run_handler_cases) auto

lemma phase_update [simp]:
  "once sv (c\<lparr>c_phase := p\<rparr>) = once sv c" "untouched (c\<lparr>c_phase := p\<rparr>) = untouched c"
  "answered_ok (c\<lparr>c_phase := p\<rparr>) r = answered_ok c r"
  by (simp_all add: once_def untouched_def answered_ok_def)

lemma call_step_ok:
  assumes "call_step cd c rn c' rn'" and "call_ok c"
  shows "call_ok c'"
  using assms
proof (induction rule: call_step.cases)
  case (handler c rn c' rn')
  show ?case
  proof (cases "c_running c")
    case None
    then show ?thesis using handler by (simp add: run_handler_def)
  next
    case (Some sv)
    then have "\<not> untouched c" "\<And>r. \<not> answered_ok c r" by (auto simp: untouched_def answered_ok_def)
    moreover have "once sv' c \<Longrightarrow> once sv' c'" for sv' using handler once_run by blast
    ultimately show ?thesis using handler run_handler_phase[of cd c rn c' rn']
      by (auto simp: call_ok_def split: phase.splits option.splits)
  qed
next
  case (reply c rn)
  then show ?case
    by (auto simp: call_ok_def proc_reply_def once_def answered_ok_def split: phase.splits option.splits)
next
  case (start c rn lose)
  then show ?case
    by (auto simp: call_ok_def proc_start_def once_def untouched_def split: phase.splits option.splits)
next
  case (finish lose delay c rn c' rn')
  then show ?case
    by (auto simp: call_ok_def proc_finish_def Let_def dest: answered_once split: phase.splits option.splits if_splits)
qed (auto simp: call_ok_def net_receive_def proc_lookup_def proc_start_def proc_timer_def proc_finish_def proc_answer_def Let_def
      split: phase.splits option.splits if_splits prod.splits bool.splits)

lemma call_ok_execs:
  assumes "call_ok c"
  shows "length (c_execs c) \<le> 1" and "c_phase c = Returned r \<Longrightarrow> rp_ok r \<Longrightarrow> \<exists>sv. c_execs c = [(sv, r)]"
  using assms by (auto simp: call_ok_def untouched_def once_def answered_ok_def noReply_def split: phase.splits option.splits)

lemma nstep_calls_ok:
  assumes "nstep cd addable y y'" and "\<forall>c\<in>set (y_calls y). call_ok c"
  shows "\<forall>c\<in>set (y_calls y'). call_ok c"
  using assms
proof (induction rule: nstep.cases)
  case (step i y c rn)
  then have "call_ok c" using call_step_ok by fastforce
  then show ?case using step set_update_subset_insert[of "y_calls y" i c] by auto
qed (auto simp: new_call_def call_ok_def untouched_def)

lemma nreach_calls_ok: "nreach cd y \<Longrightarrow> \<forall>c\<in>set (y_calls y). call_ok c"
  by (induction rule: nreach.induct) (auto dest: nstep_calls_ok)

section \<open>Removed servers\<close>

text \<open>A server that is not registered under any name, and calls it can no longer answer.\<close>

definition removed :: "nat \<Rightarrow> ('e, 'n, 'o, 'a, 'r) Network \<Rightarrow> bool" where
  "removed sv rn \<longleftrightarrow> (\<forall>nm. n_servers rn nm \<noteq> Some sv)"

definition no_answer_from :: "nat \<Rightarrow> ('e, 'n) call \<Rightarrow> bool" where
  "no_answer_from sv c \<longleftrightarrow>
     (case c_phase c of
        Answer r _ \<Rightarrow> rp_ok r \<longrightarrow> fst ` set (c_execs c) \<subseteq> - {sv}
      | Returned r \<Rightarrow> rp_ok r \<longrightarrow> fst ` set (c_execs c) \<subseteq> - {sv}
      | _ \<Rightarrow> True)"

lemma admin_removed: "admin addable rn rn' \<Longrightarrow> \<not> addable sv \<Longrightarrow> removed sv rn \<Longrightarrow> removed sv rn'"
  by (induction rule: admin.induct)
    (auto simp: removed_def Reliable_def LongReordering_def LongDelays_def MakeEnd_def AddServer_def DeleteServer_def
      Connect_def Enable_def Cleanup_def split: if_splits)

lemma call_step_servers: "call_step cd c rn c' rn' \<Longrightarrow> n_servers rn' = n_servers rn"
  by (induction rule: call_step.cases)
    (auto elim: run_handler_cases simp: net_receive_def proc_finish_def proc_answer_def Let_def
      split: phase.splits option.splits if_splits)

lemma call_step_no_answer:
  assumes "call_step cd c rn c' rn'" and "call_ok c" and "no_answer_from sv c" and "removed sv rn"
  shows "no_answer_from sv c'"
  using assms
proof (induction rule: call_step.cases)
  case (handler c rn c' rn')
  then show ?case
  proof (cases "c_running c")
    case None
    then show ?thesis using handler by (simp add: run_handler_def)
  next
    case (Some s)
    then have "\<And>r. \<not> answered_ok c r" by (auto simp: answered_ok_def)
    then have "c_phase c = Answer r b \<or> c_phase c = Returned r \<Longrightarrow> r = noReply" for r b
      using handler by (auto simp: call_ok_def)
    then show ?thesis using run_handler_phase[of cd c rn c' rn'] handler
      by (auto simp: no_answer_from_def noReply_def split: phase.splits)
  qed
next
  case (finish lose delay c rn c' rn')
  then show ?case
    by (auto simp: no_answer_from_def call_ok_def proc_finish_def isServerDead_def removed_def noReply_def Let_def
        split: phase.splits option.splits if_splits)
qed (auto simp: no_answer_from_def net_receive_def proc_lookup_def proc_start_def proc_reply_def proc_timer_def proc_answer_def
      noReply_def Let_def split: phase.splits option.splits if_splits prod.splits bool.splits)

inductive nsteps ::
  "('a, 'r) codec \<Rightarrow> (nat \<Rightarrow> bool) \<Rightarrow> ('e, 'n, 'o, 'a, 'r) rpc_sys \<Rightarrow> ('e, 'n, 'o, 'a, 'r) rpc_sys \<Rightarrow> bool" for cd addable where
  stay: "nsteps cd addable y y"
| go: "nsteps cd addable y y' \<Longrightarrow> nstep cd addable y' y'' \<Longrightarrow> nsteps cd addable y y''"

text \<open>The state of a call whose server may have been removed, along a run.\<close>

definition silent :: "nat \<Rightarrow> nat \<Rightarrow> ('e, 'n, 'o, 'a, 'r) rpc_sys \<Rightarrow> bool" where
  "silent sv i y \<longleftrightarrow> removed sv (y_net y) \<and> i < length (y_calls y) \<and> no_answer_from sv (y_calls y ! i) \<and>
     (\<forall>c\<in>set (y_calls y). call_ok c)"

lemma nstep_silent:
  assumes "nstep cd addable y y'" and "\<not> addable sv" and "silent sv i y"
  shows "silent sv i y'"
proof -
  have "\<forall>c\<in>set (y_calls y'). call_ok c" using nstep_calls_ok[OF assms(1)] assms(3) by (simp add: silent_def)
  with assms show ?thesis
  proof (induction rule: nstep.cases)
    case (tester y rn)
    then show ?case using admin_removed by (fastforce simp: silent_def)
  next
    case (step j y c rn)
    then have "removed sv rn" using call_step_servers[OF step(4)] by (simp add: silent_def removed_def)
    moreover have "no_answer_from sv c" if "j = i"
      using step that call_step_no_answer[OF step(4)] by (auto simp: silent_def)
    ultimately show ?case using step by (auto simp: silent_def nth_list_update)
  qed (auto simp: silent_def nth_append)
qed

lemma nsteps_silent: "nsteps cd addable y y' \<Longrightarrow> \<not> addable sv \<Longrightarrow> silent sv i y \<Longrightarrow> silent sv i y'"
  by (induction rule: nsteps.induct) (auto dest: nstep_silent)

end
