(* ===== verification/Raft_Tester.thy ===== *)
theory Raft_Tester
  imports Raft Labrpc
begin

text \<open>
  \<open>src/src/raft/config.go\<close>: the harness that starts, crashes, connects and observes a set of
  Raft peers. A \<open>*Raft\<close> is an address in \<open>cfg_heap\<close>, a labrpc server has the address of the
  peer it serves, nil pointers and nil slices are \<open>None\<close>. The persister that \<open>start1\<close> hands
  to \<open>Make\<close> is shared with the peer, so that \<open>cfg.saved[i]\<close> of a running server is the
  persister in its peer (\<open>saved_of\<close>). Names of ends, times and random numbers are arguments;
  so is what \<open>GetState\<close> and the log copies show at the moments the checks look, because the
  peers run on between two looks. \<open>t.Fatalf\<close> and \<open>log.Fatalf\<close> are \<open>Fatal\<close>.
\<close>

section \<open>State\<close>

record ('c, 'a, 'r) config =
  cfg_net :: "(string, nat, nat, 'a, 'r) Network"
  cfg_n :: nat
  cfg_rafts :: "nat option list"
  cfg_applyErr :: "string list"
  cfg_connected :: "bool list"
  cfg_saved :: "'c gob Persister option list"
  cfg_endnames :: "string list option list"
  cfg_logs :: "(int \<rightharpoonup> 'c option) list"
  cfg_start :: int
  cfg_t0 :: int
  cfg_rpcs0 :: int
  cfg_cmds0 :: int
  cfg_bytes0 :: int
  cfg_maxIndex :: int
  cfg_maxIndex0 :: int
  cfg_failed :: bool
  cfg_heap :: "nat \<Rightarrow> 'c Raft"
  cfg_next :: nat

definition saved_of :: "nat \<Rightarrow> ('c, 'a, 'r) config \<Rightarrow> 'c gob Persister option" where
  "saved_of i cfg = (case cfg_saved cfg ! i of
     None \<Rightarrow> None
   | Some ps \<Rightarrow> Some (case cfg_rafts cfg ! i of None \<Rightarrow> ps | Some rf \<Rightarrow> rf_persister (cfg_heap cfg rf)))"

text \<open>\<open>cfg.endnames[i][j]\<close>.\<close>

definition endname :: "('c, 'a, 'r) config \<Rightarrow> nat \<Rightarrow> nat \<Rightarrow> string go" where
  "endname cfg i j =
     go_bind (go_index (cfg_endnames cfg) (int i)) (\<lambda>row.
       case row of None \<Rightarrow> Inl IndexOutOfRange | Some names \<Rightarrow> go_index names (int j))"

definition set_enabled :: "bool \<Rightarrow> string \<Rightarrow> ('c, 'a, 'r) config \<Rightarrow> ('c, 'a, 'r) config" where
  "set_enabled b e cfg = cfg\<lparr>cfg_net := Enable e b (cfg_net cfg)\<rparr>"

section \<open>Connections\<close>

text \<open>The bodies of the two loops of \<open>connect\<close>, for the end from \<open>a\<close> to \<open>b\<close>, and of \<open>disconnect\<close>.\<close>

definition connect_end :: "nat \<Rightarrow> nat \<Rightarrow> nat \<Rightarrow> ('c, 'a, 'r) config \<Rightarrow> ('c, 'a, 'r) config go" where
  "connect_end j a b cfg =
     go_bind (go_index (cfg_connected cfg) (int j)) (\<lambda>c.
       if c then go_bind (endname cfg a b) (\<lambda>e. Inr (set_enabled True e cfg)) else Inr cfg)"

definition connect :: "nat \<Rightarrow> ('c, 'a, 'r) config \<Rightarrow> ('c, 'a, 'r) config go" where
  "connect i cfg =
     go_bind (go_set (cfg_connected cfg) (int i) True) (\<lambda>cs.
     go_bind (go_each (\<lambda>j. connect_end j i j) [0..<cfg_n cfg] (cfg\<lparr>cfg_connected := cs\<rparr>)) (\<lambda>cfg.
       go_each (\<lambda>j. connect_end j j i) [0..<cfg_n cfg] cfg))"

definition disconnect_end :: "nat \<Rightarrow> nat \<Rightarrow> nat \<Rightarrow> ('c, 'a, 'r) config \<Rightarrow> ('c, 'a, 'r) config go" where
  "disconnect_end k a b cfg =
     go_bind (go_index (cfg_endnames cfg) (int k)) (\<lambda>row.
       if row \<noteq> None then go_bind (endname cfg a b) (\<lambda>e. Inr (set_enabled False e cfg)) else Inr cfg)"

definition disconnect :: "nat \<Rightarrow> ('c, 'a, 'r) config \<Rightarrow> ('c, 'a, 'r) config go" where
  "disconnect i cfg =
     go_bind (go_set (cfg_connected cfg) (int i) False) (\<lambda>cs.
     go_bind (go_each (\<lambda>j. disconnect_end i i j) [0..<cfg_n cfg] (cfg\<lparr>cfg_connected := cs\<rparr>)) (\<lambda>cfg.
       go_each (\<lambda>j. disconnect_end j j i) [0..<cfg_n cfg] cfg))"

section \<open>Starting and crashing\<close>

definition crash1 :: "nat \<Rightarrow> ('c, 'a, 'r) config \<Rightarrow> ('c, 'a, 'r) config go" where
  "crash1 i cfg =
     go_bind (disconnect i cfg) (\<lambda>cfg.
     let cfg = cfg\<lparr>cfg_net := DeleteServer i (cfg_net cfg)\<rparr>;
         saved = map_option Copy (saved_of i cfg);
         cfg = (case cfg_rafts cfg ! i of
                  None \<Rightarrow> cfg
                | Some rf \<Rightarrow> cfg\<lparr>cfg_heap := (cfg_heap cfg)(rf := Kill (cfg_heap cfg rf)), cfg_rafts := (cfg_rafts cfg)[i := None]\<rparr>);
         saved = map_option (\<lambda>ps. SaveRaftState (ReadRaftState ps) MakePersister) saved
     in Inr (cfg\<lparr>cfg_saved := (cfg_saved cfg)[i := saved]\<rparr>))"

text \<open>Lines 147-151 of \<open>start1\<close>: a new end for every peer.\<close>

definition make_ends :: "nat \<Rightarrow> ('c, 'a, 'r) config \<Rightarrow> ('c, 'a, 'r) config go" where
  "make_ends i cfg =
     go_each (\<lambda>j cfg.
       go_bind (endname cfg i j) (\<lambda>e.
       go_bind (MakeEnd e (cfg_net cfg)) (\<lambda>rn. Inr (cfg\<lparr>cfg_net := Connect e j rn\<rparr>)))) [0..<cfg_n cfg] cfg"

text \<open>
  Lines 205-214: the peer is made from the saved state and registered. \<open>methods\<close> is what
  \<open>reflect\<close> finds in \<open>*Raft\<close>.
\<close>

definition start_peer ::
  "(nat, 'a, 'r) Method list \<Rightarrow> int \<Rightarrow> nat \<Rightarrow> nat \<Rightarrow> 'c gob Persister \<Rightarrow> ('c, 'a, 'r) config \<Rightarrow> ('c, 'a, 'r) config go" where
  "start_peer methods now rnd i saved cfg =
     go_bind (Make (cfg_n cfg) (int i) saved now rnd) (\<lambda>rf.
       let a = cfg_next cfg;
           srv = AddService (MakeService ''Raft'' a methods) MakeServer;
           rn = cfg_net cfg
       in Inr (cfg\<lparr>cfg_saved := (cfg_saved cfg)[i := Some saved], cfg_heap := (cfg_heap cfg)(a := rf),
                   cfg_rafts := (cfg_rafts cfg)[i := Some a], cfg_next := a + 1,
                   cfg_net := AddServer i a (rn\<lparr>n_srv := (n_srv rn)(a := srv)\<rparr>)\<rparr>))"

definition start1 ::
  "(nat, 'a, 'r) Method list \<Rightarrow> (nat \<Rightarrow> string) \<Rightarrow> int \<Rightarrow> nat \<Rightarrow> nat \<Rightarrow> ('c, 'a, 'r) config \<Rightarrow> ('c, 'a, 'r) config go" where
  "start1 methods names now rnd i cfg =
     go_bind (crash1 i cfg) (\<lambda>cfg.
     go_bind (go_set (cfg_endnames cfg) (int i) (Some (map names [0..<cfg_n cfg]))) (\<lambda>es.
     go_bind (make_ends i (cfg\<lparr>cfg_endnames := es\<rparr>)) (\<lambda>cfg.
       let saved = (case cfg_saved cfg ! i of Some ps \<Rightarrow> Copy ps | None \<Rightarrow> MakePersister)
       in start_peer methods now rnd i saved cfg)))"

definition setunreliable :: "bool \<Rightarrow> ('c, 'a, 'r) config \<Rightarrow> ('c, 'a, 'r) config" where
  "setunreliable unrel cfg = cfg\<lparr>cfg_net := Reliable (\<not> unrel) (cfg_net cfg)\<rparr>"

definition setlongreordering :: "bool \<Rightarrow> ('c, 'a, 'r) config \<Rightarrow> ('c, 'a, 'r) config" where
  "setlongreordering longrel cfg = cfg\<lparr>cfg_net := LongReordering longrel (cfg_net cfg)\<rparr>"

definition make_config ::
  "(nat, 'a, 'r) Method list \<Rightarrow> (nat \<Rightarrow> nat \<Rightarrow> string) \<Rightarrow> int \<Rightarrow> nat \<Rightarrow> (nat \<Rightarrow> 'c Raft) \<Rightarrow> nat \<Rightarrow> bool \<Rightarrow> ('c, 'a, 'r) config go" where
  "make_config methods names now rnd heap n unreliable =
     (let cfg = \<lparr>cfg_net = MakeNetwork, cfg_n = n, cfg_rafts = replicate n None, cfg_applyErr = replicate n '''',
                 cfg_connected = replicate n False, cfg_saved = replicate n None, cfg_endnames = replicate n None,
                 cfg_logs = replicate n Map.empty, cfg_start = now, cfg_t0 = 0, cfg_rpcs0 = 0, cfg_cmds0 = 0,
                 cfg_bytes0 = 0, cfg_maxIndex = 0, cfg_maxIndex0 = 0, cfg_failed = False, cfg_heap = heap, cfg_next = 0\<rparr>;
          cfg = setunreliable unreliable cfg;
          cfg = cfg\<lparr>cfg_net := LongDelays True (cfg_net cfg)\<rparr>
      in go_bind (go_each (\<lambda>i cfg. start1 methods (names i) now rnd i (cfg\<lparr>cfg_logs := (cfg_logs cfg)[i := Map.empty]\<rparr>)) [0..<n] cfg)
           (go_each connect [0..<n]))"

definition checkTimeout :: "int \<Rightarrow> ('c, 'a, 'r) config \<Rightarrow> unit go" where
  "checkTimeout now cfg =
     (if \<not> cfg_failed cfg \<and> now - cfg_start cfg > 120 * 1000000000 then Inl (Fatal ''test took longer than 120 seconds'') else Inr ())"

definition cleanup :: "int \<Rightarrow> ('c, 'a, 'r) config \<Rightarrow> ('c, 'a, 'r) config go" where
  "cleanup now cfg =
     (let heap = fold (\<lambda>rf h. case rf of None \<Rightarrow> h | Some a \<Rightarrow> h(a := Kill (h a))) (cfg_rafts cfg) (cfg_heap cfg)
      in go_bind (Cleanup (cfg_net cfg)) (\<lambda>rn.
         let cfg = cfg\<lparr>cfg_heap := heap, cfg_net := rn\<rparr>
         in go_bind (checkTimeout now cfg) (\<lambda>_. Inr cfg)))"

section \<open>The reader of an apply channel\<close>

text \<open>Lines 171-201 of \<open>start1\<close>: what the goroutine of server \<open>i\<close> does with a message.\<close>

definition apply_reader :: "nat \<Rightarrow> 'c ApplyMsg \<Rightarrow> ('c, 'a, 'r) config \<Rightarrow> ('c, 'a, 'r) config go" where
  "apply_reader i m cfg =
     (if CommandValid m = False then Inr cfg
      else
        let v = am_Command m; k = CommandIndex m;
            err_msg = (if list_ex (\<lambda>l. l k \<noteq> None \<and> l k \<noteq> Some v) (cfg_logs cfg) then ''commit index'' else '''')
        in go_bind (go_index (cfg_logs cfg) (int i)) (\<lambda>l.
             let prevok = (l (k - 1) \<noteq> None);
                 cfg = cfg\<lparr>cfg_logs := (cfg_logs cfg)[i := l(k \<mapsto> v)]\<rparr>;
                 cfg = (if k > cfg_maxIndex cfg then cfg\<lparr>cfg_maxIndex := k\<rparr> else cfg);
                 err_msg = (if k > 1 \<and> prevok = False then ''apply out of order'' else err_msg)
             in if err_msg \<noteq> '''' then Inl (Fatal err_msg) else Inr cfg))"

section \<open>Checks\<close>

text \<open>
  What the loops over \<open>cfg.rafts\<close> see: \<open>view\<close> gives the peer at an address at the moment
  its \<open>GetState\<close> runs.
\<close>

definition observed :: "(nat \<Rightarrow> 'c Raft) \<Rightarrow> nat \<Rightarrow> ('c, 'a, 'r) config \<Rightarrow> (int \<times> bool) go" where
  "observed view i cfg =
     go_bind (go_index (cfg_rafts cfg) (int i)) (\<lambda>rf.
       case rf of None \<Rightarrow> Inl NilDereference | Some a \<Rightarrow> Inr (GetState (view a)))"

definition leaders_seen :: "(nat \<Rightarrow> 'c Raft) \<Rightarrow> ('c, 'a, 'r) config \<Rightarrow> (int \<rightharpoonup> nat list) go" where
  "leaders_seen view cfg =
     go_each (\<lambda>i leaders.
       go_bind (go_index (cfg_connected cfg) (int i)) (\<lambda>c.
         if c then
           go_bind (observed view i cfg) (\<lambda>(term, leader).
             Inr (if leader then leaders(term \<mapsto> (case leaders term of None \<Rightarrow> [] | Some ls \<Rightarrow> ls) @ [i]) else leaders))
         else Inr leaders)) [0..<cfg_n cfg] Map.empty"

text \<open>
  One round of \<open>checkOneLeader\<close>, lines 308-330. The keys of the map are visited in any order
  \<open>order\<close>; the result is \<open>None\<close> when there is no leader.
\<close>

fun last_leader_term :: "(int \<rightharpoonup> nat list) \<Rightarrow> int list \<Rightarrow> int \<Rightarrow> int go" where
  "last_leader_term leaders [] best = Inr best"
| "last_leader_term leaders (term # terms) best =
     (if length (case leaders term of None \<Rightarrow> [] | Some ls \<Rightarrow> ls) > 1 then Inl (Fatal ''term has >1 leaders'')
      else last_leader_term leaders terms (if term > best then term else best))"

definition one_leader_round :: "(nat \<Rightarrow> 'c Raft) \<Rightarrow> ((int \<rightharpoonup> nat list) \<Rightarrow> int list) \<Rightarrow> ('c, 'a, 'r) config \<Rightarrow> nat option go" where
  "one_leader_round view order cfg =
     go_bind (leaders_seen view cfg) (\<lambda>leaders.
     go_bind (last_leader_term leaders (order leaders) (-1)) (\<lambda>lastTermWithLeader.
       if order leaders \<noteq> [] then
         go_bind (go_index (case leaders lastTermWithLeader of None \<Rightarrow> [] | Some ls \<Rightarrow> ls) 0) (\<lambda>i. Inr (Some i))
       else Inr None))"

fun checkOneLeader_rounds ::
  "nat \<Rightarrow> (nat \<Rightarrow> nat \<Rightarrow> 'c Raft) \<Rightarrow> ((int \<rightharpoonup> nat list) \<Rightarrow> int list) \<Rightarrow> ('c, 'a, 'r) config \<Rightarrow> nat go" where
  "checkOneLeader_rounds 0 views order cfg = Inl (Fatal ''expected one leader, got none'')"
| "checkOneLeader_rounds (Suc iters) views order cfg =
     go_bind (one_leader_round (views iters) order cfg) (\<lambda>r.
       case r of Some i \<Rightarrow> Inr i | None \<Rightarrow> checkOneLeader_rounds iters views order cfg)"

definition checkOneLeader :: "(nat \<Rightarrow> nat \<Rightarrow> 'c Raft) \<Rightarrow> ((int \<rightharpoonup> nat list) \<Rightarrow> int list) \<Rightarrow> ('c, 'a, 'r) config \<Rightarrow> nat go" where
  "checkOneLeader = checkOneLeader_rounds 10"

definition checkTerms :: "(nat \<Rightarrow> 'c Raft) \<Rightarrow> ('c, 'a, 'r) config \<Rightarrow> int go" where
  "checkTerms view cfg =
     go_each (\<lambda>i term.
       go_bind (go_index (cfg_connected cfg) (int i)) (\<lambda>c.
         if c then
           go_bind (observed view i cfg) (\<lambda>(xterm, _).
             if term = -1 then Inr xterm
             else if term \<noteq> xterm then Inl (Fatal ''servers disagree on term'') else Inr term)
         else Inr term)) [0..<cfg_n cfg] (-1)"

definition checkNoLeader :: "(nat \<Rightarrow> 'c Raft) \<Rightarrow> ('c, 'a, 'r) config \<Rightarrow> unit go" where
  "checkNoLeader view cfg =
     go_each (\<lambda>i u.
       go_bind (go_index (cfg_connected cfg) (int i)) (\<lambda>c.
         if c then
           go_bind (observed view i cfg) (\<lambda>(_, is_leader).
             if is_leader then Inl (Fatal ''expected no leader'') else Inr u)
         else Inr u)) [0..<cfg_n cfg] ()"

definition nCommitted :: "int \<Rightarrow> ('c, 'a, 'r) config \<Rightarrow> (nat \<times> 'c option) go" where
  "nCommitted index cfg =
     go_each (\<lambda>i (count, cmd).
       go_bind (go_index (cfg_applyErr cfg) (int i)) (\<lambda>err.
         if err \<noteq> '''' then Inl (Fatal err)
         else go_bind (go_index (cfg_logs cfg) (int i)) (\<lambda>l.
           case l index of
             None \<Rightarrow> Inr (count, cmd)
           | Some cmd1 \<Rightarrow>
               if count > 0 \<and> cmd \<noteq> cmd1 then Inl (Fatal ''committed values do not match'')
               else Inr (count + 1, cmd1)))) [0..<length (cfg_rafts cfg)] (0, None)"

text \<open>
  \<open>wait\<close>: \<open>cfgs k\<close> and \<open>views k\<close> are what the \<open>k\<close>-th round finds; \<open>None\<close> is the result \<open>-1\<close>
  when some server has moved to a later term.
\<close>

definition moved_on :: "(nat \<Rightarrow> 'c Raft) \<Rightarrow> int \<Rightarrow> ('c, 'a, 'r) config \<Rightarrow> bool go" where
  "moved_on view startTerm cfg =
     go_each (\<lambda>i gone. if gone then Inr gone else go_bind (observed view i cfg) (\<lambda>(t, _). Inr (t > startTerm)))
       [0..<length (cfg_rafts cfg)] False"

fun wait_rounds ::
  "nat \<Rightarrow> nat \<Rightarrow> (nat \<Rightarrow> ('c, 'a, 'r) config) \<Rightarrow> (nat \<Rightarrow> nat \<Rightarrow> 'c Raft) \<Rightarrow> int \<Rightarrow> nat \<Rightarrow> int \<Rightarrow> 'c option option go" where
  "wait_rounds 0 k cfgs views index n startTerm =
     go_bind (nCommitted index (cfgs k)) (\<lambda>(nd, cmd).
       if nd < n then Inl (Fatal ''only some decided'') else Inr (Some cmd))"
| "wait_rounds (Suc iters) k cfgs views index n startTerm =
     go_bind (nCommitted index (cfgs k)) (\<lambda>(nd, _).
       if nd \<ge> n then wait_rounds 0 (k + 1) cfgs views index n startTerm
       else if startTerm > -1 then
         go_bind (moved_on (views k) startTerm (cfgs k)) (\<lambda>gone.
           if gone then Inr None else wait_rounds iters (k + 1) cfgs views index n startTerm)
       else wait_rounds iters (k + 1) cfgs views index n startTerm)"

definition wait :: "(nat \<Rightarrow> ('c, 'a, 'r) config) \<Rightarrow> (nat \<Rightarrow> nat \<Rightarrow> 'c Raft) \<Rightarrow> int \<Rightarrow> nat \<Rightarrow> int \<Rightarrow> 'c option option go" where
  "wait cfgs views index n startTerm = wait_rounds 30 0 cfgs views index n startTerm"

text \<open>
  Lines 437-454 of \<open>one\<close>: submit the command to the first connected server, after \<open>starts\<close>
  and round the ring, that takes itself for the leader. The result is the new value of
  \<open>starts\<close> and the index, \<open>-1\<close> when nobody accepts. Lines 461-469: one look at the result.
  The peers and readers run on between two of these steps: \<open>run\<close> says how the configuration
  changes before each of them.
\<close>

fun one_submit :: "nat \<Rightarrow> (nat \<Rightarrow> ('c, 'a, 'r) config \<Rightarrow> ('c, 'a, 'r) config) \<Rightarrow> 'c \<Rightarrow> nat \<Rightarrow> ('c, 'a, 'r) config \<Rightarrow>
    (nat \<times> int \<times> ('c, 'a, 'r) config) go" where
  "one_submit 0 run cmd starts cfg = Inr (starts, -1, cfg)"
| "one_submit (Suc si) run cmd starts cfg =
     (let cfg = run si cfg; starts = (starts + 1) mod cfg_n cfg in
      go_bind (go_index (cfg_connected cfg) (int starts)) (\<lambda>c.
      go_bind (if c then go_index (cfg_rafts cfg) (int starts) else Inr None) (\<lambda>rf.
        case rf of
          None \<Rightarrow> one_submit si run cmd starts cfg
        | Some a \<Rightarrow>
            (case Start cmd (cfg_heap cfg a) of
               (rf', index1, _, ok) \<Rightarrow>
                 let cfg = cfg\<lparr>cfg_heap := (cfg_heap cfg)(a := rf')\<rparr>
                 in if ok then Inr (starts, index1, cfg) else one_submit si run cmd starts cfg))))"

definition one_poll :: "'c \<Rightarrow> nat \<Rightarrow> int \<Rightarrow> ('c, 'a, 'r) config \<Rightarrow> bool go" where
  "one_poll cmd expectedServers index cfg =
     go_bind (nCommitted index cfg) (\<lambda>(nd, cmd1). Inr (nd > 0 \<and> nd \<ge> expectedServers \<and> cmd1 = Some cmd))"

text \<open>
  Lines 459-471: the looks within two seconds, one for each element of \<open>runs\<close>. Then \<open>one\<close>
  itself, with what happens in each of its rounds within ten seconds.
\<close>

fun one_polls :: "(('c, 'a, 'r) config \<Rightarrow> ('c, 'a, 'r) config) list \<Rightarrow> 'c \<Rightarrow> nat \<Rightarrow> int \<Rightarrow> ('c, 'a, 'r) config \<Rightarrow>
    (bool \<times> ('c, 'a, 'r) config) go" where
  "one_polls [] cmd expectedServers index cfg = Inr (False, cfg)"
| "one_polls (run # runs) cmd expectedServers index cfg =
     (let cfg = run cfg in
      go_bind (one_poll cmd expectedServers index cfg) (\<lambda>committed.
        if committed then Inr (True, cfg) else one_polls runs cmd expectedServers index cfg))"

fun one_rounds ::
  "((nat \<Rightarrow> ('c, 'a, 'r) config \<Rightarrow> ('c, 'a, 'r) config) \<times> (('c, 'a, 'r) config \<Rightarrow> ('c, 'a, 'r) config) list) list \<Rightarrow>
   'c \<Rightarrow> nat \<Rightarrow> bool \<Rightarrow> nat \<Rightarrow> ('c, 'a, 'r) config \<Rightarrow> (int \<times> ('c, 'a, 'r) config) go" where
  "one_rounds [] cmd expectedServers retry starts cfg = Inl (Fatal ''failed to reach agreement'')"
| "one_rounds ((run, runs) # rounds) cmd expectedServers retry starts cfg =
     go_bind (one_submit (cfg_n cfg) run cmd starts cfg) (\<lambda>(starts, index, cfg).
       if index \<noteq> -1 then
         go_bind (one_polls runs cmd expectedServers index cfg) (\<lambda>(committed, cfg).
           if committed then Inr (index, cfg)
           else if retry = False then Inl (Fatal ''failed to reach agreement'')
           else one_rounds rounds cmd expectedServers retry starts cfg)
       else one_rounds rounds cmd expectedServers retry starts cfg)"

definition one ::
  "((nat \<Rightarrow> ('c, 'a, 'r) config \<Rightarrow> ('c, 'a, 'r) config) \<times> (('c, 'a, 'r) config \<Rightarrow> ('c, 'a, 'r) config) list) list \<Rightarrow>
   'c \<Rightarrow> nat \<Rightarrow> bool \<Rightarrow> ('c, 'a, 'r) config \<Rightarrow> (int \<times> ('c, 'a, 'r) config) go" where
  "one rounds cmd expectedServers retry cfg = one_rounds rounds cmd expectedServers retry 0 cfg"

section \<open>Statistics\<close>

definition rpcCount :: "nat \<Rightarrow> ('c, 'a, 'r) config \<Rightarrow> int go" where
  "rpcCount server cfg = GetCount server (cfg_net cfg)"

definition rpcTotal :: "('c, 'a, 'r) config \<Rightarrow> int" where
  "rpcTotal cfg = GetTotalCount (cfg_net cfg)"

definition bytesTotal :: "('c, 'a, 'r) config \<Rightarrow> int" where
  "bytesTotal cfg = GetTotalBytes (cfg_net cfg)"

definition cfg_begin :: "int \<Rightarrow> ('c, 'a, 'r) config \<Rightarrow> ('c, 'a, 'r) config" where
  "cfg_begin now cfg = cfg\<lparr>cfg_t0 := now, cfg_rpcs0 := rpcTotal cfg, cfg_bytes0 := bytesTotal cfg, cfg_cmds0 := 0,
     cfg_maxIndex0 := cfg_maxIndex cfg\<rparr>"

text \<open>The numbers \<open>end\<close> prints: elapsed time, peers, RPCs, bytes, agreements.\<close>

definition cfg_end :: "int \<Rightarrow> ('c, 'a, 'r) config \<Rightarrow> (int \<times> nat \<times> int \<times> int \<times> int) option go" where
  "cfg_end now cfg =
     go_bind (checkTimeout now cfg) (\<lambda>_.
       Inr (if cfg_failed cfg = False then
              Some (now - cfg_t0 cfg, cfg_n cfg, rpcTotal cfg - cfg_rpcs0 cfg, bytesTotal cfg - cfg_bytes0 cfg,
                    cfg_maxIndex cfg - cfg_maxIndex0 cfg)
            else None))"

end
