(* ===== verification/Raft_Spec.thy ===== *)
theory Raft_Spec
  imports Raft_Log Quorums
begin

text \<open>
  An abstract protocol of replicated logs that the cluster refines. It keeps for every term
  the log of its leader, and records who has ever agreed with it, up to which length, while
  in that term. A step is about terms, votes and logs only; how messages carry them does not
  matter. What is shown of it is that a part of a leader's log on which a majority has agreed
  is in the log of every later leader.
\<close>

section \<open>The protocol\<close>

datatype role = Follows | Stands | Leads

record 'c proto =
  q_term :: "nat \<Rightarrow> int"
  q_role :: "nat \<Rightarrow> role"
  q_log :: "nat \<Rightarrow> 'c LogEntry list"
  q_votes :: "(nat \<times> int \<times> nat) set"
  q_led :: "(int \<times> nat) set"
  q_llog :: "int \<Rightarrow> 'c LogEntry list"
  q_acks :: "(nat \<times> int \<times> nat) set"

text \<open>Server \<open>v\<close> agrees with the leader of its term on the first \<open>k\<close> entries.\<close>

definition agreeing :: "nat \<Rightarrow> 'c proto \<Rightarrow> (nat \<times> int \<times> nat) set" where
  "agreeing n p = {(v, t, k). v < n \<and> t = q_term p v \<and> 1 \<le> k \<and> k \<le> length (q_log p v) \<and> k \<le> length (q_llog p t) \<and>
     take k (q_log p v) = take k (q_llog p t)}"

definition observe :: "nat \<Rightarrow> 'c proto \<Rightarrow> 'c proto" where
  "observe n p = p\<lparr>q_acks := q_acks p \<union> agreeing n p\<rparr>"

definition sentinel :: "'c LogEntry" where
  "sentinel = \<lparr>le_Command = None, le_Term = 0\<rparr>"

definition proto_init :: "nat \<Rightarrow> 'c proto" where
  "proto_init n = observe n \<lparr>q_term = (\<lambda>_. 0), q_role = (\<lambda>_. Follows), q_log = (\<lambda>_. [sentinel]), q_votes = {}, q_led = {},
     q_llog = (\<lambda>t. if t = 0 then [sentinel] else []), q_acks = {}\<rparr>"

text \<open>The comparison of logs in an election.\<close>

definition at_least_as_new :: "'c LogEntry list \<Rightarrow> 'c LogEntry list \<Rightarrow> bool" where
  "at_least_as_new l1 l2 \<longleftrightarrow> le_Term (last l2) < le_Term (last l1) \<or>
     le_Term (last l2) = le_Term (last l1) \<and> length l2 \<le> length l1"

text \<open>A new log that keeps what the old one has in common with the leader's.\<close>

definition keeps :: "'c LogEntry list \<Rightarrow> 'c LogEntry list \<Rightarrow> 'c LogEntry list \<Rightarrow> bool" where
  "keeps lead lg lg' \<longleftrightarrow> (\<forall>k. k \<le> length lg \<longrightarrow> k \<le> length lead \<longrightarrow> take k lg = take k lead \<longrightarrow>
     k \<le> length lg' \<and> take k lg' = take k lg)"

inductive pstep :: "nat \<Rightarrow> 'c proto \<Rightarrow> 'c proto \<Rightarrow> bool" for n where
  stand: "c < n \<Longrightarrow>
    pstep n p (observe n (p\<lparr>q_term := (q_term p)(c := q_term p c + 1), q_role := (q_role p)(c := Stands),
      q_votes := insert (c, q_term p c + 1, c) (q_votes p)\<rparr>))"
| vote: "v < n \<Longrightarrow> c < n \<Longrightarrow> q_term p v \<le> t \<Longrightarrow> t \<le> q_term p c \<Longrightarrow> (\<And>c'. (v, t, c') \<in> q_votes p \<Longrightarrow> c' = c) \<Longrightarrow>
    (q_role p c = Stands \<Longrightarrow> q_term p c = t \<Longrightarrow> at_least_as_new (q_log p c) (q_log p v)) \<Longrightarrow>
    pstep n p (observe n (p\<lparr>q_term := (q_term p)(v := t), q_role := (q_role p)(v := Follows),
      q_votes := insert (v, t, c) (q_votes p)\<rparr>))"
| win: "c < n \<Longrightarrow> q_role p c = Stands \<Longrightarrow> majority n Q \<Longrightarrow> (\<And>v. v \<in> Q \<Longrightarrow> (v, q_term p c, c) \<in> q_votes p) \<Longrightarrow>
    pstep n p (observe n (p\<lparr>q_role := (q_role p)(c := Leads), q_led := insert (q_term p c, c) (q_led p),
      q_llog := (q_llog p)(q_term p c := q_log p c)\<rparr>))"
| extend: "i < n \<Longrightarrow> q_role p i = Leads \<Longrightarrow> le_Term e = q_term p i \<Longrightarrow> le_Command e \<noteq> None \<Longrightarrow>
    pstep n p (observe n (p\<lparr>q_log := (q_log p)(i := q_log p i @ [e]),
      q_llog := (q_llog p)(q_term p i := q_log p i @ [e])\<rparr>))"
| accept: "v < n \<Longrightarrow> q_term p v \<le> u \<Longrightarrow> q_llog p u \<noteq> [] \<Longrightarrow> lg = take m (q_log p v) \<or> lg = take m (q_llog p u) \<Longrightarrow> lg \<noteq> [] \<Longrightarrow>
    keeps (q_llog p u) (q_log p v) lg \<Longrightarrow>
    pstep n p (observe n (p\<lparr>q_term := (q_term p)(v := u), q_role := (q_role p)(v := Follows), q_log := (q_log p)(v := lg)\<rparr>))"
| settle: "v < n \<Longrightarrow> q_term p v \<le> u \<Longrightarrow> r = Follows \<or> u = q_term p v \<and> r = q_role p v \<Longrightarrow>
    pstep n p (observe n (p\<lparr>q_term := (q_term p)(v := u), q_role := (q_role p)(v := r)\<rparr>))"

lemma observe_fields [simp]:
  "q_term (observe n p) = q_term p" "q_role (observe n p) = q_role p" "q_log (observe n p) = q_log p"
  "q_votes (observe n p) = q_votes p" "q_led (observe n p) = q_led p" "q_llog (observe n p) = q_llog p"
  "q_acks (observe n p) = q_acks p \<union> agreeing n p"
  by (simp_all add: observe_def)

section \<open>Safety of a prefix\<close>

text \<open>
  \<open>entry p t k\<close>: the leader of term \<open>t\<close> has, as its \<open>k\<close>-th entry, one of its own term.
  \<open>hopeless p t k\<close>: a majority has left term \<open>t\<close> without having agreed on \<open>k\<close> entries.
  \<open>safe p lg t k\<close>: the log has these entries, or no majority can ever agree on them.
\<close>

definition entry :: "'c proto \<Rightarrow> int \<Rightarrow> nat \<Rightarrow> bool" where
  "entry p t k \<longleftrightarrow> 1 \<le> k \<and> k \<le> length (q_llog p t) \<and> le_Term (q_llog p t ! (k - 1)) = t"

definition hopeless :: "nat \<Rightarrow> 'c proto \<Rightarrow> int \<Rightarrow> nat \<Rightarrow> bool" where
  "hopeless n p t k \<longleftrightarrow> (\<exists>Q. majority n Q \<and> (\<forall>w\<in>Q. t < q_term p w \<and> (w, t, k) \<notin> q_acks p))"

definition safe :: "nat \<Rightarrow> 'c proto \<Rightarrow> 'c LogEntry list \<Rightarrow> int \<Rightarrow> nat \<Rightarrow> bool" where
  "safe n p lg t k \<longleftrightarrow> k \<le> length lg \<and> take k lg = take k (q_llog p t) \<or> hopeless n p t k"

text \<open>Every prefix of the log that ends in an entry of term \<open>t\<close> comes from the leader of \<open>t\<close>.\<close>

definition sourced :: "'c proto \<Rightarrow> 'c LogEntry list \<Rightarrow> bool" where
  "sourced p lg \<longleftrightarrow> (\<forall>j<length lg. j < length (q_llog p (le_Term (lg ! j))) \<and>
     take (Suc j) lg = take (Suc j) (q_llog p (le_Term (lg ! j))))"

definition log_good :: "'c proto \<Rightarrow> int \<Rightarrow> 'c LogEntry list \<Rightarrow> bool" where
  "log_good p t lg \<longleftrightarrow> lg \<noteq> [] \<and> sorted (map le_Term lg) \<and> (\<forall>e\<in>set lg. le_Term e \<le> t) \<and> sourced p lg"

text \<open>What every step does to the parts of the state that safety speaks about.\<close>

definition grows :: "nat \<Rightarrow> 'c proto \<Rightarrow> 'c proto \<Rightarrow> bool" where
  "grows n p p' \<longleftrightarrow> (\<forall>v<n. q_term p v \<le> q_term p' v) \<and> (\<forall>t. prefix (q_llog p t) (q_llog p' t)) \<and>
     q_acks p \<subseteq> q_acks p' \<and> (\<forall>v t k. (v, t, k) \<in> q_acks p' \<longrightarrow> (v, t, k) \<in> q_acks p \<or> t = q_term p' v)"

lemma growsD:
  assumes "grows n p p'"
  shows "v < n \<Longrightarrow> q_term p v \<le> q_term p' v" and "prefix (q_llog p t) (q_llog p' t)" and "x \<in> q_acks p \<Longrightarrow> x \<in> q_acks p'"
    and "(v, t, k) \<in> q_acks p' \<Longrightarrow> (v, t, k) \<in> q_acks p \<or> t = q_term p' v"
  using assms unfolding grows_def by (simp_all add: subset_eq)

lemma grows_take:
  assumes "grows n p p'" and "k \<le> length (q_llog p t)"
  shows "take k (q_llog p' t) = take k (q_llog p t)" and "k \<le> length (q_llog p' t)"
    and "j < k \<Longrightarrow> q_llog p' t ! j = q_llog p t ! j"
proof -
  obtain zs where "q_llog p' t = q_llog p t @ zs" using growsD(2)[OF assms(1)] by (auto simp: prefix_def)
  then show "take k (q_llog p' t) = take k (q_llog p t)" "k \<le> length (q_llog p' t)"
    "j < k \<Longrightarrow> q_llog p' t ! j = q_llog p t ! j" using assms(2) by (auto simp: nth_append)
qed

lemma hopeless_grows: "grows n p p' \<Longrightarrow> hopeless n p t k \<Longrightarrow> hopeless n p' t k"
proof -
  assume g: "grows n p p'" and "hopeless n p t k"
  then obtain Q where Q: "majority n Q" "\<forall>w\<in>Q. t < q_term p w \<and> (w, t, k) \<notin> q_acks p" by (auto simp: hopeless_def)
  have "t < q_term p' w \<and> (w, t, k) \<notin> q_acks p'" if "w \<in> Q" for w
  proof -
    have "w < n" using Q(1) that by (auto simp: majority_def)
    then have "t < q_term p' w" using growsD(1)[OF g] Q(2) that by fastforce
    then show ?thesis using growsD(4)[OF g, of w t k] Q(2) that by auto
  qed
  then show ?thesis using Q(1) by (auto simp: hopeless_def)
qed

lemma safe_grows: "grows n p p' \<Longrightarrow> k \<le> length (q_llog p t) \<Longrightarrow> safe n p lg t k \<Longrightarrow> safe n p' lg t k"
  using hopeless_grows[of n p p' t k] grows_take(1)[of n p p' k t] by (auto simp: safe_def)

lemma sourced_grows: "grows n p p' \<Longrightarrow> sourced p lg \<Longrightarrow> sourced p' lg"
  unfolding sourced_def
proof (intro allI impI)
  fix j assume g: "grows n p p'" and j: "j < length lg"
    and s: "\<forall>j<length lg. j < length (q_llog p (le_Term (lg ! j))) \<and> take (Suc j) lg = take (Suc j) (q_llog p (le_Term (lg ! j)))"
  then have "Suc j \<le> length (q_llog p (le_Term (lg ! j)))" "take (Suc j) lg = take (Suc j) (q_llog p (le_Term (lg ! j)))" by auto
  then show "j < length (q_llog p' (le_Term (lg ! j))) \<and> take (Suc j) lg = take (Suc j) (q_llog p' (le_Term (lg ! j)))"
    using grows_take(1,2)[OF g, of "Suc j" "le_Term (lg ! j)"] by simp
qed

lemma log_good_grows: "grows n p p' \<Longrightarrow> log_good p t lg \<Longrightarrow> t \<le> t' \<Longrightarrow> log_good p' t' lg"
  using sourced_grows[of n p p' lg] by (fastforce simp: log_good_def)

lemma sourced_take: "sourced p lg \<Longrightarrow> sourced p (take m lg)"
  by (auto simp: sourced_def min_def)

lemma sourced_last:
  assumes "sourced p lg" and "lg \<noteq> []"
  shows "length lg \<le> length (q_llog p (le_Term (last lg)))" and "take (length lg) (q_llog p (le_Term (last lg))) = lg"
proof -
  have "length lg - 1 < length lg" "Suc (length lg - 1) = length lg" using assms(2) by auto
  then show "length lg \<le> length (q_llog p (le_Term (last lg)))" "take (length lg) (q_llog p (le_Term (last lg))) = lg"
    using assms unfolding sourced_def last_conv_nth[OF assms(2)] by (metis Suc_le_eq order_refl take_all)+
qed

lemma log_good_take: "log_good p t lg \<Longrightarrow> take m lg \<noteq> [] \<Longrightarrow> log_good p t (take m lg)"
  by (auto simp: log_good_def sourced_take sorted_wrt_take dest: in_set_takeD simp flip: take_map)

lemma entry_grows: "grows n p p' \<Longrightarrow> entry p t k \<Longrightarrow> entry p' t k"
  using grows_take[of n p p' k t] by (auto simp: entry_def)


section \<open>The invariant\<close>

definition elect_inv :: "nat \<Rightarrow> 'c proto \<Rightarrow> bool" where
  "elect_inv n p \<longleftrightarrow>
     (\<forall>v t c. (v, t, c) \<in> q_votes p \<longrightarrow> v < n \<and> c < n \<and> t \<le> q_term p v \<and> t \<le> q_term p c) \<and>
     (\<forall>v t c c'. (v, t, c) \<in> q_votes p \<longrightarrow> (v, t, c') \<in> q_votes p \<longrightarrow> c = c') \<and>
     (\<forall>t i. (t, i) \<in> q_led p \<longrightarrow> i < n \<and> t \<le> q_term p i \<and> (q_term p i = t \<longrightarrow> q_role p i \<noteq> Stands) \<and>
        (\<exists>Q. majority n Q \<and> (\<forall>v\<in>Q. (v, t, i) \<in> q_votes p))) \<and>
     (\<forall>t. q_llog p t \<noteq> [] \<longrightarrow> t = 0 \<or> (\<exists>i. (t, i) \<in> q_led p)) \<and>
     (\<forall>i<n. q_role p i = Leads \<longrightarrow> (q_term p i, i) \<in> q_led p \<and> q_llog p (q_term p i) = q_log p i) \<and>
     (\<forall>i<n. 0 \<le> q_term p i \<and> (q_role p i \<noteq> Follows \<longrightarrow> 1 \<le> q_term p i))"

definition logs_inv :: "nat \<Rightarrow> 'c proto \<Rightarrow> bool" where
  "logs_inv n p \<longleftrightarrow> (\<forall>i<n. log_good p (q_term p i) (q_log p i)) \<and> (\<forall>t. q_llog p t \<noteq> [] \<longrightarrow> log_good p t (q_llog p t))"

definition acks_inv :: "nat \<Rightarrow> 'c proto \<Rightarrow> bool" where
  "acks_inv n p \<longleftrightarrow> agreeing n p \<subseteq> q_acks p \<and>
     (\<forall>v t k. (v, t, k) \<in> q_acks p \<longrightarrow> v < n \<and> 1 \<le> k \<and> k \<le> length (q_llog p t) \<and> t \<le> q_term p v \<and>
        (\<forall>j. 1 \<le> j \<longrightarrow> j \<le> k \<longrightarrow> (v, t, j) \<in> q_acks p))"

text \<open>Later leaders, the servers themselves, and candidates who have got a server's vote.\<close>

definition leaders_safe :: "nat \<Rightarrow> 'c proto \<Rightarrow> bool" where
  "leaders_safe n p \<longleftrightarrow> (\<forall>t' t k. q_llog p t' \<noteq> [] \<longrightarrow> t < t' \<longrightarrow> entry p t k \<longrightarrow> safe n p (q_llog p t') t k)"

definition servers_safe :: "nat \<Rightarrow> 'c proto \<Rightarrow> bool" where
  "servers_safe n p \<longleftrightarrow> (\<forall>v t k. (v, t, k) \<in> q_acks p \<longrightarrow> entry p t k \<longrightarrow> safe n p (q_log p v) t k)"

definition votes_safe :: "nat \<Rightarrow> 'c proto \<Rightarrow> bool" where
  "votes_safe n p \<longleftrightarrow> (\<forall>v c t k. (v, q_term p c, c) \<in> q_votes p \<longrightarrow> q_role p c = Stands \<longrightarrow> t < q_term p c \<longrightarrow>
     (v, t, k) \<in> q_acks p \<longrightarrow> entry p t k \<longrightarrow> safe n p (q_log p c) t k)"

definition pinv :: "nat \<Rightarrow> 'c proto \<Rightarrow> bool" where
  "pinv n p \<longleftrightarrow> elect_inv n p \<and> logs_inv n p \<and> acks_inv n p \<and> leaders_safe n p \<and> servers_safe n p \<and> votes_safe n p"

lemma elect_invD:
  assumes "elect_inv n p"
  shows "(v, t, c) \<in> q_votes p \<Longrightarrow> v < n \<and> c < n \<and> t \<le> q_term p v \<and> t \<le> q_term p c"
    and "(v, t, c) \<in> q_votes p \<Longrightarrow> (v, t, c') \<in> q_votes p \<Longrightarrow> c = c'"
    and "(t, i) \<in> q_led p \<Longrightarrow> i < n \<and> t \<le> q_term p i \<and> (q_term p i = t \<longrightarrow> q_role p i \<noteq> Stands) \<and>
        (\<exists>Q. majority n Q \<and> (\<forall>v\<in>Q. (v, t, i) \<in> q_votes p))"
    and "q_llog p t \<noteq> [] \<Longrightarrow> t = 0 \<or> (\<exists>i. (t, i) \<in> q_led p)"
    and "i < n \<Longrightarrow> q_role p i = Leads \<Longrightarrow> (q_term p i, i) \<in> q_led p \<and> q_llog p (q_term p i) = q_log p i"
    and "i < n \<Longrightarrow> 0 \<le> q_term p i" and "i < n \<Longrightarrow> q_role p i \<noteq> Follows \<Longrightarrow> 1 \<le> q_term p i"
  using assms unfolding elect_inv_def by blast+

lemma logs_invD:
  assumes "logs_inv n p"
  shows "i < n \<Longrightarrow> log_good p (q_term p i) (q_log p i)" and "q_llog p t \<noteq> [] \<Longrightarrow> log_good p t (q_llog p t)"
  using assms unfolding logs_inv_def by blast+

lemma acks_invD:
  assumes "acks_inv n p" and "(v, t, k) \<in> q_acks p"
  shows "v < n" and "1 \<le> k" and "k \<le> length (q_llog p t)" and "t \<le> q_term p v"
    and "1 \<le> j \<Longrightarrow> j \<le> k \<Longrightarrow> (v, t, j) \<in> q_acks p"
  using assms unfolding acks_inv_def by blast+

lemma pinvD:
  assumes "pinv n p"
  shows "elect_inv n p" and "logs_inv n p" and "acks_inv n p" and "leaders_safe n p" and "servers_safe n p" and "votes_safe n p"
  using assms by (simp_all add: pinv_def)

lemma leaders_safeD:
  assumes "leaders_safe n p" and "q_llog p t' \<noteq> []" and "t \<le> t'" and "entry p t k" and "\<not> hopeless n p t k"
  shows "k \<le> length (q_llog p t') \<and> take k (q_llog p t') = take k (q_llog p t)"
proof (cases "t = t'")
  case False
  then have "safe n p (q_llog p t') t k" using assms unfolding leaders_safe_def by simp
  then show ?thesis using assms(5) by (simp add: safe_def)
qed (use assms(4) in \<open>simp add: entry_def\<close>)

text \<open>A term has at most one leader.\<close>

lemma led_unique: "elect_inv n p \<Longrightarrow> (t, i) \<in> q_led p \<Longrightarrow> majority n Q \<Longrightarrow> (\<And>v. v \<in> Q \<Longrightarrow> (v, t, j) \<in> q_votes p) \<Longrightarrow> i = j"
proof -
  assume e: "elect_inv n p" and l: "(t, i) \<in> q_led p" and Q: "majority n Q" "\<And>v. v \<in> Q \<Longrightarrow> (v, t, j) \<in> q_votes p"
  obtain A where A: "majority n A" "\<forall>v\<in>A. (v, t, i) \<in> q_votes p" using elect_invD(3)[OF e l] by blast
  show ?thesis
    by (rule maj.unique_winner[where voted = "\<lambda>v c. (v, t, c) \<in> q_votes p" and A = A and B = Q and n = n])
      (use elect_invD(2)[OF e] A Q in auto)
qed

lemma fresh_winner:
  assumes e: "elect_inv n p" and "c < n" and "q_role p c = Stands" and "majority n Q" and "\<And>v. v \<in> Q \<Longrightarrow> (v, q_term p c, c) \<in> q_votes p"
  shows "q_llog p (q_term p c) = []"
proof (rule ccontr)
  assume "q_llog p (q_term p c) \<noteq> []"
  moreover have "1 \<le> q_term p c" using elect_invD(7)[OF e assms(2)] assms(3) by simp
  ultimately obtain i where l: "(q_term p c, i) \<in> q_led p" using elect_invD(4)[OF e] by force
  have "i = c" by (rule led_unique[OF e l assms(4,5)])
  then show False using elect_invD(3)[OF e l] assms(3) by auto
qed

section \<open>The election argument\<close>

text \<open>
  A candidate whose log is at least as new as that of a server which agreed with the leader
  of \<open>t\<close> on its first \<open>k\<close> entries has them too, unless they are hopeless.
\<close>

lemma newer_safe:
  assumes logs: "logs_inv n p" and lead: "leaders_safe n p" and ent: "entry p t k"
    and good: "log_good p a lc" "log_good p b lv" and new: "at_least_as_new lc lv"
    and hv: "k \<le> length lv" "take k lv = take k (q_llog p t)"
  shows "safe n p lc t k"
proof -
  let ?T = "le_Term (last lc)" and ?l = "length lc"
  have ne: "lc \<noteq> []" "lv \<noteq> []" using good by (auto simp: log_good_def)
  have k: "1 \<le> k" "k \<le> length (q_llog p t)" "le_Term (q_llog p t ! (k - 1)) = t" using ent by (auto simp: entry_def)
  have lv: "lv ! (k - 1) = q_llog p t ! (k - 1)" using hv k(1) by (intro nth_eq_of_take_eq[OF hv(2)]) auto
  have "le_Term (lv ! (k - 1)) \<le> le_Term (last lv)"
    using good(2) hv(1) k(1) sorted_nth_mono[of "map le_Term lv" "k - 1" "length lv - 1"] ne
    by (auto simp: log_good_def last_conv_nth)
  then have tT: "t \<le> le_Term (last lv)" "le_Term (last lv) \<le> ?T" using k(3) lv new by (auto simp: at_least_as_new_def)
  have "?l - 1 < ?l" using ne by simp
  have lc: "?l \<le> length (q_llog p ?T)" "lc = take ?l (q_llog p ?T)"
    using sourced_last[OF _ ne(1)] good(1) by (auto simp: log_good_def)
  show ?thesis
  proof (cases "?T = t")
    case True
    then have "k \<le> ?l" using tT new hv(1) by (auto simp: at_least_as_new_def)
    then show ?thesis using lc(2) True by (metis min.absorb1 safe_def take_take)
  next
    case False
    then have "t < ?T" using tT by simp
    moreover have "q_llog p ?T \<noteq> []" using lc(1) ne by auto
    ultimately have s: "safe n p (q_llog p ?T) t k" using lead ent by (auto simp: leaders_safe_def)
    show ?thesis
    proof (cases "hopeless n p t k")
      case False
      then have kT: "k \<le> length (q_llog p ?T)" "take k (q_llog p ?T) = take k (q_llog p t)" using s by (auto simp: safe_def)
      have "k \<le> ?l"
      proof (rule ccontr)
        assume "\<not> k \<le> ?l"
        then have "?l - 1 \<le> k - 1" "k - 1 < length (q_llog p t)" using k by auto
        moreover have "lc ! (?l - 1) = q_llog p t ! (?l - 1)"
        proof -
          have "lc ! (?l - 1) = q_llog p ?T ! (?l - 1)" using lc(2) ne by (metis \<open>?l - 1 < ?l\<close> nth_take)
          also have "\<dots> = q_llog p t ! (?l - 1)" using \<open>\<not> k \<le> ?l\<close> k ne by (intro nth_eq_of_take_eq[OF kT(2)]) auto
          finally show ?thesis .
        qed
        moreover have "sorted (map le_Term (q_llog p t))" using logs_invD(2)[OF logs, of t] by (cases "q_llog p t = []") (auto simp: log_good_def)
        ultimately have "le_Term (lc ! (?l - 1)) \<le> t" using k(3) sorted_nth_mono[of "map le_Term (q_llog p t)" "?l - 1" "k - 1"] by auto
        then show False using \<open>t < ?T\<close> ne by (simp add: last_conv_nth)
      qed
      then show ?thesis using lc(2) kT(2) by (metis min.absorb1 safe_def take_take)
    qed (simp add: safe_def)
  qed
qed


section \<open>Preservation, part by part\<close>

text \<open>The state before the new agreements are recorded.\<close>

definition moves :: "nat \<Rightarrow> 'c proto \<Rightarrow> 'c proto \<Rightarrow> bool" where
  "moves n p q \<longleftrightarrow> (\<forall>v<n. q_term p v \<le> q_term q v) \<and> (\<forall>t. prefix (q_llog p t) (q_llog q t)) \<and> q_acks q = q_acks p"

lemma moves_grows: "moves n p q \<Longrightarrow> grows n p (observe n q)"
  by (auto simp: moves_def grows_def agreeing_def)

lemma agreeing_observe [simp]: "agreeing n (observe n p) = agreeing n p"
  by (simp add: agreeing_def)

lemma acks_inv_observe:
  assumes "acks_inv n p" and m: "moves n p q"
  shows "acks_inv n (observe n q)"
proof -
  have "v < n \<and> 1 \<le> k \<and> k \<le> length (q_llog q t) \<and> t \<le> q_term q v \<and> (\<forall>j. 1 \<le> j \<longrightarrow> j \<le> k \<longrightarrow> (v, t, j) \<in> q_acks p \<union> agreeing n q)"
    if a: "(v, t, k) \<in> q_acks p \<union> agreeing n q" for v t k
  proof (cases "(v, t, k) \<in> q_acks p")
    case True
    note i = acks_invD[OF assms(1) True]
    have "k \<le> length (q_llog q t)" using i(3) m prefix_length_le[of "q_llog p t" "q_llog q t"] by (auto simp: moves_def)
    moreover have "t \<le> q_term q v" using i(1,4) m by (fastforce simp: moves_def)
    ultimately show ?thesis using i by auto
  next
    case False
    then have "(v, t, k) \<in> agreeing n q" using a by simp
    moreover have "take j (q_log q v) = take j (q_llog q t)" if "take k (q_log q v) = take k (q_llog q t)" "j \<le> k" for j
      using that by (rule take_eq_mono)
    ultimately show ?thesis by (auto simp: agreeing_def)
  qed
  moreover have eq: "q_acks q = q_acks p" using m by (simp add: moves_def)
  ultimately show ?thesis unfolding acks_inv_def observe_fields agreeing_observe eq by blast
qed

lemma old_entry:
  assumes "grows n p p'" and "acks_inv n p" and "(v, t, k) \<in> q_acks p" and "entry p' t k"
  shows "entry p t k"
  using acks_invD(2,3)[OF assms(2,3)] grows_take(3)[OF assms(1), of k t "k - 1"] assms(4) by (auto simp: entry_def)

lemma leaders_safe_step:
  assumes "leaders_safe n p" and g: "grows n p p'"
    and new: "\<And>t' t k. q_llog p' t' \<noteq> [] \<Longrightarrow> t < t' \<Longrightarrow> entry p' t k \<Longrightarrow> (q_llog p t' \<noteq> [] \<and> entry p t k) \<or> safe n p' (q_llog p' t') t k"
  shows "leaders_safe n p'"
  unfolding leaders_safe_def
proof (intro allI impI)
  fix t' t k assume a: "q_llog p' t' \<noteq> []" "t < t'" "entry p' t k"
  from new[OF a] show "safe n p' (q_llog p' t') t k"
  proof
    assume o: "q_llog p t' \<noteq> [] \<and> entry p t k"
    then have "safe n p (q_llog p t') t k" using assms(1) a(2) by (simp add: leaders_safe_def)
    then have "safe n p' (q_llog p t') t k" using o by (intro safe_grows[OF g]) (auto simp: entry_def)
    then show ?thesis using grows_take(1,2)[OF g, of k t'] by (auto simp: safe_def)
  qed
qed

lemma servers_safe_step:
  assumes "servers_safe n p" and ak: "acks_inv n p" and m: "moves n p q"
    and new: "\<And>v t k. (v, t, k) \<in> q_acks p \<Longrightarrow> entry p t k \<Longrightarrow> safe n p (q_log p v) t k \<Longrightarrow>
       q_log q v = q_log p v \<or> safe n (observe n q) (q_log q v) t k"
  shows "servers_safe n (observe n q)"
  unfolding servers_safe_def
proof (intro allI impI)
  note g = moves_grows[OF m]
  fix v t k assume a: "(v, t, k) \<in> q_acks (observe n q)" and e: "entry (observe n q) t k"
  show "safe n (observe n q) (q_log (observe n q) v) t k"
  proof (cases "(v, t, k) \<in> q_acks p")
    case True
    note oe = old_entry[OF g ak True e]
    then have s: "safe n p (q_log p v) t k" using assms(1) True by (simp add: servers_safe_def)
    from new[OF True oe s] show ?thesis using safe_grows[OF g acks_invD(3)[OF ak True] s] by auto
  next
    case False
    then show ?thesis using a m by (auto simp: safe_def agreeing_def moves_def)
  qed
qed

lemma votes_safe_step:
  assumes "votes_safe n p" and ak: "acks_inv n p" and m: "moves n p q" and e': "elect_inv n (observe n q)"
    and new: "\<And>v c t k. (v, q_term q c, c) \<in> q_votes q \<Longrightarrow> q_role q c = Stands \<Longrightarrow> t < q_term q c \<Longrightarrow> (v, t, k) \<in> q_acks p \<Longrightarrow> entry p t k \<Longrightarrow>
       (v, q_term p c, c) \<in> q_votes p \<and> q_role p c = Stands \<and> q_term q c = q_term p c \<and> q_log q c = q_log p c \<or>
       safe n p (q_log q c) t k"
  shows "votes_safe n (observe n q)"
  unfolding votes_safe_def observe_fields
proof (intro allI impI)
  note g = moves_grows[OF m]
  fix v c t k assume v: "(v, q_term q c, c) \<in> q_votes q" and c: "q_role q c = Stands" "t < q_term q c"
    and a: "(v, t, k) \<in> q_acks q \<union> agreeing n q" and e: "entry (observe n q) t k"
  have "q_term q c \<le> q_term q v" using elect_invD(1)[OF e'] v by simp
  then have a: "(v, t, k) \<in> q_acks p" using a c(2) m by (auto simp: agreeing_def moves_def)
  note oe = old_entry[OF g ak a e]
  have "safe n p (q_log q c) t k" using new[OF v c a oe] assms(1) a oe c(2) by (auto simp: votes_safe_def)
  then show "safe n (observe n q) (q_log q c) t k" by (rule safe_grows[OF g acks_invD(3)[OF ak a]])
qed


lemma logs_inv_step:
  assumes l: "logs_inv n p" and m: "moves n p q"
    and "\<And>i. i < n \<Longrightarrow> q_log q i = q_log p i \<or> log_good (observe n q) (q_term q i) (q_log q i)"
    and "\<And>t. q_llog q t \<noteq> [] \<Longrightarrow> q_llog q t = q_llog p t \<or> log_good (observe n q) t (q_llog q t)"
  shows "logs_inv n (observe n q)"
  unfolding logs_inv_def observe_fields
proof (intro conjI allI impI)
  note g = moves_grows[OF m]
  fix i assume i: "i < n"
  have "q_term p i \<le> q_term q i" using m i by (simp add: moves_def)
  then show "log_good (observe n q) (q_term q i) (q_log q i)"
    using assms(3)[OF i] log_good_grows[OF g logs_invD(1)[OF l i]] by auto
next
  note g = moves_grows[OF m]
  fix t assume t: "q_llog q t \<noteq> []"
  then show "log_good (observe n q) t (q_llog q t)"
    using assms(4)[OF t] log_good_grows[OF g logs_invD(2)[OF l, of t]] by auto
qed

section \<open>Every step keeps the invariant\<close>

lemma pinv_observeI:
  assumes p: "pinv n p" and m: "moves n p q" and "elect_inv n (observe n q)" and "logs_inv n (observe n q)"
    and "\<And>t' t k. q_llog q t' \<noteq> [] \<Longrightarrow> t < t' \<Longrightarrow> entry (observe n q) t k \<Longrightarrow>
       (q_llog p t' \<noteq> [] \<and> entry p t k) \<or> safe n (observe n q) (q_llog q t') t k"
    and "\<And>v t k. (v, t, k) \<in> q_acks p \<Longrightarrow> entry p t k \<Longrightarrow> safe n p (q_log p v) t k \<Longrightarrow>
       q_log q v = q_log p v \<or> safe n (observe n q) (q_log q v) t k"
    and "\<And>v c t k. (v, q_term q c, c) \<in> q_votes q \<Longrightarrow> q_role q c = Stands \<Longrightarrow> t < q_term q c \<Longrightarrow> (v, t, k) \<in> q_acks p \<Longrightarrow> entry p t k \<Longrightarrow>
       (v, q_term p c, c) \<in> q_votes p \<and> q_role p c = Stands \<and> q_term q c = q_term p c \<and> q_log q c = q_log p c \<or>
       safe n p (q_log q c) t k"
  shows "pinv n (observe n q)"
  unfolding pinv_def
  using assms(3,4) acks_inv_observe[OF pinvD(3)[OF p] m] leaders_safe_step[OF pinvD(4)[OF p] moves_grows[OF m]] assms(5)
    servers_safe_step[OF pinvD(5,3)[OF p] m assms(6)] votes_safe_step[OF pinvD(6,3)[OF p] m assms(3,7)] by simp

text \<open>Steps that elect nobody.\<close>

lemma elect_inv_frame:
  assumes e: "elect_inv n p" and same: "q_led q = q_led p" "q_llog q = q_llog p" "q_votes p \<subseteq> q_votes q"
    and terms: "\<And>i. i < n \<Longrightarrow> q_term p i \<le> q_term q i"
    and lead: "\<And>i. q_role q i = Leads \<Longrightarrow> q_role p i = Leads \<and> q_term q i = q_term p i \<and> q_log q i = q_log p i"
    and stand: "\<And>i. q_role q i = Stands \<Longrightarrow> q_role p i = Stands \<and> q_term q i = q_term p i \<or> q_term p i < q_term q i"
    and votes: "\<And>v t c. (v, t, c) \<in> q_votes q \<Longrightarrow> (v, t, c) \<in> q_votes p \<or> v < n \<and> c < n \<and> t \<le> q_term q v \<and> t \<le> q_term q c"
      "\<And>v t c c'. (v, t, c) \<in> q_votes q \<Longrightarrow> (v, t, c') \<in> q_votes q \<Longrightarrow> c = c'"
  shows "elect_inv n (observe n q)"
  unfolding elect_inv_def observe_fields
proof (intro conjI)
  show "\<forall>v t c. (v, t, c) \<in> q_votes q \<longrightarrow> v < n \<and> c < n \<and> t \<le> q_term q v \<and> t \<le> q_term q c"
    using elect_invD(1)[OF e] votes(1) terms by (meson order_trans)
  show "\<forall>v t c c'. (v, t, c) \<in> q_votes q \<longrightarrow> (v, t, c') \<in> q_votes q \<longrightarrow> c = c'" using votes(2) by blast
  show "\<forall>t i. (t, i) \<in> q_led q \<longrightarrow> i < n \<and> t \<le> q_term q i \<and> (q_term q i = t \<longrightarrow> q_role q i \<noteq> Stands) \<and>
      (\<exists>Q. majority n Q \<and> (\<forall>v\<in>Q. (v, t, i) \<in> q_votes q))"
  proof (intro allI impI)
    fix t i assume "(t, i) \<in> q_led q"
    then have "(t, i) \<in> q_led p" by (simp add: same)
    note l = elect_invD(3)[OF e this]
    then have "q_term p i \<le> q_term q i" using terms by simp
    then show "i < n \<and> t \<le> q_term q i \<and> (q_term q i = t \<longrightarrow> q_role q i \<noteq> Stands) \<and>
      (\<exists>Q. majority n Q \<and> (\<forall>v\<in>Q. (v, t, i) \<in> q_votes q))" using l stand[of i] same(3) by fastforce
  qed
  show "\<forall>t. q_llog q t \<noteq> [] \<longrightarrow> t = 0 \<or> (\<exists>i. (t, i) \<in> q_led q)" using elect_invD(4)[OF e] by (simp add: same)
  show "\<forall>i<n. q_role q i = Leads \<longrightarrow> (q_term q i, i) \<in> q_led q \<and> q_llog q (q_term q i) = q_log q i"
    using elect_invD(5)[OF e] lead by (simp add: same)
  show "\<forall>i<n. 0 \<le> q_term q i \<and> (q_role q i \<noteq> Follows \<longrightarrow> 1 \<le> q_term q i)"
  proof (intro allI impI)
    fix i assume i: "i < n"
    have "q_role p i \<noteq> Follows \<and> q_term q i = q_term p i \<or> q_term p i < q_term q i" if "q_role q i \<noteq> Follows"
      using that lead[of i] stand[of i] by (cases "q_role q i") auto
    then show "0 \<le> q_term q i \<and> (q_role q i \<noteq> Follows \<longrightarrow> 1 \<le> q_term q i)"
      using elect_invD(6,7)[OF e i] terms[OF i] by fastforce
  qed
qed

lemma stand_pinv:
  assumes p: "pinv n p" and c: "c < n"
  shows "pinv n (observe n (p\<lparr>q_term := (q_term p)(c := q_term p c + 1), q_role := (q_role p)(c := Stands),
      q_votes := insert (c, q_term p c + 1, c) (q_votes p)\<rparr>))" (is "pinv n (observe n ?q)")
proof (rule pinv_observeI[OF p])
  note e = pinvD(1)[OF p]
  have old: "(v, q_term p c + 1, d) \<notin> q_votes p" "(d, q_term p c + 1, c) \<notin> q_votes p" if "v = c" for v d
    using elect_invD(1)[OF e, of v "q_term p c + 1" d] elect_invD(1)[OF e, of d "q_term p c + 1" c] that by auto
  show m: "moves n p ?q" by (simp add: moves_def)
  show "elect_inv n (observe n ?q)"
    by (rule elect_inv_frame[OF e]) (use c old elect_invD(2)[OF e] in \<open>auto split: if_splits\<close>)
  show "logs_inv n (observe n ?q)" by (rule logs_inv_step[OF pinvD(2)[OF p] m]) auto
  fix v d t k
  assume a: "(v, q_term ?q d, d) \<in> q_votes ?q" "q_role ?q d = Stands" "t < q_term ?q d" "(v, t, k) \<in> q_acks p" "entry p t k"
  show "(v, q_term p d, d) \<in> q_votes p \<and> q_role p d = Stands \<and> q_term ?q d = q_term p d \<and> q_log ?q d = q_log p d \<or>
       safe n p (q_log ?q d) t k"
  proof (cases "d = c")
    case True
    then have "v = c" using a(1) old(2)[of c v] by auto
    then show ?thesis using a(4,5) True pinvD(5)[OF p] by (simp add: servers_safe_def)
  qed (use a in auto)
qed (auto simp: entry_def)

lemma vote_pinv:
  assumes p: "pinv n p" and v: "v < n" "c < n" "q_term p v \<le> t" "t \<le> q_term p c" "\<And>c'. (v, t, c') \<in> q_votes p \<Longrightarrow> c' = c"
    and new: "q_role p c = Stands \<Longrightarrow> q_term p c = t \<Longrightarrow> at_least_as_new (q_log p c) (q_log p v)"
  shows "pinv n (observe n (p\<lparr>q_term := (q_term p)(v := t), q_role := (q_role p)(v := Follows),
      q_votes := insert (v, t, c) (q_votes p)\<rparr>))" (is "pinv n (observe n ?q)")
proof (rule pinv_observeI[OF p])
  note e = pinvD(1)[OF p]
  show m: "moves n p ?q" using v(3) by (simp add: moves_def)
  show "elect_inv n (observe n ?q)"
    by (rule elect_inv_frame[OF e]) (use v elect_invD(2)[OF e] in \<open>auto split: if_splits\<close>)
  show "logs_inv n (observe n ?q)" by (rule logs_inv_step[OF pinvD(2)[OF p] m]) auto
  fix w d s k
  assume a: "(w, q_term ?q d, d) \<in> q_votes ?q" "q_role ?q d = Stands" "s < q_term ?q d" "(w, s, k) \<in> q_acks p" "entry p s k"
  show "(w, q_term p d, d) \<in> q_votes p \<and> q_role p d = Stands \<and> q_term ?q d = q_term p d \<and> q_log ?q d = q_log p d \<or>
       safe n p (q_log ?q d) s k"
  proof (cases "(w, q_term ?q d, d) \<in> q_votes p")
    case False
    then have d: "w = v" "d = c" "q_term p c = t" "q_role p c = Stands" using a(1,2) by (auto split: if_splits)
    have s: "safe n p (q_log p v) s k" using a(4,5) d(1) pinvD(5)[OF p] by (simp add: servers_safe_def)
    show ?thesis
    proof (cases "hopeless n p s k")
      case False
      then have "safe n p (q_log p c) s k"
        using s newer_safe[OF pinvD(2,4)[OF p] a(5) logs_invD(1)[OF pinvD(2)[OF p] v(2)] logs_invD(1)[OF pinvD(2)[OF p] v(1)] new[OF d(4,3)]]
        by (auto simp: safe_def)
      then show ?thesis using d by simp
    qed (simp add: safe_def)
  qed (use a in \<open>auto split: if_splits\<close>)
qed (auto simp: entry_def)


lemma settle_pinv:
  assumes p: "pinv n p" and v: "v < n" "q_term p v \<le> u" and r: "r = Follows \<or> u = q_term p v \<and> r = q_role p v"
  shows "pinv n (observe n (p\<lparr>q_term := (q_term p)(v := u), q_role := (q_role p)(v := r)\<rparr>))" (is "pinv n (observe n ?q)")
proof (rule pinv_observeI[OF p])
  note e = pinvD(1)[OF p]
  show m: "moves n p ?q" using v(2) by (simp add: moves_def)
  show "elect_inv n (observe n ?q)"
    by (rule elect_inv_frame[OF e]) (use v r elect_invD(2)[OF e] in \<open>auto split: if_splits\<close>)
  show "logs_inv n (observe n ?q)" by (rule logs_inv_step[OF pinvD(2)[OF p] m]) auto
qed (use r in \<open>auto simp: entry_def split: if_splits\<close>)

text \<open>A server takes over what it lacks of a leader's log.\<close>

lemma accept_pinv:
  assumes p: "pinv n p" and v: "v < n" "q_term p v \<le> u" and lead: "q_llog p u \<noteq> []"
    and lg: "lg = take m (q_log p v) \<or> lg = take m (q_llog p u)" "lg \<noteq> []" and kp: "keeps (q_llog p u) (q_log p v) lg"
  shows "pinv n (observe n (p\<lparr>q_term := (q_term p)(v := u), q_role := (q_role p)(v := Follows), q_log := (q_log p)(v := lg)\<rparr>))"
    (is "pinv n (observe n ?q)")
proof (rule pinv_observeI[OF p])
  note e = pinvD(1)[OF p] and l = pinvD(2)[OF p]
  show mv: "moves n p ?q" using v(2) by (simp add: moves_def)
  show "elect_inv n (observe n ?q)"
    by (rule elect_inv_frame[OF e]) (use v elect_invD(2)[OF e] in \<open>auto split: if_splits\<close>)
  have "log_good p u lg"
    using lg log_good_take[of p u _ m] logs_invD(2)[OF l lead] logs_invD(1)[OF l v(1)] v(2)
    by (fastforce simp: log_good_def)
  then have "log_good (observe n ?q) u lg" by (rule log_good_grows[OF moves_grows[OF mv]]) simp
  then show "logs_inv n (observe n ?q)" by (intro logs_inv_step[OF l mv]) auto
  fix w t k assume a: "(w, t, k) \<in> q_acks p" "entry p t k" "safe n p (q_log p w) t k"
  have "safe n p lg t k" if "w = v"
  proof (cases "hopeless n p t k")
    case False
    then have k: "k \<le> length (q_log p v)" "take k (q_log p v) = take k (q_llog p t)" using a(3) that by (auto simp: safe_def)
    have "t \<le> u" using acks_invD(4)[OF pinvD(3)[OF p] a(1)] v(2) that by simp
    then have "k \<le> length (q_llog p u) \<and> take k (q_llog p u) = take k (q_llog p t)"
      by (rule leaders_safeD[OF pinvD(4)[OF p] lead _ a(2) False])
    then show ?thesis using kp k by (auto simp: keeps_def safe_def)
  qed (simp add: safe_def)
  then show "q_log ?q w = q_log p w \<or> safe n (observe n ?q) (q_log ?q w) t k"
    using safe_grows[OF moves_grows[OF mv], of k t lg] a(2) by (auto simp: entry_def)
qed (auto simp: entry_def split: if_splits)

lemma extend_pinv:
  assumes p: "pinv n p" and i: "i < n" "q_role p i = Leads" and ent: "le_Term e = q_term p i"
  shows "pinv n (observe n (p\<lparr>q_log := (q_log p)(i := q_log p i @ [e]), q_llog := (q_llog p)(q_term p i := q_log p i @ [e])\<rparr>))"
    (is "pinv n (observe n ?q)")
proof (rule pinv_observeI[OF p])
  note el = pinvD(1)[OF p] and l = pinvD(2)[OF p]
  let ?t = "q_term p i"
  note led = elect_invD(5)[OF el i]
  show mv: "moves n p ?q" using led by (simp add: moves_def)
  note g = moves_grows[OF mv]
  have other: "q_role p j \<noteq> Leads \<or> q_term p j \<noteq> ?t" if "j < n" "j \<noteq> i" for j
  proof -
    obtain Q where "majority n Q" "\<forall>v\<in>Q. (v, ?t, i) \<in> q_votes p" using elect_invD(3)[OF el] led by blast
    then have "(?t, j) \<in> q_led p \<Longrightarrow> j = i" using led_unique[OF el] by blast
    then show ?thesis using elect_invD(5)[OF el that(1)] that(2) by auto
  qed
  show "elect_inv n (observe n ?q)"
    unfolding elect_inv_def observe_fields using el[unfolded elect_inv_def] led other by auto
  have good: "log_good p ?t (q_log p i)" by (rule logs_invD(1)[OF l i(1)])
  have src: "sourced (observe n ?q) (q_log p i @ [e])"
    unfolding sourced_def
  proof (intro allI impI)
    fix j assume j: "j < length (q_log p i @ [e])"
    have "sourced (observe n ?q) (q_log p i)" using sourced_grows[OF g] good by (simp add: log_good_def)
    then show "j < length (q_llog (observe n ?q) (le_Term ((q_log p i @ [e]) ! j))) \<and>
      take (Suc j) (q_log p i @ [e]) = take (Suc j) (q_llog (observe n ?q) (le_Term ((q_log p i @ [e]) ! j)))"
      using j ent unfolding sourced_def observe_fields by (cases "j = length (q_log p i)") (auto simp: nth_append split: if_splits)
  qed
  then have "log_good (observe n ?q) ?t (q_log p i @ [e])" using good ent by (auto simp: log_good_def sorted_append)
  then show "logs_inv n (observe n ?q)" by (intro logs_inv_step[OF l mv]) auto
  show "(q_llog p t' \<noteq> [] \<and> entry p t k) \<or> safe n (observe n ?q) (q_llog ?q t') t k"
    if a: "q_llog ?q t' \<noteq> []" "t < t'" "entry (observe n ?q) t k" for t' t k
  proof (cases "entry p t k")
    case True
    then show ?thesis using a(1) led good by (auto simp: log_good_def split: if_splits)
  next
    case False
    then have t: "t = ?t" "k = Suc (length (q_llog p ?t))"
      using a(3) led by (auto simp: entry_def nth_append split: if_splits)
    then have "t' \<noteq> 0" "q_llog p t' \<noteq> []" using a(1,2) elect_invD(6)[OF el i(1)] by auto
    then obtain j where "(t', j) \<in> q_led p" using elect_invD(4)[OF el] by blast
    then obtain Q where Q: "majority n Q" "\<forall>v\<in>Q. (v, t', j) \<in> q_votes p" using elect_invD(3)[OF el] by blast
    have "t < q_term ?q w \<and> (w, t, k) \<notin> q_acks (observe n ?q)" if "w \<in> Q" for w
    proof -
      have "t' \<le> q_term p w" using elect_invD(1)[OF el] Q(2) that by blast
      moreover have "(w, t, k) \<notin> q_acks p" using acks_invD(3)[OF pinvD(3)[OF p], of w t k] t by auto
      ultimately show ?thesis using a(2) by (auto simp: agreeing_def)
    qed
    then have "hopeless n (observe n ?q) t k" using Q(1) unfolding hopeless_def observe_fields(1) by blast
    then show ?thesis by (simp add: safe_def)
  qed
  show "q_log ?q v = q_log p v \<or> safe n (observe n ?q) (q_log ?q v) t k"
    if "(v, t, k) \<in> q_acks p" "entry p t k" "safe n p (q_log p v) t k" for v t k
    using safe_grows[OF g acks_invD(3)[OF pinvD(3)[OF p] that(1)] that(3)] by (auto simp: safe_def)
qed (use i in auto)


text \<open>A candidate wins: either a voter brings the agreed entries along, or the voters make them hopeless.\<close>

lemma win_pinv:
  assumes p: "pinv n p" and c: "c < n" "q_role p c = Stands" and Q: "majority n Q" "\<And>v. v \<in> Q \<Longrightarrow> (v, q_term p c, c) \<in> q_votes p"
  shows "pinv n (observe n (p\<lparr>q_role := (q_role p)(c := Leads), q_led := insert (q_term p c, c) (q_led p),
      q_llog := (q_llog p)(q_term p c := q_log p c)\<rparr>))" (is "pinv n (observe n ?q)")
proof (rule pinv_observeI[OF p])
  note el = pinvD(1)[OF p] and l = pinvD(2)[OF p]
  let ?t = "q_term p c"
  have none: "q_llog p ?t = []" by (rule fresh_winner[OF el c Q])
  show mv: "moves n p ?q" using none by (simp add: moves_def)
  note g = moves_grows[OF mv]
  have other: "q_role p j \<noteq> Leads \<or> q_term p j \<noteq> ?t" if "j < n" for j
    using elect_invD(5)[OF el that] none logs_invD(1)[OF l that] by (auto simp: log_good_def)
  show "elect_inv n (observe n ?q)"
    unfolding elect_inv_def observe_fields using el[unfolded elect_inv_def] other c Q by auto
  have good: "log_good p ?t (q_log p c)" by (rule logs_invD(1)[OF l c(1)])
  then show "logs_inv n (observe n ?q)"
    using log_good_grows[OF g good] by (intro logs_inv_step[OF l mv]) auto
  show "(q_llog p t' \<noteq> [] \<and> entry p t k) \<or> safe n (observe n ?q) (q_llog ?q t') t k"
    if a: "q_llog ?q t' \<noteq> []" "t < t'" "entry (observe n ?q) t k" for t' t k
  proof -
    have e: "entry p t k"
    proof (cases "t = ?t")
      case True
      then have "k - 1 < length (q_log p c)" "le_Term (q_log p c ! (k - 1)) = ?t" using a(3) by (auto simp: entry_def)
      then have "k - 1 < length (q_llog p ?t)" using good unfolding log_good_def sourced_def by metis
      then show ?thesis using none by simp
    qed (use a(3) in \<open>auto simp: entry_def\<close>)
    have "safe n p (q_log p c) t k" if "t' = ?t"
    proof (cases "\<exists>v\<in>Q. (v, t, k) \<in> q_acks p")
      case True
      then show ?thesis using Q(2) c(2) e a(2) that pinvD(6)[OF p] unfolding votes_safe_def by blast
    next
      case False
      moreover have "t < q_term p w" if "w \<in> Q" for w
        using elect_invD(1)[OF el Q(2)[OF that]] a(2) \<open>t' = ?t\<close> by simp
      ultimately have "hopeless n p t k" using Q(1) unfolding hopeless_def by blast
      then show ?thesis by (simp add: safe_def)
    qed
    then have "safe n (observe n ?q) (q_log p c) t k" if "t' = ?t" using that e by (intro safe_grows[OF g]) (auto simp: entry_def)
    then show ?thesis using a(1) e by (cases "t' = ?t") auto
  qed
qed (use c in \<open>auto split: if_splits\<close>)

lemma pstep_pinv: "pstep n p p' \<Longrightarrow> pinv n p \<Longrightarrow> pinv n p'"
proof (induction rule: pstep.cases)
  case (stand c p)
  then show ?case using stand_pinv by blast
next
  case (vote v c p t)
  then show ?case using vote_pinv[of n p v c t] by blast
next
  case (win c p Q)
  then show ?case using win_pinv[of n p c Q] by blast
next
  case (extend i p e)
  then show ?case using extend_pinv by blast
next
  case (accept v p u lg m)
  then show ?case using accept_pinv by blast
next
  case (settle v p u r)
  then show ?case using settle_pinv by blast
qed

lemma pstep_grows:
  assumes "pstep n p p'" and "pinv n p"
  shows "grows n p p'"
  using assms
proof (induction rule: pstep.cases)
  case (win c p Q)
  have "elect_inv n p" using win(1,7) pinvD(1) by simp
  then have "q_llog p (q_term p c) = []" by (rule fresh_winner[OF _ win(3-5)]) (rule win(6))
  then show ?case using win(1,2) by (auto intro!: moves_grows simp: moves_def)
next
  case (extend i p e)
  then have "elect_inv n p" using pinvD(1) by simp
  from elect_invD(5)[OF this extend(3,4)] show ?case using extend(1,2) by (auto intro!: moves_grows simp: moves_def)
qed (auto intro!: moves_grows simp: moves_def)


lemma init_pinv: "pinv n (proto_init n)" (is "pinv n ?p")
proof -
  have f: "q_term ?p = (\<lambda>_. 0)" "q_role ?p = (\<lambda>_. Follows)" "q_log ?p = (\<lambda>_. [sentinel])" "q_votes ?p = {}" "q_led ?p = {}"
    "q_llog ?p = (\<lambda>t. if t = 0 then [sentinel] else [])" "q_acks ?p = agreeing n ?p"
    by (simp_all add: proto_init_def)
  have a: "agreeing n ?p = {(v, t, k). v < n \<and> t = 0 \<and> k = 1}" by (auto simp: agreeing_def f)
  have g: "log_good ?p 0 [sentinel]" by (simp add: log_good_def sourced_def f sentinel_def)
  have "elect_inv n ?p" by (simp add: elect_inv_def f)
  moreover have "logs_inv n ?p" using g by (simp add: logs_inv_def f)
  moreover have "acks_inv n ?p" using a by (auto simp: acks_inv_def f(1,6,7))
  moreover have "leaders_safe n ?p" by (auto simp: leaders_safe_def entry_def f(6) split: if_splits)
  moreover have "servers_safe n ?p" using a by (auto simp: servers_safe_def safe_def f(3,6,7))
  moreover have "votes_safe n ?p" by (simp add: votes_safe_def f(4))
  ultimately show ?thesis by (simp add: pinv_def)
qed

section \<open>Agreement\<close>

text \<open>
  \<open>chosen p t k\<close>: a majority has agreed, in term \<open>t\<close>, with its leader on \<open>k\<close> entries of which
  the last is of that term. \<open>settled p u lg k\<close>: the first \<open>k\<close> entries of the log are part of
  what has been chosen in a term up to \<open>u\<close>.
\<close>

definition chosen :: "nat \<Rightarrow> 'c proto \<Rightarrow> int \<Rightarrow> nat \<Rightarrow> bool" where
  "chosen n p t k \<longleftrightarrow> entry p t k \<and> (\<exists>Q. majority n Q \<and> (\<forall>w\<in>Q. (w, t, k) \<in> q_acks p))"

definition settled :: "nat \<Rightarrow> 'c proto \<Rightarrow> int \<Rightarrow> 'c LogEntry list \<Rightarrow> nat \<Rightarrow> bool" where
  "settled n p u lg j \<longleftrightarrow> j \<le> length lg \<and> (\<exists>t k. t \<le> u \<and> j \<le> k \<and> chosen n p t k \<and> take j lg = take j (q_llog p t))"

lemma chosen_not_hopeless: "chosen n p t k \<Longrightarrow> \<not> hopeless n p t k"
  unfolding chosen_def hopeless_def using majorities_meet by blast

lemma chosen_grows: "grows n p p' \<Longrightarrow> chosen n p t k \<Longrightarrow> chosen n p' t k"
  unfolding chosen_def using entry_grows growsD(3) by blast

lemma settled_grows:
  assumes g: "grows n p p'" and "settled n p u lg j" and "u \<le> u'"
  shows "settled n p' u' lg j"
proof -
  obtain t k where t: "t \<le> u" "j \<le> k" "chosen n p t k" "take j lg = take j (q_llog p t)" "j \<le> length lg"
    using assms(2) by (auto simp: settled_def)
  have "j \<le> length (q_llog p t)" using t(2,3) by (simp add: chosen_def entry_def)
  then have "take j lg = take j (q_llog p' t)" using grows_take(1)[OF g] t(4) by simp
  then show ?thesis using t chosen_grows[OF g t(3)] assms(3) unfolding settled_def by (meson order_trans)
qed

text \<open>What has been chosen in a term is in the log of the leader of every later term.\<close>

lemma leader_complete:
  assumes "pinv n p" and "chosen n p t k" and "t \<le> u" and "q_llog p u \<noteq> []"
  shows "k \<le> length (q_llog p u) \<and> take k (q_llog p u) = take k (q_llog p t)"
  using assms(2) by (intro leaders_safeD[OF pinvD(4)[OF assms(1)] assms(4,3)]) (auto simp: chosen_not_hopeless chosen_def)

lemma chosen_leads: "chosen n p t k \<Longrightarrow> q_llog p t \<noteq> []"
  by (auto simp: chosen_def entry_def)

lemma settled_in_leader:
  assumes p: "pinv n p" and "settled n p u lg j" and "q_llog p u \<noteq> []"
  shows "j \<le> length (q_llog p u) \<and> take j (q_llog p u) = take j lg"
proof -
  obtain t k where t: "t \<le> u" "j \<le> k" "chosen n p t k" "take j lg = take j (q_llog p t)" using assms(2) by (auto simp: settled_def)
  note c = leader_complete[OF p t(3,1) assms(3)]
  then have "take j (q_llog p u) = take j (q_llog p t)" using take_eq_mono[OF conjunct2[OF c] t(2)] by simp
  then show ?thesis using c t(2,4) by simp
qed

text \<open>Two settled prefixes agree.\<close>

lemma settled_agree:
  assumes p: "pinv n p" and "settled n p u1 l1 j" and "settled n p u2 l2 j"
  shows "take j l1 = take j l2"
proof -
  obtain t1 k1 where t1: "j \<le> k1" "chosen n p t1 k1" "take j l1 = take j (q_llog p t1)" using assms(2) by (auto simp: settled_def)
  obtain t2 k2 where t2: "j \<le> k2" "chosen n p t2 k2" "take j l2 = take j (q_llog p t2)" using assms(3) by (auto simp: settled_def)
  have le: "take j (q_llog p a) = take j (q_llog p b)" if "a \<le> b" "chosen n p a ka" "chosen n p b kb" "j \<le> ka" for a b ka kb
    using take_eq_mono[OF conjunct2[OF leader_complete[OF p that(2,1) chosen_leads[OF that(3)]]] that(4)] by simp
  have "take j (q_llog p t1) = take j (q_llog p t2)"
  proof (cases "t1 \<le> t2")
    case False
    then show ?thesis by (intro le[symmetric, OF _ t2(2) t1(2) t2(1)]) simp
  qed (rule le[OF _ t1(2) t2(2) t1(1)])
  then show ?thesis using t1(3) t2(3) by simp
qed

lemma settled_smaller: "settled n p u lg j \<Longrightarrow> i \<le> j \<Longrightarrow> settled n p u lg i"
proof -
  assume "settled n p u lg j" "i \<le> j"
  then obtain t k where t: "t \<le> u" "j \<le> k" "chosen n p t k" "take j lg = take j (q_llog p t)" "j \<le> length lg" by (auto simp: settled_def)
  have "take i lg = take i (q_llog p t)" by (rule take_eq_mono[OF t(4) \<open>i \<le> j\<close>])
  then show ?thesis using \<open>i \<le> j\<close> t unfolding settled_def by (meson order_trans)
qed

text \<open>Logs of reachable states match.\<close>

lemma sourced_matching: "sourced p l1 \<Longrightarrow> sourced p l2 \<Longrightarrow> log_matching l1 l2"
  by (auto simp: sourced_def log_matching_def)


section \<open>Commands\<close>

text \<open>Every entry of a reachable state but the sentinels carries a client's command.\<close>

definition commanded :: "'c LogEntry \<Rightarrow> bool" where
  "commanded e \<longleftrightarrow> le_Term e = 0 \<or> le_Command e \<noteq> None"

definition all_commanded :: "'c proto \<Rightarrow> bool" where
  "all_commanded p \<longleftrightarrow> (\<forall>i. list_all commanded (q_log p i)) \<and> (\<forall>t. list_all commanded (q_llog p t))"

lemma pstep_commanded: "pstep n p p' \<Longrightarrow> all_commanded p \<Longrightarrow> all_commanded p'"
proof (induction rule: pstep.cases)
  case (extend i p e)
  then show ?case by (simp add: all_commanded_def commanded_def)
next
  case (accept v p u lg m)
  then have "list_all commanded lg" by (auto simp: all_commanded_def list_all_iff dest: in_set_takeD)
  then show ?case using accept by (simp add: all_commanded_def)
qed (auto simp: all_commanded_def)

lemma preach_commanded: "(pstep n)\<^sup>*\<^sup>* (proto_init n) p \<Longrightarrow> all_commanded p"
  by (induction rule: rtranclp_induct) (auto simp: pstep_commanded, simp add: proto_init_def all_commanded_def commanded_def sentinel_def)

end
