(* ===== verification/Raft_Refine.thy ===== *)
theory Raft_Refine
  imports Raft_Election Raft_Spec
begin

text \<open>
  The cluster refines the abstract protocol: when vote requests are built in their
  election's term, every step of the cluster is a step of the protocol or none. The relation
  says that terms, roles, logs, votes and leaders are the same, and what the messages under
  way carry: a vote request describes the log of the candidate for as long as it is one, and
  an append request carries a part of its leader's log.
\<close>

section \<open>What a state stands for\<close>

definition role_of :: "int \<Rightarrow> role" where
  "role_of st = (if st = LEADER then Leads else if st = CANDIDATE then Stands else Follows)"

lemma role_of_simps [simp]:
  "role_of st = Leads \<longleftrightarrow> st = LEADER" "role_of st = Stands \<longleftrightarrow> st = CANDIDATE"
  "role_of st = Follows \<longleftrightarrow> st \<noteq> LEADER \<and> st \<noteq> CANDIDATE" "role_of FOLLOWER = Follows"
  by (auto simp: role_of_def)

definition same_server :: "'c proto \<Rightarrow> nat \<Rightarrow> 'c Raft \<Rightarrow> bool" where
  "same_server p i rf \<longleftrightarrow> q_term p i = rf_currentTerm rf \<and> q_role p i = role_of (rf_state rf) \<and> q_log p i = rf_log rf"

definition vote_of :: "nat \<times> int \<times> int \<Rightarrow> nat \<times> int \<times> nat" where
  "vote_of = (\<lambda>(v, t, c). (v, t, nat c))"

definition represents :: "nat \<Rightarrow> 'c cluster \<Rightarrow> 'c proto \<Rightarrow> bool" where
  "represents n cl p \<longleftrightarrow> (\<forall>i<n. same_server p i (servers cl ! i)) \<and> q_votes p = vote_of ` set (h_votes cl) \<and> q_led p = set (h_leaders cl)"

text \<open>The request of a candidate describes its log.\<close>

definition describes :: "RequestVoteArgs \<Rightarrow> 'c Raft \<Rightarrow> bool" where
  "describes args rf \<longleftrightarrow> rv_Term args \<le> rf_currentTerm rf \<and>
     (rv_Term args = rf_currentTerm rf \<longrightarrow> rf_state rf = CANDIDATE \<longrightarrow>
        rv_LastLogIndex args = go_len (rf_log rf) - 1 \<and> rv_LastLogTerm args = le_Term (last (rf_log rf)))"

fun msg_inv :: "'c cluster \<Rightarrow> 'c proto \<Rightarrow> 'c goroutine \<Rightarrow> bool" where
  "msg_inv cl p (VoteCalling e q args) = describes args (servers cl ! el_server (elections cl ! e))"
| "msg_inv cl p (HeartCalling r q args) = carries args (q_llog p (ae_Term args))"
| "msg_inv cl p (HeartReturned r q args reply) = carries args (q_llog p (ae_Term args))"
| "msg_inv cl p _ = True"

definition rinv :: "nat \<Rightarrow> 'c cluster \<Rightarrow> 'c proto \<Rightarrow> bool" where
  "rinv n cl p \<longleftrightarrow> vinv n cl \<and> pinv n p \<and> represents n cl p \<and>
     (\<forall>el\<in>set (elections cl). h_el_term el \<le> rf_currentTerm (servers cl ! el_server el)) \<and>
     (\<forall>g\<in>set (threads cl). msg_inv cl p g)"

lemma rinvD:
  assumes "rinv n cl p"
  shows "vinv n cl" and "pinv n p" and "represents n cl p"
    and "e < length (elections cl) \<Longrightarrow> h_el_term (elections cl ! e) \<le> rf_currentTerm (servers cl ! el_server (elections cl ! e))"
    and "k < length (threads cl) \<Longrightarrow> msg_inv cl p (threads cl ! k)"
  using assms by (auto simp: rinv_def)

lemma representsD:
  assumes "represents n cl p" and "i < n"
  shows "q_term p i = rf_currentTerm (servers cl ! i)" and "q_role p i = role_of (rf_state (servers cl ! i))"
    and "q_log p i = rf_log (servers cl ! i)"
  using assms by (auto simp: represents_def same_server_def)

lemma represents_votes: "represents n cl p \<Longrightarrow> (v, t, c) \<in> set (h_votes cl) \<Longrightarrow> (v, t, nat c) \<in> q_votes p"
  by (force simp: represents_def vote_of_def)

lemma votes_represented:
  assumes "represents n cl p" and "vinv n cl" and "(v, t, c) \<in> q_votes p"
  shows "(v, t, int c) \<in> set (h_votes cl)"
proof -
  obtain d where d: "(v, t, d) \<in> set (h_votes cl)" "c = nat d" using assms(1,3) by (auto simp: represents_def vote_of_def)
  then have "0 \<le> d" using vinvD(2)[OF assms(2)] unfolding votes_inv_def by blast
  then show ?thesis using d by simp
qed

section \<open>One server changes\<close>

lemma represents_set_server:
  assumes "represents n cl p" and "length (servers cl) = n" and "same_server p' i rf'"
    and "\<And>j. j < n \<Longrightarrow> j \<noteq> i \<Longrightarrow> q_term p' j = q_term p j \<and> q_role p' j = q_role p j \<and> q_log p' j = q_log p j"
    and "q_votes p' = q_votes p" and "q_led p' = q_led p"
  shows "represents n (set_server i rf' cl) p'"
proof -
  have "same_server p' j ((servers cl)[i := rf'] ! j)" if "j < n" for j
    using that assms(1-4) by (cases "j = i") (auto simp: represents_def same_server_def)
  then show ?thesis using assms(1,5,6) by (simp add: represents_def set_server_def)
qed

lemma represents_frame [simp]:
  "represents n (cl\<lparr>threads := ts\<rparr>) p = represents n cl p"
  "represents n (cl\<lparr>elections := es\<rparr>) p = represents n cl p"
  "represents n (cl\<lparr>rounds := rs\<rparr>) p = represents n cl p"
  "represents n (cl\<lparr>incs := js\<rparr>) p = represents n cl p"
  "represents n (set_thread k g cl) p = represents n cl p"
  by (simp_all add: represents_def set_thread_def)

lemma carries_prefix: "carries args L \<Longrightarrow> prefix L L' \<Longrightarrow> carries args L'"
  by (auto simp: carries_def prefix_def nth_append go_len_def nat_less_iff)

text \<open>A server whose log does not change while it is a candidate.\<close>

definition candid :: "'c Raft \<Rightarrow> 'c Raft \<Rightarrow> bool" where
  "candid rf rf' \<longleftrightarrow> (rf_currentTerm rf' = rf_currentTerm rf \<longrightarrow> rf_state rf' = CANDIDATE \<longrightarrow> rf_log rf' = rf_log rf)"

lemma describes_evolves: "describes args rf \<Longrightarrow> evolves rf rf' \<Longrightarrow> candid rf rf' \<Longrightarrow> describes args rf'"
  by (auto simp: describes_def evolves_def candid_def)

lemma msg_inv_step:
  assumes "msg_inv cl p g" and "grows n p p'" and "length (servers cl) = n" and "evolves (servers cl ! i) rf'" and "candid (servers cl ! i) rf'"
  shows "msg_inv (set_server i rf' cl) p' g"
proof (cases g)
  case (VoteCalling e q args)
  let ?c = "el_server (elections cl ! e)"
  have "describes args (servers cl ! ?c)" using assms(1) VoteCalling by simp
  then have "describes args ((servers cl)[i := rf'] ! ?c)"
    using describes_evolves[OF _ assms(4,5)] by (cases "i < length (servers cl)") (auto simp: nth_list_update list_update_beyond)
  then show ?thesis using VoteCalling by (simp add: set_server_def)
qed (use assms(1) carries_prefix growsD(2)[OF assms(2)] in auto)

lemma grows_refl [simp]: "grows n p p"
  by (simp add: grows_def)

text \<open>The simulation: an abstract state for the cluster after the step, which has grown out of the one before.\<close>

definition simulates :: "nat \<Rightarrow> 'c proto \<Rightarrow> 'c cluster \<Rightarrow> bool" where
  "simulates n p cl' \<longleftrightarrow> (\<exists>p'. rinv n cl' p' \<and> grows n p p' \<and> (p' = p \<or> pstep n p p'))"

lemma simulates_step:
  assumes "rinv n cl p" and "pstep n p p'" and "vinv n cl'" and "represents n cl' p'"
    and "\<And>el. el \<in> set (elections cl') \<Longrightarrow> h_el_term el \<le> rf_currentTerm (servers cl' ! el_server el)"
    and "\<And>g. g \<in> set (threads cl') \<Longrightarrow> grows n p p' \<Longrightarrow> msg_inv cl' p' g"
  shows "simulates n p cl'"
  using assms pstep_pinv[OF assms(2) rinvD(2)[OF assms(1)]] pstep_grows[OF assms(2) rinvD(2)[OF assms(1)]]
  by (auto simp: simulates_def rinv_def intro!: exI[of _ p'])

lemma simulates_stutter:
  assumes "rinv n cl p" and "vinv n cl'" and "represents n cl' p"
    and "\<And>el. el \<in> set (elections cl') \<Longrightarrow> h_el_term el \<le> rf_currentTerm (servers cl' ! el_server el)"
    and "\<And>g. g \<in> set (threads cl') \<Longrightarrow> msg_inv cl' p g"
  shows "simulates n p cl'"
  using assms by (auto simp: simulates_def rinv_def)


section \<open>The sections of the code as steps of the protocol\<close>

text \<open>Changes of a server that leave its log and its candidacies alone.\<close>

definition quiet :: "'c Raft \<Rightarrow> 'c Raft \<Rightarrow> bool" where
  "quiet rf rf' \<longleftrightarrow> rf_log rf' = rf_log rf \<and> rf_currentTerm rf \<le> rf_currentTerm rf' \<and>
     (rf_state rf' = rf_state rf \<and> rf_currentTerm rf' = rf_currentTerm rf \<or> rf_state rf' \<noteq> LEADER \<and> rf_state rf' \<noteq> CANDIDATE)"

lemma quiet_candid: "quiet rf rf' \<Longrightarrow> candid rf rf'"
  by (simp add: quiet_def candid_def)

lemma handleVoteReply_quiet:
  "handleVoteReply now args reply (rf, cnt) = (rf', cnt') \<Longrightarrow> \<not> (rf_state rf' = LEADER \<and> rf_state rf \<noteq> LEADER) \<Longrightarrow> quiet rf rf'"
  by (auto simp: handleVoteReply_def quiet_def Let_def split: if_splits)

lemma handleVoteReply_wins:
  "handleVoteReply now args reply (rf, cnt) = (rf', cnt') \<Longrightarrow> rf_state rf' = LEADER \<Longrightarrow> rf_state rf \<noteq> LEADER \<Longrightarrow>
   rf_state rf = CANDIDATE \<and> rf_log rf' = rf_log rf \<and> rf_currentTerm rf' = rf_currentTerm rf"
  by (auto simp: handleVoteReply_def Let_def split: if_splits)

lemma handleAppendReply_quiet:
  "handleAppendReply hb i args ok reply (rf, cnt) = Inr ((rf', cnt'), ex) \<Longrightarrow> quiet rf rf'"
  by (auto simp: handleAppendReply_def quiet_def Let_def go_simps split: if_splits)

lemma checkApply_quiet: "checkApply rf = Inr rf' \<Longrightarrow> quiet rf rf'"
  by (drule checkApply_frame) (auto simp: quiet_def)

lemma Make_quiet: "synced rf \<Longrightarrow> Make n me (start1_saved (rf_persister rf)) now rnd = Inr rf' \<Longrightarrow> quiet rf rf'"
  by (auto simp: Make_restart quiet_def)

lemma quiet_step:
  assumes r: "represents n cl p" and i: "i < n" and len: "length (servers cl) = n" and q: "quiet (servers cl ! i) rf'"
  shows "\<exists>p'. pstep n p p' \<and> represents n (set_server i rf' cl) p'"
proof -
  let ?p = "observe n (p\<lparr>q_term := (q_term p)(i := rf_currentTerm rf'), q_role := (q_role p)(i := role_of (rf_state rf'))\<rparr>)"
  have "pstep n p ?p"
    using q representsD(1,2)[OF r i] by (intro pstep.settle[OF i]) (auto simp: quiet_def)
  moreover have "represents n (set_server i rf' cl) ?p"
    using q representsD(3)[OF r i] by (intro represents_set_server[OF r len]) (auto simp: same_server_def quiet_def)
  ultimately show ?thesis by blast
qed

text \<open>The effect of an accepted request on the log.\<close>

lemma stored_keeps:
  assumes c: "carries args L" and m: "log_matching lg L" and p: "ae_PrevLogIndex args < go_len lg"
    and t: "le_Term (lg ! nat (ae_PrevLogIndex args)) = ae_PrevLogTerm args"
  shows "keeps L lg (stored args lg)" and "stored args lg = lg \<or> (\<exists>m. stored args lg = take m L)"
proof -
  let ?k = "Suc (nat (ae_PrevLogIndex args))" and ?es = "ae_Entries args" and ?s = "stored args lg"
  note agree = stored_agrees[OF c m p t]
  note L = take_of_carried[OF c]
  have k: "?k \<le> length lg" using p c by (auto simp: carries_def go_len_def)
  have len: "length ?s = ?k + length ?es" if "?s \<noteq> lg"
    using that k by (auto simp: stored_def Let_def split: if_splits)
  then have s: "?s = take (?k + length ?es) L" if "?s \<noteq> lg" using agree(1) that by auto
  then show "?s = lg \<or> (\<exists>m. ?s = take m L)" by blast
  show "keeps L lg ?s"
    unfolding keeps_def
  proof (intro allI impI)
    fix j assume j: "j \<le> length lg" "j \<le> length L" "take j lg = take j L"
    show "j \<le> length ?s \<and> take j ?s = take j lg"
    proof (cases "?s = lg")
      case False
      have "j \<le> ?k + length ?es"
      proof (rule ccontr)
        assume a: "\<not> j \<le> ?k + length ?es"
        have "take (?k + length ?es) lg = take (?k + length ?es) L" using a by (intro take_eq_mono[OF j(3)]) simp
        then have "take (length ?es) (drop ?k lg) = take (length ?es) (drop ?k L)" by (metis drop_take add_diff_cancel_left')
        also have "\<dots> = ?es" using c by (simp add: carries_def)
        finally have "map le_Term (take (length ?es) (drop ?k lg)) = map le_Term ?es" by simp
        then show False using False a j(1) by (auto simp: stored_def Let_def)
      qed
      then show ?thesis using s[OF False] len[OF False] j by (simp add: min_def)
    qed (use j in simp)
  qed
qed

lemma truncated_keeps:
  assumes c: "carries args L" and "le_Term (lg ! nat (ae_PrevLogIndex args)) \<noteq> ae_PrevLogTerm args"
  shows "keeps L lg (take (nat (ae_PrevLogIndex args)) lg)"
  unfolding keeps_def
proof (intro allI impI)
  fix j assume j: "j \<le> length lg" "j \<le> length L" "take j lg = take j L"
  have "j \<le> nat (ae_PrevLogIndex args)"
  proof (rule ccontr)
    assume "\<not> j \<le> nat (ae_PrevLogIndex args)"
    then have "lg ! nat (ae_PrevLogIndex args) = L ! nat (ae_PrevLogIndex args)" by (intro nth_eq_of_take_eq[OF j(3)]) simp
    then show False using assms by (simp add: carries_def)
  qed
  then show "j \<le> length (take (nat (ae_PrevLogIndex args)) lg) \<and> take j (take (nat (ae_PrevLogIndex args)) lg) = take j lg"
    using j(1) by (simp add: min_def)
qed

text \<open>\<open>AppendEntries\<close> accepts or settles.\<close>

lemma append_step:
  assumes r: "represents n cl p" and p: "pinv n p" and v: "v < n" and len: "length (servers cl) = n"
    and c: "carries args (q_llog p (ae_Term args))" and d: "AppendEntries now args (servers cl ! v) = Inr (rf', reply)"
    and ne: "rf_log rf' \<noteq> []"
  shows "rf' = servers cl ! v \<or> (\<exists>p'. pstep n p p' \<and> represents n (set_server v rf' cl) p')"
    and "candid (servers cl ! v) rf'"
proof -
  let ?rf = "servers cl ! v" and ?u = "ae_Term args" and ?L = "q_llog p (ae_Term args)"
  have prev: "0 \<le> ae_PrevLogIndex args" and lead: "?L \<noteq> []" using c by (auto simp: carries_def)
  note rep = representsD[OF r v]
  show "candid ?rf rf'"
    using prev by (cases rule: AppendEntries_cases[where rf = ?rf]) (use d prev in \<open>auto simp: AppendEntries_paths candid_def\<close>)
  have acc: "\<exists>p'. pstep n p p' \<and> represents n (set_server v rf' cl) p'"
    if "\<not> ?u < rf_currentTerm ?rf" "rf_currentTerm rf' = ?u" "rf_state rf' = FOLLOWER"
      "keeps ?L (rf_log ?rf) (rf_log rf')" "rf_log rf' = take m (rf_log ?rf) \<or> rf_log rf' = take m ?L" for m
  proof -
    let ?p = "observe n (p\<lparr>q_term := (q_term p)(v := ?u), q_role := (q_role p)(v := Follows), q_log := (q_log p)(v := rf_log rf')\<rparr>)"
    have "pstep n p ?p" using that rep ne lead by (intro pstep.accept[OF v, of p ?u "rf_log rf'" m]) auto
    moreover have "represents n (set_server v rf' cl) ?p"
      using that(2,3) by (intro represents_set_server[OF r len]) (auto simp: same_server_def)
    ultimately show ?thesis by blast
  qed
  from prev show "rf' = ?rf \<or> (\<exists>p'. pstep n p p' \<and> represents n (set_server v rf' cl) p')"
  proof (cases rule: AppendEntries_cases[where rf = ?rf])
    case stale
    then show ?thesis using d by (simp add: AppendEntries_stale)
  next
    case short
    then have rf': "rf' = accept_term now ?u ?rf" using d by (simp add: AppendEntries_short)
    show ?thesis by (rule disjI2, rule acc[of "length (rf_log ?rf)"]) (use short(1) in \<open>auto simp: rf' keeps_def\<close>)
  next
    case conflict
    then have f: "rf_currentTerm rf' = ?u" "rf_state rf' = FOLLOWER" "rf_log rf' = take (nat (ae_PrevLogIndex args)) (rf_log ?rf)"
      using d prev by (auto simp: AppendEntries_conflict)
    show ?thesis
      by (rule disjI2, rule acc[OF conflict(1) f(1,2), unfolded f(3), OF truncated_keeps[OF c conflict(3)]]) blast
  next
    case accept
    then have f: "rf_currentTerm rf' = ?u" "rf_state rf' = FOLLOWER" "rf_log rf' = stored args (rf_log ?rf)"
      using d prev by (auto simp: AppendEntries_accept)
    have "log_matching (rf_log ?rf) ?L"
      using logs_invD(1)[OF pinvD(2)[OF p] v] logs_invD(2)[OF pinvD(2)[OF p] lead] rep(3)
      by (intro sourced_matching[of p]) (auto simp: log_good_def)
    note sk = stored_keeps[OF c this accept(2,3)]
    obtain m where "stored args (rf_log ?rf) = take m (rf_log ?rf) \<or> stored args (rf_log ?rf) = take m ?L"
      using sk(2) by (metis order_refl take_all)
    from acc[OF accept(1) f(1,2), unfolded f(3), OF sk(1) this] show ?thesis by blast
  qed
qed


section \<open>Every prompt step is simulated\<close>

text \<open>A server changes, and a goroutine moves on.\<close>

lemma simulates_server:
  assumes inv: "rinv n cl p" and st: "pstep n p p'" "represents n (set_server i rf' cl) p'" and v: "vinv n (set_thread k g (set_server i rf' cl))"
    and ev: "evolves (servers cl ! i) rf'" "candid (servers cl ! i) rf'" and g: "\<And>q. grows n p q \<Longrightarrow> msg_inv (set_server i rf' cl) q g"
  shows "simulates n p (set_thread k g (set_server i rf' cl))"
proof (rule simulates_step[OF inv st(1) v])
  have len: "length (servers cl) = n" by (rule cinvD(1)[OF vinvD(1)[OF rinvD(1)[OF inv]]])
  show "represents n (set_thread k g (set_server i rf' cl)) p'" using st(2) by simp
  fix el assume "el \<in> set (elections (set_thread k g (set_server i rf' cl)))"
  then have "h_el_term el \<le> rf_currentTerm (servers cl ! el_server el)" using inv by (simp add: rinv_def set_thread_def set_server_def)
  then show "h_el_term el \<le> rf_currentTerm (servers (set_thread k g (set_server i rf' cl)) ! el_server el)"
    using ev(1) by (cases "i < length (servers cl)") (auto simp: set_thread_def set_server_def evolves_def nth_list_update list_update_beyond)
next
  have len: "length (servers cl) = n" by (rule cinvD(1)[OF vinvD(1)[OF rinvD(1)[OF inv]]])
  fix h assume h: "h \<in> set (threads (set_thread k g (set_server i rf' cl)))" and gr: "grows n p p'"
  have m: "msg_inv (set_thread k g c) q h = msg_inv c q h" for c :: "'a cluster" and q by (cases h) (auto simp: set_thread_def)
  have "h = g \<or> h \<in> set (threads cl)"
    using h set_update_subset_insert[of "threads cl" k g] by (auto simp: set_thread_def set_server_def)
  then show "msg_inv (set_thread k g (set_server i rf' cl)) p' h"
    unfolding m using g[OF gr] msg_inv_step[OF _ gr len ev] inv by (auto simp: rinv_def)
qed

lemma simulates_quiet:
  assumes inv: "rinv n cl p" and i: "i < n" and q: "quiet (servers cl ! i) rf'" and ev: "evolves (servers cl ! i) rf'"
    and v: "vinv n (set_thread k g (set_server i rf' cl))" and g: "\<And>q. grows n p q \<Longrightarrow> msg_inv (set_server i rf' cl) q g"
  shows "simulates n p (set_thread k g (set_server i rf' cl))"
proof -
  have len: "length (servers cl) = n" by (rule cinvD(1)[OF vinvD(1)[OF rinvD(1)[OF inv]]])
  obtain p' where "pstep n p p'" "represents n (set_server i rf' cl) p'" using quiet_step[OF rinvD(3)[OF inv] i len q] by blast
  from simulates_server[OF inv this v ev quiet_candid[OF q] g] show ?thesis .
qed

text \<open>Only a goroutine moves on.\<close>

lemma simulates_thread:
  assumes inv: "rinv n cl p" and "vinv n (set_thread k g cl)" and "msg_inv cl p g"
  shows "simulates n p (set_thread k g cl)"
proof (rule simulates_stutter[OF inv assms(2)])
  show "represents n (set_thread k g cl) p" using rinvD(3)[OF inv] by simp
  fix h assume "h \<in> set (threads (set_thread k g cl))"
  then have "h = g \<or> h \<in> set (threads cl)" using set_update_subset_insert[of "threads cl" k g] by (auto simp: set_thread_def)
  then have "msg_inv cl p h" using assms(3) inv by (auto simp: rinv_def)
  then show "msg_inv (set_thread k g cl) p h" by (cases h) (auto simp: set_thread_def)
qed (use inv in \<open>auto simp: rinv_def set_thread_def\<close>)

text \<open>Parts of the state that the protocol does not see.\<close>

definition started :: "election list \<Rightarrow> (nat \<times> int) list" where
  "started es = map (\<lambda>el. (el_server el, h_el_term el)) es"

lemma started_nth: "started es' = started es \<Longrightarrow> e < length es \<Longrightarrow> el_server (es' ! e) = el_server (es ! e)"
  unfolding started_def by (metis (no_types, lifting) length_map nth_map prod.inject)

lemma started_terms:
  assumes "started es' = started es" and "\<forall>el\<in>set es. h_el_term el \<le> f (el_server el)"
  shows "\<forall>el\<in>set es'. h_el_term el \<le> f (el_server el)"
proof
  fix el assume "el \<in> set es'"
  then have "(el_server el, h_el_term el) \<in> set (started es)" unfolding assms(1)[symmetric] by (auto simp: started_def)
  then obtain el0 where "el0 \<in> set es" "el_server el = el_server el0" "h_el_term el = h_el_term el0" by (auto simp: started_def)
  then show "h_el_term el \<le> f (el_server el)" using assms(2) by simp
qed

lemma simulates_frame:
  assumes "simulates n p cl" and v: "vinv n cl'" and same: "servers cl' = servers cl" "h_votes cl' = h_votes cl" "h_leaders cl' = h_leaders cl"
    and es: "started (elections cl') = started (elections cl)"
    and ts: "\<And>q g. g \<in> set (threads cl') \<Longrightarrow> g \<in> set (threads cl) \<or> msg_inv cl' q g"
  shows "simulates n p cl'"
proof -
  obtain p' where p': "rinv n cl p'" "grows n p p'" "p' = p \<or> pstep n p p'" using assms(1) by (auto simp: simulates_def)
  have "msg_inv cl' p' g" if g: "g \<in> set (threads cl')" for g
  proof (cases "g \<in> set (threads cl)")
    case True
    then have "msg_inv cl p' g" "thread_inv n cl g" using p'(1) by (auto simp: rinv_def vinv_def cinv_def)
    then show ?thesis using same(1) started_nth[OF es] by (cases g) auto
  qed (use ts[OF g] in simp)
  moreover have "\<forall>el\<in>set (elections cl'). h_el_term el \<le> rf_currentTerm (servers cl' ! el_server el)"
    using p'(1) unfolding same(1) by (intro started_terms[OF es]) (simp add: rinv_def)
  ultimately have "rinv n cl' p'" using p'(1) v same by (simp add: rinv_def represents_def)
  then show ?thesis using p' by (auto simp: simulates_def)
qed

lemma tick_simulates:
  assumes inv: "rinv n cl p" and st: "tick i now rnd cl = Some (Inr cl')"
  shows "simulates n p cl'"
proof -
  note vi = rinvD(1)[OF inv] and r = rinvD(3)[OF inv]
  note ci = vinvD(1)[OF vi]
  have len: "length (servers cl) = n" by (rule cinvD(1)[OF ci])
  obtain rf where i: "i < n" and e: "checkElection now rnd (servers cl ! i) = Some rf"
    and cl': "cl' = (set_server i rf cl)\<lparr>elections := elections cl @
                  [\<lparr>el_server = i, el_inc = incs cl ! i, el_grantedCnt = 1, h_el_term = rf_currentTerm rf, h_el_voters = [i]\<rparr>],
                threads := threads cl @ map (VoteReady (length (elections cl))) (other_peers rf),
                h_votes := (i, rf_currentTerm rf, rf_votedFor rf) # h_votes cl\<rparr>"
    using st len by (auto simp: tick_def split: if_splits option.splits)
  have me: "rf_me (servers cl ! i) = int i" by (rule peer_okD(4)[OF cinvD(3)[OF ci i]])
  have f: "rf_currentTerm rf = rf_currentTerm (servers cl ! i) + 1" "rf_state rf = CANDIDATE" "rf_votedFor rf = int i"
      "rf_log rf = rf_log (servers cl ! i)"
    using e me by (auto simp: checkElection_def split: if_splits)
  let ?p = "observe n (p\<lparr>q_term := (q_term p)(i := q_term p i + 1), q_role := (q_role p)(i := Stands),
      q_votes := insert (i, q_term p i + 1, i) (q_votes p)\<rparr>)"
  have step: "pstep n p ?p" by (rule pstep.stand[OF i])
  show ?thesis
  proof (rule simulates_step[OF inv step tick_vinv[OF vi st]])
    show "represents n cl' ?p"
    proof -
      have "represents n (set_server i rf cl) (?p\<lparr>q_votes := q_votes p\<rparr>)"
        using f representsD[OF r i] by (intro represents_set_server[OF r len]) (auto simp: same_server_def role_of_def)
      then show ?thesis using f representsD(1)[OF r i] by (simp add: represents_def same_server_def cl' set_server_def vote_of_def)
    qed
    show "h_el_term el \<le> rf_currentTerm (servers cl' ! el_server el)" if "el \<in> set (elections cl')" for el
    proof (cases "el \<in> set (elections cl)")
      case True
      then have "h_el_term el \<le> rf_currentTerm (servers cl ! el_server el)" using inv by (simp add: rinv_def)
      then show ?thesis using f(1) i len by (auto simp: cl' set_server_def nth_list_update)
    qed (use that i len in \<open>auto simp: cl' set_server_def\<close>)
    fix g assume g: "g \<in> set (threads cl')" and gr: "grows n p ?p"
    show "msg_inv cl' ?p g"
    proof (cases "g \<in> set (threads cl)")
      case True
      have "candid (servers cl ! i) rf" by (simp add: candid_def f(1))
      then have "msg_inv (set_server i rf cl) ?p g"
        using True inv by (intro msg_inv_step[OF _ gr len checkElection_evolves[OF e]]) (auto simp: rinv_def)
      moreover have "thread_inv n cl g" using ci True by (simp add: cinv_def)
      ultimately show ?thesis by (cases g) (auto simp: cl' set_server_def nth_append)
    qed (use g in \<open>auto simp: cl' set_server_def\<close>)
  qed
qed

lemma vote_build_simulates:
  assumes inv: "rinv n cl p" and st: "vote_build k cl = Some (Inr cl')" and pr: "prompt cl (VoteBuild k)"
  shows "simulates n p cl'"
proof -
  note vi = rinvD(1)[OF inv]
  note ci = vinvD(1)[OF vi]
  note vi' = vote_build_vinv[OF vi st pr]
  obtain e q where k: "k < length (threads cl)" and g: "threads cl ! k = VoteReady e q"
    using st by (auto simp: vote_build_def split: if_splits goroutine.splits)
  have e: "e < length (elections cl)" using cinvD(6)[OF ci k] g by simp
  let ?rf = "servers cl ! el_server (elections cl ! e)"
  have ne: "rf_log ?rf \<noteq> []" by (rule peer_okD(5)[OF cinvD(3)[OF ci cinvD(4)[OF ci e]]])
  show ?thesis
  proof (cases "election_live cl e")
    case True
    then obtain args where a: "requestVoteArgs ?rf = Inr args" and cl': "cl' = set_thread k (VoteCalling e q args) cl"
      using st k g by (auto simp: vote_build_def go_simps)
    have "describes args ?rf" using a ne by (auto simp: requestVoteArgs_def describes_def)
    then show ?thesis using vi' unfolding cl' by (intro simulates_thread[OF inv]) auto
  next
    case False
    then have "cl' = set_thread k Finished cl" using st k g by (simp add: vote_build_def)
    then show ?thesis using vi' by (auto intro: simulates_thread[OF inv])
  qed
qed


lemma vote_deliver_simulates:
  assumes inv: "rinv n cl p" and st: "vote_deliver k now cl = Some (Inr cl')"
  shows "simulates n p cl'"
proof -
  note vi = rinvD(1)[OF inv] and r = rinvD(3)[OF inv] and vi' = vote_deliver_vinv[OF rinvD(1)[OF inv] st]
  note ci = vinvD(1)[OF vi]
  have len: "length (servers cl) = n" by (rule cinvD(1)[OF ci])
  obtain e q args rf reply where k: "k < length (threads cl)" and g: "threads cl ! k = VoteCalling e q args"
    and rv: "RequestVote now args (servers cl ! q) = Inr (rf, reply)"
    and cl': "cl' = (set_thread k (VoteReturned e q args reply) (set_server q rf cl))
        \<lparr>h_votes := (if rvr_VoteGranted reply then (q, rv_Term args, rv_CandidateId args) # h_votes cl else h_votes cl)\<rparr>"
    using st by (auto simp: vote_deliver_def go_simps split: if_splits goroutine.splits)
  let ?c = "el_server (elections cl ! e)" and ?rf = "servers cl ! q" and ?t = "rv_Term args"
  have vt: "rv_CandidateId args = int ?c" and e: "e < length (elections cl)" and q: "q < n"
    using vinvD(4)[OF vi k] cinvD(6)[OF ci k] g by auto
  have c: "?c < n" by (rule cinvD(4)[OF ci e])
  have d: "describes args (servers cl ! ?c)" using rinvD(5)[OF inv k] g by simp
  note ne = peer_okD(5)[OF cinvD(3)[OF ci q]]
  note eq = RequestVote_eq[OF ne, of now args]
  have ev: "evolves ?rf rf" by (rule RequestVote_evolves[OF ne rv])
  show ?thesis
  proof (cases "rvr_VoteGranted reply")
    case False
    then have q': "quiet ?rf rf" and "cl' = set_thread k (VoteReturned e q args reply) (set_server q rf cl)"
      using rv eq by (auto simp: quiet_def cl' set_thread_def set_server_def split: if_splits intro!: cluster.equality)
    then show ?thesis using vi' by (auto intro!: simulates_quiet[OF inv q q' ev])
  next
    case True
    then have vn: "votable args ?rf" "newer args (rf_log ?rf)" and rf: "rf = grant now args ?rf"
      using rv eq by (auto split: if_splits)
    let ?p = "observe n (p\<lparr>q_term := (q_term p)(q := ?t), q_role := (q_role p)(q := Follows), q_votes := insert (q, ?t, ?c) (q_votes p)\<rparr>)"
    have old: "c' = ?c" if "(q, ?t, c') \<in> q_votes p" for c'
    proof -
      have "(q, ?t, int c') \<in> set (h_votes cl)" by (rule votes_represented[OF r vi that])
      then have "?t \<le> rf_currentTerm ?rf \<and> (?t = rf_currentTerm ?rf \<longrightarrow> rf_votedFor ?rf = int c')"
        using vinvD(2)[OF vi] unfolding votes_inv_def by blast
      then show ?thesis using vn(1) vt by (auto simp: votable_def)
    qed
    have step: "pstep n p ?p"
    proof (rule pstep.vote[OF q c])
      show "q_term p q \<le> ?t" using vn(1) representsD(1)[OF r q] by (auto simp: votable_def)
      show "?t \<le> q_term p ?c" using d representsD(1)[OF r c] by (simp add: describes_def)
      show "at_least_as_new (q_log p ?c) (q_log p q)" if "q_role p ?c = Stands" "q_term p ?c = ?t"
        using that d vn(2) representsD[OF r c] representsD(3)[OF r q]
        by (auto simp: describes_def newer_def at_least_as_new_def go_len_def)
    qed (rule old)
    show ?thesis
    proof (rule simulates_step[OF inv step vi'])
      have "represents n (set_server q rf cl) (?p\<lparr>q_votes := q_votes p\<rparr>)"
        using representsD[OF r q] by (intro represents_set_server[OF r len]) (auto simp: same_server_def rf role_of_def)
      then show "represents n cl' ?p"
        using True vt by (simp add: represents_def same_server_def cl' set_server_def set_thread_def vote_of_def)
      have tm: "rf_currentTerm (servers cl ! i) \<le> rf_currentTerm (servers cl' ! i)" for i
        using ev len q by (cases "i = q") (auto simp: cl' set_thread_def set_server_def evolves_def)
      show "h_el_term el \<le> rf_currentTerm (servers cl' ! el_server el)" if "el \<in> set (elections cl')" for el
      proof -
        have "h_el_term el \<le> rf_currentTerm (servers cl ! el_server el)" using that inv by (simp add: rinv_def cl' set_thread_def set_server_def)
        then show ?thesis using tm by (rule order_trans)
      qed
      fix h assume h: "h \<in> set (threads cl')" and gr: "grows n p ?p"
      have "h = VoteReturned e q args reply \<or> h \<in> set (threads cl)"
        using h set_update_subset_insert[of "threads cl" k "VoteReturned e q args reply"] by (auto simp: cl' set_thread_def set_server_def)
      moreover have "candid ?rf rf" by (simp add: candid_def rf)
      ultimately have "h = VoteReturned e q args reply \<or> msg_inv (set_server q rf cl) ?p h"
        using msg_inv_step[OF _ gr len ev] inv by (auto simp: rinv_def)
      then show "msg_inv cl' ?p h" by (cases h) (auto simp: cl' set_thread_def set_server_def)
    qed
  qed
qed

lemma vote_lose_simulates: "rinv n cl p \<Longrightarrow> vote_lose k cl = Some (Inr cl') \<Longrightarrow> simulates n p cl'"
  using vote_lose_vinv[OF rinvD(1), of n cl p k cl']
  by (auto simp: vote_lose_def split: if_splits goroutine.splits intro!: simulates_thread)


text \<open>The candidate that has got its majority wins; every other reply settles.\<close>

lemma vote_reply_simulates:
  assumes inv: "rinv n cl p" and st: "vote_reply k now cl = Some (Inr cl')"
  shows "simulates n p cl'"
proof -
  note vi = rinvD(1)[OF inv] and r = rinvD(3)[OF inv] and vi' = vote_reply_vinv[OF rinvD(1)[OF inv] st]
  note ci = vinvD(1)[OF vi]
  have len: "length (servers cl) = n" by (rule cinvD(1)[OF ci])
  obtain e q args reply where k: "k < length (threads cl)" and g: "threads cl ! k = VoteReturned e q args reply"
    using st by (auto simp: vote_reply_def split: if_splits goroutine.splits)
  have e: "e < length (elections cl)" using cinvD(6)[OF ci k] g by simp
  let ?el = "elections cl ! e"
  let ?s = "el_server ?el"
  let ?rf = "servers cl ! ?s"
  have s: "?s < n" by (rule cinvD(4)[OF ci e])
  show ?thesis
  proof (cases "election_live cl e")
    case False
    then have "cl' = set_thread k Finished cl" using st k g by (simp add: vote_reply_def)
    then show ?thesis using vi' by (auto intro: simulates_thread[OF inv])
  next
    case True
    obtain rf cnt where h: "handleVoteReply now args reply (?rf, el_grantedCnt ?el) = (rf, cnt)" by (metis surj_pair)
    let ?won = "rf_state rf = LEADER \<and> rf_state ?rf \<noteq> LEADER"
    define el' where "el' = ?el\<lparr>el_grantedCnt := cnt,
        h_el_voters := (if cnt = el_grantedCnt ?el then h_el_voters ?el else q # h_el_voters ?el)\<rparr>"
    then have el': "el_server el' = ?s" "h_el_term el' = h_el_term ?el" by simp_all
    have cl': "cl' = (set_thread k Finished (set_server ?s rf cl))
        \<lparr>elections := (elections cl)[e := el'], h_leaders := (if ?won then (rf_currentTerm rf, ?s) # h_leaders cl else h_leaders cl)\<rparr>"
      using st k g True h by (auto simp: vote_reply_def Let_def el'_def)
    have same: "started (elections cl') = started (elections cl)"
      using el' e by (simp add: cl' started_def map_update) (simp add: list_update_same_conv)
    have ok: "peer_ok n ?s rf" "evolves ?rf rf"
      using handleVoteReply_peer[OF cinvD(3)[OF ci s] h] handleVoteReply_evolves[OF h] by auto
    show ?thesis
    proof (cases ?won)
      case False
      then have qu: "quiet ?rf rf" using handleVoteReply_quiet[OF h] by blast
      have "vinv n (set_thread k Finished (set_server ?s rf cl))"
        using False by (intro vinv_set_other vinv_set_server[OF vi s ok]) auto
      from simulates_quiet[OF inv s qu ok(2) this] have "simulates n p (set_thread k Finished (set_server ?s rf cl))" by simp
      then show ?thesis
        using False same by (elim simulates_frame) (auto simp: vi', auto simp: cl' set_thread_def set_server_def)
    next
      case True
      note w = handleVoteReply_wins[OF h conjunct1[OF True] conjunct2[OF True]]
      have hl: "(rf_currentTerm rf, ?s) \<in> set (h_leaders cl')" using True by (simp add: cl')
      obtain A where A: "majority n A" "\<And>v. v \<in> A \<Longrightarrow> (v, rf_currentTerm rf, int ?s) \<in> set (h_votes cl')"
        using vinvD(6)[OF vi'] hl unfolding leaders_inv_def by blast
      have vs: "(v, q_term p ?s, ?s) \<in> q_votes p" if "v \<in> A" for v
        using represents_votes[OF r, of v "rf_currentTerm rf" "int ?s"] A(2)[OF that] w representsD(1)[OF r s]
        by (simp add: cl' set_thread_def set_server_def)
      let ?p = "observe n (p\<lparr>q_role := (q_role p)(?s := Leads), q_led := insert (q_term p ?s, ?s) (q_led p),
          q_llog := (q_llog p)(q_term p ?s := q_log p ?s)\<rparr>)"
      have step: "pstep n p ?p" using w representsD(2)[OF r s] by (intro pstep.win[OF s _ A(1) vs]) auto
      show ?thesis
      proof (rule simulates_step[OF inv step vi'])
        have "represents n (set_server ?s rf cl) (?p\<lparr>q_led := q_led p\<rparr>)"
          using representsD[OF r s] w True by (intro represents_set_server[OF r len]) (auto simp: same_server_def role_of_def)
        then show "represents n cl' ?p"
          using True w representsD(1)[OF r s] by (simp add: represents_def same_server_def cl' set_server_def set_thread_def)
        have tm: "rf_currentTerm (servers cl' ! i) = rf_currentTerm (servers cl ! i)" for i
          using w by (cases "i = ?s") (auto simp: cl' set_thread_def set_server_def nth_list_update len s)
        have "\<forall>el\<in>set (elections cl). h_el_term el \<le> rf_currentTerm (servers cl' ! el_server el)"
          using inv by (simp add: rinv_def tm)
        from started_terms[OF same, of "\<lambda>i. rf_currentTerm (servers cl' ! i)", OF this]
        show "h_el_term el \<le> rf_currentTerm (servers cl' ! el_server el)" if "el \<in> set (elections cl')" for el
          using that by simp
        fix g assume g: "g \<in> set (threads cl')" and gr: "grows n p ?p"
        have "g = Finished \<or> g \<in> set (threads cl)"
          using g set_update_subset_insert[of "threads cl" k Finished] by (auto simp: cl' set_thread_def set_server_def)
        then have "g = Finished \<or> msg_inv (set_server ?s rf cl) ?p g \<and> thread_inv n cl g"
          using msg_inv_step[OF _ gr len ok(2)] inv w ci by (auto simp: rinv_def candid_def cinv_def)
        then show "msg_inv cl' ?p g"
          using started_nth[OF same] by (cases g) (auto simp: cl' set_thread_def set_server_def)
      qed
    qed
  qed
qed


lemma simulates_refl: "rinv n cl p \<Longrightarrow> simulates n p cl"
  by (auto simp: simulates_def)

lemma beat_simulates:
  assumes inv: "rinv n cl p" and st: "beat i cl = Some (Inr cl')"
  shows "simulates n p cl'"
  using st
  by (intro simulates_frame[OF simulates_refl[OF inv] beat_vinv[OF rinvD(1)[OF inv] st]])
    (auto simp: beat_def go_simps split: if_splits option.splits)

text \<open>A leader's request carries a part of the log it leads with.\<close>

lemma heart_build_simulates:
  assumes inv: "rinv n cl p" and st: "heart_build k cl = Some (Inr cl')"
  shows "simulates n p cl'"
proof -
  note vi' = heart_build_vinv[OF rinvD(1)[OF inv] st] and r = rinvD(3)[OF inv]
  note ci = vinvD(1)[OF rinvD(1)[OF inv]]
  obtain q m where k: "k < length (threads cl)" and g: "threads cl ! k = HeartReady m q"
    using st by (auto simp: heart_build_def split: if_splits goroutine.splits)
  have m: "m < length (rounds cl)" and q: "q < n" using cinvD(6)[OF ci k] g by auto
  let ?hr = "rounds cl ! m"
  let ?rf = "servers cl ! hr_server ?hr"
  have rd: "round_inv n cl ?hr" by (rule cinvD(5)[OF ci m])
  then have s: "hr_server ?hr < n" by (simp add: round_inv_def)
  have fin: "simulates n p (set_thread k Finished cl)" if "cl' = set_thread k Finished cl"
    using vi' that by (auto intro: simulates_thread[OF inv])
  show ?thesis
  proof (cases "round_live cl m \<and> rf_state ?rf = LEADER \<and> hb_currentTerm (hr_hb ?hr) = rf_currentTerm ?rf")
    case False
    then have "cl' = set_thread k Finished cl" using st k g by (auto simp: heart_build_def appendEntriesArgs_def split: if_splits)
    then show ?thesis using fin by simp
  next
    case True
    note ok = cinvD(3)[OF ci s]
    have "leads (hr_hb ?hr) q ?rf ?rf"
      using True rd q ok by (auto simp: leads_def round_inv_def round_live_def peer_okD log_matching_def)
    then obtain args where a: "appendEntriesArgs (hr_hb ?hr) q ?rf = Inr (Some args)" "ae_Term args = rf_currentTerm ?rf" "carries args (rf_log ?rf)"
      using appendEntriesArgs_carries by metis
    have cl': "cl' = set_thread k (HeartCalling m q args) cl" using st k g True a(1) by (simp add: heart_build_def)
    have "q_llog p (ae_Term args) = rf_log ?rf"
      using elect_invD(5)[OF pinvD(1)[OF rinvD(2)[OF inv]] s] True representsD[OF r s] a(2) by simp
    then show ?thesis using vi' a(3) unfolding cl' by (intro simulates_thread[OF inv]) auto
  qed
qed

lemma heart_deliver_simulates:
  assumes inv: "rinv n cl p" and st: "heart_deliver k now cl = Some (Inr cl')"
  shows "simulates n p cl'"
proof -
  note vi' = heart_deliver_vinv[OF rinvD(1)[OF inv] st] and r = rinvD(3)[OF inv] and pi = rinvD(2)[OF inv]
  note ci = vinvD(1)[OF rinvD(1)[OF inv]]
  have len: "length (servers cl) = n" by (rule cinvD(1)[OF ci])
  obtain m q args rf reply where k: "k < length (threads cl)" and g: "threads cl ! k = HeartCalling m q args"
    and d: "AppendEntries now args (servers cl ! q) = Inr (rf, reply)"
    and cl': "cl' = set_thread k (HeartReturned m q args reply) (set_server q rf cl)"
    using st by (auto simp: heart_deliver_def go_simps split: if_splits goroutine.splits)
  have q: "q < n" and args: "args_ok args" using cinvD(6)[OF ci k] g by (auto simp: call_inv_def)
  have c: "carries args (q_llog p (ae_Term args))" using rinvD(5)[OF inv k] g by simp
  have ok: "peer_ok n q rf" "evolves (servers cl ! q) rf" using AppendEntries_peer[OF cinvD(3)[OF ci q] args, of now] d by auto
  note ap = append_step[OF r pi q len c d peer_okD(5)[OF ok(1)]]
  have msg: "msg_inv (set_server q rf cl) p2 (HeartReturned m q args reply)" if "grows n p p2" for p2
    using carries_prefix[OF c growsD(2)[OF that]] by simp
  from ap(1) show ?thesis
  proof (elim disjE exE conjE)
    assume "rf = servers cl ! q"
    then have "set_server q rf cl = cl" by (simp add: set_server_def)
    then show ?thesis using vi' msg[OF grows_refl] unfolding cl' by (simp add: simulates_thread[OF inv])
  next
    fix p' assume "pstep n p p'" "represents n (set_server q rf cl) p'"
    then show ?thesis using vi' msg unfolding cl' by (intro simulates_server[OF inv _ _ _ ok(2) ap(2)])
  qed
qed

lemma heart_finish_simulates:
  assumes inv: "rinv n cl p" and call: "call_inv n cl m q args" and rep: "ok \<Longrightarrow> reply_ok args reply"
    and k: "k < length (threads cl)" and st: "heart_finish k m q args ok reply cl = Inr cl'"
  shows "simulates n p cl'"
proof -
  note vi = rinvD(1)[OF inv]
  note vi' = heart_finish_vinv[OF vi call rep k st] and ci = vinvD(1)[OF vi]
  show ?thesis
  proof (cases "round_live cl m")
    case False
    then have "cl' = set_thread k Finished cl" using st by (simp add: heart_finish_def)
    then show ?thesis using vi' by (auto intro: simulates_thread[OF inv])
  next
    case True
    let ?hr = "rounds cl ! m"
    let ?s = "hr_server ?hr"
    obtain rf cnt ex where h: "handleAppendReply (hr_hb ?hr) q args ok reply (servers cl ! ?s, hr_replCount ?hr) = Inr ((rf, cnt), ex)"
      and cl': "cl' = (set_thread k (case ex of Return \<Rightarrow> Finished | Again \<Rightarrow> HeartReady m q) (set_server ?s rf cl))
          \<lparr>rounds := (rounds cl)[m := ?hr\<lparr>hr_replCount := cnt\<rparr>]\<rparr>"
      using st True by (auto simp: heart_finish_def Let_def go_simps)
    let ?g = "case ex of Return \<Rightarrow> Finished | Again \<Rightarrow> HeartReady m q"
    have m: "m < length (rounds cl)" and q: "q < n" using call by (auto simp: call_inv_def)
    have s: "?s < n" using cinvD(5)[OF ci m] by (simp add: round_inv_def)
    obtain rf2 cnt2 ex2 where "handleAppendReply (hr_hb ?hr) q args ok reply (servers cl ! ?s, hr_replCount ?hr) = Inr ((rf2, cnt2), ex2)"
        "peer_ok n ?s rf2" "evolves (servers cl ! ?s) rf2"
      using handleAppendReply_peer[OF cinvD(3)[OF ci s] q, of "hr_hb ?hr" args ok reply "hr_replCount ?hr"] call True rep
      by (auto simp: call_inv_def)
    then have ok: "peer_ok n ?s rf" "evolves (servers cl ! ?s) rf" using h by auto
    have "vinv n (set_thread k ?g (set_server ?s rf cl))"
      using m q handleAppendReply_leader[OF h]
      by (intro vinv_set_other vinv_set_server[OF vi s ok]) (auto simp: set_server_def split: loop_exit.splits)
    from simulates_quiet[OF inv s handleAppendReply_quiet[OF h] ok(2) this]
    have "simulates n p (set_thread k ?g (set_server ?s rf cl))" by (simp split: loop_exit.splits)
    then show ?thesis using vi' by (rule simulates_frame) (auto simp: cl')
  qed
qed

lemma heart_reply_simulates: "rinv n cl p \<Longrightarrow> heart_reply k cl = Some (Inr cl') \<Longrightarrow> simulates n p cl'"
  using heart_finish_simulates[where n = n and cl = cl and p = p and ok = True and k = k] cinvD(6)[OF vinvD(1)[OF rinvD(1)], of n cl p k]
  by (auto simp: heart_reply_def split: if_splits goroutine.splits)

lemma heart_lose_simulates: "rinv n cl p \<Longrightarrow> heart_lose k cl = Some (Inr cl') \<Longrightarrow> simulates n p cl'"
  using heart_finish_simulates[where n = n and cl = cl and p = p and ok = False and k = k] cinvD(6)[OF vinvD(1)[OF rinvD(1)], of n cl p k]
  by (auto simp: heart_lose_def split: if_splits goroutine.splits)


text \<open>Sections of a server's own goroutines: no goroutine of the cluster moves.\<close>

lemma no_thread: "set_thread (length (threads cl)) g cl = cl"
  by (simp add: set_thread_def list_update_beyond)

lemma client_start_simulates:
  assumes inv: "rinv n cl p" and st: "client_start i c cl = Some (Inr cl')"
  shows "simulates n p cl'"
proof -
  note vi' = client_start_vinv[OF rinvD(1)[OF inv] st] and r = rinvD(3)[OF inv]
  have len: "length (servers cl) = n" by (rule cinvD(1)[OF vinvD(1)[OF rinvD(1)[OF inv]]])
  let ?rf = "servers cl ! i"
  have i: "i < n" and cl': "cl' = set_server i (fst (Start c ?rf)) cl" using st len by (auto simp: client_start_def split: if_splits)
  show ?thesis
  proof (cases "rf_state ?rf = LEADER")
    case False
    then have "cl' = cl" by (simp add: cl' Start_def Let_def set_server_def)
    then show ?thesis using simulates_refl[OF inv] by simp
  next
    case True
    let ?e = "\<lparr>le_Command = Some c, le_Term = rf_currentTerm ?rf\<rparr>"
    have f: "rf_log (fst (Start c ?rf)) = rf_log ?rf @ [?e]" "rf_state (fst (Start c ?rf)) = LEADER" "rf_currentTerm (fst (Start c ?rf)) = rf_currentTerm ?rf"
      using True by (simp_all add: Start_def Let_def)
    let ?p = "observe n (p\<lparr>q_log := (q_log p)(i := q_log p i @ [?e]), q_llog := (q_llog p)(q_term p i := q_log p i @ [?e])\<rparr>)"
    have step: "pstep n p ?p" using True representsD[OF r i] by (intro pstep.extend[OF i]) auto
    have rep: "represents n (set_server i (fst (Start c ?rf)) cl) ?p"
      using True f representsD[OF r i] by (intro represents_set_server[OF r len]) (auto simp: same_server_def)
    show ?thesis
      using simulates_server[OF inv step rep _ Start_evolves, where k = "length (threads (set_server i (fst (Start c ?rf)) cl))" and g = Finished]
        f vi' unfolding no_thread cl' by (simp add: candid_def)
  qed
qed

lemma simulates_own:
  assumes inv: "rinv n cl p" and i: "i < n" and q: "quiet (servers cl ! i) rf'" and ev: "evolves (servers cl ! i) rf'"
    and v: "vinv n (set_server i rf' cl)"
  shows "simulates n p (set_server i rf' cl)"
  using simulates_quiet[OF inv i q ev, where k = "length (threads (set_server i rf' cl))" and g = Finished] v unfolding no_thread by simp

lemma apply_committed_simulates:
  assumes inv: "rinv n cl p" and st: "apply_committed i cl = Some (Inr cl')"
  shows "simulates n p cl'"
proof -
  obtain rf where i: "i < n" and a: "checkApply (servers cl ! i) = Inr rf" and cl': "cl' = set_server i rf cl"
    using st cinvD(1)[OF vinvD(1)[OF rinvD(1)[OF inv]]] by (auto simp: apply_committed_def go_simps split: if_splits)
  show ?thesis
    using simulates_own[OF inv i checkApply_quiet[OF a] checkApply_evolves[OF a]] apply_committed_vinv[OF rinvD(1)[OF inv] st]
    by (simp add: cl')
qed

lemma restart_simulates:
  assumes inv: "rinv n cl p" and st: "restart i now rnd cl = Some (Inr cl')"
  shows "simulates n p cl'"
proof -
  note vi = rinvD(1)[OF inv]
  note vi' = restart_vinv[OF vi st] and ci = vinvD(1)[OF vi]
  obtain rf where i: "i < n" and m: "Make n (int i) (start1_saved (rf_persister (servers cl ! i))) now rnd = Inr rf"
    and cl': "cl' = (set_server i rf cl)\<lparr>incs := (incs cl)[i := Suc (incs cl ! i)]\<rparr>"
    using st cinvD(1)[OF ci] by (auto simp: restart_def go_simps split: if_splits)
  note ok = cinvD(3)[OF ci i]
  have rf: "peer_ok n i rf" "evolves (servers cl ! i) rf" using Make_peer_restart[OF ok, of now rnd] m by auto
  have q: "quiet (servers cl ! i) rf" by (rule Make_quiet[OF peer_okD(2)[OF ok] m])
  have "rf_state rf = rf_state (servers cl ! i)" using m Make_restart[OF peer_okD(2)[OF ok], of n "int i" now rnd] by auto
  then have "vinv n (set_server i rf cl)" by (intro vinv_set_server[OF vi i rf]) simp
  from simulates_own[OF inv i q rf(2) this] show ?thesis
    using vi' by (rule simulates_frame) (auto simp: cl')
qed

lemmas step_simulates =
  tick_simulates vote_build_simulates vote_deliver_simulates vote_lose_simulates vote_reply_simulates beat_simulates heart_build_simulates
  heart_deliver_simulates heart_reply_simulates heart_lose_simulates client_start_simulates apply_committed_simulates restart_simulates

lemma cstep_simulates: "rinv n cl p \<Longrightarrow> prompt cl a \<Longrightarrow> cstep a cl = Some (Inr cl') \<Longrightarrow> simulates n p cl'"
  by (cases a) (auto intro: step_simulates)

lemma fresh_rinv:
  assumes "length rfs = n" and "\<forall>i<n. \<exists>now rnd. Make n (int i) MakePersister now rnd = Inr (rfs ! i)"
  shows "rinv n (fresh_cluster rfs) (proto_init n)"
proof -
  have "same_server (proto_init n) i (rfs ! i)" if "i < n" for i
  proof -
    obtain now rnd where m: "Make n (int i) MakePersister now rnd = Inr (rfs ! i)" using assms(2) \<open>i < n\<close> by blast
    have "rf_state rf = FOLLOWER \<and> rf_currentTerm rf = 0 \<and> rf_log rf = [sentinel]" if "Make n (int i) MakePersister now rnd = Inr rf" for rf :: "'a Raft"
      using that by (auto simp: Make_fresh sentinel_def)
    from this[OF m] show ?thesis by (simp add: same_server_def proto_init_def)
  qed
  then have "represents n (fresh_cluster rfs) (proto_init n)" by (simp add: represents_def fresh_cluster_def proto_init_def)
  then show ?thesis using fresh_vinv[OF assms] init_pinv by (simp add: rinv_def) (simp add: fresh_cluster_def)
qed

lemma creach_rinv: "creach prompt n cl \<Longrightarrow> \<exists>p. rinv n cl p"
proof (induction rule: creach.induct)
  case (boot rfs)
  then show ?case using fresh_rinv by blast
next
  case (step cl a cl')
  then show ?case using cstep_simulates unfolding simulates_def by blast
qed

text \<open>Reachable clusters show reachable states of the protocol.\<close>

lemma creach_protocol: "creach prompt n cl \<Longrightarrow> \<exists>p. (pstep n)\<^sup>*\<^sup>* (proto_init n) p \<and> rinv n cl p"
proof (induction rule: creach.induct)
  case (boot rfs)
  then show ?case using fresh_rinv by blast
next
  case (step cl a cl')
  obtain p where p: "(pstep n)\<^sup>*\<^sup>* (proto_init n) p" "rinv n cl p" using step.IH by blast
  obtain p' where "rinv n cl' p'" "p' = p \<or> pstep n p p'"
    using cstep_simulates[OF p(2) step.hyps(2,3)] unfolding simulates_def by blast
  then show ?case using p(1) by (meson rtranclp.rtrancl_into_rtrancl)
qed

end
