(* ===== verification/Raft_Commit.thy ===== *)
theory Raft_Commit
  imports Raft_Refine
begin

text \<open>
  What commit indices mean. A leader raises its commit index when \<open>replCount\<close> of a round
  of \<open>sendHeartbeat\<close> passes the majority test, a follower when an accepted request says so.
  The invariant ties the counters, the requests under way and the commit indices to the
  protocol: everything below a commit index is settled, so that all servers hand the same
  commands to the service above, at any two moments of a run.
\<close>

section \<open>The commit index of one server\<close>

text \<open>The messages for the entries 1 to \<open>a\<close> of a log.\<close>

definition applied :: "'c LogEntry list \<Rightarrow> int \<Rightarrow> 'c ApplyMsg list" where
  "applied lg a = map (\<lambda>i. \<lparr>CommandValid = True, am_Command = le_Command (lg ! nat i), CommandIndex = i\<rparr>) [1..a]"

lemma applied_cong: "take (Suc (nat c)) lg' = take (Suc (nat c)) lg \<Longrightarrow> a \<le> c \<Longrightarrow> applied lg' a = applied lg a"
  by (auto simp: applied_def intro!: nth_eq_of_take_eq arg_cong[where f = le_Command])

lemma applied_prefix: "a \<le> b \<Longrightarrow> prefix (applied lg a) (applied lg b)"
proof (cases "0 \<le> a")
  case True
  assume "a \<le> b"
  with True have "[1..b] = [1..a] @ [a + 1..b]" using upto_append[of 1 a b] by simp
  then show ?thesis by (auto simp: applied_def)
qed (simp add: applied_def)

definition server_inv :: "nat \<Rightarrow> 'c proto \<Rightarrow> 'c Raft \<Rightarrow> bool" where
  "server_inv n p rf \<longleftrightarrow> 0 \<le> rf_lastApplied rf \<and> rf_lastApplied rf \<le> rf_commitIndex rf \<and>
     settled n p (rf_currentTerm rf) (rf_log rf) (Suc (nat (rf_commitIndex rf))) \<and>
     rf_applyCh rf = applied (rf_log rf) (rf_lastApplied rf)"

lemma server_invD:
  assumes "server_inv n p rf"
  shows "0 \<le> rf_commitIndex rf" and "0 \<le> rf_lastApplied rf" and "rf_lastApplied rf \<le> rf_commitIndex rf"
    and "settled n p (rf_currentTerm rf) (rf_log rf) (Suc (nat (rf_commitIndex rf)))"
    and "rf_commitIndex rf < go_len (rf_log rf)" and "rf_applyCh rf = applied (rf_log rf) (rf_lastApplied rf)"
  using assms by (auto simp: server_inv_def settled_def go_len_def)

text \<open>Changes that leave the committed part alone.\<close>

definition preserves :: "'c Raft \<Rightarrow> 'c Raft \<Rightarrow> bool" where
  "preserves rf rf' \<longleftrightarrow> rf_currentTerm rf \<le> rf_currentTerm rf' \<and> rf_commitIndex rf' = rf_commitIndex rf \<and>
     rf_lastApplied rf' = rf_lastApplied rf \<and> rf_applyCh rf' = rf_applyCh rf \<and>
     take (Suc (nat (rf_commitIndex rf))) (rf_log rf') = take (Suc (nat (rf_commitIndex rf))) (rf_log rf)"

lemma settled_cong: "settled n p u lg j \<Longrightarrow> take j lg' = take j lg \<Longrightarrow> settled n p u lg' j"
  unfolding settled_def by (metis length_take min.absorb_iff2)

lemma server_inv_preserves:
  assumes inv: "server_inv n p rf" and g: "grows n p p'" and e: "preserves rf rf'"
  shows "server_inv n p' rf'"
proof -
  let ?j = "Suc (nat (rf_commitIndex rf))"
  have t: "take ?j (rf_log rf') = take ?j (rf_log rf)" and tm: "rf_currentTerm rf \<le> rf_currentTerm rf'"
    and f: "rf_commitIndex rf' = rf_commitIndex rf" "rf_lastApplied rf' = rf_lastApplied rf" "rf_applyCh rf' = rf_applyCh rf"
    using e by (auto simp: preserves_def)
  have "settled n p' (rf_currentTerm rf') (rf_log rf') ?j"
    by (rule settled_cong[OF settled_grows[OF g server_invD(4)[OF inv] tm] t])
  then show ?thesis
    using server_invD[OF inv] applied_cong[OF t server_invD(3)[OF inv]] by (simp add: server_inv_def f)
qed

lemma preserves_refl [simp]: "preserves rf rf"
  by (simp add: preserves_def)

lemma server_inv_commit:
  assumes "server_inv n p rf" and "rf_commitIndex rf \<le> c" and "settled n p (rf_currentTerm rf) (rf_log rf) (Suc (nat c))"
  shows "server_inv n p (rf\<lparr>rf_commitIndex := c\<rparr>)"
  using assms by (simp add: server_inv_def)

lemma RequestVote_preserves: "rf_log rf \<noteq> [] \<Longrightarrow> RequestVote now args rf = Inr (rf', reply) \<Longrightarrow> preserves rf rf'"
  by (auto simp: RequestVote_eq preserves_def votable_def split: if_splits)

lemma checkElection_preserves: "checkElection now rnd rf = Some rf' \<Longrightarrow> preserves rf rf'"
  by (auto simp: checkElection_def preserves_def split: if_splits)

lemma handleVoteReply_preserves: "handleVoteReply now args reply (rf, cnt) = (rf', cnt') \<Longrightarrow> preserves rf rf'"
  by (auto simp: handleVoteReply_def preserves_def Let_def split: if_splits)

lemma Start_preserves: "0 \<le> rf_commitIndex rf \<Longrightarrow> rf_commitIndex rf < go_len (rf_log rf) \<Longrightarrow> preserves rf (fst (Start c rf))"
  by (auto simp: Start_def preserves_def Let_def go_len_def)

lemma checkApply_server_inv:
  assumes inv: "server_inv n p rf" and a: "checkApply rf = Inr rf'"
  shows "server_inv n p rf'"
proof -
  note d = server_invD[OF inv]
  have "[1..rf_lastApplied rf] @ [rf_lastApplied rf + 1..rf_commitIndex rf] = [1..rf_commitIndex rf]"
    using d(2,3) by (intro upto_append) auto
  then have "applied (rf_log rf) (rf_lastApplied rf) @ map (\<lambda>i. \<lparr>CommandValid = True, am_Command = le_Command (rf_log rf ! nat i), CommandIndex = i\<rparr>)
      [rf_lastApplied rf + 1..rf_commitIndex rf] = applied (rf_log rf) (rf_commitIndex rf)"
    unfolding applied_def by (simp flip: map_append)
  then show ?thesis
    using d a checkApply_delivers[OF d(2,5)] by (simp add: server_inv_def max_def) (auto simp: max_def)
qed

lemma Make_server_inv:
  assumes inv: "server_inv n p rf" and "synced rf" and "Make n me (start1_saved (rf_persister rf)) now rnd = Inr rf'"
  shows "server_inv n p rf'"
proof -
  have "settled n p (rf_currentTerm rf) (rf_log rf) (Suc 0)" by (rule settled_smaller[OF server_invD(4)[OF inv]]) simp
  then show ?thesis using assms(2,3) by (auto simp: Make_restart server_inv_def applied_def)
qed

section \<open>The commit index of a follower\<close>

text \<open>The logs a request is checked against match, and what a follower has committed stays.\<close>

lemma keeps_preserves:
  assumes inv: "server_inv n p rf" and p: "pinv n p" and "q_llog p u \<noteq> []" and "rf_currentTerm rf \<le> u" and "keeps (q_llog p u) (rf_log rf) lg"
  shows "take (Suc (nat (rf_commitIndex rf))) lg = take (Suc (nat (rf_commitIndex rf))) (rf_log rf)"
proof -
  let ?j = "Suc (nat (rf_commitIndex rf))"
  have s: "settled n p u (rf_log rf) ?j" by (rule settled_grows[OF grows_refl server_invD(4)[OF inv] assms(4)])
  note l = settled_in_leader[OF p s assms(3)]
  have "?j \<le> length (rf_log rf)" using s by (simp add: settled_def)
  then show ?thesis using l assms(5) unfolding keeps_def by auto
qed

lemma AppendEntries_server_inv:
  assumes inv: "server_inv n p rf" and p: "pinv n p" and g: "grows n p p'" and d: "AppendEntries now args rf = Inr (rf', reply)"
    and c: "carries args (q_llog p (ae_Term args))" and m: "log_matching (rf_log rf) (q_llog p (ae_Term args))"
    and lc: "0 \<le> ae_LeaderCommit args" "ae_LeaderCommit args \<le> ae_PrevLogIndex args + go_len (ae_Entries args)"
      "settled n p (ae_Term args) (q_llog p (ae_Term args)) (Suc (nat (ae_LeaderCommit args)))"
  shows "server_inv n p' rf'"
proof -
  let ?u = "ae_Term args" and ?c = "rf_commitIndex rf"
  let ?L = "q_llog p ?u"
  have prev: "0 \<le> ae_PrevLogIndex args" and lead: "?L \<noteq> []" using c by (auto simp: carries_def)
  from prev show ?thesis
  proof (cases rule: AppendEntries_cases[where rf = rf])
    case stale
    then show ?thesis using d server_inv_preserves[OF inv g preserves_refl] by (simp add: AppendEntries_stale)
  next
    case short
    then have "rf' = accept_term now ?u rf" using d by (simp add: AppendEntries_short)
    then show ?thesis using short(1) by (intro server_inv_preserves[OF inv g]) (auto simp: preserves_def)
  next
    case conflict
    then have rf': "rf' = persist ((accept_term now ?u rf)\<lparr>rf_log := take (nat (ae_PrevLogIndex args)) (rf_log rf)\<rparr>)"
      using d prev by (auto simp: AppendEntries_conflict)
    have "take (Suc (nat ?c)) (take (nat (ae_PrevLogIndex args)) (rf_log rf)) = take (Suc (nat ?c)) (rf_log rf)"
      using conflict(1) by (intro keeps_preserves[OF inv p lead _ truncated_keeps[OF c conflict(3)]]) simp
    then show ?thesis using conflict(1) unfolding rf' by (intro server_inv_preserves[OF inv g]) (auto simp: preserves_def)
  next
    case accept
    let ?lg = "stored args (rf_log rf)"
    let ?rf = "persist ((accept_term now ?u rf)\<lparr>rf_log := ?lg\<rparr>)"
    have rf': "rf' = ?rf\<lparr>rf_commitIndex := new_commit args ?lg ?c\<rparr>" using d prev accept by (auto simp: AppendEntries_accept)
    have "take (Suc (nat ?c)) ?lg = take (Suc (nat ?c)) (rf_log rf)"
      using accept(1) by (intro keeps_preserves[OF inv p lead _ stored_keeps(1)[OF c m accept(2,3)]]) simp
    then have rf: "server_inv n p' ?rf" using accept(1) by (intro server_inv_preserves[OF inv g]) (auto simp: preserves_def)
    note a = stored_agrees(1,3)[OF c m accept(2,3)]
    have k: "Suc (nat (ae_LeaderCommit args)) \<le> Suc (nat (ae_PrevLogIndex args)) + length (ae_Entries args)"
      using lc(1,2) prev by (simp add: go_len_def nat_le_iff)
    have "settled n p ?u ?lg (Suc (nat (ae_LeaderCommit args)))" by (rule settled_cong[OF lc(3) take_eq_mono[OF a(1) k]])
    then have s: "settled n p' ?u ?lg (Suc (nat (ae_LeaderCommit args)))" by (rule settled_grows[OF g _ order_refl])
    have "ae_LeaderCommit args \<le> go_len ?lg - 1" using k a(2) lc(1) by (simp add: go_len_def)
    then have "new_commit args ?lg ?c = max ?c (ae_LeaderCommit args)" by (simp add: new_commit_def)
    then show ?thesis using s server_invD(4)[OF rf] unfolding rf' by (auto simp: max_def intro!: server_inv_commit[OF rf])
  qed
qed

text \<open>A follower that has accepted a request agrees with its leader on everything the request covers.\<close>

lemma AppendEntries_agrees:
  assumes "AppendEntries now args rf = Inr (rf', reply)" and "aer_Success reply" and c: "carries args L" and m: "log_matching (rf_log rf) L"
  shows "rf_currentTerm rf' = ae_Term args"
    and "take (Suc (nat (ae_PrevLogIndex args)) + length (ae_Entries args)) (rf_log rf') = take (Suc (nat (ae_PrevLogIndex args)) + length (ae_Entries args)) L"
    and "Suc (nat (ae_PrevLogIndex args)) + length (ae_Entries args) \<le> length (rf_log rf')"
proof -
  have prev: "0 \<le> ae_PrevLogIndex args" using c by (auto simp: carries_def)
  then have "rf_currentTerm rf' = ae_Term args \<and>
    take (Suc (nat (ae_PrevLogIndex args)) + length (ae_Entries args)) (rf_log rf') = take (Suc (nat (ae_PrevLogIndex args)) + length (ae_Entries args)) L \<and>
    Suc (nat (ae_PrevLogIndex args)) + length (ae_Entries args) \<le> length (rf_log rf')"
    by (cases rule: AppendEntries_cases[where rf = rf])
      (use assms(1,2) prev stored_agrees(1,3)[OF c m] in \<open>auto simp: AppendEntries_paths AppendEntriesReply0_def\<close>)
  then show "rf_currentTerm rf' = ae_Term args"
    and "take (Suc (nat (ae_PrevLogIndex args)) + length (ae_Entries args)) (rf_log rf') = take (Suc (nat (ae_PrevLogIndex args)) + length (ae_Entries args)) L"
    and "Suc (nat (ae_PrevLogIndex args)) + length (ae_Entries args) \<le> length (rf_log rf')" by auto
qed


section \<open>The rounds of heartbeats\<close>

fun heart_key :: "'c goroutine \<Rightarrow> (nat \<times> nat) option" where
  "heart_key (HeartReady r q) = Some (r, q)"
| "heart_key (HeartCalling r q args) = Some (r, q)"
| "heart_key (HeartReturned r q args reply) = Some (r, q)"
| "heart_key _ = None"

text \<open>
  A round captured a log length, which its leader's log still has, and a commit index below
  it; \<open>replCount\<close> counts the leader and servers whose goroutine has ended, and each of them
  has agreed with the leader on that many entries.
\<close>

definition counted :: "'c cluster \<Rightarrow> 'c proto \<Rightarrow> nat \<Rightarrow> nat list \<Rightarrow> bool" where
  "counted cl p r vs \<longleftrightarrow> distinct vs \<and> hr_replCount (rounds cl ! r) = int (length vs) \<and>
     (\<forall>v\<in>set vs. (v, hb_currentTerm (hr_hb (rounds cl ! r)), nat (hb_currentLogLen (hr_hb (rounds cl ! r)))) \<in> q_acks p \<and>
        Some (r, v) \<notin> heart_key ` set (threads cl))"

definition captured :: "nat \<Rightarrow> 'c proto \<Rightarrow> HeartbeatRound \<Rightarrow> bool" where
  "captured n p hb \<longleftrightarrow> hb_currentLogLen hb \<le> go_len (q_llog p (hb_currentTerm hb)) \<and>
     (hb_changeCommit hb \<longrightarrow> entry p (hb_currentTerm hb) (nat (hb_currentLogLen hb))) \<and>
     0 \<le> hb_currentCommitIndex hb \<and> hb_currentCommitIndex hb < hb_currentLogLen hb \<and>
     settled n p (hb_currentTerm hb) (q_llog p (hb_currentTerm hb)) (Suc (nat (hb_currentCommitIndex hb)))"

definition covers :: "'c AppendEntriesArgs \<Rightarrow> HeartbeatRound \<Rightarrow> bool" where
  "covers args hb \<longleftrightarrow> ae_LeaderCommit args = hb_currentCommitIndex hb \<and>
     hb_currentLogLen hb \<le> ae_PrevLogIndex args + 1 + go_len (ae_Entries args)"

fun heart_inv :: "'c cluster \<Rightarrow> 'c proto \<Rightarrow> 'c goroutine \<Rightarrow> bool" where
  "heart_inv cl p (HeartCalling r q args) = covers args (hr_hb (rounds cl ! r))"
| "heart_inv cl p (HeartReturned r q args reply) = (covers args (hr_hb (rounds cl ! r)) \<and>
     (aer_Success reply \<longrightarrow> (q, ae_Term args, nat (hb_currentLogLen (hr_hb (rounds cl ! r)))) \<in> q_acks p))"
| "heart_inv cl p _ = True"

definition kinv :: "nat \<Rightarrow> 'c cluster \<Rightarrow> 'c proto \<Rightarrow> bool" where
  "kinv n cl p \<longleftrightarrow> (\<forall>i<n. server_inv n p (servers cl ! i)) \<and>
     (\<forall>r<length (rounds cl). captured n p (hr_hb (rounds cl ! r)) \<and> (\<exists>vs. counted cl p r vs)) \<and>
     (\<forall>g\<in>set (threads cl). heart_inv cl p g) \<and> unique_keys heart_key (threads cl)"

lemma kinvD:
  assumes "kinv n cl p"
  shows "i < n \<Longrightarrow> server_inv n p (servers cl ! i)" and "r < length (rounds cl) \<Longrightarrow> captured n p (hr_hb (rounds cl ! r))"
    and "r < length (rounds cl) \<Longrightarrow> \<exists>vs. counted cl p r vs" and "k < length (threads cl) \<Longrightarrow> heart_inv cl p (threads cl ! k)"
    and "unique_keys heart_key (threads cl)"
  using assms by (auto simp: kinv_def)

lemma captured_grows:
  assumes g: "grows n p p'" and "captured n p hb"
  shows "captured n p' hb"
proof -
  let ?u = "hb_currentTerm hb" and ?j = "Suc (nat (hb_currentCommitIndex hb))"
  have s: "settled n p ?u (q_llog p ?u) ?j" and l: "hb_currentLogLen hb \<le> go_len (q_llog p ?u)" using assms(2) by (auto simp: captured_def)
  have j: "?j \<le> length (q_llog p ?u)" using s by (simp add: settled_def)
  have "settled n p' ?u (q_llog p' ?u) ?j"
    by (rule settled_cong[OF settled_grows[OF g s order_refl] grows_take(1)[OF g j]])
  moreover have "length (q_llog p ?u) \<le> length (q_llog p' ?u)" using growsD(2)[OF g] by (rule prefix_length_le)
  ultimately show ?thesis using assms(2) entry_grows[OF g] l by (auto simp: captured_def go_len_def)
qed

lemma counted_grows:
  assumes "grows n p p'" and "counted cl p r vs" and "rounds cl' ! r = rounds cl ! r"
    and "\<And>v g. g \<in> set (threads cl') \<Longrightarrow> heart_key g = Some (r, v) \<Longrightarrow> Some (r, v) \<in> heart_key ` set (threads cl)"
  shows "counted cl' p' r vs"
proof -
  have "Some (r, v) \<notin> heart_key ` set (threads cl')" if "v \<in> set vs" for v
    using assms(2,4) that unfolding counted_def by (metis image_iff)
  then show ?thesis using assms(2,3) growsD(3)[OF assms(1)] by (simp add: counted_def)
qed

lemma heart_inv_grows:
  assumes "grows n p p'" and "heart_inv cl p g" and "\<And>r q. heart_key g = Some (r, q) \<Longrightarrow> hr_hb (rounds cl' ! r) = hr_hb (rounds cl ! r)"
  shows "heart_inv cl' p' g"
  using assms growsD(3)[OF assms(1)] by (cases g) auto

text \<open>Steps that leave the rounds alone and start no goroutine for one.\<close>

lemma kinv_frame:
  assumes inv: "kinv n cl p" and g: "grows n p p'" and "\<And>i. i < n \<Longrightarrow> server_inv n p' (servers cl' ! i)" and r: "rounds cl' = rounds cl"
    and ts: "\<And>h. h \<in> set (threads cl') \<Longrightarrow> heart_key h \<noteq> None \<Longrightarrow>
        h \<in> set (threads cl) \<or> heart_inv cl' p' h \<and> heart_key h \<in> heart_key ` set (threads cl)"
    and u: "unique_keys heart_key (threads cl')"
  shows "kinv n cl' p'"
proof -
  have "\<exists>vs. counted cl' p' r vs" if r': "r < length (rounds cl)" for r
  proof -
    obtain vs where "counted cl p r vs" using kinvD(3)[OF inv r'] by blast
    moreover have "Some (r, v) \<in> heart_key ` set (threads cl)" if "h \<in> set (threads cl')" "heart_key h = Some (r, v)" for v h
      using ts[OF that(1)] that(2) by (metis imageI option.distinct(1))
    ultimately have "counted cl' p' r vs" using r by (intro counted_grows[OF g]) auto
    then show ?thesis by blast
  qed
  moreover have "heart_inv cl' p' h" if h: "h \<in> set (threads cl')" for h
  proof (cases "heart_key h")
    case None
    then show ?thesis by (cases h) auto
  next
    case (Some a)
    then consider "heart_inv cl' p' h" | "heart_inv cl p h" using ts[OF h] inv by (auto simp: kinv_def)
    then show ?thesis by cases (auto intro: heart_inv_grows[OF g] simp: r)
  qed
  ultimately show ?thesis using assms(3) captured_grows[OF g kinvD(2)[OF inv]] u by (simp add: kinv_def r)
qed

lemma set_server_inv:
  assumes inv: "kinv n cl p" and g: "grows n p p'" and "length (servers cl) = n" and "server_inv n p' rf'" and "i < n"
  shows "server_inv n p' (servers (set_server j rf' cl) ! i)"
  using assms server_inv_preserves[OF kinvD(1)[OF inv \<open>i < n\<close>] g preserves_refl]
  by (cases "i = j") (auto simp: set_server_def)


section \<open>Every step keeps it\<close>

text \<open>
  The facts at hand after a step: the invariant before it, the protocol state after it and
  that it has grown out of the one before.
\<close>

lemma rinv_servers: "rinv n cl p \<Longrightarrow> length (servers cl) = n"
  by (rule cinvD(1)[OF vinvD(1)[OF rinvD(1)]])

lemma rinv_peer: "rinv n cl p \<Longrightarrow> i < n \<Longrightarrow> peer_ok n i (servers cl ! i)"
  by (rule cinvD(3)[OF vinvD(1)[OF rinvD(1)]])


lemma kinv_server:
  assumes r: "rinv n cl p" and k: "kinv n cl p" and g: "grows n p p'" and rf: "preserves (servers cl ! i) rf'"
  shows "j < n \<Longrightarrow> server_inv n p' (servers (set_server i rf' cl) ! j)"
  using server_inv_preserves[OF kinvD(1)[OF k] g] preserves_refl rf rinv_servers[OF r]
  by (cases "j = i") (auto simp: set_server_def)

lemma kinv_move:
  assumes k: "kinv n cl p" and g: "grows n p p'" and "\<And>i. i < n \<Longrightarrow> server_inv n p' (servers cl' ! i)" and "rounds cl' = rounds cl"
    and t: "threads cl' = (threads cl)[m := h]" and h: "heart_key h = None \<or> m < length (threads cl) \<and> heart_key h = heart_key (threads cl ! m) \<and> heart_inv cl' p' h"
  shows "kinv n cl' p'"
proof (rule kinv_frame[OF k g assms(3,4)])
  show "a \<in> set (threads cl) \<or> heart_inv cl' p' a \<and> heart_key a \<in> heart_key ` set (threads cl)"
    if "a \<in> set (threads cl')" "heart_key a \<noteq> None" for a
    using that h set_update_subset_insert[of "threads cl" m h] by (auto simp: t)
  show "unique_keys heart_key (threads cl')" using h unfolding t by (intro unique_keys_update[OF kinvD(5)[OF k]]) auto
qed

lemma tick_kinv:
  assumes r: "rinv n cl p" and k: "kinv n cl p" and st: "tick i now rnd cl = Some (Inr cl')" and g: "grows n p p'"
  shows "kinv n cl' p'"
proof -
  obtain rf where e: "checkElection now rnd (servers cl ! i) = Some rf" and s: "servers cl' = servers (set_server i rf cl)"
    and f: "rounds cl' = rounds cl" "threads cl' = threads cl @ map (VoteReady (length (elections cl))) (other_peers rf)"
    using st by (auto simp: tick_def set_server_def split: if_splits option.splits)
  have "unique_keys heart_key (threads cl')" unfolding f by (rule unique_keys_append_other[OF kinvD(5)[OF k]]) auto
  then show ?thesis
    using kinv_server[OF r k g checkElection_preserves[OF e]] s f by (intro kinv_frame[OF k g]) auto
qed

lemma vote_build_kinv:
  assumes r: "rinv n cl p" and k: "kinv n cl p" and st: "vote_build m cl = Some (Inr cl')" and g: "grows n p p'"
  shows "kinv n cl' p'"
proof -
  obtain h where cl': "cl' = set_thread m h cl" "heart_key h = None"
    using st by (auto simp: vote_build_def go_simps split: if_splits goroutine.splits)
  then show ?thesis
    using server_inv_preserves[OF kinvD(1)[OF k] g preserves_refl] by (intro kinv_move[OF k g]) (auto simp: set_thread_def)
qed

lemma vote_deliver_kinv:
  assumes r: "rinv n cl p" and k: "kinv n cl p" and st: "vote_deliver m now cl = Some (Inr cl')" and g: "grows n p p'"
  shows "kinv n cl' p'"
proof -
  obtain e q args rf reply where m: "m < length (threads cl)" "threads cl ! m = VoteCalling e q args"
    and d: "RequestVote now args (servers cl ! q) = Inr (rf, reply)" and s: "servers cl' = servers (set_server q rf cl)"
    and f: "rounds cl' = rounds cl" "threads cl' = threads (set_thread m (VoteReturned e q args reply) cl)"
    using st by (auto simp: vote_deliver_def go_simps set_server_def set_thread_def split: if_splits goroutine.splits)
  have q: "q < n" using cinvD(6)[OF vinvD(1)[OF rinvD(1)[OF r]] m(1)] m(2) by simp
  note pr = RequestVote_preserves[OF peer_okD(5)[OF rinv_peer[OF r q]] d]
  show ?thesis
    using kinv_server[OF r k g pr] s f by (intro kinv_move[OF k g]) (auto simp: set_thread_def)
qed

lemma vote_lose_kinv:
  assumes r: "rinv n cl p" and k: "kinv n cl p" and st: "vote_lose m cl = Some (Inr cl')" and g: "grows n p p'"
  shows "kinv n cl' p'"
proof -
  have "cl' = set_thread m Finished cl" using st by (auto simp: vote_lose_def split: if_splits goroutine.splits)
  then show ?thesis
    using server_inv_preserves[OF kinvD(1)[OF k] g preserves_refl] by (intro kinv_move[OF k g]) (auto simp: set_thread_def)
qed


lemma vote_reply_kinv:
  assumes r: "rinv n cl p" and k: "kinv n cl p" and st: "vote_reply m now cl = Some (Inr cl')" and g: "grows n p p'"
  shows "kinv n cl' p'"
proof -
  obtain e q args reply where m: "m < length (threads cl)" "threads cl ! m = VoteReturned e q args reply"
    using st by (auto simp: vote_reply_def split: if_splits goroutine.splits)
  let ?s = "el_server (elections cl ! e)"
  obtain rf cnt where h: "handleVoteReply now args reply (servers cl ! ?s, el_grantedCnt (elections cl ! e)) = (rf, cnt)" by (metis surj_pair)
  show ?thesis
  proof (cases "election_live cl e")
    case False
    then have "cl' = set_thread m Finished cl" using st m by (simp add: vote_reply_def)
    then show ?thesis
      using server_inv_preserves[OF kinvD(1)[OF k] g preserves_refl] by (intro kinv_move[OF k g]) (auto simp: set_thread_def)
  next
    case True
    then have "servers cl' = servers (set_server ?s rf cl)" "rounds cl' = rounds cl" "threads cl' = (threads cl)[m := Finished]"
      using st m h by (auto simp: vote_reply_def Let_def set_thread_def set_server_def)
    then show ?thesis using kinv_server[OF r k g handleVoteReply_preserves[OF h]] by (intro kinv_move[OF k g]) auto
  qed
qed

text \<open>Sections of a server's own goroutines.\<close>

lemma kinv_own:
  assumes k: "kinv n cl p" and g: "grows n p p'" and len: "length (servers cl) = n" and rf: "server_inv n p' rf'"
    and "servers cl' = (servers cl)[i := rf']" and "rounds cl' = rounds cl" and "threads cl' = threads cl"
  shows "kinv n cl' p'"
proof (rule kinv_frame[OF k g _ assms(6)])
  show "server_inv n p' (servers cl' ! j)" if "j < n" for j
    using server_inv_preserves[OF kinvD(1)[OF k that] g preserves_refl] rf len that by (cases "j = i") (auto simp: assms(5))
qed (use kinvD(5)[OF k] assms(7) in auto)

lemma client_start_kinv:
  assumes r: "rinv n cl p" and k: "kinv n cl p" and st: "client_start i c cl = Some (Inr cl')" and g: "grows n p p'"
  shows "kinv n cl' p'"
proof -
  have i: "i < n" and cl': "cl' = set_server i (fst (Start c (servers cl ! i))) cl"
    using st rinv_servers[OF r] by (auto simp: client_start_def split: if_splits)
  note s = kinvD(1)[OF k i]
  show ?thesis
    by (rule kinv_own[OF k g rinv_servers[OF r] server_inv_preserves[OF s g Start_preserves[OF server_invD(1,5)[OF s]]]])
      (auto simp: cl' set_server_def)
qed

lemma apply_committed_kinv:
  assumes r: "rinv n cl p" and k: "kinv n cl p" and st: "apply_committed i cl = Some (Inr cl')" and g: "grows n p p'"
  shows "kinv n cl' p'"
proof -
  obtain rf where i: "i < n" and a: "checkApply (servers cl ! i) = Inr rf" and cl': "cl' = set_server i rf cl"
    using st rinv_servers[OF r] by (auto simp: apply_committed_def go_simps split: if_splits)
  have "server_inv n p' rf"
    by (rule server_inv_preserves[OF checkApply_server_inv[OF kinvD(1)[OF k i] a] g preserves_refl])
  then show ?thesis by (rule kinv_own[OF k g rinv_servers[OF r]]) (auto simp: cl' set_server_def)
qed

lemma restart_kinv:
  assumes r: "rinv n cl p" and k: "kinv n cl p" and st: "restart i now rnd cl = Some (Inr cl')" and g: "grows n p p'"
  shows "kinv n cl' p'"
proof -
  obtain rf where i: "i < n" and m: "Make n (int i) (start1_saved (rf_persister (servers cl ! i))) now rnd = Inr rf"
    and cl': "cl' = (set_server i rf cl)\<lparr>incs := (incs cl)[i := Suc (incs cl ! i)]\<rparr>"
    using st rinv_servers[OF r] by (auto simp: restart_def go_simps split: if_splits)
  have "server_inv n p' rf"
    by (rule server_inv_preserves[OF Make_server_inv[OF kinvD(1)[OF k i] peer_okD(2)[OF rinv_peer[OF r i]] m] g preserves_refl])
  then show ?thesis by (rule kinv_own[OF k g rinv_servers[OF r]]) (auto simp: cl' set_server_def)
qed


text \<open>The log a leader leads with is the log of its term.\<close>

lemma leader_log:
  assumes "rinv n cl p" and i: "i < n" and "rf_state (servers cl ! i) = LEADER"
  shows "q_llog p (rf_currentTerm (servers cl ! i)) = rf_log (servers cl ! i)"
  using elect_invD(5)[OF pinvD(1)[OF rinvD(2)[OF assms(1)]] i] assms(3) representsD[OF rinvD(3)[OF assms(1)] i] by simp

lemma rinv_ack:
  assumes r: "rinv n cl p" and i: "i < n" and u: "rf_currentTerm (servers cl ! i) = u" and "1 \<le> k" and "k \<le> length (q_llog p u)"
    and "k \<le> length (rf_log (servers cl ! i))" and "take k (rf_log (servers cl ! i)) = take k (q_llog p u)"
  shows "(i, u, k) \<in> q_acks p"
  using pinvD(3)[OF rinvD(2)[OF r]] representsD[OF rinvD(3)[OF r] i] assms by (auto simp: acks_inv_def agreeing_def)

lemma heart_key_bound: "heart_key h = Some (r, v) \<Longrightarrow> thread_inv n cl h \<Longrightarrow> r < length (rounds cl)"
  by (cases h) (auto simp: call_inv_def)

lemma beat_kinv:
  assumes r: "rinv n cl p" and k: "kinv n cl p" and st: "beat i cl = Some (Inr cl')" and g: "grows n p p'"
  shows "kinv n cl' p'"
proof -
  note ci = vinvD(1)[OF rinvD(1)[OF r]]
  have i: "i < n" using st rinv_servers[OF r] by (auto simp: beat_def split: if_splits)
  let ?rf = "servers cl ! i"
  note ok = rinv_peer[OF r i] and sv = kinvD(1)[OF k i]
  obtain h where h: "sendHeartbeat ?rf = Inr h" using st by (auto simp: beat_def go_simps split: if_splits)
  show ?thesis
  proof (cases h)
    case None
    then have "cl' = cl" using st h by (simp add: beat_def split: if_splits)
    then show ?thesis
      using server_inv_preserves[OF kinvD(1)[OF k] g preserves_refl] kinvD(5)[OF k] by (intro kinv_frame[OF k g]) auto
  next
    case (Some hb)
    let ?R = "length (rounds cl)" and ?gs = "map (HeartReady (length (rounds cl))) (rev (other_peers ?rf))"
    have cl': "rounds cl' = rounds cl @ [\<lparr>hr_server = i, hr_inc = incs cl ! i, hr_hb = hb, hr_replCount = 1\<rparr>]" "threads cl' = threads cl @ ?gs"
        "servers cl' = servers cl"
      using st h Some by (auto simp: beat_def split: if_splits)
    have hb: "rf_state ?rf = LEADER" "hb = \<lparr>hb_currentTerm = rf_currentTerm ?rf, hb_currentLogLen = go_len (rf_log ?rf),
          hb_changeCommit = (le_Term (last (rf_log ?rf)) = rf_currentTerm ?rf), hb_currentCommitIndex = rf_commitIndex ?rf\<rparr>"
      using h Some peer_okD(5)[OF ok] by (auto simp: sendHeartbeat_def Let_def split: if_splits)
    note ll = leader_log[OF r i hb(1)]
    have ne: "1 \<le> length (rf_log ?rf)" using peer_okD(5)[OF ok] by (simp add: Suc_le_eq)
    have cap: "captured n p hb"
      using server_invD(1,4,5)[OF sv] ne peer_okD(5)[OF ok] by (auto simp: captured_def hb(2) ll entry_def go_len_def last_conv_nth)
    have ack: "(i, rf_currentTerm ?rf, length (rf_log ?rf)) \<in> q_acks p" using ne by (intro rinv_ack[OF r i refl]) (auto simp: ll)
    have old: "r < ?R" if "h \<in> set (threads cl)" "heart_key h = Some (r, v)" for h r v
      using heart_key_bound[OF that(2), of n cl] that(1) ci by (simp add: cinv_def)
    have new: "heart_key h = Some (r, v) \<Longrightarrow> r = ?R \<and> v \<noteq> i" if "h \<in> set ?gs" for h r v
      using that peer_okD(4)[OF ok] by (auto simp: other_peers_def)
    have "\<exists>vs. counted cl' p' r vs" if r': "r < length (rounds cl')" for r
    proof (cases "r < ?R")
      case True
      obtain vs where vs: "counted cl p r vs" using kinvD(3)[OF k True] by blast
      have same: "rounds cl' ! r = rounds cl ! r" using True by (simp add: cl' nth_append)
      have "Some (r, v) \<in> heart_key ` set (threads cl)" if h: "h \<in> set (threads cl')" "heart_key h = Some (r, v)" for v h
      proof -
        have "h \<notin> set ?gs" using new[of h r v] h(2) True by auto
        then show ?thesis using h by (simp add: cl') (metis imageI)
      qed
      from counted_grows[OF g vs same this] have "counted cl' p' r vs" .
      then show ?thesis by blast
    next
      case False
      then have "r = ?R" using r' by (simp add: cl')
      moreover have "Some (?R, i) \<notin> heart_key ` set (threads cl')"
      proof
        assume "Some (?R, i) \<in> heart_key ` set (threads cl')"
        then obtain h where h: "heart_key h = Some (?R, i)" "h \<in> set (threads cl')" by (metis imageE)
        then show False using old[OF _ h(1)] new[OF _ h(1)] by (auto simp: cl')
      qed
      ultimately have "counted cl' p' r [i]" using growsD(3)[OF g ack] by (simp add: counted_def cl' hb(2) go_len_def)
      then show ?thesis by blast
    qed
    moreover have "captured n p' (hr_hb (rounds cl' ! r))" if "r < length (rounds cl')" for r
      using that captured_grows[OF g cap] captured_grows[OF g kinvD(2)[OF k]] by (auto simp: cl' nth_append less_Suc_eq)
    moreover have "heart_inv cl' p' h" if "h \<in> set (threads cl')" for h
    proof (cases "h \<in> set (threads cl)")
      case True
      then have "heart_inv cl p h" using k by (simp add: kinv_def)
      then show ?thesis using old[OF True] by (elim heart_inv_grows[OF g]) (auto simp: cl' nth_append)
    qed (use that in \<open>auto simp: cl'\<close>)
    moreover have "unique_keys heart_key (threads cl')"
    proof (unfold cl'(2), rule unique_keys_append[OF kinvD(5)[OF k]])
      show "unique_keys heart_key ?gs" by (rule unique_keys_map) (auto simp: other_peers_def inj_on_def)
      show "heart_key b \<noteq> Some c" if "a \<in> set (threads cl)" "b \<in> set ?gs" "heart_key a = Some c" for a b c
        using old[OF that(1), of "fst c" "snd c"] new[OF that(2), of "fst c" "snd c"] that(3) by auto
    qed
    moreover have "server_inv n p' (servers cl' ! j)" if "j < n" for j
      using server_inv_preserves[OF kinvD(1)[OF k that] g preserves_refl] by (simp add: cl')
    ultimately show ?thesis by (simp add: kinv_def)
  qed
qed


lemma heart_build_kinv:
  assumes r: "rinv n cl p" and k: "kinv n cl p" and st: "heart_build m cl = Some (Inr cl')" and g: "grows n p p'"
  shows "kinv n cl' p'"
proof -
  note ci = vinvD(1)[OF rinvD(1)[OF r]]
  obtain R q where m: "m < length (threads cl)" and t: "threads cl ! m = HeartReady R q"
    using st by (auto simp: heart_build_def split: if_splits goroutine.splits)
  have R: "R < length (rounds cl)" and q: "q < n" using cinvD(6)[OF ci m] t by auto
  let ?hr = "rounds cl ! R"
  let ?rf = "servers cl ! hr_server ?hr"
  have rd: "round_inv n cl ?hr" by (rule cinvD(5)[OF ci R])
  obtain h where cl': "cl' = set_thread m h cl" and h: "h = Finished \<or> (\<exists>args. h = HeartCalling R q args \<and> covers args (hr_hb ?hr))"
  proof (cases "round_live cl R \<and> rf_state ?rf = LEADER \<and> hb_currentTerm (hr_hb ?hr) = rf_currentTerm ?rf")
    case False
    then have "cl' = set_thread m Finished cl" using st m t by (auto simp: heart_build_def appendEntriesArgs_def split: if_splits)
    then show thesis by (auto intro: that)
  next
    case True
    have "leads (hr_hb ?hr) q ?rf ?rf"
      using True rd q rinv_peer[OF r, of "hr_server ?hr"] by (auto simp: leads_def round_inv_def round_live_def peer_okD log_matching_def)
    then obtain args where a: "appendEntriesArgs (hr_hb ?hr) q ?rf = Inr (Some args)" "covers args (hr_hb ?hr)"
      using appendEntriesArgs_carries unfolding covers_def by metis
    then have "cl' = set_thread m (HeartCalling R q args) cl" using st m t True by (simp add: heart_build_def)
    then show thesis using a(2) by (auto intro: that)
  qed
  then show ?thesis
    using m t server_inv_preserves[OF kinvD(1)[OF k] g preserves_refl]
    by (intro kinv_move[OF k g, where m = m and h = h]) (auto simp: set_thread_def)
qed

text \<open>A follower takes over the commit index of the round; if it accepts, it may be counted.\<close>

lemma heart_deliver_kinv:
  assumes r: "rinv n cl p" and k: "kinv n cl p" and st: "heart_deliver m now cl = Some (Inr cl')" and g: "grows n p p'" and r': "rinv n cl' p'"
  shows "kinv n cl' p'"
proof -
  note ci = vinvD(1)[OF rinvD(1)[OF r]] and pi = rinvD(2)[OF r]
  obtain R q args rf reply where m: "m < length (threads cl)" and t: "threads cl ! m = HeartCalling R q args"
    and d: "AppendEntries now args (servers cl ! q) = Inr (rf, reply)"
    and cl': "cl' = set_thread m (HeartReturned R q args reply) (set_server q rf cl)"
    using st by (auto simp: heart_deliver_def go_simps split: if_splits goroutine.splits)
  let ?u = "ae_Term args" and ?hb = "hr_hb (rounds cl ! R)"
  have R: "R < length (rounds cl)" and q: "q < n" and u: "?u = hb_currentTerm ?hb" using cinvD(6)[OF ci m] t by (auto simp: call_inv_def)
  have c: "carries args (q_llog p ?u)" using rinvD(5)[OF r m] t by simp
  have cov: "covers args ?hb" using kinvD(4)[OF k m] t by simp
  note cap = kinvD(2)[OF k R]
  have lead: "q_llog p ?u \<noteq> []" and prev: "0 \<le> ae_PrevLogIndex args" using c by (auto simp: carries_def)
  have lm: "log_matching (rf_log (servers cl ! q)) (q_llog p ?u)"
    using logs_invD(1)[OF pinvD(2)[OF pi] q] logs_invD(2)[OF pinvD(2)[OF pi] lead] representsD(3)[OF rinvD(3)[OF r] q]
    by (intro sourced_matching[of p]) (auto simp: log_good_def)
  have sv: "server_inv n p' rf"
    by (rule AppendEntries_server_inv[OF kinvD(1)[OF k q] pi g d c lm]) (use cap cov u in \<open>auto simp: captured_def covers_def\<close>)
  have rf: "servers cl' ! q = rf" using q rinv_servers[OF r] by (simp add: cl' set_thread_def set_server_def)
  have ack: "(q, ?u, nat (hb_currentLogLen ?hb)) \<in> q_acks p'" if "aer_Success reply"
  proof (rule rinv_ack[OF r' q])
    note a = AppendEntries_agrees[OF d that c lm]
    let ?k = "nat (hb_currentLogLen ?hb)" and ?K = "Suc (nat (ae_PrevLogIndex args)) + length (ae_Entries args)"
    have K: "?k \<le> ?K" using cov prev by (simp add: covers_def go_len_def nat_le_iff)
    have kl: "?k \<le> length (q_llog p ?u)" using cap u by (simp add: captured_def go_len_def nat_le_iff)
    show "rf_currentTerm (servers cl' ! q) = ?u" using a(1) rf by simp
    show "1 \<le> ?k" using cap by (simp add: captured_def le_nat_iff)
    show "?k \<le> length (q_llog p' ?u)" by (rule grows_take(2)[OF g kl])
    show "?k \<le> length (rf_log (servers cl' ! q))" using K a(3) rf by simp
    show "take ?k (rf_log (servers cl' ! q)) = take ?k (q_llog p' ?u)"
      using take_eq_mono[OF a(2) K] grows_take(1)[OF g kl] rf by simp
  qed
  show ?thesis
  proof (rule kinv_move[OF k g, where m = m and h = "HeartReturned R q args reply"])
    show "server_inv n p' (servers cl' ! j)" if "j < n" for j
      using server_inv_preserves[OF kinvD(1)[OF k that] g preserves_refl] sv rf that
      by (cases "j = q") (auto simp: cl' set_thread_def set_server_def)
  qed (use m t cov ack in \<open>auto simp: cl' set_thread_def set_server_def\<close>)
qed

lemma handleAppendReply_counts:
  assumes "handleAppendReply hb i args ok reply (rf, cnt) = Inr ((rf', cnt'), ex)"
  shows "cnt' = cnt \<and> preserves rf rf' \<or>
    cnt' = cnt + 1 \<and> ex = Return \<and> ok \<and> aer_Success reply \<and> rf_state rf = LEADER \<and> hb_currentTerm hb = rf_currentTerm rf \<and>
    preserves rf (rf'\<lparr>rf_commitIndex := rf_commitIndex rf\<rparr>) \<and> rf_log rf' = rf_log rf \<and> rf_currentTerm rf' = rf_currentTerm rf \<and>
    (rf_commitIndex rf' = rf_commitIndex rf \<or>
     rf_commitIndex rf' = hb_currentLogLen hb - 1 \<and> hb_changeCommit hb \<and> 2 * cnt' > int (rf_peers rf) \<and> rf_commitIndex rf < hb_currentLogLen hb - 1)"
  using assms by (auto simp: handleAppendReply_def Let_def go_simps preserves_def split: if_splits)


text \<open>The heart of the argument: a round that passes the test has had a majority agree on an entry of its own term.\<close>

lemma counted_chosen:
  assumes "captured n p (hr_hb (rounds cl ! r))" and "counted cl p r vs" and "hb_changeCommit (hr_hb (rounds cl ! r))" and "acks_inv n p"
    and "2 * hr_replCount (rounds cl ! r) > int n"
  shows "chosen n p (hb_currentTerm (hr_hb (rounds cl ! r))) (nat (hb_currentLogLen (hr_hb (rounds cl ! r))))"
proof -
  have "set vs \<subseteq> {..<n}" using assms(2) acks_invD(1)[OF assms(4)] by (auto simp: counted_def)
  then have "majority n (set vs)" using assms(2,5) by (intro majority_of_count) (auto simp: counted_def)
  then show ?thesis using assms(1-3) by (auto simp: chosen_def captured_def counted_def)
qed

lemma raised_commit:
  assumes "server_inv n p (rf\<lparr>rf_commitIndex := c\<rparr>)" and "c \<le> rf_commitIndex rf" and "chosen n p (rf_currentTerm rf) (Suc (nat (rf_commitIndex rf)))"
    and "Suc (nat (rf_commitIndex rf)) \<le> length (rf_log rf)"
    and "take (Suc (nat (rf_commitIndex rf))) (rf_log rf) = take (Suc (nat (rf_commitIndex rf))) (q_llog p (rf_currentTerm rf))"
  shows "server_inv n p rf"
proof -
  have "settled n p (rf_currentTerm rf) (rf_log rf) (Suc (nat (rf_commitIndex rf)))" using assms(3-5) unfolding settled_def by blast
  then have "server_inv n p ((rf\<lparr>rf_commitIndex := c\<rparr>)\<lparr>rf_commitIndex := rf_commitIndex rf\<rparr>)"
    using assms(2) by (intro server_inv_commit[OF assms(1)]) auto
  then show ?thesis by simp
qed

text \<open>The goroutine of a peer ends with its peer counted.\<close>

lemma counted_one_more:
  assumes k: "kinv n cl p" and g: "grows n p p'" and m: "m < length (threads cl)" and key: "heart_key (threads cl ! m) = Some (R, q)"
    and R: "R < length (rounds cl)" and ts: "threads cl' = (threads cl)[m := Finished]"
    and rs: "rounds cl' = (rounds cl)[R := (rounds cl ! R)\<lparr>hr_replCount := hr_replCount (rounds cl ! R) + 1\<rparr>]"
    and ack: "(q, hb_currentTerm (hr_hb (rounds cl ! R)), nat (hb_currentLogLen (hr_hb (rounds cl ! R)))) \<in> q_acks p"
    and i: "i < length (rounds cl)"
  shows "\<exists>vs. counted cl' p' i vs"
proof -
  have old: "Some (j, v) \<in> heart_key ` set (threads cl) \<and> (j, v) \<noteq> (R, q)" if h: "h \<in> set (threads cl')" "heart_key h = Some (j, v)" for h j v
  proof -
    obtain x where x0: "x < length (threads cl)" "(threads cl)[m := Finished] ! x = h" using h(1) by (auto simp: ts in_set_conv_nth)
    have x: "x < length (threads cl)" "x \<noteq> m" "threads cl ! x = h" using x0 h(2) by (cases "x = m"; auto)+
    then have "(j, v) \<noteq> (R, q)" using unique_keysD[OF kinvD(5)[OF k] m x(1) key] h(2) by auto
    then show ?thesis using x h(2) nth_mem[OF x(1)] by (metis imageI)
  qed
  obtain vs where vs: "counted cl p i vs" using kinvD(3)[OF k i] by blast
  show ?thesis
  proof (cases "i = R")
    case False
    have "counted cl' p' i vs"
      by (rule counted_grows[OF g vs]) (use False old in \<open>auto simp: rs\<close>)
    then show ?thesis by blast
  next
    case True
    have "q \<notin> set vs" using vs key nth_mem[OF m] True unfolding counted_def by (metis imageI)
    moreover have "Some (R, v) \<notin> heart_key ` set (threads cl')" if v: "v \<in> set (q # vs)" for v
    proof
      assume "Some (R, v) \<in> heart_key ` set (threads cl')"
      then obtain h where "h \<in> set (threads cl')" "heart_key h = Some (R, v)" by (metis imageE)
      from old[OF this] show False using vs v True by (auto simp: counted_def)
    qed
    ultimately have "counted cl' p' R (q # vs)" using vs ack growsD(3)[OF g] R True by (auto simp: counted_def rs)
    then show ?thesis using True by blast
  qed
qed

lemma kinv_counted:
  assumes k: "kinv n cl p" and g: "grows n p p'" and m: "m < length (threads cl)" and key: "heart_key (threads cl ! m) = Some (R, q)"
    and R: "R < length (rounds cl)" and ts: "threads cl' = (threads cl)[m := Finished]"
    and rs: "rounds cl' = (rounds cl)[R := (rounds cl ! R)\<lparr>hr_replCount := hr_replCount (rounds cl ! R) + 1\<rparr>]"
    and ack: "(q, hb_currentTerm (hr_hb (rounds cl ! R)), nat (hb_currentLogLen (hr_hb (rounds cl ! R)))) \<in> q_acks p"
    and sv: "\<And>i. i < n \<Longrightarrow> server_inv n p' (servers cl' ! i)"
  shows "kinv n cl' p'"
proof -
  have hb: "hr_hb (rounds cl' ! i) = hr_hb (rounds cl ! i)" for i using R by (cases "i = R") (auto simp: rs)
  have "heart_inv cl' p' h" if h: "h \<in> set (threads cl')" for h
  proof (cases "h \<in> set (threads cl)")
    case True
    then show ?thesis using k by (intro heart_inv_grows[OF g]) (auto simp: kinv_def hb)
  qed (use h set_update_subset_insert[of "threads cl" m Finished] in \<open>auto simp: ts\<close>)
  moreover have "unique_keys heart_key (threads cl')" unfolding ts by (rule unique_keys_update[OF kinvD(5)[OF k]]) simp
  moreover have "captured n p' (hr_hb (rounds cl' ! i)) \<and> (\<exists>vs. counted cl' p' i vs)" if "i < length (rounds cl')" for i
    using that captured_grows[OF g kinvD(2)[OF k]] counted_one_more[OF k g m key R ts rs ack] unfolding hb by (simp add: rs)
  ultimately show ?thesis using sv by (simp add: kinv_def)
qed

lemma heart_finish_kinv:
  assumes r: "rinv n cl p" and k: "kinv n cl p" and g: "grows n p p'" and r': "rinv n cl' p'" and m: "m < length (threads cl)"
    and key: "heart_key (threads cl ! m) = Some (R, q)" and R: "R < length (rounds cl)"
    and ack: "ok \<Longrightarrow> aer_Success reply \<Longrightarrow> (q, hb_currentTerm (hr_hb (rounds cl ! R)), nat (hb_currentLogLen (hr_hb (rounds cl ! R)))) \<in> q_acks p"
    and st: "heart_finish m R q args ok reply cl = Inr cl'"
  shows "kinv n cl' p'"
proof (cases "round_live cl R")
  case False
  then have "cl' = set_thread m Finished cl" using st by (simp add: heart_finish_def)
  then show ?thesis
    using server_inv_preserves[OF kinvD(1)[OF k] g preserves_refl] by (intro kinv_move[OF k g]) (auto simp: set_thread_def)
next
  case True
  let ?hr = "rounds cl ! R"
  let ?hb = "hr_hb ?hr" and ?s = "hr_server ?hr"
  let ?rf = "servers cl ! ?s" and ?u = "hb_currentTerm ?hb"
  obtain rf cnt ex where h: "handleAppendReply ?hb q args ok reply (?rf, hr_replCount ?hr) = Inr ((rf, cnt), ex)"
    and cl': "cl' = (set_thread m (case ex of Return \<Rightarrow> Finished | Again \<Rightarrow> HeartReady R q) (set_server ?s rf cl))
        \<lparr>rounds := (rounds cl)[R := ?hr\<lparr>hr_replCount := cnt\<rparr>]\<rparr>"
    using st True by (auto simp: heart_finish_def Let_def go_simps)
  have s: "?s < n" using cinvD(5)[OF vinvD(1)[OF rinvD(1)[OF r]] R] by (simp add: round_inv_def)
  have sv: "servers cl' = servers (set_server ?s rf cl)" by (simp add: cl' set_thread_def)
  show ?thesis
  proof (cases "cnt = hr_replCount ?hr \<and> preserves ?rf rf")
    case True
    then have "rounds cl' = rounds cl" "preserves ?rf rf" by (auto simp: cl')
    then show ?thesis
      using m key kinv_server[OF r k g] sv
      by (intro kinv_move[OF k g, where m = m and h = "case ex of Return \<Rightarrow> Finished | Again \<Rightarrow> HeartReady R q"])
        (auto simp: cl' set_thread_def set_server_def split: loop_exit.splits)
  next
    case False
    then have a: "cnt = hr_replCount ?hr + 1" "ex = Return" "ok" "aer_Success reply" "rf_state ?rf = LEADER" "?u = rf_currentTerm ?rf"
        "preserves ?rf (rf\<lparr>rf_commitIndex := rf_commitIndex ?rf\<rparr>)" "rf_log rf = rf_log ?rf" "rf_currentTerm rf = rf_currentTerm ?rf"
      and c: "rf_commitIndex rf = rf_commitIndex ?rf \<or> rf_commitIndex rf = hb_currentLogLen ?hb - 1 \<and> hb_changeCommit ?hb \<and>
         2 * cnt > int n \<and> rf_commitIndex ?rf < hb_currentLogLen ?hb - 1"
      using handleAppendReply_counts[OF h] peer_okD(3)[OF rinv_peer[OF r s]] by auto
    note rest = k g m key R
    have ts: "threads cl' = (threads cl)[m := Finished]" and rs: "rounds cl' = (rounds cl)[R := ?hr\<lparr>hr_replCount := hr_replCount ?hr + 1\<rparr>]"
      using a(1,2) by (auto simp: cl' set_thread_def set_server_def)
    have rf0: "server_inv n p' (rf\<lparr>rf_commitIndex := rf_commitIndex ?rf\<rparr>)" by (rule server_inv_preserves[OF kinvD(1)[OF k s] g a(7)])
    have "server_inv n p' rf"
    proof (cases "rf_commitIndex rf = rf_commitIndex ?rf")
      case True
      then have "rf\<lparr>rf_commitIndex := rf_commitIndex ?rf\<rparr> = rf" by (cases rf) simp
      then show ?thesis using rf0 by simp
    next
      case False
      then have j: "Suc (nat (rf_commitIndex rf)) = nat (hb_currentLogLen ?hb)" and le: "rf_commitIndex ?rf \<le> rf_commitIndex rf"
        using c server_invD(1)[OF kinvD(1)[OF k s]] by auto
      obtain vs where "counted cl' p' R vs" using counted_one_more[OF rest ts rs ack[OF a(3,4)] R] by blast
      then have ch: "chosen n p' ?u (nat (hb_currentLogLen ?hb))"
        using counted_chosen[of n p' cl' R] captured_grows[OF g kinvD(2)[OF k R]] c False a(1) pinvD(3)[OF rinvD(2)[OF r']] R by (simp add: rs)
      have kl: "nat (hb_currentLogLen ?hb) \<le> length (q_llog p ?u)"
        using kinvD(2)[OF k R] by (simp add: captured_def go_len_def nat_le_iff)
      show ?thesis
        by (rule raised_commit[OF rf0 le]) (use ch kl grows_take(1)[OF g kl] leader_log[OF r s a(5)] a in \<open>simp_all add: j\<close>)
    qed
    then show ?thesis
      using set_server_inv[OF k g rinv_servers[OF r]] by (intro kinv_counted[OF rest ts rs ack[OF a(3,4)]]) (simp add: sv)
  qed
qed


lemma heart_reply_kinv:
  assumes r: "rinv n cl p" and k: "kinv n cl p" and st: "heart_reply m cl = Some (Inr cl')" and g: "grows n p p'" and r': "rinv n cl' p'"
  shows "kinv n cl' p'"
proof -
  obtain R q args reply where m: "m < length (threads cl)" and t: "threads cl ! m = HeartReturned R q args reply"
    and h: "heart_finish m R q args True reply cl = Inr cl'"
    using st by (auto simp: heart_reply_def split: if_splits goroutine.splits)
  have "R < length (rounds cl)" "ae_Term args = hb_currentTerm (hr_hb (rounds cl ! R))"
    using cinvD(6)[OF vinvD(1)[OF rinvD(1)[OF r]] m] t by (auto simp: call_inv_def)
  then show ?thesis using kinvD(4)[OF k m] t by (intro heart_finish_kinv[OF r k g r' m _ _ _ h]) auto
qed

lemma heart_lose_kinv:
  assumes r: "rinv n cl p" and k: "kinv n cl p" and st: "heart_lose m cl = Some (Inr cl')" and g: "grows n p p'" and r': "rinv n cl' p'"
  shows "kinv n cl' p'"
proof -
  obtain R q args where m: "m < length (threads cl)" and t: "heart_key (threads cl ! m) = Some (R, q)"
    and h: "heart_finish m R q args False AppendEntriesReply0 cl = Inr cl'"
    using st by (auto simp: heart_lose_def split: if_splits goroutine.splits)
  have "R < length (rounds cl)" by (rule heart_key_bound[OF t cinvD(6)[OF vinvD(1)[OF rinvD(1)[OF r]] m]])
  then show ?thesis by (intro heart_finish_kinv[OF r k g r' m t _ _ h]) auto
qed

lemmas step_kinv =
  tick_kinv vote_build_kinv vote_deliver_kinv vote_lose_kinv vote_reply_kinv beat_kinv heart_build_kinv
  heart_deliver_kinv heart_reply_kinv heart_lose_kinv client_start_kinv apply_committed_kinv restart_kinv

section \<open>Runs\<close>

text \<open>The state of the protocol and of the commits along a run, which only grows.\<close>

definition agreed :: "nat \<Rightarrow> 'c cluster \<Rightarrow> 'c proto \<Rightarrow> bool" where
  "agreed n cl p \<longleftrightarrow> rinv n cl p \<and> kinv n cl p"

lemma cstep_agreed:
  assumes "agreed n cl p" and "prompt cl a" and st: "cstep a cl = Some (Inr cl')"
  shows "\<exists>p'. agreed n cl' p' \<and> grows n p p'"
proof -
  have rk: "rinv n cl p" "kinv n cl p" using assms(1) by (auto simp: agreed_def)
  obtain p' where p': "rinv n cl' p'" "grows n p p'" using cstep_simulates[OF rk(1) assms(2,3)] by (auto simp: simulates_def)
  have "kinv n cl' p'" using st p' rk by (cases a) (auto intro: step_kinv)
  then show ?thesis using p' by (auto simp: agreed_def)
qed

lemma fresh_agreed:
  assumes len: "length rfs = n" and mk: "\<forall>i<n. \<exists>now rnd. Make n (int i) MakePersister now rnd = Inr (rfs ! i)"
  shows "agreed n (fresh_cluster rfs) (proto_init n)"
proof -
  have "server_inv n (proto_init n) (rfs ! i)" if i: "i < n" for i
  proof -
    obtain now rnd where m: "Make n (int i) MakePersister now rnd = Inr (rfs ! i)" using mk i by blast
    have "majority n {..<n}" using i by (simp add: majority_def)
    then have "chosen n (proto_init n) 0 1"
      by (auto simp: chosen_def entry_def proto_init_def agreeing_def sentinel_def)
    then have "settled n (proto_init n) 0 [sentinel] (Suc 0)"
      unfolding settled_def by (intro conjI exI[of _ 0] exI[of _ 1]) (auto simp: proto_init_def)
    then have "server_inv n (proto_init n) rf" if "Make n (int i) MakePersister now rnd = Inr rf" for rf :: "'a Raft"
      using that by (auto simp: Make_fresh server_inv_def applied_def sentinel_def)
    from this[OF m] show ?thesis .
  qed
  then have "kinv n (fresh_cluster rfs) (proto_init n)" by (simp add: kinv_def fresh_cluster_def unique_keys_def)
  then show ?thesis using fresh_rinv[OF len mk] by (simp add: agreed_def)
qed

lemma creach_agreed: "creach prompt n cl \<Longrightarrow> \<exists>p. agreed n cl p"
proof (induction rule: creach.induct)
  case (boot rfs)
  then show ?case using fresh_agreed by blast
next
  case (step cl a cl')
  then show ?case using cstep_agreed by blast
qed

text \<open>What is settled stays so.\<close>

lemma crun_agreed:
  "crun prompt as cl = Some cl' \<Longrightarrow> agreed n cl p \<Longrightarrow>
   \<exists>p'. agreed n cl' p' \<and> (\<forall>u lg j. settled n p u lg j \<longrightarrow> settled n p' u lg j)"
proof (induction as arbitrary: cl p)
  case (Cons a as)
  obtain cl1 where c: "prompt cl a" "cstep a cl = Some (Inr cl1)" "crun prompt as cl1 = Some cl'"
    using Cons.prems(1) by (auto split: if_splits option.splits sum.splits)
  obtain p1 where p1: "agreed n cl1 p1" "grows n p p1" using cstep_agreed[OF Cons.prems(2) c(1,2)] by blast
  obtain p' where p': "agreed n cl' p'" "\<forall>u lg j. settled n p1 u lg j \<longrightarrow> settled n p' u lg j" using Cons.IH[OF c(3) p1(1)] by blast
  then show ?case using settled_grows[OF p1(2) _ order_refl] by blast
qed auto

text \<open>Servers whose commits are settled in the same protocol state agree on them.\<close>

lemma settled_commits_agree:
  assumes p: "pinv n p" and a: "settled n p u1 l1 (Suc (nat c1))" and b: "settled n p u2 l2 (Suc (nat c2))" and "j \<le> c1" and "j \<le> c2"
  shows "take (Suc (nat j)) l1 = take (Suc (nat j)) l2"
  using assms(4,5) by (intro settled_agree[OF p settled_smaller[OF a] settled_smaller[OF b]]) auto

lemma agreed_channels:
  assumes "agreed n cl p" and "agreed n cl' p'" and later: "\<forall>u lg j. settled n p u lg j \<longrightarrow> settled n p' u lg j" and i: "i < n" and j: "j < n"
  shows "prefix (rf_applyCh (servers cl ! i)) (rf_applyCh (servers cl' ! j)) \<or> prefix (rf_applyCh (servers cl' ! j)) (rf_applyCh (servers cl ! i))"
proof -
  let ?a = "servers cl ! i" and ?b = "servers cl' ! j"
  have si: "server_inv n p ?a" and sj: "server_inv n p' ?b" and pi: "pinv n p'"
    using assms(1,2) i j by (auto simp: agreed_def kinv_def rinv_def)
  let ?m = "min (rf_lastApplied ?a) (rf_lastApplied ?b)"
  have "take (Suc (nat ?m)) (rf_log ?a) = take (Suc (nat ?m)) (rf_log ?b)"
    using later server_invD(3,4)[OF si] server_invD(3,4)[OF sj]
    by (intro settled_commits_agree[OF pi, of "rf_currentTerm ?a" _ "rf_commitIndex ?a" "rf_currentTerm ?b" _ "rf_commitIndex ?b"]) auto
  then have same: "applied (rf_log ?a) ?m = applied (rf_log ?b) ?m" by (rule applied_cong) simp
  show ?thesis
    unfolding server_invD(6)[OF si] server_invD(6)[OF sj]
    using same applied_prefix[of "rf_lastApplied ?a" "rf_lastApplied ?b" "rf_log ?b"] applied_prefix[of "rf_lastApplied ?b" "rf_lastApplied ?a" "rf_log ?a"]
    by (cases "rf_lastApplied ?a \<le> rf_lastApplied ?b") (auto simp: min_def)
qed

end
