(* ===== verification/Raft_Agreement.thy ===== *)
theory Raft_Agreement
  imports Raft_Commit
begin

text \<open>
  What the cluster promises to the service above it, for every run in which vote requests
  are built in their election's term: the protocol it refines, that its logs match, that no
  committed entry is lost, that all servers apply the same commands, and that nothing
  panics. The runs below are the witnesses: server 0 of three is elected, replicates one
  command to server 1, commits and applies it; afterwards server 1 learns of the commit.
\<close>

section \<open>A run\<close>

definition commit_run :: "'c \<Rightarrow> 'c action list" where
  "commit_run c = [Tick 0 1000000000 0, VoteBuild 0, VoteDeliver 0 1000000000, VoteReply 0 1000000000,
     ClientStart 0 c, Beat 0, HeartBuild 2, HeartDeliver 2 1100000000, HeartReply 2, ApplyCommitted 0]"

definition spread_run :: "'c action list" where
  "spread_run = [Beat 0, HeartBuild 4, HeartDeliver 4 1200000000, ApplyCommitted 1]"

definition committed :: "nat cluster" where
  "committed = the (crun prompt (commit_run 7) (boot_cluster 3))"

definition spread :: "nat cluster" where
  "spread = the (crun prompt spread_run committed)"

lemma committed_reachable: "creach prompt 3 committed"
proof -
  have "crun prompt (commit_run 7) (boot_cluster 3) \<noteq> None" by code_simp
  then show ?thesis unfolding committed_def by (metis crun_creach[OF boot_creach] option.exhaust_sel)
qed

lemma spread_follows: "crun prompt spread_run committed = Some spread"
proof -
  have "crun prompt spread_run committed \<noteq> None" by code_simp
  then show ?thesis unfolding spread_def by simp
qed

section \<open>Refinement of the protocol\<close>

text \<open>
  C3. Refinement. Every cluster that can be reached when vote requests are built in their
  election's term, with any loss, delay, reordering and restart, shows the terms, roles,
  logs, votes and leaders of a state that the abstract protocol reaches by its six rules:
  stand, vote, win, extend, accept and settle.
\<close>

theorem cluster_refines_protocol:
  assumes "creach prompt n cl"
  shows "\<exists>p. (pstep n)\<^sup>*\<^sup>* (proto_init n) p \<and>
     (\<forall>i<n. q_term p i = rf_currentTerm (servers cl ! i) \<and> q_role p i = role_of (rf_state (servers cl ! i)) \<and> q_log p i = rf_log (servers cl ! i)) \<and>
     q_votes p = vote_of ` set (h_votes cl) \<and> q_led p = set (h_leaders cl)"
  using creach_protocol[OF assms] unfolding rinv_def represents_def same_server_def by blast

theorem cluster_refines_protocol_witness:
  "creach prompt 3 committed \<and> (\<exists>p :: nat proto. (pstep 3)\<^sup>*\<^sup>* (proto_init 3) p \<and> q_role p 0 = Leads \<and> q_term p 0 = 1 \<and> length (q_log p 1) = 2)"
proof -
  have c: "rf_state (servers committed ! 0) = LEADER" "rf_currentTerm (servers committed ! 0) = 1" "length (rf_log (servers committed ! 1)) = 2"
    by code_simp+
  obtain p where r: "(pstep 3)\<^sup>*\<^sup>* (proto_init 3) p" and
    p: "\<forall>i<3. q_term p i = rf_currentTerm (servers committed ! i) \<and> q_role p i = role_of (rf_state (servers committed ! i)) \<and> q_log p i = rf_log (servers committed ! i)"
    using cluster_refines_protocol[OF committed_reachable] by blast
  have "q_role p 0 = Leads" "q_term p 0 = 1" using p[rule_format, of 0] c(1,2) by simp_all
  moreover have "length (q_log p 1) = 2" using p[rule_format, of 1] c(3) by simp
  ultimately show ?thesis by (intro conjI exI[of _ p] r committed_reachable)
qed

section \<open>Logs and commits\<close>

text \<open>
  C5. Log matching. In every cluster that can be reached when vote requests are built in
  their election's term, if the logs of two servers have entries of the same term at the
  same index, they are equal up to and including that entry. (Two leaders of one term, which
  other schedules allow, could append different entries of that term at one index.)
\<close>

theorem logs_match:
  assumes "creach prompt n cl" and "i < n" and "j < n" and "k < length (rf_log (servers cl ! i))" and "k < length (rf_log (servers cl ! j))"
    and "le_Term (rf_log (servers cl ! i) ! k) = le_Term (rf_log (servers cl ! j) ! k)"
  shows "take (Suc k) (rf_log (servers cl ! i)) = take (Suc k) (rf_log (servers cl ! j))"
proof -
  obtain p where p: "rinv n cl p" using creach_rinv[OF assms(1)] by blast
  have "sourced p (rf_log (servers cl ! v))" if "v < n" for v
    using logs_invD(1)[OF pinvD(2)[OF rinvD(2)[OF p]] that] representsD(3)[OF rinvD(3)[OF p] that] by (simp add: log_good_def)
  then have "log_matching (rf_log (servers cl ! i)) (rf_log (servers cl ! j))" using assms(2,3) by (intro sourced_matching[of p])
  then show ?thesis using assms(4-6) by (simp add: log_matching_def)
qed

theorem logs_match_witness:
  "take 2 (rf_log (servers committed ! 0)) = take 2 (rf_log (servers committed ! 1)) \<and> length (rf_log (servers committed ! 1)) = 2"
proof -
  have l: "length (rf_log (servers committed ! 0)) = 2" "length (rf_log (servers committed ! 1)) = 2"
    and t: "le_Term (rf_log (servers committed ! 0) ! 1) = le_Term (rf_log (servers committed ! 1) ! 1)" by code_simp+
  have "take (Suc 1) (rf_log (servers committed ! 0)) = take (Suc 1) (rf_log (servers committed ! 1))"
    by (rule logs_match[OF committed_reachable]) (use l t in simp_all)
  then show ?thesis using l(2) by (simp add: numeral_2_eq_2)
qed

text \<open>
  C4. Leader completeness. In a run in which vote requests are built in their election's
  term, what a server has committed at some moment is in the log of every server that leads
  the same or a later term at that or any later moment. (With the two leaders of one term
  that other schedules give, each could commit an entry of its own.)
\<close>

theorem leader_completeness:
  assumes "creach prompt n cl" and "crun prompt as cl = Some cl'" and "i < n" and "l < n"
    and "rf_state (servers cl' ! l) = LEADER" and "rf_currentTerm (servers cl ! i) \<le> rf_currentTerm (servers cl' ! l)"
  shows "take (nat (rf_commitIndex (servers cl ! i) + 1)) (rf_log (servers cl' ! l)) = take (nat (rf_commitIndex (servers cl ! i) + 1)) (rf_log (servers cl ! i))"
proof -
  obtain p where p: "agreed n cl p" using creach_agreed[OF assms(1)] by blast
  obtain p' where p': "agreed n cl' p'" "\<forall>u lg j. settled n p u lg j \<longrightarrow> settled n p' u lg j" using crun_agreed[OF assms(2) p] by blast
  have si: "server_inv n p (servers cl ! i)" using p assms(3) by (simp add: agreed_def kinv_def)
  have r: "rinv n cl' p'" using p'(1) by (simp add: agreed_def)
  have "settled n p' (rf_currentTerm (servers cl ! i)) (rf_log (servers cl ! i)) (Suc (nat (rf_commitIndex (servers cl ! i))))"
    using p'(2) server_invD(4)[OF si] by blast
  then have "settled n p' (rf_currentTerm (servers cl' ! l)) (rf_log (servers cl ! i)) (Suc (nat (rf_commitIndex (servers cl ! i))))"
    by (rule settled_grows[OF grows_refl _ assms(6)])
  from settled_in_leader[OF rinvD(2)[OF r] this] show ?thesis
    using leader_log[OF r assms(4,5)] peer_okD(5)[OF rinv_peer[OF r assms(4)]] server_invD(1)[OF si] by (simp add: nat_add_distrib)
qed

theorem leader_completeness_witness:
  "rf_commitIndex (servers committed ! 0) = 1 \<and>
   take 2 (rf_log (servers spread ! 0)) = take 2 (rf_log (servers committed ! 0))"
proof -
  have c: "rf_commitIndex (servers committed ! 0) = 1" "rf_state (servers spread ! 0) = LEADER"
    "rf_currentTerm (servers committed ! 0) \<le> rf_currentTerm (servers spread ! 0)" by code_simp+
  have "take (nat (rf_commitIndex (servers committed ! 0) + 1)) (rf_log (servers spread ! 0)) =
      take (nat (rf_commitIndex (servers committed ! 0) + 1)) (rf_log (servers committed ! 0))"
    by (rule leader_completeness[OF committed_reachable spread_follows _ _ c(2,3)]) simp_all
  then show ?thesis using c(1) by simp
qed

text \<open>
  C1. State machine safety. At any two moments of a run in which vote requests are built in
  their election's term, and for any two servers, what one has sent up its apply channel is
  a prefix of what the other has sent, or the other way round: all servers apply the same
  commands at the same indices, whatever is lost, delayed, reordered or restarted.
\<close>

theorem state_machine_safety:
  assumes "creach prompt n cl" and "crun prompt as cl = Some cl'" and "i < n" and "j < n"
  shows "prefix (rf_applyCh (servers cl ! i)) (rf_applyCh (servers cl' ! j)) \<or>
     prefix (rf_applyCh (servers cl' ! j)) (rf_applyCh (servers cl ! i))"
proof -
  obtain p where p: "agreed n cl p" using creach_agreed[OF assms(1)] by blast
  obtain p' where "agreed n cl' p'" "\<forall>u lg j. settled n p u lg j \<longrightarrow> settled n p' u lg j" using crun_agreed[OF assms(2) p] by blast
  from agreed_channels[OF p this assms(3,4)] show ?thesis .
qed

theorem state_machine_safety_witness:
  "map am_Command (rf_applyCh (servers committed ! 0)) = [Some 7] \<and> rf_applyCh (servers spread ! 1) = rf_applyCh (servers committed ! 0)"
proof -
  have a: "map am_Command (rf_applyCh (servers committed ! 0)) = [Some 7]" "length (rf_applyCh (servers committed ! 0)) = length (rf_applyCh (servers spread ! 1))"
    by code_simp+
  have "prefix (rf_applyCh (servers committed ! 0)) (rf_applyCh (servers spread ! 1)) \<or>
     prefix (rf_applyCh (servers spread ! 1)) (rf_applyCh (servers committed ! 0))"
    by (rule state_machine_safety[OF committed_reachable spread_follows]) simp_all
  then show ?thesis using a by (metis (no_types) prefix_length_prefix prefix_order.antisym prefix_order.order_refl order_refl)
qed

text \<open>Nothing panics: the commit index stays inside the log, so that \<open>checkApply\<close> finds every entry it delivers.\<close>

lemma prompt_safe:
  assumes "creach prompt n cl"
  shows "cstep a cl \<noteq> Some (Inl e)"
proof (cases "\<exists>i. a = ApplyCommitted i")
  case False
  have "cinv n cl" by (rule vinvD(1)[OF creach_vinv[OF assms]])
  moreover have "\<forall>i. a \<noteq> ApplyCommitted i" using False by simp
  then have "\<not> applies a" by (cases a) (auto simp: applies_def)
  ultimately show ?thesis using cstep_safe[of n cl a] by (auto simp: safe_step_def)
next
  case True
  then obtain i where a: "a = ApplyCommitted i" by blast
  obtain p where p: "agreed n cl p" using creach_agreed[OF assms] by blast
  show ?thesis
  proof (cases "i < n")
    case True
    have sv: "server_inv n p (servers cl ! i)" using p True by (simp add: agreed_def kinv_def)
    show ?thesis using checkApply_delivers[OF server_invD(2,5)[OF sv]] by (simp add: a apply_committed_def)
  qed (use p in \<open>auto simp: a apply_committed_def agreed_def dest: rinv_servers\<close>)
qed

end
