(* ===== verification/Tester_Run.thy ===== *)
theory Tester_Run
  imports Raft_Tester Raft_Agreement
begin

text \<open>
  The tester's readers running beside a cluster. The channel of a server is what its peer has
  sent; a reader takes one message at a time, at its own speed. When a server is restarted,
  the reader of its old channel goes on with the messages it has not looked at yet.
\<close>

section \<open>The state and its steps\<close>

record ('c, 'a, 'r) tested =
  t_cluster :: "'c cluster"
  t_cfg :: "('c, 'a, 'r) config"
  t_read :: "nat list"
  t_old :: "(nat \<times> 'c ApplyMsg list) list"

datatype 'c taction = ClusterStep "'c action" | Read nat | ReadOld nat

text \<open>The messages a restart leaves to the reader of the old channel.\<close>

definition left_over :: "'c action \<Rightarrow> ('c, 'a, 'r) tested \<Rightarrow> (nat \<times> 'c ApplyMsg list) list" where
  "left_over a s = (case a of Restart i now rnd \<Rightarrow> [(i, drop (t_read s ! i) (rf_applyCh (servers (t_cluster s) ! i)))] | _ \<Rightarrow> [])"

definition reading :: "'c action \<Rightarrow> ('c, 'a, 'r) tested \<Rightarrow> nat list" where
  "reading a s = (case a of Restart i now rnd \<Rightarrow> (t_read s)[i := 0] | _ \<Rightarrow> t_read s)"

fun tstep :: "'c taction \<Rightarrow> ('c, 'a, 'r) tested \<Rightarrow> ('c, 'a, 'r) tested go option" where
  "tstep (ClusterStep a) s =
     (if prompt (t_cluster s) a then
        map_option (\<lambda>r. go_bind r (\<lambda>cl. Inr (s\<lparr>t_cluster := cl, t_read := reading a s, t_old := t_old s @ left_over a s\<rparr>)))
          (cstep a (t_cluster s))
      else None)"
| "tstep (Read i) s =
     (if i < length (servers (t_cluster s)) \<and> t_read s ! i < length (rf_applyCh (servers (t_cluster s) ! i)) then
        Some (go_bind (apply_reader i (rf_applyCh (servers (t_cluster s) ! i) ! (t_read s ! i)) (t_cfg s)) (\<lambda>cfg.
          Inr (s\<lparr>t_cfg := cfg, t_read := (t_read s)[i := Suc (t_read s ! i)]\<rparr>)))
      else None)"
| "tstep (ReadOld c) s =
     (if c < length (t_old s) then
        (case t_old s ! c of
           (i, []) \<Rightarrow> None
         | (i, m # ms) \<Rightarrow> Some (go_bind (apply_reader i m (t_cfg s)) (\<lambda>cfg. Inr (s\<lparr>t_cfg := cfg, t_old := (t_old s)[c := (i, ms)]\<rparr>))))
      else None)"

text \<open>The runs start with a new cluster and empty copies of the logs, as \<open>make_config\<close> leaves them.\<close>

inductive treach :: "nat \<Rightarrow> ('c, 'a, 'r) tested \<Rightarrow> bool" for n where
  start: "creach prompt n (fresh_cluster rfs) \<Longrightarrow> cfg_logs cfg = replicate n Map.empty \<Longrightarrow> cfg_applyErr cfg = replicate n '''' \<Longrightarrow>
     length (cfg_rafts cfg) = n \<Longrightarrow>
     treach n \<lparr>t_cluster = fresh_cluster rfs, t_cfg = cfg, t_read = replicate n 0, t_old = []\<rparr>"
| step: "treach n s \<Longrightarrow> tstep a s = Some (Inr s') \<Longrightarrow> treach n s'"

section \<open>Commands that are vouched for\<close>

text \<open>The command of a settled entry; it is the only one for its index.\<close>

definition vouched :: "nat \<Rightarrow> 'c proto \<Rightarrow> int \<Rightarrow> 'c option \<Rightarrow> bool" where
  "vouched n p k v \<longleftrightarrow> (\<exists>u lg. settled n p u lg (Suc (nat k)) \<and> v = le_Command (lg ! nat k))"

lemma vouched_unique:
  assumes "pinv n p" and "vouched n p k v" and "vouched n p k v'"
  shows "v = v'"
proof -
  obtain u lg u' lg' where s: "settled n p u lg (Suc (nat k))" "settled n p u' lg' (Suc (nat k))"
    and v: "v = le_Command (lg ! nat k)" "v' = le_Command (lg' ! nat k)" using assms(2,3) unfolding vouched_def by blast
  have "take (Suc (nat k)) lg = take (Suc (nat k)) lg'" by (rule settled_agree[OF assms(1) s])
  then have "lg ! nat k = lg' ! nat k" by (metis lessI nth_take)
  then show ?thesis using v by simp
qed

lemma vouched_grows: "grows n p p' \<Longrightarrow> vouched n p k v \<Longrightarrow> vouched n p' k v"
  unfolding vouched_def using settled_grows[OF _ _ order_refl] by blast

text \<open>A channel whose messages continue a copy \<open>l\<close> of the log and are all vouched for.\<close>

definition queue_ok :: "nat \<Rightarrow> 'c proto \<Rightarrow> (int \<rightharpoonup> 'c option) \<Rightarrow> 'c ApplyMsg list \<Rightarrow> bool" where
  "queue_ok n p l ms \<longleftrightarrow> (\<exists>r::nat. (\<forall>k. 1 \<le> k \<and> k \<le> int r \<longrightarrow> l k \<noteq> None) \<and>
     (\<forall>q<length ms. CommandIndex (ms ! q) = int (r + q) + 1 \<and> CommandValid (ms ! q) \<and> vouched n p (CommandIndex (ms ! q)) (am_Command (ms ! q))))"

lemma queue_ok_grows: "queue_ok n p l ms \<Longrightarrow> grows n p p' \<Longrightarrow> dom l \<subseteq> dom l' \<Longrightarrow> queue_ok n p' l' ms"
  unfolding queue_ok_def using vouched_grows[of n p p'] by (meson domIff subsetD)

lemma queue_ok_head:
  assumes "queue_ok n p l (m # ms)"
  shows "CommandValid m" and "vouched n p (CommandIndex m) (am_Command m)" and "1 < CommandIndex m \<longrightarrow> l (CommandIndex m - 1) \<noteq> None"
    and "queue_ok n p (l(CommandIndex m \<mapsto> v)) ms"
proof -
  obtain r :: nat where r: "\<forall>k. 1 \<le> k \<and> k \<le> int r \<longrightarrow> l k \<noteq> None" and
    q: "\<And>q. q < length (m # ms) \<Longrightarrow> CommandIndex ((m # ms) ! q) = int (r + q) + 1 \<and> CommandValid ((m # ms) ! q) \<and>
          vouched n p (CommandIndex ((m # ms) ! q)) (am_Command ((m # ms) ! q))"
    using assms unfolding queue_ok_def by blast
  have m: "CommandIndex m = int r + 1" "CommandValid m" "vouched n p (CommandIndex m) (am_Command m)" using q[of 0] by auto
  then show "CommandValid m" and "vouched n p (CommandIndex m) (am_Command m)" by auto
  show "1 < CommandIndex m \<longrightarrow> l (CommandIndex m - 1) \<noteq> None" using r m(1) by auto
  show "queue_ok n p (l(CommandIndex m \<mapsto> v)) ms"
    unfolding queue_ok_def
  proof (intro exI[of _ "Suc r"] conjI allI impI)
    fix k :: int assume "1 \<le> k \<and> k \<le> int (Suc r)"
    then show "(l(CommandIndex m \<mapsto> v)) k \<noteq> None" using r m(1) by (cases "k = int r + 1") auto
  next
    fix x assume x: "x < length ms"
    show "CommandIndex (ms ! x) = int (Suc r + x) + 1" "CommandValid (ms ! x)" "vouched n p (CommandIndex (ms ! x)) (am_Command (ms ! x))"
      using q[of "Suc x"] x by auto
  qed
qed

text \<open>The channel of a server of a cluster, behind what has been read.\<close>

lemma channel_queue:
  assumes "agreed n cl p" and i: "i < n" and read: "\<forall>k. 1 \<le> k \<and> k \<le> int r \<longrightarrow> l k \<noteq> None"
  shows "queue_ok n p l (drop r (rf_applyCh (servers cl ! i)))"
  unfolding queue_ok_def
proof (intro exI[of _ r] conjI read allI impI)
  let ?rf = "servers cl ! i"
  have sv: "server_inv n p ?rf" using assms(1) i by (simp add: agreed_def kinv_def)
  note d = server_invD[OF sv]
  fix q assume q: "q < length (drop r (rf_applyCh ?rf))"
  then have x: "int (r + q) < rf_lastApplied ?rf" by (simp add: d(6) applied_def)
  then have "[1..rf_lastApplied ?rf] ! (r + q) = int (r + q) + 1" by (subst nth_upto) auto
  then have m: "drop r (rf_applyCh ?rf) ! q = \<lparr>CommandValid = True, am_Command = le_Command (rf_log ?rf ! (r + q + 1)), CommandIndex = int (r + q) + 1\<rparr>"
    using x by (simp add: d(6) applied_def nat_add_distrib)
  show "CommandIndex (drop r (rf_applyCh ?rf) ! q) = int (r + q) + 1" "CommandValid (drop r (rf_applyCh ?rf) ! q)" by (simp_all add: m)
  have "settled n p (rf_currentTerm ?rf) (rf_log ?rf) (Suc (nat (int (r + q) + 1)))"
    by (rule settled_smaller[OF d(4)]) (use x d(3) in auto)
  then show "vouched n p (CommandIndex (drop r (rf_applyCh ?rf) ! q)) (am_Command (drop r (rf_applyCh ?rf) ! q))"
    unfolding vouched_def m by (intro exI[of _ "rf_currentTerm ?rf"] exI[of _ "rf_log ?rf"]) (simp add: nat_add_distrib)
qed


section \<open>The invariant\<close>

text \<open>
  Every command in a copy of a log is vouched for; what a reader has read is in the copy of
  its server; and the old channels continue these copies.
\<close>

definition copies_ok :: "nat \<Rightarrow> 'c proto \<Rightarrow> ('c, 'a, 'r) config \<Rightarrow> bool" where
  "copies_ok n p cfg \<longleftrightarrow> length (cfg_logs cfg) = n \<and> cfg_applyErr cfg = replicate n '''' \<and> length (cfg_rafts cfg) = n \<and>
     (\<forall>i<n. \<forall>k v. (cfg_logs cfg ! i) k = Some v \<longrightarrow> vouched n p k v)"

definition tinv :: "nat \<Rightarrow> ('c, 'a, 'r) tested \<Rightarrow> 'c proto \<Rightarrow> bool" where
  "tinv n s p \<longleftrightarrow> agreed n (t_cluster s) p \<and> copies_ok n p (t_cfg s) \<and> length (t_read s) = n \<and>
     (\<forall>i<n. \<forall>k. 1 \<le> k \<and> k \<le> int (t_read s ! i) \<longrightarrow> (cfg_logs (t_cfg s) ! i) k \<noteq> None) \<and>
     (\<forall>(i, ms)\<in>set (t_old s). i < n \<and> queue_ok n p (cfg_logs (t_cfg s) ! i) ms)"

lemma apply_reader_step:
  assumes "CommandValid m" and "i < length (cfg_logs cfg)"
    and "\<forall>l\<in>set (cfg_logs cfg). \<forall>v. l (CommandIndex m) = Some v \<longrightarrow> v = am_Command m"
    and "1 < CommandIndex m \<longrightarrow> (cfg_logs cfg ! i) (CommandIndex m - 1) \<noteq> None"
  obtains cfg' where "apply_reader i m cfg = Inr cfg'"
    and "cfg_logs cfg' = (cfg_logs cfg)[i := (cfg_logs cfg ! i)(CommandIndex m \<mapsto> am_Command m)]"
    and "cfg_applyErr cfg' = cfg_applyErr cfg" and "cfg_rafts cfg' = cfg_rafts cfg"
proof -
  have "\<not> list_ex (\<lambda>l. l (CommandIndex m) \<noteq> None \<and> l (CommandIndex m) \<noteq> Some (am_Command m)) (cfg_logs cfg)"
    using assms(3) unfolding list_ex_iff by (metis option.exhaust_sel)
  then show thesis using assms(1,2,4) that by (auto simp: apply_reader_def Let_def go_index_def go_len_def split: if_splits)
qed

text \<open>A reader with a good channel accepts its next message.\<close>

lemma reader_accepts:
  assumes c: "copies_ok n p cfg" and p: "pinv n p" and i: "i < n" and q: "queue_ok n p (cfg_logs cfg ! i) (m # ms)"
  obtains cfg' where "apply_reader i m cfg = Inr cfg'" and "copies_ok n p cfg'"
    and "cfg_logs cfg' = (cfg_logs cfg)[i := (cfg_logs cfg ! i)(CommandIndex m \<mapsto> am_Command m)]"
proof -
  note h = queue_ok_head[OF q]
  have len: "length (cfg_logs cfg) = n" and v: "\<forall>j<n. \<forall>k v. (cfg_logs cfg ! j) k = Some v \<longrightarrow> vouched n p k v"
    using c by (auto simp: copies_ok_def)
  have "v = am_Command m" if "l \<in> set (cfg_logs cfg)" "l (CommandIndex m) = Some v" for l v
    using that v len vouched_unique[OF p _ h(2)] unfolding in_set_conv_nth by blast
  then obtain cfg' where a: "apply_reader i m cfg = Inr cfg'"
    "cfg_logs cfg' = (cfg_logs cfg)[i := (cfg_logs cfg ! i)(CommandIndex m \<mapsto> am_Command m)]"
    "cfg_applyErr cfg' = cfg_applyErr cfg" "cfg_rafts cfg' = cfg_rafts cfg"
    using apply_reader_step[OF h(1) _ _ h(3)] len i by metis
  have "vouched n p k w" if "j < n" "(cfg_logs cfg' ! j) k = Some w" for j k w
    using that v h(2) i len unfolding a(2) by (cases "j = i") (auto split: if_splits)
  then have "copies_ok n p cfg'" using c by (auto simp: copies_ok_def a)
  with a show thesis using that by blast
qed

text \<open>Accepting it keeps the other channels good, because the copies only grow.\<close>

lemma queue_ok_read:
  assumes "queue_ok n p (ls ! j) q" and "i < length ls"
  shows "queue_ok n p (ls[i := (ls ! i)(k \<mapsto> v)] ! j) q"
  by (rule queue_ok_grows[OF assms(1) grows_refl]) (use assms(2) in \<open>auto simp: nth_list_update\<close>)

lemma read_keeps:
  assumes "(\<forall>k. 1 \<le> k \<and> k \<le> b \<longrightarrow> (ls ! j) k \<noteq> None)" and "i < length ls"
  shows "(\<forall>k. 1 \<le> k \<and> k \<le> b \<longrightarrow> (ls[i := (ls ! i)(c \<mapsto> v)] ! j) k \<noteq> None)"
  using assms by (auto simp: nth_list_update)

lemma left_over_cases:
  obtains (restart) i now rnd where "a = Restart i now rnd" | (other) "\<And>i now rnd. a \<noteq> Restart i now rnd" and "left_over a s = []" and "reading a s = t_read s"
  by (cases a) (auto simp: left_over_def reading_def)

lemma cluster_tinv:
  assumes t: "tinv n s p" and pr: "prompt (t_cluster s) a" and st: "cstep a (t_cluster s) = Some (Inr cl)"
  shows "\<exists>p'. tinv n (s\<lparr>t_cluster := cl, t_read := reading a s, t_old := t_old s @ left_over a s\<rparr>) p'"
proof -
  have a: "agreed n (t_cluster s) p" and c: "copies_ok n p (t_cfg s)" and len: "length (t_read s) = n"
    and r: "\<forall>i<n. \<forall>k. 1 \<le> k \<and> k \<le> int (t_read s ! i) \<longrightarrow> (cfg_logs (t_cfg s) ! i) k \<noteq> None"
    and o: "\<forall>(i, ms)\<in>set (t_old s). i < n \<and> queue_ok n p (cfg_logs (t_cfg s) ! i) ms" using t by (auto simp: tinv_def)
  obtain p' where p': "agreed n cl p'" "grows n p p'" using cstep_agreed[OF a pr st] by blast
  have c': "copies_ok n p' (t_cfg s)" using c vouched_grows[OF p'(2)] by (auto simp: copies_ok_def)
  have o': "\<forall>(i, ms)\<in>set (t_old s). i < n \<and> queue_ok n p' (cfg_logs (t_cfg s) ! i) ms" using o queue_ok_grows[OF _ p'(2)] by blast
  have lo: "\<forall>(i, ms)\<in>set (left_over a s). i < n \<and> queue_ok n p' (cfg_logs (t_cfg s) ! i) ms"
  proof (cases rule: left_over_cases[where a = a and s = s])
    case (restart i now rnd)
    then have i: "i < n" using st a by (auto simp: restart_def agreed_def dest: rinv_servers split: if_splits)
    have "queue_ok n p (cfg_logs (t_cfg s) ! i) (drop (t_read s ! i) (rf_applyCh (servers (t_cluster s) ! i)))"
      by (rule channel_queue[OF a i]) (use r i in blast)
    then show ?thesis using i queue_ok_grows[OF _ p'(2)] by (auto simp: restart left_over_def)
  qed simp
  have "length (reading a s) = n" using len by (cases rule: left_over_cases[where a = a and s = s]) (auto simp: reading_def)
  moreover have "(cfg_logs (t_cfg s) ! i) k \<noteq> None" if "i < n" "1 \<le> k" "k \<le> int (reading a s ! i)" for i k
  proof -
    have "reading a s ! i \<le> t_read s ! i"
    proof (cases rule: left_over_cases[where a = a and s = s])
      case (restart j now rnd)
      then show ?thesis using that len by (cases "j = i") (auto simp: reading_def)
    qed simp
    then show ?thesis using that r by auto
  qed
  ultimately have "tinv n (s\<lparr>t_cluster := cl, t_read := reading a s, t_old := t_old s @ left_over a s\<rparr>) p'"
    using p'(1) c' o' lo by (auto simp: tinv_def)
  then show ?thesis ..
qed

text \<open>A step of a reader succeeds and keeps the invariant.\<close>

lemma read_tinv:
  assumes t: "tinv n s p" and i: "i < n" and more: "t_read s ! i < length (rf_applyCh (servers (t_cluster s) ! i))"
  obtains s' where "tstep (Read i) s = Some (Inr s')" and "tinv n s' p"
proof -
  let ?ch = "rf_applyCh (servers (t_cluster s) ! i)" and ?r = "t_read s ! i"
  have a: "agreed n (t_cluster s) p" and c: "copies_ok n p (t_cfg s)" and len: "length (t_read s) = n"
    and r: "\<forall>i<n. \<forall>k. 1 \<le> k \<and> k \<le> int (t_read s ! i) \<longrightarrow> (cfg_logs (t_cfg s) ! i) k \<noteq> None"
    and o: "\<forall>(i, ms)\<in>set (t_old s). i < n \<and> queue_ok n p (cfg_logs (t_cfg s) ! i) ms" using t by (auto simp: tinv_def)
  have p: "pinv n p" using a by (auto simp: agreed_def rinv_def)
  have sv: "length (servers (t_cluster s)) = n" using a by (auto simp: agreed_def dest: rinv_servers)
  have "queue_ok n p (cfg_logs (t_cfg s) ! i) (drop ?r ?ch)" by (rule channel_queue[OF a i]) (use r i in blast)
  then have q: "queue_ok n p (cfg_logs (t_cfg s) ! i) (?ch ! ?r # drop (Suc ?r) ?ch)" using more by (simp add: Cons_nth_drop_Suc)
  have k: "CommandIndex (?ch ! ?r) = int ?r + 1"
  proof -
    have "server_inv n p (servers (t_cluster s) ! i)" using a i by (simp add: agreed_def kinv_def)
    from server_invD(6)[OF this] show ?thesis using more by (simp add: applied_def)
  qed
  obtain cfg where cfg: "apply_reader i (?ch ! ?r) (t_cfg s) = Inr cfg" "copies_ok n p cfg"
    "cfg_logs cfg = (cfg_logs (t_cfg s))[i := (cfg_logs (t_cfg s) ! i)(CommandIndex (?ch ! ?r) \<mapsto> am_Command (?ch ! ?r))]"
    using reader_accepts[OF c p i q] by blast
  let ?s = "s\<lparr>t_cfg := cfg, t_read := (t_read s)[i := Suc ?r]\<rparr>"
  have ln: "length (cfg_logs (t_cfg s)) = n" using c by (simp add: copies_ok_def)
  have "(cfg_logs cfg ! j) x \<noteq> None" if j: "j < n" "1 \<le> x" "x \<le> int ((t_read s)[i := Suc ?r] ! j)" for j x
    using r j i len ln k unfolding cfg(3) by (cases "j = i"; cases "x = int ?r + 1") auto
  moreover have "\<forall>(j, ms)\<in>set (t_old s). j < n \<and> queue_ok n p (cfg_logs cfg ! j) ms"
    using o queue_ok_read[of n p "cfg_logs (t_cfg s)"] i ln unfolding cfg(3) by auto
  ultimately have "tinv n ?s p" using a cfg(2) len by (auto simp: tinv_def)
  moreover have "tstep (Read i) s = Some (Inr ?s)" using more i sv cfg(1) by simp
  ultimately show thesis using that by blast
qed

lemma read_old_tinv:
  assumes t: "tinv n s p" and c: "c < length (t_old s)" and ch: "t_old s ! c = (i, m # ms)"
  obtains s' where "tstep (ReadOld c) s = Some (Inr s')" and "tinv n s' p"
proof -
  have a: "agreed n (t_cluster s) p" and co: "copies_ok n p (t_cfg s)" and len: "length (t_read s) = n"
    and r: "\<forall>i<n. \<forall>k. 1 \<le> k \<and> k \<le> int (t_read s ! i) \<longrightarrow> (cfg_logs (t_cfg s) ! i) k \<noteq> None"
    and o: "\<forall>(i, ms)\<in>set (t_old s). i < n \<and> queue_ok n p (cfg_logs (t_cfg s) ! i) ms" using t by (auto simp: tinv_def)
  have p: "pinv n p" using a by (auto simp: agreed_def rinv_def)
  have i: "i < n" and q: "queue_ok n p (cfg_logs (t_cfg s) ! i) (m # ms)" using o nth_mem[OF c] ch by auto
  obtain cfg where cfg: "apply_reader i m (t_cfg s) = Inr cfg" "copies_ok n p cfg"
    "cfg_logs cfg = (cfg_logs (t_cfg s))[i := (cfg_logs (t_cfg s) ! i)(CommandIndex m \<mapsto> am_Command m)]"
    using reader_accepts[OF co p i q] by blast
  let ?s = "s\<lparr>t_cfg := cfg, t_old := (t_old s)[c := (i, ms)]\<rparr>"
  have ln: "length (cfg_logs (t_cfg s)) = n" using co by (simp add: copies_ok_def)
  have "queue_ok n p (cfg_logs cfg ! i) ms" using queue_ok_head(4)[OF q] ln i unfolding cfg(3) by simp
  moreover have "\<forall>(j, ms)\<in>set (t_old s). j < n \<and> queue_ok n p (cfg_logs cfg ! j) ms"
    using o queue_ok_read[of n p "cfg_logs (t_cfg s)"] i ln unfolding cfg(3) by auto
  ultimately have "\<forall>(j, ms')\<in>set ((t_old s)[c := (i, ms)]). j < n \<and> queue_ok n p (cfg_logs cfg ! j) ms'"
    using i set_update_subset_insert[of "t_old s" c "(i, ms)"] by blast
  moreover have "\<forall>j<n. \<forall>k. 1 \<le> k \<and> k \<le> int (t_read s ! j) \<longrightarrow> (cfg_logs cfg ! j) k \<noteq> None"
    using r read_keeps[of _ "cfg_logs (t_cfg s)"] i ln unfolding cfg(3) by blast
  ultimately have "tinv n ?s p" using a cfg(2) len by (auto simp: tinv_def)
  moreover have "tstep (ReadOld c) s = Some (Inr ?s)" using c ch cfg(1) by simp
  ultimately show thesis using that by blast
qed

lemma treach_tinv: "treach n s \<Longrightarrow> \<exists>p. tinv n s p"
proof (induction rule: treach.induct)
  case (start rfs cfg)
  obtain p where "agreed n (fresh_cluster rfs) p" using creach_agreed[OF start(1)] by blast
  then have "tinv n \<lparr>t_cluster = fresh_cluster rfs, t_cfg = cfg, t_read = replicate n 0, t_old = []\<rparr> p"
    using start by (auto simp: tinv_def copies_ok_def)
  then show ?case ..
next
  case (step s a s')
  then obtain p where p: "tinv n s p" by blast
  have sv: "length (servers (t_cluster s)) = n" using p by (auto simp: tinv_def agreed_def dest: rinv_servers)
  show ?case
  proof (cases a)
    case (ClusterStep b)
    then show ?thesis using step(2) cluster_tinv[OF p, of b] by (auto simp: go_simps split: if_splits)
  next
    case (Read i)
    then show ?thesis using step(2) sv read_tinv[OF p, of i] by (auto split: if_splits)
  next
    case (ReadOld c)
    then obtain i m ms where "c < length (t_old s)" "t_old s ! c = (i, m # ms)"
      using step(2) by (cases "t_old s ! c"; cases "snd (t_old s ! c)") (auto split: if_splits)
    then show ?thesis using step(2) ReadOld read_old_tinv[OF p, of c i m ms] by auto
  qed
qed

lemma treach_creach: "treach n s \<Longrightarrow> creach prompt n (t_cluster s)"
proof (induction rule: treach.induct)
  case (step s a s')
  then show ?case by (cases a) (auto simp: go_simps split: if_splits list.splits prod.splits intro: creach.step)
qed simp

text \<open>No step of a cluster panics and no reader fails.\<close>

lemma tstep_safe:
  assumes "treach n s"
  shows "tstep a s \<noteq> Some (Inl e)"
proof -
  obtain p where p: "tinv n s p" using treach_tinv[OF assms] by blast
  have sv: "length (servers (t_cluster s)) = n" using p by (auto simp: tinv_def agreed_def dest: rinv_servers)
  show ?thesis
  proof (cases a)
    case (ClusterStep b)
    then show ?thesis using prompt_safe[OF treach_creach[OF assms], of b e]
      by (auto simp: go_bind_def split: if_splits sum.splits)
  next
    case (Read i)
    show ?thesis
    proof (cases "i < n \<and> t_read s ! i < length (rf_applyCh (servers (t_cluster s) ! i))")
      case True
      then obtain s' where "tstep (Read i) s = Some (Inr s')" using read_tinv[OF p, of i] by blast
      then show ?thesis using Read by simp
    next
      case False
      then show ?thesis using Read sv by auto
    qed
  next
    case (ReadOld c)
    show ?thesis
    proof (cases "c < length (t_old s) \<and> snd (t_old s ! c) \<noteq> []")
      case True
      then obtain i m ms where "t_old s ! c = (i, m # ms)" by (cases "t_old s ! c"; cases "snd (t_old s ! c)") auto
      then obtain s' where "tstep (ReadOld c) s = Some (Inr s')" using True read_old_tinv[OF p, of c i m ms] by blast
      then show ?thesis using ReadOld by simp
    next
      case False
      then show ?thesis using ReadOld by (cases "t_old s ! c") auto
    qed
  qed
qed

end
