(* ===== verification/Tester_Checks.thy ===== *)
theory Tester_Checks
  imports Raft_Tester
begin

text \<open>
  What the tester's checks compute, from what they see: \<open>nCommitted\<close> counts the copies that
  have an index, a round of \<open>checkOneLeader\<close> finds the leader of the latest term. Both
  depend on an agreement between what they see, which the cluster has to provide.
\<close>

section \<open>Counting the committed\<close>

definition having :: "int \<Rightarrow> nat \<Rightarrow> ('c, 'a, 'r) config \<Rightarrow> nat set" where
  "having index m cfg = {i. i < m \<and> (cfg_logs cfg ! i) index \<noteq> None}"

lemma having_Suc:
  "having index (Suc m) cfg = (if (cfg_logs cfg ! m) index = None then having index m cfg else insert m (having index m cfg))"
  by (auto simp: having_def less_Suc_eq)


lemma nCommitted_counts:
  assumes err: "cfg_applyErr cfg = replicate n ''''" and len: "length (cfg_logs cfg) = n" "length (cfg_rafts cfg) = n"
    and same: "\<And>i v. i < n \<Longrightarrow> (cfg_logs cfg ! i) index = Some v \<Longrightarrow> v = c"
  shows "nCommitted index cfg = Inr (card (having index n cfg), if having index n cfg = {} then None else c)"
proof -
  let ?f = "\<lambda>i (count, cmd). go_bind (go_index (cfg_applyErr cfg) (int i)) (\<lambda>err.
         if err \<noteq> '''' then Inl (Fatal err)
         else go_bind (go_index (cfg_logs cfg) (int i)) (\<lambda>l.
           case l index of
             None \<Rightarrow> Inr (count, cmd)
           | Some cmd1 \<Rightarrow>
               if count > 0 \<and> cmd \<noteq> cmd1 then Inl (Fatal ''committed values do not match'')
               else Inr (count + 1, cmd1)))"
  have "go_each ?f [0..<m] (0, None) = Inr (card (having index m cfg), if having index m cfg = {} then None else c)" if "m \<le> n" for m
    using that
  proof (induction m)
    case 0
    then show ?case by (simp add: having_def)
  next
    case (Suc m)
    have fin: "finite (having index m cfg)" "m \<notin> having index m cfg" by (simp_all add: having_def)
    have "?f m (card (having index m cfg), if having index m cfg = {} then None else c) =
        Inr (card (having index (Suc m) cfg), if having index (Suc m) cfg = {} then None else c)"
      using Suc.prems same[of m] err len fin
      by (cases "(cfg_logs cfg ! m) index") (auto simp: having_Suc go_index_def go_len_def card_gt_0_iff)
    then show ?case using Suc by (simp add: go_each_append)
  qed
  then show ?thesis unfolding nCommitted_def len(2) by simp
qed

section \<open>Finding the leader\<close>

text \<open>The connected servers below \<open>m\<close> that are seen to lead term \<open>t\<close>.\<close>

definition sees :: "(nat \<Rightarrow> 'c Raft) \<Rightarrow> ('c, 'a, 'r) config \<Rightarrow> nat \<Rightarrow> int \<Rightarrow> bool" where
  "sees view cfg i t \<longleftrightarrow> cfg_connected cfg ! i \<and> GetState (view (the (cfg_rafts cfg ! i))) = (t, True)"

definition seen :: "(nat \<Rightarrow> 'c Raft) \<Rightarrow> ('c, 'a, 'r) config \<Rightarrow> nat \<Rightarrow> int \<Rightarrow> nat list" where
  "seen view cfg m t = filter (\<lambda>i. sees view cfg i t) [0..<m]"

lemma seen_Suc: "seen view cfg (Suc m) t = (if sees view cfg m t then seen view cfg m t @ [m] else seen view cfg m t)"
  by (simp add: seen_def)

definition running :: "('c, 'a, 'r) config \<Rightarrow> bool" where
  "running cfg \<longleftrightarrow> length (cfg_connected cfg) = cfg_n cfg \<and> length (cfg_rafts cfg) = cfg_n cfg \<and>
     (\<forall>i<cfg_n cfg. cfg_connected cfg ! i \<longrightarrow> cfg_rafts cfg ! i \<noteq> None)"

lemma leaders_seen_collects:
  assumes r: "running cfg"
  shows "leaders_seen view cfg = Inr (\<lambda>t. if seen view cfg (cfg_n cfg) t = [] then None else Some (seen view cfg (cfg_n cfg) t))"
proof -
  let ?f = "\<lambda>i leaders.
       go_bind (go_index (cfg_connected cfg) (int i)) (\<lambda>c.
         if c then
           go_bind (observed view i cfg) (\<lambda>(term, leader).
             Inr (if leader then leaders(term \<mapsto> (case leaders term of None \<Rightarrow> [] | Some ls \<Rightarrow> ls) @ [i]) else leaders))
         else Inr leaders)"
  let ?L = "\<lambda>m t. if seen view cfg m t = [] then None else Some (seen view cfg m t)"
  have "go_each ?f [0..<m] Map.empty = Inr (?L m)" if "m \<le> cfg_n cfg" for m
    using that
  proof (induction m)
    case 0
    then show ?case by (simp add: seen_def fun_eq_iff)
  next
    case (Suc m)
    have "?f m (?L m) = Inr (?L (Suc m))"
    proof (cases "cfg_connected cfg ! m")
      case True
      then obtain a where a: "cfg_rafts cfg ! m = Some a" using r Suc.prems by (auto simp: running_def Suc_le_eq)
      have "observed view m cfg = Inr (GetState (view a))" using r Suc.prems a by (simp add: observed_def go_index_def go_len_def running_def)
      then show ?thesis using True r Suc.prems a
        by (cases "GetState (view a)") (auto simp: go_index_def go_len_def running_def seen_Suc sees_def fun_eq_iff)
    next
      case False
      then show ?thesis using r Suc.prems by (auto simp: go_index_def go_len_def running_def seen_Suc sees_def fun_eq_iff)
    qed
    then show ?case using Suc by (simp add: go_each_append)
  qed
  from this[OF order_refl] show ?thesis by (simp add: leaders_seen_def)
qed

lemma last_leader_term_max:
  assumes "\<And>t ls. t \<in> set ts \<Longrightarrow> leaders t = Some ls \<Longrightarrow> length ls \<le> 1"
  shows "last_leader_term leaders ts best = Inr (Max (insert best (set ts)))"
  using assms
proof (induction ts arbitrary: best)
  case (Cons t ts)
  have "\<not> length (case leaders t of None \<Rightarrow> [] | Some ls \<Rightarrow> ls) > 1" using Cons.prems[of t] by (auto split: option.splits)
  moreover have "Max (insert (if t > best then t else best) (set ts)) = Max (insert best (insert t (set ts)))"
    by (cases "ts = []") (auto simp: max_def)
  moreover have "last_leader_term leaders ts b = Inr (Max (insert b (set ts)))" for b
    by (rule Cons.IH) (use Cons.prems in auto)
  ultimately show ?case by (auto simp del: Max_insert)
qed simp

text \<open>
  When no two connected servers are seen to lead the same term, a round returns the leader of
  the latest term, whatever the order of the map.
\<close>

lemma one_leader_round_finds:
  assumes r: "running cfg" and order: "\<And>m. finite (dom m) \<Longrightarrow> set (order m) = dom m"
    and one: "\<And>i j t. i < cfg_n cfg \<Longrightarrow> j < cfg_n cfg \<Longrightarrow> sees view cfg i t \<Longrightarrow> sees view cfg j t \<Longrightarrow> i = j"
    and nonneg: "\<And>i t. i < cfg_n cfg \<Longrightarrow> sees view cfg i t \<Longrightarrow> 0 \<le> t"
  shows "one_leader_round view order cfg = Inr None \<and> (\<forall>i<cfg_n cfg. \<forall>t. \<not> sees view cfg i t) \<or>
    (\<exists>i t. one_leader_round view order cfg = Inr (Some i) \<and> i < cfg_n cfg \<and> sees view cfg i t \<and>
      (\<forall>j<cfg_n cfg. \<forall>u. sees view cfg j u \<longrightarrow> j \<noteq> i \<longrightarrow> u < t))"
proof -
  let ?n = "cfg_n cfg"
  define leaders where "leaders = (\<lambda>t. if seen view cfg ?n t = [] then None else Some (seen view cfg ?n t))"
  have in_seen: "i \<in> set (seen view cfg ?n t) \<longleftrightarrow> i < ?n \<and> sees view cfg i t" for i t by (auto simp: seen_def)
  have dom: "dom leaders = {t. \<exists>i<?n. sees view cfg i t}"
    using in_seen by (auto simp: leaders_def domIff split: if_splits) (metis ex_in_conv set_empty, metis empty_iff empty_set)
  have "dom leaders \<subseteq> (\<lambda>i. fst (GetState (view (the (cfg_rafts cfg ! i))))) ` {..<?n}" unfolding dom by (force simp: sees_def)
  then have fin: "finite (dom leaders)" by (rule finite_subset) simp
  have short: "length ls \<le> 1" if "leaders t = Some ls" for t ls
  proof -
    have ls: "ls = seen view cfg ?n t" using that by (simp add: leaders_def split: if_splits)
    have "distinct ls" unfolding ls seen_def by simp
    moreover have "set ls \<subseteq> {hd ls}" using one in_seen unfolding ls by (metis empty_iff empty_set hd_in_set singleton_iff subsetI)
    ultimately show ?thesis by (metis card_mono card.empty card_insert_disjoint distinct_card empty_iff finite.emptyI finite_insert One_nat_def)
  qed
  have seen: "leaders_seen view cfg = Inr leaders" unfolding leaders_def by (rule leaders_seen_collects[OF r])
  have last: "last_leader_term leaders (order leaders) (-1) = Inr (Max (insert (-1) (dom leaders)))"
    using last_leader_term_max[of "order leaders" leaders "-1"] short order[OF fin] by simp
  show ?thesis
  proof (cases "dom leaders = {}")
    case True
    then have "order leaders = []" using order[OF fin] by simp
    then show ?thesis using True dom by (auto simp: one_leader_round_def seen)
  next
    case False
    let ?t = "Max (insert (-1) (dom leaders))"
    have "0 \<le> Max (dom leaders)" using Max_in[OF fin False] nonneg unfolding dom by blast
    then have "?t = Max (dom leaders)" using False fin by simp
    then have t: "?t \<in> dom leaders" "\<And>u. u \<in> dom leaders \<Longrightarrow> u \<le> ?t" using False fin by auto
    then obtain i rest where i: "leaders ?t = Some (i # rest)" by (auto simp: leaders_def neq_Nil_conv split: if_splits)
    then have iseen: "i < ?n" "sees view cfg i ?t" using in_seen[of i ?t] by (auto simp: leaders_def split: if_splits)
    have ne: "order leaders \<noteq> []" using order[OF fin] False by (metis empty_set)
    have "one_leader_round view order cfg = Inr (Some i)"
      using ne i by (simp add: one_leader_round_def seen last go_index_def go_len_def)
    moreover have "u < ?t" if "j < ?n" "sees view cfg j u" "j \<noteq> i" for j u
      using that t(2)[of u] one[OF that(1) iseen(1)] iseen(2) dom by (metis (mono_tags, lifting) mem_Collect_eq order_le_less)
    ultimately show ?thesis using iseen by blast
  qed
qed


section \<open>Agreement\<close>

text \<open>What \<open>one\<close> returns has been seen by enough servers, with the command submitted.\<close>

lemma one_polls_agreed:
  "one_polls runs cmd expected index cfg = Inr (True, cfg') \<Longrightarrow>
   \<exists>nd. nCommitted index cfg' = Inr (nd, Some cmd) \<and> 0 < nd \<and> expected \<le> nd"
  by (induction runs arbitrary: cfg) (auto simp: one_poll_def go_simps Let_def split: if_splits)

lemma one_rounds_agreed:
  "one_rounds rounds cmd expected retry starts cfg = Inr (index, cfg') \<Longrightarrow>
   index \<noteq> -1 \<and> (\<exists>nd. nCommitted index cfg' = Inr (nd, Some cmd) \<and> 0 < nd \<and> expected \<le> nd)"
proof (induction rounds arbitrary: starts cfg)
  case (Cons r rounds)
  obtain run runs where r: "r = (run, runs)" by (cases r)
  obtain starts1 index1 cfg1 where s: "one_submit (cfg_n cfg) run cmd starts cfg = Inr (starts1, index1, cfg1)"
    using Cons.prems by (auto simp: r go_simps)
  show ?case
  proof (cases "index1 = -1")
    case True
    then show ?thesis using Cons.prems Cons.IH by (simp add: r s)
  next
    case False
    then obtain b cfg2 where p: "one_polls runs cmd expected index1 cfg1 = Inr (b, cfg2)" using Cons.prems by (auto simp: r s go_simps)
    show ?thesis
    proof (cases b)
      case True
      then show ?thesis using Cons.prems False p one_polls_agreed[of runs cmd expected index1 cfg1 cfg2] by (auto simp: r s)
    next
      case nb: False
      then show ?thesis using Cons.prems False p Cons.IH by (auto simp: r s split: if_splits)
    qed
  qed
qed simp

lemma one_agreed:
  "one rounds cmd expected retry cfg = Inr (index, cfg') \<Longrightarrow>
   index \<noteq> -1 \<and> (\<exists>nd. nCommitted index cfg' = Inr (nd, Some cmd) \<and> 0 < nd \<and> expected \<le> nd)"
  unfolding one_def by (rule one_rounds_agreed)

end
