(* ===== verification/Tester_Wiring.thy ===== *)
theory Tester_Wiring
  imports Raft_Tester
begin

text \<open>
  The tester's connections. Whatever sequence of \<open>connect\<close>, \<open>disconnect\<close>, \<open>crash1\<close> and
  \<open>start1\<close> follows \<open>make_config\<close>, the end from server \<open>i\<close> to server \<open>j\<close> is enabled exactly when
  both are connected, leads to the running instance of \<open>j\<close>, and the ends of every earlier
  instance are disabled. Ends get new names, as \<open>randstring(20)\<close> is meant to give them.
\<close>

section \<open>The invariant\<close>

definition link :: "('c, 'a, 'r) config \<Rightarrow> nat \<Rightarrow> nat \<Rightarrow> string option" where
  "link cfg i j = (case cfg_endnames cfg ! i of None \<Rightarrow> None | Some names \<Rightarrow> Some (names ! j))"

text \<open>The tables have an entry for every server, and no two links share an end.\<close>

definition laid_out :: "('c, 'a, 'r) config \<Rightarrow> bool" where
  "laid_out cfg \<longleftrightarrow> length (cfg_connected cfg) = cfg_n cfg \<and> length (cfg_rafts cfg) = cfg_n cfg \<and>
     length (cfg_saved cfg) = cfg_n cfg \<and> length (cfg_endnames cfg) = cfg_n cfg \<and>
     (\<forall>i<cfg_n cfg. \<forall>names. cfg_endnames cfg ! i = Some names \<longrightarrow> length names = cfg_n cfg) \<and>
     (\<forall>i<cfg_n cfg. cfg_connected cfg ! i \<longrightarrow> cfg_endnames cfg ! i \<noteq> None)"

definition links_apart :: "('c, 'a, 'r) config \<Rightarrow> bool" where
  "links_apart cfg \<longleftrightarrow> (\<forall>i<cfg_n cfg. \<forall>j<cfg_n cfg. \<forall>a<cfg_n cfg. \<forall>b<cfg_n cfg. \<forall>e.
     link cfg i j = Some e \<longrightarrow> link cfg a b = Some e \<longrightarrow> i = a \<and> j = b)"

lemma links_apartD:
  "links_apart cfg \<Longrightarrow> i < cfg_n cfg \<Longrightarrow> j < cfg_n cfg \<Longrightarrow> a < cfg_n cfg \<Longrightarrow> b < cfg_n cfg \<Longrightarrow>
   link cfg i j = Some e \<Longrightarrow> link cfg a b = Some e \<Longrightarrow> i = a \<and> j = b"
  unfolding links_apart_def by simp

text \<open>An end is enabled exactly when it is the link between two connected servers.\<close>

definition open_ends :: "('c, 'a, 'r) config \<Rightarrow> string \<Rightarrow> bool" where
  "open_ends cfg e \<longleftrightarrow> (\<exists>i<cfg_n cfg. \<exists>j<cfg_n cfg. link cfg i j = Some e \<and> cfg_connected cfg ! i \<and> cfg_connected cfg ! j)"

lemma open_endsI:
  "a < cfg_n cfg \<Longrightarrow> b < cfg_n cfg \<Longrightarrow> link cfg a b = Some e \<Longrightarrow> cfg_connected cfg ! a \<Longrightarrow> cfg_connected cfg ! b \<Longrightarrow> open_ends cfg e"
  unfolding open_ends_def by blast

definition wired :: "('c, 'a, 'r) config \<Rightarrow> bool" where
  "wired cfg \<longleftrightarrow> laid_out cfg \<and> links_apart cfg \<and> n_enabled (cfg_net cfg) = open_ends cfg \<and>
     (\<forall>i<cfg_n cfg. \<forall>j<cfg_n cfg. \<forall>e. link cfg i j = Some e \<longrightarrow> e \<in> n_ends (cfg_net cfg) \<and> n_connections (cfg_net cfg) e = Some j) \<and>
     (\<forall>i<cfg_n cfg. n_servers (cfg_net cfg) i = cfg_rafts cfg ! i) \<and>
     (\<forall>i<cfg_n cfg. \<forall>a. cfg_rafts cfg ! i = Some a \<longrightarrow> a < cfg_next cfg)"

lemma wired_frame [simp]: "wired (cfg\<lparr>cfg_logs := ls\<rparr>) = wired cfg" "wired (cfg\<lparr>cfg_heap := h\<rparr>) = wired cfg"
  by (simp_all add: wired_def laid_out_def links_apart_def link_def open_ends_def fun_eq_iff)

lemma link_index:
  assumes "laid_out cfg" and "i < cfg_n cfg" and "j < cfg_n cfg"
  shows "endname cfg i j = (case link cfg i j of None \<Rightarrow> Inl IndexOutOfRange | Some e \<Rightarrow> Inr e)"
  using assms by (auto simp: endname_def link_def laid_out_def go_index_def go_len_def split: option.splits)

section \<open>The loops\<close>

text \<open>The loops of \<open>connect\<close> and \<open>disconnect\<close>, whose \<open>j\<close>-th end goes from \<open>a j\<close> to \<open>b j\<close>.\<close>

definition with_enabled :: "(string \<Rightarrow> bool) \<Rightarrow> ('c, 'a, 'r) config \<Rightarrow> ('c, 'a, 'r) config" where
  "with_enabled P cfg = cfg\<lparr>cfg_net := (cfg_net cfg)\<lparr>n_enabled := P\<rparr>\<rparr>"

lemma with_enabled_simps [simp]:
  "cfg_n (with_enabled P cfg) = cfg_n cfg" "cfg_connected (with_enabled P cfg) = cfg_connected cfg"
  "cfg_endnames (with_enabled P cfg) = cfg_endnames cfg" "cfg_rafts (with_enabled P cfg) = cfg_rafts cfg"
  "cfg_saved (with_enabled P cfg) = cfg_saved cfg" "n_enabled (cfg_net (with_enabled P cfg)) = P"
  "n_ends (cfg_net (with_enabled P cfg)) = n_ends (cfg_net cfg)" "n_servers (cfg_net (with_enabled P cfg)) = n_servers (cfg_net cfg)"
  "n_connections (cfg_net (with_enabled P cfg)) = n_connections (cfg_net cfg)" "with_enabled Q (with_enabled P cfg) = with_enabled Q cfg"
  "link (with_enabled P cfg) = link cfg" "laid_out (with_enabled P cfg) = laid_out cfg" "links_apart (with_enabled P cfg) = links_apart cfg"
  "open_ends (with_enabled P cfg) = open_ends cfg" "cfg_heap (with_enabled P cfg) = cfg_heap cfg" "cfg_next (with_enabled P cfg) = cfg_next cfg"
  by (simp_all add: with_enabled_def link_def laid_out_def links_apart_def open_ends_def fun_eq_iff)

lemma set_enabled_with: "set_enabled v e cfg = with_enabled ((n_enabled (cfg_net cfg))(e := v)) cfg"
  by (simp add: set_enabled_def Enable_def with_enabled_def)

lemma endname_with [simp]: "endname (with_enabled P cfg) = endname cfg"
  by (simp add: endname_def fun_eq_iff)

lemma connect_loop:
  assumes l: "laid_out cfg" and ab: "\<And>j. j < cfg_n cfg \<Longrightarrow> a j < cfg_n cfg \<and> b j < cfg_n cfg"
    and linked: "\<And>j. j < cfg_n cfg \<Longrightarrow> cfg_connected cfg ! j \<Longrightarrow> link cfg (a j) (b j) \<noteq> None" and "m \<le> cfg_n cfg"
  shows "go_each (\<lambda>j. connect_end j (a j) (b j)) [0..<m] cfg =
    Inr (with_enabled (\<lambda>e. n_enabled (cfg_net cfg) e \<or> (\<exists>j<m. cfg_connected cfg ! j \<and> link cfg (a j) (b j) = Some e)) cfg)"
  using assms(4)
proof (induction m)
  case 0
  then show ?case by (simp add: with_enabled_def)
next
  case (Suc m)
  let ?P = "\<lambda>m e. n_enabled (cfg_net cfg) e \<or> (\<exists>j<m. cfg_connected cfg ! j \<and> link cfg (a j) (b j) = Some e)"
  have m: "m < cfg_n cfg" using Suc.prems by simp
  have c: "go_index (cfg_connected cfg) (int m) = Inr (cfg_connected cfg ! m)" using m l by (simp add: laid_out_def go_index_def go_len_def)
  have "connect_end m (a m) (b m) (with_enabled (?P m) cfg) = Inr (with_enabled (?P (Suc m)) cfg)"
  proof (cases "cfg_connected cfg ! m")
    case True
    then obtain e where e: "link cfg (a m) (b m) = Some e" using linked[OF m] by auto
    have "(?P m)(e := True) = ?P (Suc m)" using True e by (auto simp: less_Suc_eq fun_eq_iff)
    then show ?thesis using True e c link_index[OF l] ab[OF m] by (simp add: connect_end_def set_enabled_with)
  next
    case False
    then have "?P m = ?P (Suc m)" by (auto simp: less_Suc_eq fun_eq_iff)
    then show ?thesis using False c by (simp add: connect_end_def)
  qed
  then show ?case using Suc by (simp add: go_each_append)
qed

lemma disconnect_loop:
  assumes l: "laid_out cfg" and ab: "\<And>j. j < cfg_n cfg \<Longrightarrow> a j < cfg_n cfg \<and> b j < cfg_n cfg" and "m \<le> cfg_n cfg"
  shows "go_each (\<lambda>j. disconnect_end (a j) (a j) (b j)) [0..<m] cfg =
    Inr (with_enabled (\<lambda>e. n_enabled (cfg_net cfg) e \<and> \<not> (\<exists>j<m. link cfg (a j) (b j) = Some e)) cfg)"
  using assms(3)
proof (induction m)
  case 0
  then show ?case by (simp add: with_enabled_def)
next
  case (Suc m)
  let ?P = "\<lambda>m e. n_enabled (cfg_net cfg) e \<and> \<not> (\<exists>j<m. link cfg (a j) (b j) = Some e)"
  have m: "m < cfg_n cfg" using Suc.prems by simp
  have c: "go_index (cfg_endnames cfg) (int (a m)) = Inr (cfg_endnames cfg ! a m)"
    using ab[OF m] l by (simp add: laid_out_def go_index_def go_len_def)
  have "disconnect_end (a m) (a m) (b m) (with_enabled (?P m) cfg) = Inr (with_enabled (?P (Suc m)) cfg)"
  proof (cases "link cfg (a m) (b m)")
    case (Some e)
    have "(?P m)(e := False) = ?P (Suc m)" using Some by (auto simp: less_Suc_eq fun_eq_iff)
    moreover have "cfg_endnames cfg ! a m \<noteq> None" using Some by (auto simp: link_def split: option.splits)
    ultimately show ?thesis using Some c link_index[OF l] ab[OF m] by (simp add: disconnect_end_def set_enabled_with)
  next
    case None
    then have "?P m = ?P (Suc m)" by (auto simp: less_Suc_eq fun_eq_iff)
    moreover have "cfg_endnames cfg ! a m = None" using None by (auto simp: link_def split: option.splits)
    ultimately show ?thesis using c by (simp add: disconnect_end_def)
  qed
  then show ?case using Suc by (simp add: go_each_append)
qed


section \<open>The operations\<close>

definition with_connected :: "nat \<Rightarrow> bool \<Rightarrow> ('c, 'a, 'r) config \<Rightarrow> ('c, 'a, 'r) config" where
  "with_connected i v cfg = cfg\<lparr>cfg_connected := (cfg_connected cfg)[i := v]\<rparr>"

lemma with_connected_simps [simp]:
  "cfg_n (with_connected i v cfg) = cfg_n cfg" "cfg_connected (with_connected i v cfg) = (cfg_connected cfg)[i := v]"
  "cfg_endnames (with_connected i v cfg) = cfg_endnames cfg" "cfg_rafts (with_connected i v cfg) = cfg_rafts cfg"
  "cfg_saved (with_connected i v cfg) = cfg_saved cfg" "cfg_net (with_connected i v cfg) = cfg_net cfg" "cfg_heap (with_connected i v cfg) = cfg_heap cfg" "cfg_next (with_connected i v cfg) = cfg_next cfg"
  "link (with_connected i v cfg) = link cfg" "links_apart (with_connected i v cfg) = links_apart cfg"
  by (simp_all add: with_connected_def link_def links_apart_def fun_eq_iff)

lemma laid_out_connected:
  assumes "laid_out cfg" and "i < cfg_n cfg" and "v \<Longrightarrow> cfg_endnames cfg ! i \<noteq> None"
  shows "laid_out (with_connected i v cfg)"
  using assms by (auto simp: laid_out_def nth_list_update)

lemma wired_linked: "laid_out cfg \<Longrightarrow> i < cfg_n cfg \<Longrightarrow> cfg_connected cfg ! i \<Longrightarrow> link cfg i j \<noteq> None"
  by (auto simp: laid_out_def link_def split: option.splits)

lemma connect_effect:
  assumes w: "wired cfg" and i: "i < cfg_n cfg" and ends: "cfg_endnames cfg ! i \<noteq> None"
  shows "connect i cfg = Inr (with_enabled (open_ends (with_connected i True cfg)) (with_connected i True cfg))"
proof -
  let ?n = "cfg_n cfg" and ?c = "with_connected i True cfg"
  have l: "laid_out cfg" and en: "n_enabled (cfg_net cfg) = open_ends cfg" using w by (auto simp: wired_def)
  have lc: "laid_out ?c" by (rule laid_out_connected[OF l i ends])
  have conn: "\<And>j. j < ?n \<Longrightarrow> cfg_connected ?c ! j \<longleftrightarrow> j = i \<or> cfg_connected cfg ! j" using l i by (auto simp: laid_out_def nth_list_update)
  have linked: "link ?c j k \<noteq> None" if "j < ?n" "cfg_connected ?c ! j" for j k using wired_linked[OF lc] that by simp
  have set: "go_set (cfg_connected cfg) (int i) True = Inr ((cfg_connected cfg)[i := True])" using l i by (simp add: laid_out_def go_set_def go_len_def)
  let ?P = "\<lambda>e. n_enabled (cfg_net cfg) e \<or> (\<exists>j<?n. cfg_connected ?c ! j \<and> link cfg i j = Some e)"
  let ?Q = "\<lambda>e. ?P e \<or> (\<exists>j<?n. cfg_connected ?c ! j \<and> link cfg j i = Some e)"
  have out: "go_each (\<lambda>j. connect_end j i j) [0..<?n] ?c = Inr (with_enabled ?P ?c)"
    using connect_loop[OF lc, of "\<lambda>_. i" "\<lambda>j. j" ?n] i linked[OF i] conn[OF i] by simp
  have "laid_out (with_enabled ?P ?c)" using lc by simp
  from connect_loop[OF this, of "\<lambda>j. j" "\<lambda>_. i" ?n] have inc: "go_each (\<lambda>j. connect_end j j i) [0..<?n] (with_enabled ?P ?c) = Inr (with_enabled ?Q ?c)"
    using i linked by simp
  have "?Q e = open_ends ?c e" for e
  proof
    assume "?Q e"
    then consider (old) "open_ends cfg e" | (out) j where "j < ?n" "cfg_connected ?c ! j" "link cfg i j = Some e"
      | (inc) j where "j < ?n" "cfg_connected ?c ! j" "link cfg j i = Some e" unfolding en by blast
    then show "open_ends ?c e"
    proof cases
      case old
      then obtain a b where "a < ?n" "b < ?n" "link cfg a b = Some e" "cfg_connected cfg ! a" "cfg_connected cfg ! b" unfolding open_ends_def by blast
      then show ?thesis using conn by (intro open_endsI[of a _ b]) simp_all
    next
      case (out j)
      then show ?thesis using i conn[OF i] by (intro open_endsI[of i _ j]) simp_all
    next
      case (inc j)
      then show ?thesis using i conn[OF i] by (intro open_endsI[of j _ i]) simp_all
    qed
  next
    assume "open_ends ?c e"
    then obtain a b where ab: "a < ?n" "b < ?n" "link cfg a b = Some e" "cfg_connected ?c ! a" "cfg_connected ?c ! b" unfolding open_ends_def by auto
    consider "a = i" | "b = i" | "a \<noteq> i" "b \<noteq> i" by blast
    then show "?Q e"
    proof cases
      case 1
      then show ?thesis using ab by (intro disjI1 disjI2 exI[of _ b] conjI) simp_all
    next
      case 2
      then show ?thesis using ab by (intro disjI2 exI[of _ a] conjI) simp_all
    next
      case 3
      then have "open_ends cfg e" using ab conn by (intro open_endsI[of a _ b]) simp_all
      then show ?thesis by (simp add: en)
    qed
  qed
  then have "?Q = open_ends ?c" by (rule ext)
  then show ?thesis unfolding connect_def set using out inc by (simp add: with_connected_def)
qed

lemma disconnect_effect:
  assumes w: "wired cfg" and i: "i < cfg_n cfg"
  shows "disconnect i cfg = Inr (with_enabled (open_ends (with_connected i False cfg)) (with_connected i False cfg))"
proof -
  let ?n = "cfg_n cfg" and ?c = "with_connected i False cfg"
  have l: "laid_out cfg" and en: "n_enabled (cfg_net cfg) = open_ends cfg" and ap: "links_apart cfg" using w by (auto simp: wired_def)
  have lc: "laid_out ?c" by (rule laid_out_connected[OF l i]) simp
  have conn: "\<And>j. j < ?n \<Longrightarrow> cfg_connected ?c ! j \<longleftrightarrow> j \<noteq> i \<and> cfg_connected cfg ! j" using l i by (auto simp: laid_out_def nth_list_update)
  have set: "go_set (cfg_connected cfg) (int i) False = Inr ((cfg_connected cfg)[i := False])" using l i by (simp add: laid_out_def go_set_def go_len_def)
  let ?P = "\<lambda>e. n_enabled (cfg_net cfg) e \<and> \<not> (\<exists>j<?n. link cfg i j = Some e)"
  let ?Q = "\<lambda>e. ?P e \<and> \<not> (\<exists>j<?n. link cfg j i = Some e)"
  have out: "go_each (\<lambda>j. disconnect_end i i j) [0..<?n] ?c = Inr (with_enabled ?P ?c)"
    using disconnect_loop[OF lc, of "\<lambda>_. i" "\<lambda>j. j" ?n] i by simp
  have "laid_out (with_enabled ?P ?c)" using lc by simp
  from disconnect_loop[OF this, of "\<lambda>j. j" "\<lambda>_. i" ?n] have inc: "go_each (\<lambda>j. disconnect_end j j i) [0..<?n] (with_enabled ?P ?c) = Inr (with_enabled ?Q ?c)"
    using i by simp
  have "?Q e = open_ends ?c e" for e
  proof
    assume q: "?Q e"
    then obtain a b where ab: "a < ?n" "b < ?n" "link cfg a b = Some e" "cfg_connected cfg ! a" "cfg_connected cfg ! b"
      unfolding en open_ends_def by blast
    then have "a \<noteq> i" "b \<noteq> i" using q by auto
    then show "open_ends ?c e" unfolding open_ends_def using ab conn by auto
  next
    assume "open_ends ?c e"
    then obtain a b where ab: "a < ?n" "b < ?n" "link cfg a b = Some e" "a \<noteq> i" "b \<noteq> i" "cfg_connected cfg ! a" "cfg_connected cfg ! b"
      unfolding open_ends_def using conn by auto
    then have "open_ends cfg e" by (intro open_endsI[of a _ b])
    moreover have "link cfg i j \<noteq> Some e" "link cfg j i \<noteq> Some e" if "j < ?n" for j
      using ab i that links_apartD[OF ap ab(1,2) i that ab(3)] links_apartD[OF ap ab(1,2) that i ab(3)] by auto
    ultimately show "?Q e" by (simp add: en)
  qed
  then have "?Q = open_ends ?c" by (rule ext)
  then show ?thesis unfolding disconnect_def set using out inc by (simp add: with_connected_def)
qed

lemma wired_connected:
  assumes "wired cfg" and "laid_out (with_connected i v cfg)"
  shows "wired (with_enabled (open_ends (with_connected i v cfg)) (with_connected i v cfg))"
  using assms by (simp add: wired_def)


text \<open>What \<open>crash1\<close> leaves on the disk of server \<open>i\<close>.\<close>

definition crash_disk :: "nat \<Rightarrow> ('c, 'a, 'r) config \<Rightarrow> 'c gob Persister option" where
  "crash_disk i cfg = map_option crash1_saved (saved_of i cfg)"

lemma saved_of_with [simp]: "saved_of i (with_enabled P cfg) = saved_of i cfg" "saved_of i (with_connected j v cfg) = saved_of i cfg"
  by (simp_all add: saved_of_def split: option.split)

lemma crash1_effect:
  assumes w: "wired cfg" and i: "i < cfg_n cfg"
  obtains cfg' where "crash1 i cfg = Inr cfg'" and "wired cfg'" and "cfg_n cfg' = cfg_n cfg" and "cfg_endnames cfg' = cfg_endnames cfg"
    and "cfg_connected cfg' = (cfg_connected cfg)[i := False]" and "cfg_rafts cfg' = (cfg_rafts cfg)[i := None]"
    and "cfg_saved cfg' = (cfg_saved cfg)[i := crash_disk i cfg]" and "n_ends (cfg_net cfg') = n_ends (cfg_net cfg)"
    and "cfg_next cfg' = cfg_next cfg"
    and "\<And>a. a \<notin> set_option (cfg_rafts cfg ! i) \<Longrightarrow> cfg_heap cfg' a = cfg_heap cfg a"
    and "\<And>a. cfg_rafts cfg ! i = Some a \<Longrightarrow> cfg_heap cfg' a = Kill (cfg_heap cfg a)"
proof -
  let ?c = "with_connected i False cfg"
  let ?d = "with_enabled (open_ends ?c) ?c"
  have l: "laid_out ?c" by (rule laid_out_connected) (use w i in \<open>auto simp: wired_def\<close>)
  have wd: "wired ?d" by (rule wired_connected[OF w l])
  have len: "i < length (cfg_rafts cfg)" "i < length (cfg_saved cfg)" using w i by (auto simp: wired_def laid_out_def)
  let ?heap = "case cfg_rafts cfg ! i of None \<Rightarrow> cfg_heap cfg | Some rf \<Rightarrow> (cfg_heap cfg)(rf := Kill (cfg_heap cfg rf))"
  let ?e = "?d\<lparr>cfg_net := DeleteServer i (cfg_net ?d), cfg_heap := ?heap, cfg_rafts := (cfg_rafts cfg)[i := None], cfg_saved := (cfg_saved cfg)[i := crash_disk i cfg]\<rparr>"
  have disk: "map_option (\<lambda>ps. SaveRaftState (ReadRaftState ps) MakePersister) (map_option Copy (saved_of i (?d\<lparr>cfg_net := rn\<rparr>))) = crash_disk i cfg" for rn
    by (auto simp: crash_disk_def saved_of_def option.map_comp comp_def crash1_saved_def Let_def split: option.split)
  have "crash1 i cfg = Inr ?e"
  proof (cases "cfg_rafts cfg ! i")
    case None
    then have "(cfg_rafts cfg)[i := None] = cfg_rafts cfg" by (metis list_update_id)
    then show ?thesis unfolding crash1_def disconnect_effect[OF w i] using None by (simp add: Let_def disk)
  next
    case (Some a)
    then show ?thesis unfolding crash1_def disconnect_effect[OF w i] by (simp add: Let_def disk)
  qed
  moreover have "wired ?e"
  proof -
    have "laid_out ?e = laid_out ?d" "link ?e = link ?d" "open_ends ?e = open_ends ?d" "links_apart ?e = links_apart ?d"
      by (simp_all add: laid_out_def link_def open_ends_def links_apart_def fun_eq_iff)
    then show ?thesis using wd len unfolding wired_def by (auto simp: DeleteServer_def nth_list_update)
  qed
  ultimately show thesis by (rule that) (auto simp: DeleteServer_def split: option.split)
qed

lemma make_ends_effect:
  fixes cfg :: "('c, 'a, 'r) config"
  assumes ends: "cfg_endnames cfg ! i = Some (map names [0..<cfg_n cfg])" and i: "i < length (cfg_endnames cfg)"
    and inj: "inj_on names {..<cfg_n cfg}" and fresh: "\<And>j. j < cfg_n cfg \<Longrightarrow> names j \<notin> n_ends (cfg_net cfg)"
  shows "\<exists>rn. make_ends i cfg = Inr (cfg\<lparr>cfg_net := rn\<rparr>) \<and> n_ends rn = n_ends (cfg_net cfg) \<union> names ` {..<cfg_n cfg} \<and>
    n_enabled rn = (\<lambda>e. n_enabled (cfg_net cfg) e \<and> e \<notin> names ` {..<cfg_n cfg}) \<and>
    n_connections rn = (\<lambda>e. if e \<in> names ` {..<cfg_n cfg} then Some (inv_into {..<cfg_n cfg} names e) else n_connections (cfg_net cfg) e) \<and>
    n_servers rn = n_servers (cfg_net cfg)"
proof -
  let ?f = "\<lambda>j (cfg :: ('c, 'a, 'r) config). go_bind (endname cfg i j) (\<lambda>e. go_bind (MakeEnd e (cfg_net cfg)) (\<lambda>rn. Inr (cfg\<lparr>cfg_net := Connect e j rn\<rparr>)))"
  have name: "endname (cfg\<lparr>cfg_net := rn\<rparr>) i j = Inr (names j)" if "j < cfg_n cfg" for j rn
    using ends i that by (simp add: endname_def go_index_def go_len_def)
  have "\<exists>rn. go_each ?f [0..<m] cfg = Inr (cfg\<lparr>cfg_net := rn\<rparr>) \<and> n_ends rn = n_ends (cfg_net cfg) \<union> names ` {..<m} \<and>
    n_enabled rn = (\<lambda>e. n_enabled (cfg_net cfg) e \<and> e \<notin> names ` {..<m}) \<and>
    n_connections rn = (\<lambda>e. if e \<in> names ` {..<m} then Some (inv_into {..<cfg_n cfg} names e) else n_connections (cfg_net cfg) e) \<and>
    n_servers rn = n_servers (cfg_net cfg)" if "m \<le> cfg_n cfg" for m
    using that
  proof (induction m)
    case 0
    show ?case by (intro exI[of _ "cfg_net cfg"]) simp
  next
    case (Suc m)
    then obtain rn where IH: "go_each ?f [0..<m] cfg = Inr (cfg\<lparr>cfg_net := rn\<rparr>)" "n_ends rn = n_ends (cfg_net cfg) \<union> names ` {..<m}"
      "n_enabled rn = (\<lambda>e. n_enabled (cfg_net cfg) e \<and> e \<notin> names ` {..<m})"
      "n_connections rn = (\<lambda>e. if e \<in> names ` {..<m} then Some (inv_into {..<cfg_n cfg} names e) else n_connections (cfg_net cfg) e)"
      "n_servers rn = n_servers (cfg_net cfg)" by auto
    have m: "m < cfg_n cfg" using Suc.prems by simp
    have new: "names m \<notin> n_ends rn" using fresh[OF m] m by (auto simp: IH(2) dest!: inj_onD[OF inj])
    have inv: "inv_into {..<cfg_n cfg} names (names m) = m" using inj m by (simp add: inv_into_f_f)
    let ?rn = "Connect (names m) m (rn\<lparr>n_ends := insert (names m) (n_ends rn), n_enabled := (n_enabled rn)(names m := False), n_connections := (n_connections rn)(names m := None)\<rparr>)"
    have "go_each ?f [0..<Suc m] cfg = Inr (cfg\<lparr>cfg_net := ?rn\<rparr>)"
      using IH(1) name[OF m] new by (simp add: go_each_append MakeEnd_def)
    then show ?case
      by (intro exI[of _ ?rn]) (auto simp: Connect_def IH(2-5) lessThan_Suc fun_eq_iff inv)
  qed
  from this[OF order_refl] show ?thesis unfolding make_ends_def by simp
qed


text \<open>
  What \<open>readPersist\<close> accepts: then \<open>Make\<close> returns. The names for the ends of a new instance
  are new.
\<close>

definition readable :: "'c gob list \<Rightarrow> bool" where
  "readable d \<longleftrightarrow> (\<forall>rf. \<exists>rf'. readPersist d rf = Inr rf')"

lemma readable_Make: "readable (ReadRaftState ps) \<Longrightarrow> \<exists>rf. Make n i ps now rnd = Inr rf"
  unfolding Make_def readable_def Let_def go_bind_Inr_iff by blast

definition new_names :: "(nat \<Rightarrow> string) \<Rightarrow> ('c, 'a, 'r) config \<Rightarrow> bool" where
  "new_names names cfg \<longleftrightarrow> inj_on names {..<cfg_n cfg} \<and> (\<forall>j<cfg_n cfg. names j \<notin> n_ends (cfg_net cfg))"

text \<open>What \<open>start1\<close> gives to \<open>Make\<close>.\<close>

definition boot_disk :: "nat \<Rightarrow> ('c, 'a, 'r) config \<Rightarrow> 'c gob Persister" where
  "boot_disk i cfg = (case saved_of i cfg of Some ps \<Rightarrow> start1_saved ps | None \<Rightarrow> MakePersister)"

lemma boot_disk_saved: "(case crash_disk i cfg of Some ps \<Rightarrow> Copy ps | None \<Rightarrow> MakePersister) = boot_disk i cfg"
  by (auto simp: crash_disk_def boot_disk_def start1_saved_def split: option.split)

text \<open>New ends for server \<open>i\<close>, which is not connected, and a new peer at address \<open>a\<close>.\<close>

lemma wired_restarted:
  assumes w: "wired c" and i: "i < cfg_n c" and off: "\<not> cfg_connected c ! i" and new: "new_names names c"
    and e: "cfg_n e = cfg_n c" "cfg_connected e = cfg_connected c" "cfg_endnames e = (cfg_endnames c)[i := Some (map names [0..<cfg_n c])]"
      "cfg_rafts e = (cfg_rafts c)[i := Some (cfg_next c)]" "length (cfg_saved e) = cfg_n c" "cfg_next e = cfg_next c + 1"
    and net: "n_ends (cfg_net e) = n_ends (cfg_net c) \<union> names ` {..<cfg_n c}"
      "n_enabled (cfg_net e) = (\<lambda>x. n_enabled (cfg_net c) x \<and> x \<notin> names ` {..<cfg_n c})"
      "n_connections (cfg_net e) = (\<lambda>x. if x \<in> names ` {..<cfg_n c} then Some (inv_into {..<cfg_n c} names x) else n_connections (cfg_net c) x)"
      "n_servers (cfg_net e) = (n_servers (cfg_net c))(i := Some (cfg_next c))"
  shows "wired e"
proof -
  let ?n = "cfg_n c"
  have l: "laid_out c" and ap: "links_apart c" and en: "n_enabled (cfg_net c) = open_ends c"
    and ln: "\<And>a b x. a < ?n \<Longrightarrow> b < ?n \<Longrightarrow> link c a b = Some x \<Longrightarrow> x \<in> n_ends (cfg_net c) \<and> n_connections (cfg_net c) x = Some b"
    and sv: "\<forall>a<?n. n_servers (cfg_net c) a = cfg_rafts c ! a" and al: "\<forall>a<?n. \<forall>b. cfg_rafts c ! a = Some b \<longrightarrow> b < cfg_next c"
    using w by (auto simp: wired_def)
  have inj: "inj_on names {..<?n}" and fr: "names j \<notin> n_ends (cfg_net c)" if "j < ?n" for j using new that by (auto simp: new_names_def)
  have len: "length (cfg_endnames c) = ?n" "length (cfg_rafts c) = ?n" using l by (auto simp: laid_out_def)
  have link: "link e a b = (if a = i then Some (names b) else link c a b)" if "b < ?n" for a b
    using that i len by (simp add: link_def e nth_list_update)
  have old: "x \<notin> names ` {..<?n}" if "a < ?n" "b < ?n" "link c a b = Some x" for a b x using ln[OF that] fr by auto
  have "laid_out e" using l i off by (auto simp: laid_out_def e nth_list_update)
  moreover have "links_apart e"
    unfolding links_apart_def e
  proof (intro allI impI)
    fix a b a' b' x assume ab: "a < ?n" "b < ?n" "a' < ?n" "b' < ?n" and x: "link e a b = Some x" "link e a' b' = Some x"
    show "a = a' \<and> b = b'"
    proof (cases "a = i"; cases "a' = i")
      assume "a = i" "a' = i"
      then show ?thesis using x ab link inj_onD[OF inj[OF i], of b b'] by simp
    next
      assume "a \<noteq> i" "a' \<noteq> i"
      then show ?thesis using x ab link by (intro links_apartD[OF ap ab]) simp_all
    next
      assume "a = i" "a' \<noteq> i"
      then show ?thesis using x ab link old[OF ab(3,4), of x] by auto
    next
      assume "a \<noteq> i" "a' = i"
      then show ?thesis using x ab link old[OF ab(1,2), of x] by auto
    qed
  qed
  moreover have "n_enabled (cfg_net e) = open_ends e"
  proof (rule ext)
    fix x
    show "n_enabled (cfg_net e) x = open_ends e x"
    proof
      assume "n_enabled (cfg_net e) x"
      then obtain a b where ab: "a < ?n" "b < ?n" "link c a b = Some x" "cfg_connected c ! a" "cfg_connected c ! b" by (auto simp: net en open_ends_def)
      then have "a \<noteq> i" using off by auto
      then show "open_ends e x" using ab link by (intro open_endsI[of a _ b]) (simp_all add: e)
    next
      assume "open_ends e x"
      then obtain a b where ab: "a < ?n" "b < ?n" "link e a b = Some x" "cfg_connected c ! a" "cfg_connected c ! b" by (auto simp: e open_ends_def)
      then have "link c a b = Some x" using off link by (cases "a = i") auto
      then show "n_enabled (cfg_net e) x" using ab old by (auto simp: net en intro: open_endsI[of a _ b])
    qed
  qed
  moreover have "x \<in> n_ends (cfg_net e) \<and> n_connections (cfg_net e) x = Some b" if "a < ?n" "b < ?n" "link e a b = Some x" for a b x
    using that link ln[of a b x] old[of a b x] inv_into_f_f[OF inj[OF i], of b] by (cases "a = i") (auto simp: net)
  moreover have "n_servers (cfg_net e) a = cfg_rafts e ! a" if "a < ?n" for a using that sv len i by (simp add: net e nth_list_update)
  moreover have "b < cfg_next e" if "a < ?n" "cfg_rafts e ! a = Some b" for a b
    using that al len i by (cases "a = i") (auto simp: e less_SucI)
  ultimately show ?thesis unfolding wired_def by (simp add: e)
qed

lemma start1_effect:
  fixes cfg :: "('c, 'a, 'r) config"
  assumes w: "wired cfg" and i: "i < cfg_n cfg" and new: "new_names names cfg" and disk: "readable (ReadRaftState (boot_disk i cfg))"
  obtains cfg' rf where "start1 methods names now rnd i cfg = Inr cfg'" and "wired cfg'" and "cfg_n cfg' = cfg_n cfg"
    and "Make (cfg_n cfg) (int i) (boot_disk i cfg) now rnd = Inr rf" and "cfg_heap cfg' (cfg_next cfg) = rf"
    and "cfg_connected cfg' = (cfg_connected cfg)[i := False]" and "cfg_rafts cfg' = (cfg_rafts cfg)[i := Some (cfg_next cfg)]"
    and "cfg_endnames cfg' = (cfg_endnames cfg)[i := Some (map names [0..<cfg_n cfg])]"
    and "cfg_saved cfg' = (cfg_saved cfg)[i := Some (boot_disk i cfg)]"
    and "\<And>a. a \<noteq> cfg_next cfg \<Longrightarrow> a \<notin> set_option (cfg_rafts cfg ! i) \<Longrightarrow> cfg_heap cfg' a = cfg_heap cfg a"
    and "\<And>a. cfg_rafts cfg ! i = Some a \<Longrightarrow> cfg_heap cfg' a = Kill (cfg_heap cfg a)"
    and "n_ends (cfg_net cfg') = n_ends (cfg_net cfg) \<union> names ` {..<cfg_n cfg}"
proof -
  let ?n = "cfg_n cfg"
  obtain c where c: "crash1 i cfg = Inr c" "wired c" "cfg_n c = ?n" "cfg_endnames c = cfg_endnames cfg"
    "cfg_connected c = (cfg_connected cfg)[i := False]" "cfg_rafts c = (cfg_rafts cfg)[i := None]"
    "cfg_saved c = (cfg_saved cfg)[i := crash_disk i cfg]" "n_ends (cfg_net c) = n_ends (cfg_net cfg)" "cfg_next c = cfg_next cfg"
    "\<And>a. a \<notin> set_option (cfg_rafts cfg ! i) \<Longrightarrow> cfg_heap c a = cfg_heap cfg a"
    "\<And>a. cfg_rafts cfg ! i = Some a \<Longrightarrow> cfg_heap c a = Kill (cfg_heap cfg a)"
    by (rule crash1_effect[OF w i]) blast
  have len: "length (cfg_endnames cfg) = ?n" "length (cfg_saved cfg) = ?n" "length (cfg_connected cfg) = ?n" using w by (auto simp: wired_def laid_out_def)
  let ?es = "(cfg_endnames cfg)[i := Some (map names [0..<?n])]"
  let ?d = "c\<lparr>cfg_endnames := ?es\<rparr>"
  have newc: "new_names names c" using new by (simp add: new_names_def c)
  obtain rn where rn: "make_ends i ?d = Inr (?d\<lparr>cfg_net := rn\<rparr>)" "n_ends rn = n_ends (cfg_net c) \<union> names ` {..<?n}"
    "n_enabled rn = (\<lambda>e. n_enabled (cfg_net c) e \<and> e \<notin> names ` {..<?n})"
    "n_connections rn = (\<lambda>e. if e \<in> names ` {..<?n} then Some (inv_into {..<?n} names e) else n_connections (cfg_net c) e)"
    "n_servers rn = n_servers (cfg_net c)"
  proof -
    have d: "cfg_n ?d = ?n" "cfg_net ?d = cfg_net c" by (simp_all add: c)
    have "\<exists>rn. make_ends i ?d = Inr (?d\<lparr>cfg_net := rn\<rparr>) \<and> n_ends rn = n_ends (cfg_net c) \<union> names ` {..<?n} \<and>
      n_enabled rn = (\<lambda>e. n_enabled (cfg_net c) e \<and> e \<notin> names ` {..<?n}) \<and>
      n_connections rn = (\<lambda>e. if e \<in> names ` {..<?n} then Some (inv_into {..<?n} names e) else n_connections (cfg_net c) e) \<and>
      n_servers rn = n_servers (cfg_net c)"
      by (rule make_ends_effect[of ?d i names, unfolded d]) (use newc i len in \<open>auto simp: new_names_def c\<close>)
    then show thesis using that by blast
  qed
  obtain rf where rf: "Make ?n (int i) (boot_disk i cfg) now rnd = Inr rf" using readable_Make[OF disk] by blast
  let ?a = "cfg_next cfg"
  let ?srv = "AddService (MakeService ''Raft'' ?a methods) MakeServer"
  let ?e = "?d\<lparr>cfg_saved := (cfg_saved c)[i := Some (boot_disk i cfg)], cfg_heap := (cfg_heap c)(?a := rf), cfg_rafts := (cfg_rafts c)[i := Some ?a],
     cfg_next := ?a + 1, cfg_net := AddServer i ?a (rn\<lparr>n_srv := (n_srv rn)(?a := ?srv)\<rparr>)\<rparr>"
  have disk': "(case cfg_saved (?d\<lparr>cfg_net := rn\<rparr>) ! i of Some ps \<Rightarrow> Copy ps | None \<Rightarrow> MakePersister) = boot_disk i cfg"
    using boot_disk_saved[of i cfg] i len by (simp add: c)
  have "start1 methods names now rnd i cfg = Inr ?e"
    unfolding start1_def c(1) using rn(1) rf i len disk' by (simp add: go_set_def go_len_def c start_peer_def Let_def)
  moreover have "wired ?e"
    by (rule wired_restarted[OF c(2), where i = i and names = names]) (use i len newc rn in \<open>auto simp: c AddServer_def\<close>)
  moreover have "cfg_heap ?e x = Kill (cfg_heap cfg x)" if "cfg_rafts cfg ! i = Some x" for x
    using c(11)[OF that] w i that by (auto simp: wired_def)
  ultimately show thesis using rf rn(2) c(10) by (intro that[of ?e rf]) (auto simp: c AddServer_def)
qed


section \<open>Sequences of operations\<close>

text \<open>
  What a test does to its servers, with the peers running in between: they change their own
  state in any way that leaves their disks readable.
\<close>

datatype 'c tester_op =
    DoConnect nat
  | DoDisconnect nat
  | DoCrash nat
  | DoStart nat "nat \<Rightarrow> string" int nat
  | PeersRun "nat \<Rightarrow> 'c Raft"

definition heap_ok :: "(nat \<Rightarrow> 'c Raft) \<Rightarrow> bool" where
  "heap_ok heap \<longleftrightarrow> (\<forall>a. readable (ReadRaftState (rf_persister (heap a))))"

fun do_op :: "(nat, 'a, 'r) Method list \<Rightarrow> 'c tester_op \<Rightarrow> ('c, 'a, 'r) config \<Rightarrow> ('c, 'a, 'r) config go" where
  "do_op methods (DoConnect i) cfg = connect i cfg"
| "do_op methods (DoDisconnect i) cfg = disconnect i cfg"
| "do_op methods (DoCrash i) cfg = crash1 i cfg"
| "do_op methods (DoStart i names now rnd) cfg = start1 methods names now rnd i cfg"
| "do_op methods (PeersRun heap) cfg = Inr (cfg\<lparr>cfg_heap := heap\<rparr>)"

fun legal :: "'c tester_op \<Rightarrow> ('c, 'a, 'r) config \<Rightarrow> bool" where
  "legal (DoConnect i) cfg \<longleftrightarrow> i < cfg_n cfg"
| "legal (DoDisconnect i) cfg \<longleftrightarrow> i < cfg_n cfg"
| "legal (DoCrash i) cfg \<longleftrightarrow> i < cfg_n cfg"
| "legal (DoStart i names now rnd) cfg \<longleftrightarrow> i < cfg_n cfg \<and> new_names names cfg"
| "legal (PeersRun heap) cfg \<longleftrightarrow> heap_ok heap"

fun all_legal :: "(nat, 'a, 'r) Method list \<Rightarrow> 'c tester_op list \<Rightarrow> ('c, 'a, 'r) config \<Rightarrow> bool" where
  "all_legal methods [] cfg \<longleftrightarrow> True"
| "all_legal methods (x # xs) cfg \<longleftrightarrow> legal x cfg \<and> (case do_op methods x cfg of Inr cfg' \<Rightarrow> all_legal methods xs cfg' | Inl _ \<Rightarrow> True)"

text \<open>The invariant of these sequences.\<close>

definition disks_ok :: "('c, 'a, 'r) config \<Rightarrow> bool" where
  "disks_ok cfg \<longleftrightarrow> heap_ok (cfg_heap cfg) \<and> (\<forall>i<cfg_n cfg. \<forall>ps. cfg_saved cfg ! i = Some ps \<longrightarrow> readable (ReadRaftState ps)) \<and>
     (\<forall>i<cfg_n cfg. cfg_rafts cfg ! i \<noteq> None \<longrightarrow> cfg_saved cfg ! i \<noteq> None)"

definition sound :: "nat \<Rightarrow> ('c, 'a, 'r) config \<Rightarrow> bool" where
  "sound n cfg \<longleftrightarrow> wired cfg \<and> disks_ok cfg \<and> cfg_n cfg = n \<and> (\<forall>i<n. cfg_endnames cfg ! i \<noteq> None)"

lemma readable_blank [simp]: "readable []"
  by (simp add: readable_def readPersist_def go_len_def)

lemma disks_boot: "disks_ok cfg \<Longrightarrow> i < cfg_n cfg \<Longrightarrow> readable (ReadRaftState (boot_disk i cfg))"
  by (auto simp: disks_ok_def boot_disk_def saved_of_def heap_ok_def disk.load_blank split: option.split)

lemma disks_crash: "disks_ok cfg \<Longrightarrow> i < cfg_n cfg \<Longrightarrow> crash_disk i cfg = Some ps \<Longrightarrow> readable (ReadRaftState ps)"
  by (auto simp: disks_ok_def crash_disk_def saved_of_def heap_ok_def split: option.splits)

lemma disks_update:
  assumes "wired cfg" and "disks_ok cfg" and i: "i < cfg_n cfg" and n: "cfg_n cfg' = cfg_n cfg" and "heap_ok (cfg_heap cfg')"
    and s: "cfg_saved cfg' = (cfg_saved cfg)[i := d]" and r: "\<And>ps. d = Some ps \<Longrightarrow> readable (ReadRaftState ps)"
    and p: "cfg_rafts cfg' = (cfg_rafts cfg)[i := q]" "q \<noteq> None \<Longrightarrow> d \<noteq> None"
  shows "disks_ok cfg'"
proof -
  have len: "length (cfg_saved cfg) = cfg_n cfg" "length (cfg_rafts cfg) = cfg_n cfg" using assms(1) by (auto simp: wired_def laid_out_def)
  have "cfg_saved cfg' ! j \<noteq> None" if "j < cfg_n cfg" "cfg_rafts cfg' ! j \<noteq> None" for j
    using that assms(2) p i len by (cases "j = i") (auto simp: s disks_ok_def)
  moreover have "readable (ReadRaftState ps)" if "j < cfg_n cfg" "cfg_saved cfg' ! j = Some ps" for j ps
    using that assms(2) r i len by (cases "j = i") (auto simp: s disks_ok_def)
  ultimately show ?thesis using assms(5) n by (simp add: disks_ok_def)
qed

lemma Kill_disk [simp]: "rf_persister (Kill rf) = rf_persister rf"
  by (simp add: Kill_def)

lemma Make_disk: "Make n i ps now rnd = Inr rf \<Longrightarrow> rf_persister rf = ps"
  by (auto simp: Make_def readPersist_def Let_def go_simps split: if_splits option.splits prod.splits)

lemma crash1_sound:
  assumes "sound n cfg" and "i < n"
  shows "\<exists>cfg'. crash1 i cfg = Inr cfg' \<and> sound n cfg'"
proof -
  have w: "wired cfg" and d: "disks_ok cfg" and n: "cfg_n cfg = n" and e: "\<forall>i<n. cfg_endnames cfg ! i \<noteq> None" using assms(1) by (auto simp: sound_def)
  have i: "i < cfg_n cfg" using n assms(2) by simp
  obtain c where c: "crash1 i cfg = Inr c" "wired c" "cfg_n c = cfg_n cfg" "cfg_endnames c = cfg_endnames cfg"
    "cfg_saved c = (cfg_saved cfg)[i := crash_disk i cfg]"
    "\<And>a. a \<notin> set_option (cfg_rafts cfg ! i) \<Longrightarrow> cfg_heap c a = cfg_heap cfg a"
    "\<And>a. cfg_rafts cfg ! i = Some a \<Longrightarrow> cfg_heap c a = Kill (cfg_heap cfg a)" "cfg_rafts c = (cfg_rafts cfg)[i := None]"
    by (rule crash1_effect[OF w i]) blast
  have "rf_persister (cfg_heap c a) = rf_persister (cfg_heap cfg a)" for a using c(6,7) by (cases "cfg_rafts cfg ! i = Some a") auto
  then have "heap_ok (cfg_heap c)" using d by (simp add: disks_ok_def heap_ok_def)
  then have "disks_ok c" by (rule disks_update[OF w d i c(3) _ c(5) _ c(8)]) (use disks_crash[OF d i] in simp_all)
  then show ?thesis using c(1-4) n e by (simp add: sound_def)
qed

text \<open>Starting a server, also while \<open>make_config\<close> has not started all of them.\<close>

lemma start1_disks:
  assumes w: "wired cfg" and d: "disks_ok cfg" and i: "i < cfg_n cfg" and new: "new_names names cfg"
  obtains cfg' where "start1 methods names now rnd i cfg = Inr cfg'" and "wired cfg'" and "disks_ok cfg'" and "cfg_n cfg' = cfg_n cfg"
    and "cfg_endnames cfg' = (cfg_endnames cfg)[i := Some (map names [0..<cfg_n cfg])]"
    and "n_ends (cfg_net cfg') = n_ends (cfg_net cfg) \<union> names ` {..<cfg_n cfg}"
    and "cfg_rafts cfg' = (cfg_rafts cfg)[i := Some (cfg_next cfg)]"
proof -
  note b = disks_boot[OF d i]
  obtain c rf where c: "start1 methods names now rnd i cfg = Inr c" "wired c" "cfg_n c = cfg_n cfg"
    "Make (cfg_n cfg) (int i) (boot_disk i cfg) now rnd = Inr rf" "cfg_heap c (cfg_next cfg) = rf"
    "cfg_endnames c = (cfg_endnames cfg)[i := Some (map names [0..<cfg_n cfg])]" "cfg_saved c = (cfg_saved cfg)[i := Some (boot_disk i cfg)]"
    "\<And>a. a \<noteq> cfg_next cfg \<Longrightarrow> a \<notin> set_option (cfg_rafts cfg ! i) \<Longrightarrow> cfg_heap c a = cfg_heap cfg a"
    "\<And>a. cfg_rafts cfg ! i = Some a \<Longrightarrow> cfg_heap c a = Kill (cfg_heap cfg a)"
    "n_ends (cfg_net c) = n_ends (cfg_net cfg) \<union> names ` {..<cfg_n cfg}" "cfg_rafts c = (cfg_rafts cfg)[i := Some (cfg_next cfg)]"
    by (rule start1_effect[OF w i new b, where methods = methods and now = now and rnd = rnd]) blast
  have "readable (ReadRaftState (rf_persister (cfg_heap c a)))" for a
  proof (cases "a = cfg_next cfg")
    case True
    then show ?thesis using b c(5) Make_disk[OF c(4)] by simp
  next
    case False
    then have "rf_persister (cfg_heap c a) = rf_persister (cfg_heap cfg a)" using c(8,9) by (cases "cfg_rafts cfg ! i = Some a") auto
    then show ?thesis using d by (simp add: disks_ok_def heap_ok_def)
  qed
  then have "heap_ok (cfg_heap c)" by (simp add: heap_ok_def)
  then have "disks_ok c" by (rule disks_update[OF w d i c(3) _ c(7) _ c(11)]) (use b in simp_all)
  with c show thesis using that by blast
qed

lemma connect_sound:
  assumes "sound n cfg" and "i < n"
  shows "\<exists>cfg'. connect i cfg = Inr cfg' \<and> sound n cfg' \<and> cfg_connected cfg' = (cfg_connected cfg)[i := True] \<and> cfg_rafts cfg' = cfg_rafts cfg \<and>
     n_ends (cfg_net cfg') = n_ends (cfg_net cfg)"
proof -
  have w: "wired cfg" and i: "i < cfg_n cfg" and e: "cfg_endnames cfg ! i \<noteq> None" using assms by (auto simp: sound_def)
  have "laid_out (with_connected i True cfg)" by (rule laid_out_connected) (use w i e in \<open>auto simp: wired_def\<close>)
  from wired_connected[OF w this] show ?thesis
    unfolding connect_effect[OF w i e] using assms(1) by (auto simp: sound_def disks_ok_def)
qed

lemma disconnect_sound:
  assumes "sound n cfg" and "i < n"
  shows "\<exists>cfg'. disconnect i cfg = Inr cfg' \<and> sound n cfg'"
proof -
  have w: "wired cfg" and i: "i < cfg_n cfg" using assms by (auto simp: sound_def)
  have "laid_out (with_connected i False cfg)" by (rule laid_out_connected) (use w i in \<open>auto simp: wired_def\<close>)
  from wired_connected[OF w this] show ?thesis
    unfolding disconnect_effect[OF w i] using assms(1) by (auto simp: sound_def disks_ok_def)
qed

lemma do_op_sound:
  assumes "sound n cfg" and "legal x cfg"
  shows "\<exists>cfg'. do_op methods x cfg = Inr cfg' \<and> sound n cfg'"
proof (cases x)
  case (DoStart i names now rnd)
  have s: "wired cfg" "disks_ok cfg" "cfg_n cfg = n" "\<forall>i<n. cfg_endnames cfg ! i \<noteq> None" using assms(1) by (auto simp: sound_def)
  have i: "i < cfg_n cfg" and new: "new_names names cfg" using assms(2) DoStart by auto
  obtain c where "start1 methods names now rnd i cfg = Inr c" "wired c" "disks_ok c" "cfg_n c = cfg_n cfg"
    "cfg_endnames c = (cfg_endnames cfg)[i := Some (map names [0..<cfg_n cfg])]"
    by (rule start1_disks[OF s(1,2) i new, where methods = methods and now = now and rnd = rnd]) blast
  moreover have "(cfg_endnames cfg)[i := Some (map names [0..<cfg_n cfg])] ! j \<noteq> None" if "j < n" for j
    using s i that by (cases "j = i") (auto simp: wired_def laid_out_def)
  ultimately show ?thesis using s(3) DoStart by (simp add: sound_def)
next
  case (DoConnect i)
  then have "i < n" using assms by (simp add: sound_def)
  then show ?thesis using connect_sound[OF assms(1)] DoConnect by fastforce
next
  case (PeersRun heap)
  then show ?thesis using assms PeersRun by (simp add: sound_def disks_ok_def)
qed (use assms disconnect_sound[OF assms(1)] crash1_sound[OF assms(1)] in \<open>auto simp: sound_def\<close>)

lemma do_ops_sound:
  assumes "sound n cfg" and "all_legal methods xs cfg"
  shows "\<exists>cfg'. go_each (do_op methods) xs cfg = Inr cfg' \<and> sound n cfg'"
  using assms
proof (induction xs arbitrary: cfg)
  case (Cons x xs)
  obtain c where c: "do_op methods x cfg = Inr c" "sound n c" using do_op_sound[OF Cons.prems(1), of x methods] Cons.prems(2) by auto
  then show ?case using Cons.IH[OF c(2)] Cons.prems(2) by simp
qed simp


section \<open>The initial configuration\<close>

text \<open>The first loop of \<open>make_config\<close> after \<open>m\<close> servers.\<close>

definition started :: "(nat \<Rightarrow> nat \<Rightarrow> string) \<Rightarrow> nat \<Rightarrow> nat \<Rightarrow> ('c, 'a, 'r) config \<Rightarrow> bool" where
  "started names n m cfg \<longleftrightarrow> wired cfg \<and> disks_ok cfg \<and> cfg_n cfg = n \<and> (\<forall>i<m. cfg_endnames cfg ! i \<noteq> None \<and> cfg_rafts cfg ! i \<noteq> None) \<and>
     n_ends (cfg_net cfg) = (\<lambda>(i, j). names i j) ` ({..<m} \<times> {..<n})"

lemma started_logs: "started names n m cfg \<Longrightarrow> started names n m (cfg\<lparr>cfg_logs := ls\<rparr>)"
  by (simp add: started_def disks_ok_def)

lemma started_step:
  assumes s: "started names n m cfg" and m: "m < n" and inj: "inj_on (\<lambda>(i, j). names i j) ({..<n} \<times> {..<n})"
  shows "\<exists>cfg'. start1 methods (names m) now rnd m cfg = Inr cfg' \<and> started names n (Suc m) cfg'"
proof -
  have d: "wired cfg" "disks_ok cfg" "cfg_n cfg = n" "\<forall>i<m. cfg_endnames cfg ! i \<noteq> None \<and> cfg_rafts cfg ! i \<noteq> None"
    and ends: "n_ends (cfg_net cfg) = (\<lambda>(i, j). names i j) ` ({..<m} \<times> {..<n})" using s by (auto simp: started_def)
  have same: "i = i' \<and> j = j'" if "i < n" "j < n" "i' < n" "j' < n" "names i j = names i' j'" for i j i' j'
    using inj_onD[OF inj, of "(i, j)" "(i', j')"] that by auto
  have "inj_on (names m) {..<n}" using same m by (auto intro!: inj_onI)
  moreover have "names m j \<notin> n_ends (cfg_net cfg)" if "j < n" for j
  proof
    assume "names m j \<in> n_ends (cfg_net cfg)"
    then obtain a b where "a < m" "b < n" "names m j = names a b" unfolding ends by auto
    then show False using same[of m j a b] m that by auto
  qed
  ultimately have new: "new_names (names m) cfg" by (simp add: new_names_def d(3))
  have mn: "m < cfg_n cfg" using m d(3) by simp
  obtain c where c: "start1 methods (names m) now rnd m cfg = Inr c" "wired c" "disks_ok c" "cfg_n c = cfg_n cfg"
    "cfg_endnames c = (cfg_endnames cfg)[m := Some (map (names m) [0..<cfg_n cfg])]"
    "n_ends (cfg_net c) = n_ends (cfg_net cfg) \<union> names m ` {..<cfg_n cfg}" "cfg_rafts c = (cfg_rafts cfg)[m := Some (cfg_next cfg)]"
    by (rule start1_disks[OF d(1,2) mn new, where methods = methods and now = now and rnd = rnd]) blast
  have len: "length (cfg_endnames cfg) = n" "length (cfg_rafts cfg) = n" using d(1,3) by (auto simp: wired_def laid_out_def)
  have "cfg_endnames c ! i \<noteq> None \<and> cfg_rafts c ! i \<noteq> None" if "i < Suc m" for i
    using that d(4) len m unfolding c(5,7) by (cases "i = m") auto
  moreover have "n_ends (cfg_net c) = (\<lambda>(i, j). names i j) ` ({..<Suc m} \<times> {..<n})"
    unfolding c(6) ends d(3) lessThan_Suc by auto
  ultimately show ?thesis using c d(3) by (auto simp: started_def)
qed

lemma make_config_sound:
  fixes heap :: "nat \<Rightarrow> 'c Raft" and methods :: "(nat, 'a, 'r) Method list"
  assumes inj: "inj_on (\<lambda>(i, j). names i j) ({..<n} \<times> {..<n})" and heap: "heap_ok heap"
  shows "\<exists>cfg. make_config methods names now rnd heap n unreliable = Inr cfg \<and> sound n cfg \<and> cfg_connected cfg = replicate n True \<and>
    (\<forall>i<n. cfg_rafts cfg ! i \<noteq> None) \<and> n_ends (cfg_net cfg) = (\<lambda>(i, j). names i j) ` ({..<n} \<times> {..<n})"
proof -
  define cfg0 :: "('c, 'a, 'r) config" where "cfg0 = (let cfg = \<lparr>cfg_net = MakeNetwork, cfg_n = n, cfg_rafts = replicate n None, cfg_applyErr = replicate n '''',
                 cfg_connected = replicate n False, cfg_saved = replicate n None, cfg_endnames = replicate n None,
                 cfg_logs = replicate n Map.empty, cfg_start = now, cfg_t0 = 0, cfg_rpcs0 = 0, cfg_cmds0 = 0,
                 cfg_bytes0 = 0, cfg_maxIndex = 0, cfg_maxIndex0 = 0, cfg_failed = False, cfg_heap = heap, cfg_next = 0\<rparr>;
          cfg = setunreliable unreliable cfg
     in cfg\<lparr>cfg_net := LongDelays True (cfg_net cfg)\<rparr>)"
  let ?f = "\<lambda>i cfg. start1 methods (names i) now rnd i (cfg\<lparr>cfg_logs := (cfg_logs cfg)[i := Map.empty]\<rparr>)"
  have "started names n 0 cfg0"
    using heap by (auto simp: started_def wired_def laid_out_def links_apart_def link_def open_ends_def disks_ok_def cfg0_def Let_def
      setunreliable_def Reliable_def LongDelays_def MakeNetwork_def fun_eq_iff)
  then have "\<exists>cfg. go_each ?f [0..<m] cfg0 = Inr cfg \<and> started names n m cfg" if "m \<le> n" for m
    using that
  proof (induction m)
    case (Suc m)
    then obtain c where c: "go_each ?f [0..<m] cfg0 = Inr c" "started names n m c" by auto
    then show ?case using started_step[OF started_logs[OF c(2), of "(cfg_logs c)[m := Map.empty]"] _ inj, of methods now rnd] Suc.prems
      by (auto simp: go_each_append)
  qed simp
  then obtain c where c: "go_each ?f [0..<n] cfg0 = Inr c" "started names n n c" by blast
  have s: "sound n c" "\<forall>i<n. cfg_rafts c ! i \<noteq> None" "n_ends (cfg_net c) = (\<lambda>(i, j). names i j) ` ({..<n} \<times> {..<n})" using c(2) by (auto simp: started_def sound_def)
  have "\<exists>cfg. go_each connect [0..<m] c = Inr cfg \<and> sound n cfg \<and> (\<forall>i<m. cfg_connected cfg ! i) \<and> cfg_rafts cfg = cfg_rafts c \<and>
    n_ends (cfg_net cfg) = n_ends (cfg_net c)" if "m \<le> n" for m
    using that
  proof (induction m)
    case 0
    then show ?case using s by simp
  next
    case (Suc m)
    then obtain d where d: "go_each connect [0..<m] c = Inr d" "sound n d" "\<forall>i<m. cfg_connected d ! i" "cfg_rafts d = cfg_rafts c" "n_ends (cfg_net d) = n_ends (cfg_net c)" by auto
    obtain d' where d': "connect m d = Inr d'" "sound n d'" "cfg_connected d' = (cfg_connected d)[m := True]" "cfg_rafts d' = cfg_rafts d" "n_ends (cfg_net d') = n_ends (cfg_net d)" using connect_sound[OF d(2), of m] Suc.prems by auto
    have "length (cfg_connected d) = n" using d(2) by (simp add: sound_def wired_def laid_out_def)
    then have "cfg_connected d' ! i" if "i < Suc m" for i using that d(3) d'(3) Suc.prems by (cases "i = m") auto
    then show ?case using d(1,4,5) d'(1,2,4,5) by (auto simp: go_each_append)
  qed
  then obtain d where d: "go_each connect [0..<n] c = Inr d" "sound n d" "\<forall>i<n. cfg_connected d ! i" "cfg_rafts d = cfg_rafts c" "n_ends (cfg_net d) = n_ends (cfg_net c)" by blast
  have "cfg_connected d = replicate n True" using d(2,3) by (intro nth_equalityI) (auto simp: sound_def wired_def laid_out_def)
  moreover have "make_config methods names now rnd heap n unreliable = Inr d"
    using c(1) d(1) by (simp add: make_config_def cfg0_def Let_def)
  ultimately show ?thesis using d(2,4,5) s(2,3) by auto
qed

text \<open>What a call finds on the link between two servers of a wired configuration.\<close>

lemma wired_info:
  assumes "sound n cfg" and "i < n" and "j < n"
  shows "\<exists>e. endname cfg i j = Inr e \<and> readEndnameInfo e (cfg_net cfg) =
     (cfg_connected cfg ! i \<and> cfg_connected cfg ! j, Some j, cfg_rafts cfg ! j, n_reliable (cfg_net cfg), n_longReordering (cfg_net cfg))"
proof -
  have w: "wired cfg" and n: "cfg_n cfg = n" and ends: "cfg_endnames cfg ! i \<noteq> None" using assms by (auto simp: sound_def)
  then obtain e where e: "link cfg i j = Some e" by (auto simp: link_def)
  have nm: "endname cfg i j = Inr e" using link_index[of cfg i j] w assms(2,3) n e by (simp add: wired_def)
  have "n_enabled (cfg_net cfg) e \<longleftrightarrow> cfg_connected cfg ! i \<and> cfg_connected cfg ! j"
  proof
    assume "n_enabled (cfg_net cfg) e"
    then obtain a b where ab: "a < n" "b < n" "link cfg a b = Some e" "cfg_connected cfg ! a" "cfg_connected cfg ! b"
      using w n by (auto simp: wired_def open_ends_def)
    then show "cfg_connected cfg ! i \<and> cfg_connected cfg ! j"
      using links_apartD[of cfg i j a b e] w n assms(2,3) e by (auto simp: wired_def)
  qed (use w n assms(2,3) e in \<open>auto simp: wired_def intro: open_endsI\<close>)
  moreover have "n_connections (cfg_net cfg) e = Some j" "n_servers (cfg_net cfg) j = cfg_rafts cfg ! j" using w n e assms(2,3) by (auto simp: wired_def)
  ultimately show ?thesis using nm by (intro exI[of _ e]) (simp add: readEndnameInfo_def)
qed

end
