(* ===== verification/Tester_Theorems.thy ===== *)
theory Tester_Theorems
  imports Tester_Run Tester_Checks Tester_Wiring
begin

text \<open>
  What the Raft tester shows. Its readers of the apply channels accept exactly sequences of
  messages without conflicts and gaps, its count of committed servers is right; on a cluster
  whose vote requests are built in their election's term none of its checks for agreement or
  for a single leader ever fires, whatever the readers' speed and whenever it looks. Its
  connections carry messages between exactly the servers it has connected.
\<close>

section \<open>The readers\<close>

lemma apply_reader_accepts:
  assumes "CommandValid m" and "i < length (cfg_logs cfg)"
  shows "(\<exists>cfg'. apply_reader i m cfg = Inr cfg') \<longleftrightarrow>
     (\<forall>l\<in>set (cfg_logs cfg). \<forall>v. l (CommandIndex m) = Some v \<longrightarrow> v = am_Command m) \<and>
     (1 < CommandIndex m \<longrightarrow> (cfg_logs cfg ! i) (CommandIndex m - 1) \<noteq> None)"
  using assms by (auto simp: apply_reader_def Let_def go_index_def go_len_def list_ex_iff split: if_splits)

lemma apply_reader_logs:
  assumes "CommandValid m" and "apply_reader i m cfg = Inr cfg'"
  shows "cfg_logs cfg' = (cfg_logs cfg)[i := (cfg_logs cfg ! i)(CommandIndex m \<mapsto> am_Command m)]" and "i < length (cfg_logs cfg)"
  using assms by (auto simp: apply_reader_def Let_def go_simps go_len_def split: if_splits)

text \<open>A run of the readers: each message with the server whose channel it came from.\<close>

definition read_all :: "(nat \<times> 'c ApplyMsg) list \<Rightarrow> ('c, 'a, 'r) config \<Rightarrow> ('c, 'a, 'r) config go" where
  "read_all = go_each (\<lambda>(i, m). apply_reader i m)"

text \<open>What the log copies hold after accepting \<open>ms\<close>: the commands read, which do not conflict.\<close>

definition holds :: "(nat \<times> 'c ApplyMsg) list \<Rightarrow> ('c, 'a, 'r) config \<Rightarrow> bool" where
  "holds ms cfg \<longleftrightarrow> (\<forall>i k v. i < length (cfg_logs cfg) \<longrightarrow>
     ((cfg_logs cfg ! i) k = Some v \<longleftrightarrow> (\<exists>m. (i, m) \<in> set ms \<and> CommandIndex m = k \<and> am_Command m = v)))"

definition agreeing_reads :: "(nat \<times> 'c ApplyMsg) list \<Rightarrow> bool" where
  "agreeing_reads ms \<longleftrightarrow> (\<forall>i m j m'. (i, m) \<in> set ms \<longrightarrow> (j, m') \<in> set ms \<longrightarrow> CommandIndex m = CommandIndex m' \<longrightarrow> am_Command m = am_Command m')"

definition gapless_reads :: "(nat \<times> 'c ApplyMsg) list \<Rightarrow> bool" where
  "gapless_reads ms \<longleftrightarrow> (\<forall>p<length ms. 1 < CommandIndex (snd (ms ! p)) \<longrightarrow>
     (\<exists>q<p. fst (ms ! q) = fst (ms ! p) \<and> CommandIndex (snd (ms ! q)) = CommandIndex (snd (ms ! p)) - 1))"

lemma gapless_snoc:
  "gapless_reads (ms @ [(i, m)]) \<longleftrightarrow> gapless_reads ms \<and>
     (1 < CommandIndex m \<longrightarrow> (\<exists>m'. (i, m') \<in> set ms \<and> CommandIndex m' = CommandIndex m - 1))"
proof -
  have last: "(\<exists>q<length ms. fst (ms ! q) = i \<and> CommandIndex (snd (ms ! q)) = c) \<longleftrightarrow> (\<exists>m'. (i, m') \<in> set ms \<and> CommandIndex m' = c)" for c
    by (force simp: in_set_conv_nth)
  have old: "(\<exists>q<p. fst ((ms @ [(i, m)]) ! q) = a \<and> CommandIndex (snd ((ms @ [(i, m)]) ! q)) = c) \<longleftrightarrow>
      (\<exists>q<p. fst (ms ! q) = a \<and> CommandIndex (snd (ms ! q)) = c)" if "p \<le> length ms" for p a c
    by (rule ex_cong1) (use that in \<open>auto simp: nth_append\<close>)
  define ok where "ok xs p \<longleftrightarrow> (1 < CommandIndex (snd (xs ! p)) \<longrightarrow>
     (\<exists>q<p. fst (xs ! q) = fst (xs ! p) \<and> CommandIndex (snd (xs ! q)) = CommandIndex (snd (xs ! p)) - 1))"
    for xs :: "(nat \<times> 'a ApplyMsg) list" and p
  have "ok (ms @ [(i, m)]) p \<longleftrightarrow> ok ms p" if "p < length ms" for p
    unfolding ok_def old[OF less_imp_le[OF that]] using that by (simp add: nth_append)
  moreover have "ok (ms @ [(i, m)]) (length ms) \<longleftrightarrow> (1 < CommandIndex m \<longrightarrow> (\<exists>m'. (i, m') \<in> set ms \<and> CommandIndex m' = CommandIndex m - 1))"
    unfolding ok_def old[OF order.refl] by (simp add: last)
  ultimately show ?thesis
    unfolding gapless_reads_def ok_def[symmetric] length_append_singleton All_less_Suc by (simp add: conj_commute)
qed

lemma agreeing_snoc:
  "agreeing_reads (ms @ [(i, m)]) \<longleftrightarrow> agreeing_reads ms \<and>
     (\<forall>j m'. (j, m') \<in> set ms \<longrightarrow> CommandIndex m' = CommandIndex m \<longrightarrow> am_Command m' = am_Command m)"
  (is "_ \<longleftrightarrow> ?old \<and> ?new")
proof
  assume "agreeing_reads (ms @ [(i, m)])"
  then have a: "am_Command m1 = am_Command m2"
    if "(i1, m1) \<in> set (ms @ [(i, m)])" "(i2, m2) \<in> set (ms @ [(i, m)])" "CommandIndex m1 = CommandIndex m2" for i1 m1 i2 m2
    using that unfolding agreeing_reads_def by blast
  show "?old \<and> ?new"
    unfolding agreeing_reads_def
  proof (intro conjI allI impI)
    fix i1 m1 i2 m2
    assume "(i1, m1) \<in> set ms" "(i2, m2) \<in> set ms" "CommandIndex m1 = CommandIndex m2"
    then show "am_Command m1 = am_Command m2" by (intro a[of i1 m1 i2 m2]) auto
  next
    fix j m'
    assume "(j, m') \<in> set ms" "CommandIndex m' = CommandIndex m"
    then show "am_Command m' = am_Command m" by (intro a[of j m' i m]) auto
  qed
next
  assume a: "?old \<and> ?new"
  show "agreeing_reads (ms @ [(i, m)])"
    unfolding agreeing_reads_def
  proof (intro allI impI)
    fix i1 m1 i2 m2
    assume x: "(i1, m1) \<in> set (ms @ [(i, m)])" "(i2, m2) \<in> set (ms @ [(i, m)])" and k: "CommandIndex m1 = CommandIndex m2"
    have old: "am_Command m1 = am_Command m2" if "(i1, m1) \<in> set ms" "(i2, m2) \<in> set ms"
      using a that k unfolding agreeing_reads_def by blast
    have new: "(j, m') \<in> set ms \<Longrightarrow> CommandIndex m' = CommandIndex m \<Longrightarrow> am_Command m' = am_Command m" for j m' using a by blast
    from x have "((i1, m1) \<in> set ms \<or> m1 = m)" "((i2, m2) \<in> set ms \<or> m2 = m)" by auto
    then show "am_Command m1 = am_Command m2" using old new[of i1 m1] new[of i2 m2] k by auto
  qed
qed

lemma read_all_snoc: "read_all (ms @ [(i, m)]) cfg = go_bind (read_all ms cfg) (apply_reader i m)"
  by (cases "read_all ms cfg") (simp_all add: read_all_def go_each_append go_bind_def split: sum.splits)

lemma read_all_accepts:
  assumes "\<forall>(i, m)\<in>set ms. i < n \<and> CommandValid m" and empty: "cfg_logs cfg = replicate n Map.empty"
  shows "((\<exists>cfg'. read_all ms cfg = Inr cfg') \<longleftrightarrow> agreeing_reads ms \<and> gapless_reads ms) \<and>
    (\<forall>cfg'. read_all ms cfg = Inr cfg' \<longrightarrow> length (cfg_logs cfg') = n \<and> holds ms cfg')"
  using assms(1)
proof (induction ms rule: rev_induct)
  case Nil
  then show ?case using empty by (simp add: read_all_def agreeing_reads_def gapless_reads_def holds_def)
next
  case (snoc x ms)
  obtain i m where x: "x = (i, m)" by (cases x)
  have i: "i < n" and v: "CommandValid m" using snoc.prems x by auto
  have IH: "(\<exists>cfg'. read_all ms cfg = Inr cfg') \<longleftrightarrow> agreeing_reads ms \<and> gapless_reads ms"
    "\<And>cfg'. read_all ms cfg = Inr cfg' \<Longrightarrow> length (cfg_logs cfg') = n \<and> holds ms cfg'"
    using snoc.IH snoc.prems by auto
  show ?case
  proof (cases "read_all ms cfg")
    case (Inl e)
    then show ?thesis using IH(1) by (simp add: x read_all_snoc gapless_snoc agreeing_snoc) auto
  next
    case (Inr c)
    have len: "length (cfg_logs c) = n" and h: "holds ms c" using IH(2)[OF Inr] by auto
    have "(\<forall>l\<in>set (cfg_logs c). \<forall>v. l (CommandIndex m) = Some v \<longrightarrow> v = am_Command m) \<longleftrightarrow>
        (\<forall>j m'. (j, m') \<in> set ms \<longrightarrow> CommandIndex m' = CommandIndex m \<longrightarrow> am_Command m' = am_Command m)"
    proof -
      have "(\<forall>l\<in>set (cfg_logs c). \<forall>v. l (CommandIndex m) = Some v \<longrightarrow> v = am_Command m) \<longleftrightarrow>
          (\<forall>j<n. \<forall>v. (cfg_logs c ! j) (CommandIndex m) = Some v \<longrightarrow> v = am_Command m)" by (simp add: all_set_conv_all_nth len)
      also have "\<dots> \<longleftrightarrow> (\<forall>j<n. \<forall>m'. (j, m') \<in> set ms \<longrightarrow> CommandIndex m' = CommandIndex m \<longrightarrow> am_Command m' = am_Command m)"
        using h unfolding holds_def len by metis
      also have "\<dots> \<longleftrightarrow> (\<forall>j m'. (j, m') \<in> set ms \<longrightarrow> CommandIndex m' = CommandIndex m \<longrightarrow> am_Command m' = am_Command m)"
        using snoc.prems by auto
      finally show ?thesis .
    qed
    moreover have "(cfg_logs c ! i) (CommandIndex m - 1) \<noteq> None \<longleftrightarrow> (\<exists>m'. (i, m') \<in> set ms \<and> CommandIndex m' = CommandIndex m - 1)"
      using h i len unfolding holds_def by (metis not_None_eq)
    ultimately have "(\<exists>cfg'. read_all (ms @ [(i, m)]) cfg = Inr cfg') \<longleftrightarrow> agreeing_reads (ms @ [(i, m)]) \<and> gapless_reads (ms @ [(i, m)])"
      using IH(1) Inr apply_reader_accepts[OF v, of i c] i len by (auto simp: read_all_snoc gapless_snoc agreeing_snoc)
    moreover have "length (cfg_logs cfg') = n \<and> holds (ms @ [(i, m)]) cfg'" if "read_all (ms @ [(i, m)]) cfg = Inr cfg'" for cfg'
    proof -
      have r: "apply_reader i m c = Inr cfg'" using that Inr by (simp add: read_all_snoc)
      note l = apply_reader_logs[OF v r]
      have "\<forall>l\<in>set (cfg_logs c). \<forall>w. l (CommandIndex m) = Some w \<longrightarrow> w = am_Command m"
        using apply_reader_accepts[OF v l(2)] r by blast
      then have same: "w = am_Command m" if "(cfg_logs c ! i) (CommandIndex m) = Some w" for w
        using that bspec[OF _ nth_mem[OF l(2)]] by blast
      have "holds (ms @ [(i, m)]) cfg'"
        unfolding holds_def
      proof (intro allI impI)
        fix j k w
        assume j: "j < length (cfg_logs cfg')"
        have old: "(cfg_logs c ! j) k = Some w \<longleftrightarrow> (\<exists>m'. (j, m') \<in> set ms \<and> CommandIndex m' = k \<and> am_Command m' = w)"
          using h j l(1) unfolding holds_def by simp
        show "(cfg_logs cfg' ! j) k = Some w \<longleftrightarrow> (\<exists>m'. (j, m') \<in> set (ms @ [(i, m)]) \<and> CommandIndex m' = k \<and> am_Command m' = w)"
        proof (cases "j = i \<and> k = CommandIndex m")
          case True
          then show ?thesis using old same j l by auto
        next
          case False
          then have "(cfg_logs cfg' ! j) k = (cfg_logs c ! j) k" using l by (auto simp: nth_list_update)
          then show ?thesis using old False by auto
        qed
      qed
      then show ?thesis using len l(1) by simp
    qed
    ultimately show ?thesis by (simp add: x)
  qed
qed

text \<open>
  C11. The tester's readers decide agreement: starting from empty copies, they accept a
  sequence of messages from the servers' channels, in whatever order the servers' messages
  interleave, if and only if no two messages have the same index and different commands and
  every message but those of index 1 comes after one of its own server with the index before.
\<close>

theorem readers_decide_agreement:
  assumes "\<forall>(i, m)\<in>set ms. i < n \<and> CommandValid m" and "cfg_logs cfg = replicate n Map.empty"
  shows "(\<exists>cfg'. read_all ms cfg = Inr cfg') \<longleftrightarrow>
     (\<forall>i m j m'. (i, m) \<in> set ms \<longrightarrow> (j, m') \<in> set ms \<longrightarrow> CommandIndex m = CommandIndex m' \<longrightarrow> am_Command m = am_Command m') \<and>
     (\<forall>p<length ms. 1 < CommandIndex (snd (ms ! p)) \<longrightarrow>
        (\<exists>q<p. fst (ms ! q) = fst (ms ! p) \<and> CommandIndex (snd (ms ! q)) = CommandIndex (snd (ms ! p)) - 1))"
  using read_all_accepts[OF assms] unfolding agreeing_reads_def gapless_reads_def by blast

text \<open>A configuration with nothing but empty copies, for the witnesses.\<close>

definition blank_config :: "nat \<Rightarrow> (nat, unit, unit) config" where
  "blank_config n = \<lparr>cfg_net = MakeNetwork, cfg_n = n, cfg_rafts = map Some [0..<n], cfg_applyErr = replicate n '''',
     cfg_connected = replicate n True, cfg_saved = replicate n None, cfg_endnames = replicate n None,
     cfg_logs = replicate n Map.empty, cfg_start = 0, cfg_t0 = 0, cfg_rpcs0 = 0, cfg_cmds0 = 0,
     cfg_bytes0 = 0, cfg_maxIndex = 0, cfg_maxIndex0 = 0, cfg_failed = False, cfg_heap = new_peer n, cfg_next = n\<rparr>"

definition msg :: "int \<Rightarrow> nat \<Rightarrow> nat ApplyMsg" where
  "msg k c = \<lparr>CommandValid = True, am_Command = Some c, CommandIndex = k\<rparr>"

theorem readers_decide_agreement_witness:
  "(\<exists>cfg'. read_all [(0, msg 1 7), (1, msg 1 7), (1, msg 2 8)] (blank_config 2) = Inr cfg') \<and>
   \<not> (\<exists>cfg'. read_all [(0, msg 1 7), (1, msg 1 8)] (blank_config 2) = Inr cfg')"
proof
  have logs: "cfg_logs (blank_config 2) = replicate 2 Map.empty" by (simp add: blank_config_def)
  show "\<exists>cfg'. read_all [(0, msg 1 7), (1, msg 1 7), (1, msg 2 8)] (blank_config 2) = Inr cfg'"
    by (subst readers_decide_agreement[OF _ logs]) (auto simp: msg_def less_Suc_eq numeral_3_eq_3 intro!: exI[of _ 1])
  show "\<not> (\<exists>cfg'. read_all [(0, msg 1 7), (1, msg 1 8)] (blank_config 2) = Inr cfg')"
  proof
    assume "\<exists>cfg'. read_all [(0, msg 1 7), (1, msg 1 8)] (blank_config 2) = Inr cfg'"
    then have "\<forall>i m j m'. (i, m) \<in> set [(0, msg 1 7), (1, msg 1 8)] \<longrightarrow> (j, m') \<in> set [(0, msg 1 7), (1, msg 1 8)] \<longrightarrow>
        CommandIndex m = CommandIndex m' \<longrightarrow> am_Command m = am_Command m'"
      by (subst (asm) readers_decide_agreement[OF _ logs]) (auto simp: msg_def)
    from this[rule_format, of 0 "msg 1 7" 1 "msg 1 8"] show False by (simp add: msg_def)
  qed
qed

section \<open>Silence\<close>

fun trun :: "'c taction list \<Rightarrow> ('c, 'a, 'r) tested \<Rightarrow> ('c, 'a, 'r) tested option" where
  "trun [] s = Some s"
| "trun (a # as) s = (case tstep a s of Some (Inr s') \<Rightarrow> trun as s' | _ \<Rightarrow> None)"

lemma trun_treach: "treach n s \<Longrightarrow> trun as s = Some s' \<Longrightarrow> treach n s'"
  by (induction as arbitrary: s) (auto split: option.splits sum.splits intro: treach.step)

definition watched_start :: "(nat, unit, unit) tested" where
  "watched_start = \<lparr>t_cluster = boot_cluster 3, t_cfg = blank_config 3, t_read = replicate 3 0, t_old = []\<rparr>"

lemma watched_start_reachable: "treach 3 watched_start"
  using treach.start[of 3 "map (new_peer 3) [0..<3]" "blank_config 3"] boot_creach[of prompt 3]
  by (simp add: watched_start_def boot_cluster_def blank_config_def)

definition watched :: "(nat, unit, unit) tested" where
  "watched = the (trun (map ClusterStep (commit_run 7) @ [Read 0, ClusterStep (Restart 0 5 0)]) watched_start)"

lemma watched_reachable: "treach 3 watched"
proof -
  have "trun (map ClusterStep (commit_run 7) @ [Read 0, ClusterStep (Restart 0 5 0)]) watched_start \<noteq> None" by code_simp
  then show ?thesis unfolding watched_def by (metis trun_treach[OF watched_start_reachable] option.exhaust_sel)
qed

text \<open>
  C9. The tester stays silent. Beside a cluster whose vote requests are built in their
  election's term, with any loss, delay, reordering and restart, and with readers of the
  apply channels of any speed, those of restarted servers included, nothing ever fails: no
  section of a peer panics and no reader reports a conflict or a gap.
\<close>

theorem tester_silent:
  assumes "treach n s"
  shows "tstep a s \<noteq> Some (Inl e)"
  by (rule tstep_safe[OF assms])

theorem tester_silent_witness:
  "treach 3 watched \<and> tstep (ClusterStep (Tick 1 9000000000 0)) watched \<noteq> Some (Inl IndexOutOfRange)"
  using tester_silent[OF watched_reachable] watched_reachable by blast

text \<open>
  In every state of such a run \<open>nCommitted\<close> returns: its count is the number of servers
  whose reader has seen the index, and its command is the one they have all seen.
\<close>

lemma committed_counted:
  assumes "treach n s"
  shows "\<exists>c. nCommitted index (t_cfg s) = Inr (card {i. i < n \<and> (cfg_logs (t_cfg s) ! i) index \<noteq> None}, c) \<and>
     (\<forall>i<n. \<forall>v. (cfg_logs (t_cfg s) ! i) index = Some v \<longrightarrow> v = c)"
proof -
  obtain p where p: "tinv n s p" using treach_tinv[OF assms] by blast
  then have c: "copies_ok n p (t_cfg s)" and "pinv n p" by (auto simp: tinv_def agreed_def rinv_def)
  note one = vouched_unique[OF this(2)]
  let ?H = "having index n (t_cfg s)"
  obtain c where same: "\<And>i v. i < n \<Longrightarrow> (cfg_logs (t_cfg s) ! i) index = Some v \<Longrightarrow> v = c"
    using c one unfolding copies_ok_def by metis
  then have "nCommitted index (t_cfg s) = Inr (card ?H, if ?H = {} then None else c)"
    using c by (intro nCommitted_counts) (auto simp: copies_ok_def)
  moreover have "v = (if ?H = {} then None else c)" if "i < n" "(cfg_logs (t_cfg s) ! i) index = Some v" for i v
    using same[OF that] that by (auto simp: having_def)
  ultimately show ?thesis unfolding having_def by blast
qed

section \<open>One leader\<close>

text \<open>What is seen of the servers at moments of a run, one after the other.\<close>

lemma moments_reachable:
  assumes "creach prompt n (cls 0)" and "\<forall>i. Suc i < n \<longrightarrow> (\<exists>as. crun prompt as (cls i) = Some (cls (Suc i)))" and "k < n"
  shows "creach prompt n (cls k)"
  using assms(3)
proof (induction k)
  case 0
  show ?case by (rule assms(1))
next
  case (Suc k)
  obtain as where "crun prompt as (cls k) = Some (cls (Suc k))" using assms(2) Suc.prems by blast
  then show ?case using Suc crun_creach[of prompt n "cls k" as] by simp
qed

lemma leaders_at_moments:
  assumes reach: "creach prompt n (cls 0)" and next_moment: "\<forall>i. Suc i < n \<longrightarrow> (\<exists>as. crun prompt as (cls i) = Some (cls (Suc i)))"
    and "i \<le> j" and j: "j < n" and li: "rf_state (servers (cls i) ! i) = LEADER" and lj: "rf_state (servers (cls j) ! j) = LEADER"
    and t: "rf_currentTerm (servers (cls i) ! i) = rf_currentTerm (servers (cls j) ! j)"
  shows "i = j"
proof -
  note r = moments_reachable[OF reach next_moment]
  have "set (h_leaders (cls i)) \<subseteq> set (h_leaders (cls k))" if "i \<le> k" "k < n" for k
    using that
  proof (induction k rule: dec_induct)
    case (step k)
    then obtain as where "crun prompt as (cls k) = Some (cls (Suc k))" using next_moment by blast
    from crun_leaders[OF this] show ?case using step by auto
  qed simp
  then have "set (h_leaders (cls i)) \<subseteq> set (h_leaders (cls j))" using assms(3) j by blast
  moreover have i: "i < n" using assms(3) j by simp
  note vi = creach_vinv[OF r[OF i]] and vj = creach_vinv[OF r[OF j]]
  ultimately show ?thesis using leaders_unique[OF vj] leading_recorded[OF vi i li] leading_recorded[OF vj j lj] t by auto
qed

text \<open>
  C10. A round of \<open>checkOneLeader\<close> looks at the connected servers one after the other while
  the cluster runs on, in a run in which vote requests are built in their election's term (for
  other schedules the two leaders of one term would be reported). It never reports two leaders of a term and never panics; it returns
  no leader if none was seen to lead, and otherwise the leader of the latest term seen,
  whatever the order in which Go visits the map.
\<close>

theorem one_leader_found:
  assumes "creach prompt n (cls 0)" and "\<forall>i. Suc i < n \<longrightarrow> (\<exists>as. crun prompt as (cls i) = Some (cls (Suc i)))"
    and "running cfg" and "cfg_n cfg = n" and "\<forall>i<n. cfg_connected cfg ! i \<longrightarrow> view (the (cfg_rafts cfg ! i)) = servers (cls i) ! i"
    and "\<And>m. finite (dom m) \<Longrightarrow> set (order m) = dom m"
  shows "one_leader_round view order cfg = Inr None \<and> (\<forall>i<n. \<forall>t. \<not> sees view cfg i t) \<or>
    (\<exists>i t. one_leader_round view order cfg = Inr (Some i) \<and> i < n \<and> sees view cfg i t \<and> (\<forall>j<n. \<forall>u. sees view cfg j u \<longrightarrow> j \<noteq> i \<longrightarrow> u < t))"
proof -
  have seen: "rf_state (servers (cls i) ! i) = LEADER \<and> rf_currentTerm (servers (cls i) ! i) = t" if "i < n" "sees view cfg i t" for i t
    using that assms(5) by (auto simp: sees_def GetState_def)
  have one: "i = j" if "i < n" "j < n" "sees view cfg i t" "sees view cfg j t" for i j t
    using leaders_at_moments[OF assms(1,2), of i j] leaders_at_moments[OF assms(1,2), of j i] seen that by (cases "i \<le> j") auto
  note r = moments_reachable[OF assms(1,2)]
  have nonneg: "0 \<le> t" if "i < n" "sees view cfg i t" for i t
    using cinvD(3)[OF creach_cinv[OF r[OF that(1)]] that(1)] seen[OF that] by (simp add: peer_ok_def)
  show ?thesis
    by (rule one_leader_round_finds[OF assms(3), of order view, unfolded assms(4)])
      (erule assms(6), erule (3) one, erule (1) nonneg)
qed


lemma finite_order: "\<exists>order :: (int \<rightharpoonup> nat list) \<Rightarrow> int list. \<forall>m. finite (dom m) \<longrightarrow> set (order m) = dom m"
  by (rule choice) (auto dest: finite_list)

theorem one_leader_found_witness:
  "\<exists>order. (\<forall>m. finite (dom m) \<longrightarrow> set (order m) = dom m) \<and> one_leader_round (\<lambda>a. servers committed ! a) order (blank_config 3) = Inr (Some 0)"
proof -
  obtain order :: "(int \<rightharpoonup> nat list) \<Rightarrow> int list" where order: "\<And>m. finite (dom m) \<Longrightarrow> set (order m) = dom m" using finite_order by blast
  let ?view = "\<lambda>a. servers committed ! a"
  have st: "map (\<lambda>i. GetState (servers committed ! i)) [0..<3] = [(1, True), (1, False), (1, False)]" by code_simp
  have stay: "\<forall>i. Suc i < 3 \<longrightarrow> (\<exists>as. crun prompt as committed = Some committed)" by (metis crun.simps(1))
  have sees: "sees ?view (blank_config 3) i t \<longleftrightarrow> i = 0 \<and> t = 1" if "i < 3" for i t
    using that st by (auto simp: sees_def blank_config_def upt_rec less_Suc_eq numeral_3_eq_3)
  have "one_leader_round ?view order (blank_config 3) = Inr None \<and> (\<forall>i<3. \<forall>t. \<not> sees ?view (blank_config 3) i t) \<or>
    (\<exists>i t. one_leader_round ?view order (blank_config 3) = Inr (Some i) \<and> i < 3 \<and> sees ?view (blank_config 3) i t \<and>
      (\<forall>j<3. \<forall>u. sees ?view (blank_config 3) j u \<longrightarrow> j \<noteq> i \<longrightarrow> u < t))"
    by (rule one_leader_found[of 3 "\<lambda>_. committed"])
      (use committed_reachable stay order in \<open>auto simp: running_def blank_config_def\<close>)
  then have "one_leader_round ?view order (blank_config 3) = Inr (Some 0)" using sees by force
  then show ?thesis using order by blast
qed


section \<open>Connections\<close>

text \<open>
  C12. The tester's network. With new names for the ends, \<open>make_config\<close> returns, and so does
  every sequence of \<open>connect\<close>, \<open>disconnect\<close>, \<open>crash1\<close> and \<open>start1\<close> on its servers while the
  peers run. Afterwards a call of server \<open>i\<close> to server \<open>j\<close> finds the end enabled exactly when
  both are connected, and behind it the running instance of \<open>j\<close> or nothing; no end other
  than these is enabled, so that a crashed instance cannot send.
\<close>

theorem tester_network:
  assumes "inj_on (\<lambda>(i, j). names i j) ({..<n} \<times> {..<n})" and "heap_ok heap"
  shows "\<exists>cfg. make_config methods names now rnd heap n unreliable = Inr cfg \<and> (all_legal methods ops cfg \<longrightarrow>
    (\<exists>cfg'. go_each (do_op methods) ops cfg = Inr cfg' \<and>
      (\<forall>i<n. \<forall>j<n. \<exists>e. endname cfg' i j = Inr e \<and> readEndnameInfo e (cfg_net cfg') =
         (cfg_connected cfg' ! i \<and> cfg_connected cfg' ! j, Some j, cfg_rafts cfg' ! j, n_reliable (cfg_net cfg'), n_longReordering (cfg_net cfg'))) \<and>
      (\<forall>e. n_enabled (cfg_net cfg') e \<longrightarrow> (\<exists>i<n. \<exists>j<n. endname cfg' i j = Inr e))))"
proof -
  obtain cfg where cfg: "make_config methods names now rnd heap n unreliable = Inr cfg" "sound n cfg" using make_config_sound[OF assms] by blast
  have "\<exists>i<n. \<exists>j<n. endname cfg' i j = Inr e" if s: "sound n cfg'" and e: "n_enabled (cfg_net cfg') e" for cfg' :: "('a, 'b, 'c) config" and e
  proof -
    have w: "wired cfg'" "cfg_n cfg' = n" using s by (auto simp: sound_def)
    then obtain i j where ij: "i < n" "j < n" "link cfg' i j = Some e" using e by (auto simp: wired_def open_ends_def)
    then have "endname cfg' i j = Inr e" using link_index[of cfg' i j] w by (simp add: wired_def)
    then show ?thesis using ij by blast
  qed
  moreover have "\<exists>cfg'. go_each (do_op methods) ops cfg = Inr cfg' \<and> sound n cfg'" if "all_legal methods ops cfg"
    by (rule do_ops_sound[OF cfg(2) that])
  ultimately show ?thesis using cfg(1) wired_info by blast
qed

lemma peers_heap_ok: "heap_ok (\<lambda>_. servers committed ! 0)"
proof -
  have "synced (servers committed ! 0)" using peer_okD(2)[OF cinvD(3)[OF creach_cinv[OF committed_reachable]], of 0] by simp
  then show ?thesis by (auto simp: heap_ok_def readable_def synced_def image_def readPersist_def go_len_def)
qed

theorem tester_network_witness:
  "\<exists>cfg :: (nat, unit, unit) config. make_config [] unary_names 0 0 (\<lambda>_. servers committed ! 0) 3 False = Inr cfg \<and>
    (\<exists>cfg'. go_each (do_op []) [DoDisconnect 1, DoCrash 2, DoConnect 1] cfg = Inr cfg' \<and>
      (\<exists>e. endname cfg' 0 1 = Inr e \<and> fst (snd (readEndnameInfo e (cfg_net cfg'))) = Some 1))"
proof -
  let ?ops = "[DoDisconnect 1, DoCrash 2, DoConnect 1] :: nat tester_op list"
  obtain cfg :: "(nat, unit, unit) config" where m: "make_config [] unary_names 0 0 (\<lambda>_. servers committed ! 0) 3 False = Inr cfg"
    and r: "all_legal [] ?ops cfg \<longrightarrow> (\<exists>cfg'. go_each (do_op []) ?ops cfg = Inr cfg' \<and>
      (\<forall>i<3. \<forall>j<3. \<exists>e. endname cfg' i j = Inr e \<and> readEndnameInfo e (cfg_net cfg') =
         (cfg_connected cfg' ! i \<and> cfg_connected cfg' ! j, Some j, cfg_rafts cfg' ! j, n_reliable (cfg_net cfg'), n_longReordering (cfg_net cfg'))) \<and>
      (\<forall>e. n_enabled (cfg_net cfg') e \<longrightarrow> (\<exists>i<3. \<exists>j<3. endname cfg' i j = Inr e)))"
    using tester_network[OF unary_names_inj peers_heap_ok, where n = 3 and ops = ?ops and methods = "[]" and now = 0 and rnd = 0 and unreliable = False] by blast
  have s: "sound 3 cfg" using make_config_sound[OF unary_names_inj peers_heap_ok, where n = 3 and methods = "[] :: (nat, unit, unit) Method list" and now = 0 and rnd = 0 and unreliable = False] m by auto
  have "all_legal [] ?ops cfg"
  proof -
    obtain c1 where c1: "disconnect 1 cfg = Inr c1" "sound 3 c1" using disconnect_sound[OF s, of 1] by auto
    obtain c2 where c2: "crash1 2 c1 = Inr c2" "sound 3 c2" using crash1_sound[OF c1(2), of 2] by auto
    have "cfg_n cfg = 3" "cfg_n c1 = 3" "cfg_n c2 = 3" using s c1(2) c2(2) by (auto simp: sound_def)
    then show ?thesis using c1(1) c2(1) by (simp split: sum.splits)
  qed
  then obtain cfg' where g: "go_each (do_op []) ?ops cfg = Inr cfg'"
    and l: "\<forall>i<3. \<forall>j<3. \<exists>e. endname cfg' i j = Inr e \<and> readEndnameInfo e (cfg_net cfg') =
         (cfg_connected cfg' ! i \<and> cfg_connected cfg' ! j, Some j, cfg_rafts cfg' ! j, n_reliable (cfg_net cfg'), n_longReordering (cfg_net cfg'))"
    using r by blast
  obtain e where "endname cfg' 0 1 = Inr e" "fst (snd (readEndnameInfo e (cfg_net cfg'))) = Some 1" using l[rule_format, of 0 1] by auto
  then show ?thesis using m g by blast
qed


section \<open>Restarts\<close>

text \<open>
  C13. Durability. In any configuration the tester's operations reach, and at any moment of
  any run of the cluster, \<open>start1\<close> on a server replaces its peer by one that has the same
  state, term, vote and log and starts delivering from the beginning: exactly the peer that
  a restart of the cluster model gives. The old instance is killed and the other servers
  keep their peers.
\<close>

theorem start1_recovers:
  assumes "creach sched n cl" and "i < n" and "sound n cfg" and "cfg_rafts cfg ! i = Some a" and "cfg_heap cfg a = servers cl ! i" and "new_names names cfg"
  shows "\<exists>cfg' rf cl'. start1 methods names now rnd i cfg = Inr cfg' \<and> restart i now rnd cl = Some (Inr cl') \<and>
     cfg_rafts cfg' = (cfg_rafts cfg)[i := Some (cfg_next cfg)] \<and> cfg_heap cfg' (cfg_next cfg) = rf \<and> servers cl' = (servers cl)[i := rf] \<and>
     rf_state rf = rf_state (servers cl ! i) \<and> rf_currentTerm rf = rf_currentTerm (servers cl ! i) \<and>
     rf_votedFor rf = rf_votedFor (servers cl ! i) \<and> rf_log rf = rf_log (servers cl ! i) \<and>
     rf_commitIndex rf = 0 \<and> rf_lastApplied rf = 0 \<and> rf_applyCh rf = [] \<and>
     cfg_heap cfg' a = Kill (servers cl ! i) \<and> (\<forall>b. b \<noteq> a \<longrightarrow> b \<noteq> cfg_next cfg \<longrightarrow> cfg_heap cfg' b = cfg_heap cfg b)"
proof -
  have w: "wired cfg" and d: "disks_ok cfg" and n: "cfg_n cfg = n" using assms(3) by (auto simp: sound_def)
  have i: "i < cfg_n cfg" using n assms(2) by simp
  have "cfg_saved cfg ! i \<noteq> None" using d i assms(4) by (simp add: disks_ok_def)
  then have boot: "boot_disk i cfg = start1_saved (rf_persister (servers cl ! i))"
    using assms(4,5) by (auto simp: boot_disk_def saved_of_def)
  obtain cfg' rf where c: "start1 methods names now rnd i cfg = Inr cfg'" "Make (cfg_n cfg) (int i) (boot_disk i cfg) now rnd = Inr rf"
    "cfg_heap cfg' (cfg_next cfg) = rf" "cfg_rafts cfg' = (cfg_rafts cfg)[i := Some (cfg_next cfg)]"
    "\<And>b. b \<noteq> cfg_next cfg \<Longrightarrow> b \<notin> set_option (cfg_rafts cfg ! i) \<Longrightarrow> cfg_heap cfg' b = cfg_heap cfg b"
    "\<And>b. cfg_rafts cfg ! i = Some b \<Longrightarrow> cfg_heap cfg' b = Kill (cfg_heap cfg b)"
    by (rule start1_effect[OF w i assms(6) disks_boot[OF d i], where methods = methods and now = now and rnd = rnd]) blast
  have mk: "Make n (int i) (start1_saved (rf_persister (servers cl ! i))) now rnd = Inr rf" using c(2) by (simp add: boot n)
  have cl: "length (servers cl) = n" "synced (servers cl ! i)"
    using creach_cinv[OF assms(1)] assms(2) by (auto simp: cinv_def dest: peer_okD(2))
  have rf: "rf_state rf = rf_state (servers cl ! i) \<and> rf_currentTerm rf = rf_currentTerm (servers cl ! i) \<and>
     rf_votedFor rf = rf_votedFor (servers cl ! i) \<and> rf_log rf = rf_log (servers cl ! i) \<and>
     rf_commitIndex rf = 0 \<and> rf_lastApplied rf = 0 \<and> rf_applyCh rf = []"
    using Make_restart[OF cl(2), of n "int i" now rnd] mk by auto
  have "restart i now rnd cl = Some (Inr ((set_server i rf cl)\<lparr>incs := (incs cl)[i := Suc (incs cl ! i)]\<rparr>))"
    using mk cl(1) assms(2) by (simp add: restart_def)
  then show ?thesis using c rf assms(4,5) by (intro exI[of _ cfg'] exI[of _ rf] exI) (auto simp: set_server_def)
qed

theorem start1_recovers_witness:
  "\<exists>(cfg :: (nat, unit, unit) config) cfg' a. sound 3 cfg \<and> cfg_rafts cfg ! 0 = Some a \<and>
     start1 [] (\<lambda>j. CHR ''c'' # unary_names 0 j) 5 7 0 cfg = Inr cfg' \<and>
     rf_log (cfg_heap cfg' (cfg_next cfg)) = rf_log (servers committed ! 0) \<and> length (rf_log (servers committed ! 0)) = 2"
proof -
  obtain cfg0 :: "(nat, unit, unit) config" where c0: "sound 3 cfg0" "\<forall>i<3. cfg_rafts cfg0 ! i \<noteq> None"
    "n_ends (cfg_net cfg0) = (\<lambda>(i, j). unary_names i j) ` ({..<3} \<times> {..<3})"
    using make_config_sound[OF unary_names_inj peers_heap_ok, where n = 3 and methods = "[] :: (nat, unit, unit) Method list"] by blast
  let ?cfg = "cfg0\<lparr>cfg_heap := \<lambda>_. servers committed ! 0\<rparr>" and ?names = "\<lambda>j. CHR ''c'' # unary_names 0 j"
  have s: "sound 3 ?cfg" using do_op_sound[OF c0(1), of "PeersRun (\<lambda>_. servers committed ! 0)" "[]"] peers_heap_ok by simp
  obtain a where a: "cfg_rafts ?cfg ! 0 = Some a" using spec[OF c0(2), of 0] by auto
  have hd: "c = CHR ''a'' \<or> c = CHR ''b''" if "unary_names i j = c # cs" for i j c cs
    using that by (cases i) (auto simp: unary_names_def)
  have "?names j \<notin> n_ends (cfg_net ?cfg)" for j
  proof
    assume "?names j \<in> n_ends (cfg_net ?cfg)"
    then obtain i k where "unary_names i k = ?names j" by (auto simp: c0(3))
    from hd[OF this] show False by simp
  qed
  moreover have "inj_on ?names {..<cfg_n ?cfg}" by (auto simp: inj_on_def unary_names_def)
  ultimately have new: "new_names ?names ?cfg" by (simp add: new_names_def)
  obtain cfg' where "start1 [] ?names 5 7 0 ?cfg = Inr cfg'" "rf_log (cfg_heap cfg' (cfg_next ?cfg)) = rf_log (servers committed ! 0)"
    using start1_recovers[OF committed_reachable _ s a _ new, of "[]" 5 7] by auto
  moreover have "length (rf_log (servers committed ! 0)) = 2" by code_simp
  ultimately show ?thesis using s a by blast
qed

end
