(* ===== verification/Apply_Channel.thy ===== *)
theory Apply_Channel
  imports Raft_Peer
begin

text \<open>
  The interface between Raft and the service above it: the channel on which committed
  entries arrive, one message per index from 1 on, never taken back. The interpretation
  shows that \<open>checkApply\<close> of \<open>raft.go\<close> provides it.
\<close>

locale apply_channel =
  fixes ok :: "'r \<Rightarrow> bool" and channel :: "'r \<Rightarrow> 'c ApplyMsg list" and deliver :: "'r \<Rightarrow> 'r go"
  assumes indexed: "ok r \<Longrightarrow> map CommandIndex (channel r) = [1..int (length (channel r))]"
    and commands: "ok r \<Longrightarrow> m \<in> set (channel r) \<Longrightarrow> am_Command m \<noteq> None"
    and deliver_ok: "ok r \<Longrightarrow> deliver r = Inr r' \<Longrightarrow> ok r'"
    and deliver_extends: "ok r \<Longrightarrow> deliver r = Inr r' \<Longrightarrow> prefix (channel r) (channel r')"
begin

lemma message_at:
  assumes "ok r" and "i < length (channel r)"
  shows "CommandIndex (channel r ! i) = int i + 1"
proof -
  have "map CommandIndex (channel r) ! i = [1..int (length (channel r))] ! i"
    using indexed[OF assms(1)] by simp
  with assms(2) show ?thesis by simp
qed

text \<open>What a delivery adds continues the numbering.\<close>

lemma delivered:
  assumes "ok r" and "deliver r = Inr r'"
  obtains new where "channel r' = channel r @ new"
    and "map CommandIndex new = [int (length (channel r)) + 1..int (length (channel r'))]"
    and "\<And>m. m \<in> set new \<Longrightarrow> am_Command m \<noteq> None"
proof -
  obtain new where new: "channel r' = channel r @ new"
    using deliver_extends[OF assms] by (auto simp: prefix_def)
  have "[1..int (length (channel r'))] = [1..int (length (channel r))] @ [int (length (channel r)) + 1..int (length (channel r'))]"
    by (subst upto_append) (auto simp: new)
  then have "map CommandIndex new = [int (length (channel r)) + 1..int (length (channel r'))]"
    using indexed[OF deliver_ok[OF assms]] indexed[OF assms(1)] new by simp
  with that[OF new] commands[OF deliver_ok[OF assms]] new show ?thesis by auto
qed

end

section \<open>Raft as the provider\<close>

text \<open>
  What the channel of a peer holds: the log from entry 1 to \<open>lastApplied\<close>, while the
  commit index stays inside the log.
\<close>

definition fed :: "'c Raft \<Rightarrow> bool" where
  "fed rf \<longleftrightarrow> 0 \<le> rf_lastApplied rf \<and> rf_lastApplied rf < go_len (rf_log rf) \<and>
     rf_commitIndex rf < go_len (rf_log rf) \<and> (\<forall>e\<in>set (tl (rf_log rf)). le_Command e \<noteq> None) \<and>
     map CommandIndex (rf_applyCh rf) = [1..rf_lastApplied rf] \<and>
     map am_Command (rf_applyCh rf) = map le_Command (take (nat (rf_lastApplied rf)) (tl (rf_log rf)))"

lemma fed_channel:
  assumes "fed rf"
  shows "int (length (rf_applyCh rf)) = rf_lastApplied rf" and "m \<in> set (rf_applyCh rf) \<Longrightarrow> am_Command m \<noteq> None"
proof -
  have "length (map CommandIndex (rf_applyCh rf)) = length [1..rf_lastApplied rf]"
    using assms by (simp only: fed_def)
  then show "int (length (rf_applyCh rf)) = rf_lastApplied rf" using assms by (simp add: fed_def)
  assume "m \<in> set (rf_applyCh rf)"
  then have "am_Command m \<in> set (map am_Command (rf_applyCh rf))" by simp
  also have "\<dots> \<subseteq> le_Command ` set (tl (rf_log rf))"
    using assms by (auto simp: fed_def dest: in_set_takeD)
  finally show "am_Command m \<noteq> None" using assms by (auto simp: fed_def)
qed

lemma fed_checkApply:
  assumes f: "fed rf" and r: "checkApply rf = Inr rf'"
  shows "fed rf'" and "prefix (rf_applyCh rf) (rf_applyCh rf')" and "rf_lastApplied rf' = max (rf_lastApplied rf) (rf_commitIndex rf)"
    and "rf_log rf' = rf_log rf"
proof -
  let ?a = "rf_lastApplied rf" and ?c = "rf_commitIndex rf" and ?lg = "rf_log rf"
  define new where "new = map (\<lambda>i. \<lparr>CommandValid = True, am_Command = le_Command (?lg ! nat i), CommandIndex = i\<rparr>) [?a + 1..?c]"
  have b: "0 \<le> ?a" "?a < go_len ?lg" "?c < go_len ?lg" using f by (auto simp: fed_def)
  have rf': "rf' = rf\<lparr>rf_lastApplied := max ?a ?c, rf_applyCh := rf_applyCh rf @ new\<rparr>"
    using r checkApply_delivers[OF b(1,3)] by (simp add: new_def)
  have idx: "[1..?a] @ [?a + 1..?c] = [1..max ?a ?c]"
    using b upto_append[of 1 ?a ?c] by (auto simp: max_def)
  have cmd: "take (nat ?a) (tl ?lg) @ map (\<lambda>i. ?lg ! nat i) [?a + 1..?c] = take (nat (max ?a ?c)) (tl ?lg)"
    using b by (intro nth_equalityI) (auto simp: nth_append nth_tl go_len_def max_def min_def nat_less_iff nat_diff_distrib nat_add_distrib)
  show "fed rf'"
    using f idx arg_cong[OF cmd, of "map le_Command"] b
    by (simp add: fed_def rf' new_def o_def max_def split: if_splits)
  show "prefix (rf_applyCh rf) (rf_applyCh rf')" "rf_lastApplied rf' = max ?a ?c" "rf_log rf' = ?lg"
    by (simp_all add: rf')
qed

interpretation raft_channel: apply_channel fed rf_applyCh checkApply
proof unfold_locales
  fix r :: "'a Raft" and r' m
  assume f: "fed r"
  show "map CommandIndex (rf_applyCh r) = [1..int (length (rf_applyCh r))]"
    using f fed_channel(1)[OF f] by (simp add: fed_def)
  show "m \<in> set (rf_applyCh r) \<Longrightarrow> am_Command m \<noteq> None" by (rule fed_channel(2)[OF f])
  show "checkApply r = Inr r' \<Longrightarrow> fed r'" "checkApply r = Inr r' \<Longrightarrow> prefix (rf_applyCh r) (rf_applyCh r')"
    using fed_checkApply[OF f] by auto
qed

end
