(* ===== verification/Raft_Feed.thy ===== *)
theory Raft_Feed
  imports Raft_Commit Apply_Channel
begin

text \<open>
  Every server of a cluster provides the apply channel: its commit index stays inside its
  log, its channel holds the messages of the entries up to \<open>lastApplied\<close>, and every entry
  behind the sentinel carries a command that a client has given to \<open>Start\<close>.
\<close>

lemma log_commands:
  assumes "creach prompt n cl" and i: "i < n" and "e \<in> set (tl (rf_log (servers cl ! i)))"
  shows "le_Command e \<noteq> None"
proof -
  obtain p where p: "(pstep n)\<^sup>*\<^sup>* (proto_init n) p" "rinv n cl p" using creach_protocol[OF assms(1)] by blast
  let ?lg = "rf_log (servers cl ! i)"
  have ok: "log_ok (rf_currentTerm (servers cl ! i)) ?lg" by (rule raft_okD(1)[OF peer_okD(1)[OF rinv_peer[OF p(2) i]]])
  have "e \<in> set ?lg" using assms(3) by (cases ?lg) auto
  then have "commanded e"
    using preach_commanded[OF p(1)] unfolding all_commanded_def list_all_iff representsD(3)[OF rinvD(3)[OF p(2)] i, symmetric] by blast
  moreover have "1 \<le> le_Term e" using ok assms(3) by (simp add: log_ok_def list_all_iff)
  ultimately show ?thesis by (simp add: commanded_def)
qed

lemma applied_fields:
  assumes "0 \<le> a" and "a < go_len lg"
  shows "map CommandIndex (applied lg a) = [1..a]" and "map am_Command (applied lg a) = map le_Command (take (nat a) (tl lg))"
proof -
  show "map CommandIndex (applied lg a) = [1..a]" by (simp add: applied_def o_def)
  show "map am_Command (applied lg a) = map le_Command (take (nat a) (tl lg))"
  proof (rule nth_equalityI)
    show len: "length (map am_Command (applied lg a)) = length (map le_Command (take (nat a) (tl lg)))"
      using assms by (simp add: applied_def go_len_def)
    fix i assume "i < length (map am_Command (applied lg a))"
    then have "i < nat a" "i < length (tl lg)" using assms by (auto simp: applied_def go_len_def)
    then show "map am_Command (applied lg a) ! i = map le_Command (take (nat a) (tl lg)) ! i"
      by (simp add: applied_def nth_tl nat_add_distrib)
  qed
qed

text \<open>The provider of the channel, for every server of every cluster.\<close>

lemma cluster_fed:
  assumes "creach prompt n cl" and i: "i < n"
  shows "fed (servers cl ! i)"
proof -
  obtain p where "agreed n cl p" using creach_agreed[OF assms(1)] by blast
  then have sv: "server_inv n p (servers cl ! i)" using i by (simp add: agreed_def kinv_def)
  note d = server_invD[OF sv]
  have la: "rf_lastApplied (servers cl ! i) < go_len (rf_log (servers cl ! i))" using d(3,5) by simp
  show ?thesis
    unfolding fed_def using d(2,5,6) la applied_fields[OF d(2) la] log_commands[OF assms] by simp
qed

end
