(* ===== verification/KVServer.thy ===== *)
theory KVServer
  imports Apply_Channel
begin

text \<open>
  \<open>src/src/kvraft/server.go\<close> and \<open>common.go\<close>: the key/value service on top of Raft.
  The apply loop, which consumes the messages Raft delivers, is a function of one message;
  each RPC handler is a function that submits the operation and a function that performs
  one iteration of its waiting loop. The specification is a map to which every operation is
  applied once, in log order; the server refines it.
\<close>

section \<open>Data\<close>

abbreviation (input) PUT :: string where "PUT \<equiv> ''Put''"
abbreviation (input) GET :: string where "GET \<equiv> ''Get''"
abbreviation (input) APPEND :: string where "APPEND \<equiv> ''Append''"

abbreviation (input) OK :: string where "OK \<equiv> ''OK''"
abbreviation (input) ErrNoKey :: string where "ErrNoKey \<equiv> ''ErrNoKey''"
abbreviation (input) ErrWrongLeader :: string where "ErrWrongLeader \<equiv> ''ErrWrongLeader''"

record Op =
  CommandType :: string
  CommandKey :: string
  CommandValue :: string
  ClerkId :: int
  CommandId :: int
  IsDup :: bool

record PutAppendArgs =
  pa_Key :: string
  pa_Value :: string
  pa_Op :: string
  pa_ClerkId :: int
  pa_CommandId :: int

record PutAppendReply =
  par_Err :: string

record GetArgs =
  ga_Key :: string
  ga_ClerkId :: int
  ga_CommandId :: int

record GetReply =
  gr_Err :: string
  gr_Value :: string

record KVServer =
  kv_me :: int
  kv_rf :: "Op Raft"
  kv_dead :: int
  kv_maxraftstate :: int
  kv_kv :: "string \<rightharpoonup> string"
  kv_log :: "Op list"
  kv_lastApplied :: int
  kv_clerkLatestCmd :: "int \<rightharpoonup> int"

definition Op0 :: Op where
  "Op0 = \<lparr>CommandType = '''', CommandKey = '''', CommandValue = '''', ClerkId = 0, CommandId = 0, IsDup = False\<rparr>"

definition equals :: "Op \<Rightarrow> Op \<Rightarrow> bool" where
  "equals op1 op2 \<longleftrightarrow> ClerkId op1 = ClerkId op2 \<and> CommandId op1 = CommandId op2"

section \<open>The handlers\<close>

definition get_op :: "GetArgs \<Rightarrow> Op" where
  "get_op args = \<lparr>CommandType = GET, CommandKey = ga_Key args, CommandValue = '''',
                  ClerkId = ga_ClerkId args, CommandId = ga_CommandId args, IsDup = False\<rparr>"

definition putappend_op :: "PutAppendArgs \<Rightarrow> Op" where
  "putappend_op args = \<lparr>CommandType = pa_Op args, CommandKey = pa_Key args, CommandValue = pa_Value args,
                        ClerkId = pa_ClerkId args, CommandId = pa_CommandId args, IsDup = False\<rparr>"

text \<open>
  Submission, lines 67-77 and 110-121: \<open>Inl\<close> is the immediate reply of a server that does
  not lead, \<open>Inr\<close> the index to wait for.
\<close>

definition Get_submit :: "GetArgs \<Rightarrow> KVServer \<Rightarrow> KVServer \<times> (GetReply + int)" where
  "Get_submit args kv =
     (let (rf, index, _, isLeader) = Start (get_op args) (kv_rf kv); kv = kv\<lparr>kv_rf := rf\<rparr> in
      if \<not> isLeader then (kv, Inl \<lparr>gr_Err = ErrWrongLeader, gr_Value = ''''\<rparr>) else (kv, Inr index))"

definition PutAppend_submit :: "PutAppendArgs \<Rightarrow> KVServer \<Rightarrow> KVServer \<times> (PutAppendReply + int)" where
  "PutAppend_submit args kv =
     (let (rf, index, _, isLeader) = Start (putappend_op args) (kv_rf kv); kv = kv\<lparr>kv_rf := rf\<rparr> in
      if \<not> isLeader then (kv, Inl \<lparr>par_Err = ErrWrongLeader\<rparr>) else (kv, Inr index))"

text \<open>Lines 91-96: the value of the first equal operation in the log.\<close>

fun first_value :: "Op \<Rightarrow> Op list \<Rightarrow> string \<Rightarrow> string" where
  "first_value op [] d = d"
| "first_value op (v # vs) d = (if equals v op then CommandValue v else first_value op vs d)"

text \<open>One iteration of the waiting loops, lines 79-102 and 124-135; \<open>None\<close> is the sleep.\<close>

definition Get_poll :: "GetArgs \<Rightarrow> int \<Rightarrow> KVServer \<Rightarrow> GetReply option go" where
  "Get_poll args index kv =
     (if kv_lastApplied kv \<ge> index then
        go_bind (go_index (kv_log kv) index) (\<lambda>logOp.
          if \<not> equals (get_op args) logOp then Inr (Some \<lparr>gr_Err = ErrWrongLeader, gr_Value = ''''\<rparr>)
          else if \<not> IsDup logOp then Inr (Some \<lparr>gr_Err = OK, gr_Value = CommandValue logOp\<rparr>)
          else Inr (Some \<lparr>gr_Err = OK, gr_Value = first_value logOp (kv_log kv) ''''\<rparr>))
      else Inr None)"

definition PutAppend_poll :: "PutAppendArgs \<Rightarrow> int \<Rightarrow> KVServer \<Rightarrow> PutAppendReply option go" where
  "PutAppend_poll args index kv =
     (if kv_lastApplied kv \<ge> index then
        go_bind (go_index (kv_log kv) index) (\<lambda>logOp.
          Inr (Some \<lparr>par_Err = (if \<not> equals (putappend_op args) logOp then ErrWrongLeader else OK)\<rparr>))
      else Inr None)"

definition kv_Kill :: "KVServer \<Rightarrow> KVServer" where
  "kv_Kill kv = kv\<lparr>kv_dead := 1, kv_rf := Kill (kv_rf kv)\<rparr>"

definition kv_killed :: "KVServer \<Rightarrow> bool" where
  "kv_killed kv \<longleftrightarrow> kv_dead kv = 1"

definition StartKVServer :: "nat \<Rightarrow> int \<Rightarrow> Op gob Persister \<Rightarrow> int \<Rightarrow> int \<Rightarrow> nat \<Rightarrow> KVServer go" where
  "StartKVServer nservers me persister maxraftstate now rnd =
     go_bind (Make nservers me persister now rnd) (\<lambda>rf.
       Inr \<lparr>kv_me = me, kv_rf = rf, kv_dead = 0, kv_maxraftstate = maxraftstate, kv_kv = Map.empty,
            kv_log = [Op0], kv_lastApplied = 0, kv_clerkLatestCmd = Map.empty\<rparr>)"

section \<open>The apply loop\<close>

text \<open>Lines 202-245, for one message. The type assertion of line 203 panics on a nil command.\<close>

definition kv_checkApply :: "Op ApplyMsg \<Rightarrow> KVServer \<Rightarrow> KVServer go" where
  "kv_checkApply applyMsg kv =
     (case am_Command applyMsg of
        None \<Rightarrow> Inl TypeAssertion
      | Some op \<Rightarrow>
          let latest = kv_clerkLatestCmd kv;
              (dup, op, latest) =
                (case latest (ClerkId op) of
                   None \<Rightarrow> (False, op, latest(ClerkId op \<mapsto> CommandId op))
                 | Some lastId \<Rightarrow>
                     if lastId \<ge> CommandId op then (True, op\<lparr>IsDup := True\<rparr>, latest)
                     else (False, op, latest(ClerkId op \<mapsto> CommandId op)));
              kv = kv\<lparr>kv_clerkLatestCmd := latest, kv_log := kv_log kv @ [op]\<rparr>;
              index = CommandIndex applyMsg
          in go_bind
               (if dup then Inr kv
                else if CommandType op = GET then
                  let val = (case kv_kv kv (CommandKey op) of None \<Rightarrow> '''' | Some val \<Rightarrow> val)
                  in go_bind (go_index (kv_log kv) index) (\<lambda>e.
                     go_bind (go_set (kv_log kv) index (e\<lparr>CommandValue := val\<rparr>)) (\<lambda>l.
                       Inr (kv\<lparr>kv_log := l\<rparr>)))
                else if CommandType op = PUT then
                  Inr (kv\<lparr>kv_kv := (kv_kv kv)(CommandKey op \<mapsto> CommandValue op)\<rparr>)
                else
                  (case kv_kv kv (CommandKey op) of
                     None \<Rightarrow> Inr (kv\<lparr>kv_kv := (kv_kv kv)(CommandKey op \<mapsto> CommandValue op)\<rparr>)
                   | Some val \<Rightarrow> Inr (kv\<lparr>kv_kv := (kv_kv kv)(CommandKey op \<mapsto> val @ CommandValue op)\<rparr>)))
               (\<lambda>kv. go_bind (go_index (kv_log kv) index) (\<lambda>_.
                  Inr (kv\<lparr>kv_lastApplied := kv_lastApplied kv + 1\<rparr>))))"

text \<open>The loop over what has arrived on the channel.\<close>

fun kv_consume :: "Op ApplyMsg list \<Rightarrow> KVServer \<Rightarrow> KVServer go" where
  "kv_consume [] kv = Inr kv"
| "kv_consume (m # ms) kv = go_bind (kv_checkApply m kv) (kv_consume ms)"

lemma kv_consume_append:
  "kv_consume (xs @ ys) kv = go_bind (kv_consume xs kv) (kv_consume ys)"
proof (induction xs arbitrary: kv)
  case (Cons m ms)
  then show ?case by (cases "kv_checkApply m kv") auto
qed simp

section \<open>The specification\<close>

text \<open>
  The abstract service: an operation is executed when its clerk has no operation with the
  same or a later number before it.
\<close>

definition fresh :: "Op list \<Rightarrow> Op \<Rightarrow> bool" where
  "fresh before op \<longleftrightarrow> (\<forall>o'\<in>set before. ClerkId o' = ClerkId op \<longrightarrow> CommandId o' < CommandId op)"

definition value_of :: "(string \<rightharpoonup> string) \<Rightarrow> string \<Rightarrow> string" where
  "value_of m k = (case m k of None \<Rightarrow> '''' | Some v \<Rightarrow> v)"

definition execute :: "Op \<Rightarrow> (string \<rightharpoonup> string) \<Rightarrow> (string \<rightharpoonup> string)" where
  "execute op m =
     (if CommandType op = GET then m
      else if CommandType op = PUT then m(CommandKey op \<mapsto> CommandValue op)
      else m(CommandKey op \<mapsto> value_of m (CommandKey op) @ CommandValue op))"

fun executed :: "Op list \<Rightarrow> Op list \<Rightarrow> Op list" where
  "executed before [] = []"
| "executed before (op # ops) =
     (if fresh before op then op # executed (before @ [op]) ops else executed (before @ [op]) ops)"

definition store_after :: "Op list \<Rightarrow> string \<rightharpoonup> string" where
  "store_after ops = fold execute (executed [] ops) Map.empty"

text \<open>How the operation \<open>op\<close> is recorded when it comes after \<open>before\<close>.\<close>

definition recorded :: "Op list \<Rightarrow> Op \<Rightarrow> Op" where
  "recorded before op =
     (if \<not> fresh before op then op\<lparr>IsDup := True\<rparr>
      else if CommandType op = GET then op\<lparr>CommandValue := value_of (store_after before) (CommandKey op)\<rparr>
      else op)"

lemma executed_append: "executed bs (xs @ ys) = executed bs xs @ executed (bs @ xs) ys"
  by (induction xs arbitrary: bs) auto

lemma store_after_snoc:
  "store_after (ops @ [op]) = (if fresh ops op then execute op (store_after ops) else store_after ops)"
  by (simp add: store_after_def executed_append)

definition record_log :: "Op list \<Rightarrow> Op list" where
  "record_log ops = Op0 # map (\<lambda>i. recorded (take i ops) (ops ! i)) [0..<length ops]"

lemma record_log_simps [simp]:
  "record_log [] = [Op0]"
  "record_log (ops @ [op]) = record_log ops @ [recorded ops op]"
  "length (record_log ops) = Suc (length ops)"
  by (auto simp: record_log_def nth_append)

lemma record_log_nth: "i < length ops \<Longrightarrow> record_log ops ! Suc i = recorded (take i ops) (ops ! i)"
  by (simp add: record_log_def)

text \<open>The server has applied exactly \<open>ops\<close>.\<close>

definition latest_of :: "Op list \<Rightarrow> (int \<rightharpoonup> int) \<Rightarrow> bool" where
  "latest_of ops latest \<longleftrightarrow> (\<forall>op\<in>set ops. \<exists>m. latest (ClerkId op) = Some m \<and> CommandId op \<le> m) \<and>
     (\<forall>c m. latest c = Some m \<longrightarrow> (\<exists>op\<in>set ops. ClerkId op = c \<and> CommandId op = m))"

definition kv_applied :: "Op list \<Rightarrow> KVServer \<Rightarrow> bool" where
  "kv_applied ops kv \<longleftrightarrow> kv_kv kv = store_after ops \<and> latest_of ops (kv_clerkLatestCmd kv) \<and>
     kv_log kv = record_log ops \<and>
     kv_lastApplied kv = int (length ops)"

lemma latest_of_fresh:
  assumes "latest_of ops latest"
  shows "fresh ops op \<longleftrightarrow> (\<forall>m. latest (ClerkId op) = Some m \<longrightarrow> m < CommandId op)"
proof
  show "fresh ops op \<Longrightarrow> \<forall>m. latest (ClerkId op) = Some m \<longrightarrow> m < CommandId op"
    using assms unfolding latest_of_def fresh_def by blast
  show "\<forall>m. latest (ClerkId op) = Some m \<longrightarrow> m < CommandId op \<Longrightarrow> fresh ops op"
    using assms by (force simp: latest_of_def fresh_def)
qed

lemma latest_of_snoc:
  assumes "latest_of ops latest"
  shows "fresh ops op \<Longrightarrow> latest_of (ops @ [op]) (latest(ClerkId op \<mapsto> CommandId op))"
    and "\<not> fresh ops op \<Longrightarrow> latest_of (ops @ [op]) latest"
  using assms latest_of_fresh[OF assms, of op] unfolding latest_of_def
  by (auto simp: fresh_def)


section \<open>The server refines the specification\<close>

lemma kv_checkApply_applied:
  assumes ap: "kv_applied ops kv" and m: "am_Command m = Some op" "CommandIndex m = int (length ops) + 1"
  shows "\<exists>kv'. kv_checkApply m kv = Inr kv' \<and> kv_applied (ops @ [op]) kv' \<and>
     kv_rf kv' = kv_rf kv \<and> kv_dead kv' = kv_dead kv"
proof -
  let ?l = "kv_clerkLatestCmd kv" and ?L = "kv_log kv"
  have l: "latest_of ops ?l" and st: "kv_kv kv = store_after ops"
    and L: "?L = record_log ops"
    and n: "kv_lastApplied kv = int (length ops)" using ap by (auto simp: kv_applied_def)
  have len: "go_len ?L = int (length ops) + 1" by (simp add: L go_len_def)
  have idx: "go_index (?L @ [e]) (int (length ops) + 1) = Inr e"
    "go_set (?L @ [e]) (int (length ops) + 1) e' = Inr (?L @ [e'])" for e e'
    using len by (auto simp: go_index_def go_set_def nth_append list_update_append go_len_def nat_add_distrib)
  have fr: "fresh ops op \<longleftrightarrow> (\<forall>m. ?l (ClerkId op) = Some m \<longrightarrow> m < CommandId op)" by (rule latest_of_fresh[OF l])
  show ?thesis
  proof (cases "fresh ops op")
    case True
    have new: "(case ?l (ClerkId op) of
                   None \<Rightarrow> (False, op, ?l(ClerkId op \<mapsto> CommandId op))
                 | Some lastId \<Rightarrow>
                     if lastId \<ge> CommandId op then (True, op\<lparr>IsDup := True\<rparr>, ?l)
                     else (False, op, ?l(ClerkId op \<mapsto> CommandId op))) = (False, op, ?l(ClerkId op \<mapsto> CommandId op))"
      using True fr by (auto split: option.splits)
    show ?thesis
      using True latest_of_snoc(1)[OF l True] n
      by (auto simp: kv_checkApply_def m new Let_def idx kv_applied_def L[symmetric]
          store_after_snoc execute_def st recorded_def value_of_def split: option.splits)
  next
    case False
    have old: "(case ?l (ClerkId op) of
                   None \<Rightarrow> (False, op, ?l(ClerkId op \<mapsto> CommandId op))
                 | Some lastId \<Rightarrow>
                     if lastId \<ge> CommandId op then (True, op\<lparr>IsDup := True\<rparr>, ?l)
                     else (False, op, ?l(ClerkId op \<mapsto> CommandId op))) = (True, op\<lparr>IsDup := True\<rparr>, ?l)"
      using False fr by (auto split: option.splits)
    show ?thesis
      using False latest_of_snoc(2)[OF l False] n
      by (simp add: kv_checkApply_def m old Let_def idx kv_applied_def L[symmetric]
          store_after_snoc st recorded_def)
  qed
qed

lemma kv_consume_applied:
  assumes "kv_applied ops kv" and "map am_Command ms = map Some ops'"
    and "map CommandIndex ms = [int (length ops) + 1..int (length ops + length ms)]"
  shows "\<exists>kv'. kv_consume ms kv = Inr kv' \<and> kv_applied (ops @ ops') kv' \<and> kv_rf kv' = kv_rf kv"
  using assms
proof (induction ms arbitrary: ops ops' kv)
  case (Cons m ms)
  obtain op ops'' where ops': "ops' = op # ops''" and m: "am_Command m = Some op" and ms: "map am_Command ms = map Some ops''"
    using Cons.prems(2) by (cases ops') auto
  have "CommandIndex m # map CommandIndex ms = (int (length ops) + 1) # [int (length ops) + 2..int (length ops + length (m # ms))]"
    using Cons.prems(3) by (subst (asm) upto_rec1) (auto simp: add.commute)
  then have i: "CommandIndex m = int (length ops) + 1"
    "map CommandIndex ms = [int (length (ops @ [op])) + 1..int (length (ops @ [op]) + length ms)]"
    by (simp_all add: algebra_simps)
  obtain kv1 where k: "kv_checkApply m kv = Inr kv1" "kv_applied (ops @ [op]) kv1" "kv_rf kv1 = kv_rf kv"
    using kv_checkApply_applied[OF Cons.prems(1) m i(1)] by blast
  from Cons.IH[OF k(2) ms i(2)] k show ?case by (auto simp: ops')
qed simp

section \<open>The service on an apply channel\<close>

definition stream :: "Op ApplyMsg list \<Rightarrow> Op list" where
  "stream ms = map (\<lambda>m. the (am_Command m)) ms"

lemma stream_commands: "(\<And>m. m \<in> set ms \<Longrightarrow> am_Command m \<noteq> None) \<Longrightarrow> map am_Command ms = map Some (stream ms)"
  by (auto simp: stream_def)

lemma stream_simps [simp]: "stream (xs @ ys) = stream xs @ stream ys" "length (stream ms) = length ms"
  by (simp_all add: stream_def)

locale kv_on_channel = apply_channel ok channel deliver
  for ok :: "'r \<Rightarrow> bool" and channel :: "'r \<Rightarrow> Op ApplyMsg list" and deliver
begin

lemma follows:
  assumes "ok r" and "kv_applied [] kv"
  shows "\<exists>kv'. kv_consume (channel r) kv = Inr kv' \<and> kv_applied (stream (channel r)) kv' \<and> kv_rf kv' = kv_rf kv"
  using kv_consume_applied[OF assms(2) stream_commands[OF commands[OF assms(1)]]] indexed[OF assms(1)] by simp

lemma follows_part:
  assumes "ok r" and "kv_applied [] kv" and "prefix ms (channel r)"
  shows "\<exists>kv'. kv_consume ms kv = Inr kv' \<and> kv_applied (take (length ms) (stream (channel r))) kv'"
proof -
  obtain rest where ch: "channel r = ms @ rest" using assms(3) by (auto simp: prefix_def)
  have "[1..int (length ms)] @ [int (length ms) + 1..int (length (channel r))] = [1..int (length (channel r))]"
    by (rule upto_append) (simp_all add: ch)
  then have "map CommandIndex ms @ map CommandIndex rest = [1..int (length ms)] @ [int (length ms) + 1..int (length (channel r))]"
    using indexed[OF assms(1)] ch by simp
  then have "map CommandIndex ms = [1..int (length ms)]" by (simp add: append_eq_append_conv)
  moreover have "map am_Command ms = map Some (stream ms)" using commands[OF assms(1)] ch by (intro stream_commands) simp
  ultimately show ?thesis using kv_consume_applied[OF assms(2)] ch by fastforce
qed

lemma keeps_up:
  assumes "ok r" and "deliver r = Inr r'" and "kv_applied (stream (channel r)) kv"
  shows "\<exists>new kv'. channel r' = channel r @ new \<and> kv_consume new kv = Inr kv' \<and> kv_applied (stream (channel r')) kv'"
proof -
  obtain new where new: "channel r' = channel r @ new"
    "map CommandIndex new = [int (length (channel r)) + 1..int (length (channel r'))]"
    "\<And>m. m \<in> set new \<Longrightarrow> am_Command m \<noteq> None"
    using delivered[OF assms(1,2)] by metis
  have "map CommandIndex new = [int (length (stream (channel r))) + 1..int (length (stream (channel r)) + length new)]"
    using new(1,2) by simp
  from kv_consume_applied[OF assms(3) stream_commands[OF new(3)] this] new(1) show ?thesis by auto
qed

end

interpretation kv_raft: kv_on_channel fed rf_applyCh checkApply
  by unfold_locales

section \<open>Exactly once\<close>

abbreviation op_key :: "Op \<Rightarrow> int \<times> int" where
  "op_key op \<equiv> (ClerkId op, CommandId op)"

lemma equals_key: "equals a b \<longleftrightarrow> op_key a = op_key b"
  by (auto simp: equals_def)

lemma executed_fresh: "op \<in> set (executed bs ops) \<Longrightarrow> fresh bs op"
  by (induction bs ops rule: executed.induct) (auto simp: fresh_def split: if_splits)

lemma executed_once: "distinct (map op_key (executed bs ops))"
  by (induction bs ops rule: executed.induct) (auto simp: fresh_def dest!: executed_fresh)

text \<open>
  What the clerks see to: an operation that comes after a later one of the same clerk has
  come before it too.
\<close>

definition clerk_ordered :: "Op list \<Rightarrow> bool" where
  "clerk_ordered ops \<longleftrightarrow>
     (\<forall>j<length ops. \<forall>i<j. ClerkId (ops ! i) = ClerkId (ops ! j) \<and> CommandId (ops ! j) < CommandId (ops ! i) \<longrightarrow>
        (\<exists>k<i. op_key (ops ! k) = op_key (ops ! j)))"

lemma first_occurrence:
  assumes "i < length ops"
  obtains j where "j \<le> i" "op_key (ops ! j) = op_key (ops ! i)" "\<And>k. k < j \<Longrightarrow> op_key (ops ! k) \<noteq> op_key (ops ! i)"
  using assms exists_least_iff[of "\<lambda>j. op_key (ops ! j) = op_key (ops ! i)"] by (metis leI)

lemma first_is_fresh:
  assumes "clerk_ordered ops" and "j < length ops" and first: "\<And>k. k < j \<Longrightarrow> op_key (ops ! k) \<noteq> op_key (ops ! j)"
  shows "fresh (take j ops) (ops ! j)"
  unfolding fresh_def
proof (intro ballI impI)
  fix o' assume "o' \<in> set (take j ops)" and c: "ClerkId o' = ClerkId (ops ! j)"
  then obtain i where i: "i < j" "o' = ops ! i" using assms(2) by (auto simp: in_set_conv_nth)
  have "CommandId (ops ! i) \<noteq> CommandId (ops ! j)" using first[OF i(1)] c i(2) by auto
  moreover have "\<not> CommandId (ops ! j) < CommandId (ops ! i)"
  proof
    assume "CommandId (ops ! j) < CommandId (ops ! i)"
    then obtain k where "k < i" "op_key (ops ! k) = op_key (ops ! j)"
      using assms(1,2) i c unfolding clerk_ordered_def by blast
    with first[of k] i(1) show False by simp
  qed
  ultimately show "CommandId o' < CommandId (ops ! j)" using i(2) by simp
qed

lemma not_first_not_fresh:
  assumes "k < j" and "j \<le> length ops" and "op_key (ops ! k) = op_key op"
  shows "\<not> fresh (take j ops) op"
proof -
  have "ops ! k \<in> set (take j ops)" using assms(1,2) by (auto simp: in_set_conv_nth)
  then show ?thesis using assms(3) by (auto simp: fresh_def)
qed

lemma executed_subseq: "subseq (executed bs ops) ops"
  by (induction bs ops rule: executed.induct) auto

lemma clerk_ordered_take:
  assumes "clerk_ordered ops"
  shows "clerk_ordered (take k ops)"
  unfolding clerk_ordered_def
proof (intro allI impI)
  fix j i assume j: "j < length (take k ops)" and i: "i < j"
    and c: "ClerkId (take k ops ! i) = ClerkId (take k ops ! j) \<and> CommandId (take k ops ! j) < CommandId (take k ops ! i)"
  then obtain m where "m < i" "op_key (ops ! m) = op_key (ops ! j)" using assms unfolding clerk_ordered_def by auto
  then show "\<exists>m<i. op_key (take k ops ! m) = op_key (take k ops ! j)" using i j by (intro exI[of _ m]) auto
qed

text \<open>
  Every command once, where it comes first: what a service without repetitions executes.
\<close>

fun firsts :: "(int \<times> int) set \<Rightarrow> Op list \<Rightarrow> Op list" where
  "firsts seen [] = []"
| "firsts seen (op # ops) =
     (if op_key op \<in> seen then firsts seen ops else op # firsts (insert (op_key op) seen) ops)"

lemma firsts_append: "firsts S (xs @ ys) = firsts S xs @ firsts (S \<union> op_key ` set xs) ys"
proof (induction xs arbitrary: S)
  case (Cons x xs)
  have "insert (op_key x) (S \<union> op_key ` set xs) = S \<union> op_key ` set xs" if "op_key x \<in> S" using that by auto
  with Cons show ?case by simp
qed simp

lemma firsts_keys: "op_key ` set (firsts S ops) = op_key ` set ops - S" and firsts_subset: "set (firsts S ops) \<subseteq> set ops"
  by (induction S ops rule: firsts.induct) auto

lemma firsts_distinct: "distinct (map op_key (firsts S ops))"
proof (induction S ops rule: firsts.induct)
  case (2 S op ops)
  have "op_key op \<notin> op_key ` set (firsts (insert (op_key op) S) ops)" unfolding firsts_keys by simp
  with 2 show ?case by (auto simp: image_iff)
qed simp

lemma executed_firsts: "clerk_ordered ops \<Longrightarrow> executed [] ops = firsts {} ops"
proof (induction ops rule: rev_induct)
  case (snoc op ops)
  let ?l = "ops @ [op]"
  have "clerk_ordered ops" using clerk_ordered_take[OF snoc.prems, of "length ops"] by simp
  moreover have "fresh ops op \<longleftrightarrow> op_key op \<notin> op_key ` set ops"
  proof
    show "fresh ops op \<Longrightarrow> op_key op \<notin> op_key ` set ops" by (auto simp: fresh_def)
    assume new: "op_key op \<notin> op_key ` set ops"
    have "op_key (?l ! k) \<noteq> op_key (?l ! length ops)" if "k < length ops" for k
    proof
      assume "op_key (?l ! k) = op_key (?l ! length ops)"
      then have k: "op_key (ops ! k) = op_key op" using that by (simp add: nth_append)
      from imageI[OF nth_mem[OF that], of op_key] show False using new unfolding k by simp
    qed
    from first_is_fresh[OF snoc.prems _ this] show "fresh ops op" by simp
  qed
  ultimately show ?case using snoc.IH by (simp add: executed_append firsts_append)
qed simp

section \<open>From the log to the store\<close>

lemma StartKVServer_applied:
  assumes "StartKVServer n me ps mrs now rnd = Inr kv"
  shows "kv_applied [] kv" and "Make n me ps now rnd = Inr (kv_rf kv)"
  using assms by (auto simp: StartKVServer_def go_simps kv_applied_def store_after_def latest_of_def)

text \<open>The operations a peer has delivered: the commands of its log up to \<open>lastApplied\<close>.\<close>

definition log_ops :: "Op Raft \<Rightarrow> Op list" where
  "log_ops rf = map (\<lambda>e. the (le_Command e)) (take (nat (rf_lastApplied rf)) (tl (rf_log rf)))"

lemma fed_stream: "fed rf \<Longrightarrow> stream (rf_applyCh rf) = log_ops rf"
proof -
  assume "fed rf"
  then have "map the (map am_Command (rf_applyCh rf)) = map the (map le_Command (take (nat (rf_lastApplied rf)) (tl (rf_log rf))))"
    by (simp add: fed_def)
  then show ?thesis by (simp add: stream_def log_ops_def comp_def)
qed

lemma kv_follows_log:
  assumes "fed rf" and "kv_applied [] kv0"
  obtains kv where "kv_consume (rf_applyCh rf) kv0 = Inr kv" "kv_applied (log_ops rf) kv"
  using kv_raft.follows[OF assms] fed_stream[OF assms(1)] by auto

section \<open>What the waiting handlers see\<close>

lemma record_log_first_value:
  assumes "j < length ops" and "op_key (ops ! j) = op_key op" and "\<And>k. k < j \<Longrightarrow> op_key (ops ! k) \<noteq> op_key op"
    and "op_key op \<noteq> (0, 0)"
  shows "first_value op (record_log ops) d = CommandValue (recorded (take j ops) (ops ! j))"
proof -
  have key: "op_key (recorded bs o') = op_key o'" for bs o' by (simp add: recorded_def)
  have "first_value op (map f [a..<b]) d = CommandValue (f j)"
    if "a \<le> j" "j < b" "op_key (f j) = op_key op" "\<And>k. k < j \<Longrightarrow> op_key (f k) \<noteq> op_key op" for f a b
    using that
  proof (induction "j - a" arbitrary: a)
    case (Suc n)
    then have "a < b" "op_key (f a) \<noteq> op_key op" by auto
    with Suc show ?case by (auto simp: upt_conv_Cons equals_key)
  qed (simp add: upt_conv_Cons equals_key)
  from this[of 0 "length ops" "\<lambda>i. recorded (take i ops) (ops ! i)"] show ?thesis
    using assms key by (auto simp: record_log_def equals_key Op0_def)
qed

lemma equals_recorded [simp]:
  "equals op (recorded bs o') = equals op o'" "equals (recorded bs o') op = equals o' op"
  by (simp_all add: recorded_def equals_def)

lemma first_value_recorded [simp]: "first_value (recorded bs op) l d = first_value op l d"
  by (induction l) auto

lemma Get_poll_applied:
  assumes ap: "kv_applied ops kv" and i: "i < length ops"
  shows "Get_poll args (int i + 1) kv = Inr (Some (
     if \<not> equals (get_op args) (ops ! i) then \<lparr>gr_Err = ErrWrongLeader, gr_Value = ''''\<rparr>
     else if fresh (take i ops) (ops ! i) \<and> \<not> IsDup (ops ! i) then \<lparr>gr_Err = OK, gr_Value = CommandValue (recorded (take i ops) (ops ! i))\<rparr>
     else \<lparr>gr_Err = OK, gr_Value = first_value (ops ! i) (record_log ops) ''''\<rparr>))"
proof -
  have "go_index (kv_log kv) (int i + 1) = Inr (recorded (take i ops) (ops ! i))"
    using ap i by (simp add: kv_applied_def go_index_def go_len_def nat_add_distrib record_log_nth)
  moreover have "IsDup (recorded bs o') \<longleftrightarrow> \<not> fresh bs o' \<or> IsDup o'" for bs o' by (simp add: recorded_def)
  ultimately show ?thesis using ap i by (simp add: Get_poll_def kv_applied_def)
qed

lemma Poll_waits:
  assumes "kv_applied ops kv" and "int (length ops) < index"
  shows "Get_poll ga index kv = Inr None" and "PutAppend_poll pa index kv = Inr None"
  using assms by (auto simp: Get_poll_def PutAppend_poll_def kv_applied_def)

lemma PutAppend_poll_applied:
  assumes ap: "kv_applied ops kv" and i: "i < length ops"
  shows "PutAppend_poll args (int i + 1) kv =
     Inr (Some \<lparr>par_Err = (if equals (putappend_op args) (ops ! i) then OK else ErrWrongLeader)\<rparr>)"
proof -
  have "go_index (kv_log kv) (int i + 1) = Inr (recorded (take i ops) (ops ! i))"
    using ap i by (simp add: kv_applied_def go_index_def go_len_def nat_add_distrib record_log_nth)
  then show ?thesis using ap i by (simp add: PutAppend_poll_def kv_applied_def)
qed

section \<open>What the replies mean\<close>

text \<open>The value in the reply to a Get is the one at the operation's first application.\<close>

lemma get_poll_value:
  assumes ap: "kv_applied ops kv" and ord: "clerk_ordered ops" and i: "i < length ops" "ops ! i = get_op args"
    and same: "\<forall>op\<in>set ops. op_key op = op_key (get_op args) \<longrightarrow> op = get_op args"
    and nz: "op_key (get_op args) \<noteq> (0, 0)"
  shows "\<exists>j\<le>i. ops ! j = get_op args \<and> (\<forall>k<j. ops ! k \<noteq> get_op args) \<and>
     Get_poll args (int i + 1) kv =
       Inr (Some \<lparr>gr_Err = OK, gr_Value = value_of (store_after (take j ops)) (ga_Key args)\<rparr>)"
proof -
  obtain j where j: "j \<le> i" "op_key (ops ! j) = op_key (ops ! i)" "\<And>k. k < j \<Longrightarrow> op_key (ops ! k) \<noteq> op_key (ops ! i)"
    using first_occurrence[OF i(1)] by metis
  have jl: "j < length ops" using j(1) i(1) by simp
  have oj: "ops ! j = get_op args" using same j(2) i(2) jl by auto
  have fr: "fresh (take j ops) (ops ! j)" using j by (intro first_is_fresh[OF ord jl]) auto
  have val: "CommandValue (recorded (take j ops) (ops ! j)) = value_of (store_after (take j ops)) (ga_Key args)"
    using fr by (simp add: recorded_def oj get_op_def)
  have "first_value (ops ! i) (record_log ops) '''' = CommandValue (recorded (take j ops) (ops ! j))"
    using j nz i(2) by (intro record_log_first_value[OF jl]) auto
  moreover have "i = j" if "fresh (take i ops) (ops ! i)"
    using that not_first_not_fresh[of j i ops "ops ! i"] j(1,2) i(1) by (cases "j = i") auto
  ultimately have "Get_poll args (int i + 1) kv = Inr (Some \<lparr>gr_Err = OK, gr_Value = value_of (store_after (take j ops)) (ga_Key args)\<rparr>)"
    using val i(2) by (auto simp: Get_poll_applied[OF ap i(1)] equals_def)
  moreover have "\<forall>k<j. ops ! k \<noteq> get_op args" using j(3) i(2) by metis
  ultimately show ?thesis using j(1) oj by blast
qed

text \<open>
  A server that has applied an operation, and no other one with its numbers, holds the
  result of executing every command once, that operation among them.
\<close>

lemma applied_once:
  assumes "kv_applied ops kv" and "clerk_ordered ops" and "i < length ops" and "op_key (ops ! i) = op_key op"
    and same: "\<forall>o'\<in>set ops. op_key o' = op_key op \<longrightarrow> o' = op"
  shows "kv_kv kv = fold execute (firsts {} ops) Map.empty \<and> count_list (firsts {} ops) op = 1"
proof -
  have "op_key op \<in> op_key ` set (firsts {} ops)"
    unfolding firsts_keys using assms(3,4) by (simp add: image_iff) (metis nth_mem)
  then obtain o' where "o' \<in> set (firsts {} ops)" "op_key o' = op_key op" by auto
  then have "op \<in> set (firsts {} ops)" using same firsts_subset by blast
  moreover have "distinct (firsts {} ops)" using firsts_distinct distinct_map by blast
  ultimately show ?thesis
    using assms(1) executed_firsts[OF assms(2)] by (simp add: distinct_count_list kv_applied_def store_after_def)
qed

lemma PutAppend_poll_OK:
  assumes "kv_applied ops kv" and "i < length ops" and "PutAppend_poll args (int i + 1) kv = Inr (Some \<lparr>par_Err = OK\<rparr>)"
  shows "op_key (ops ! i) = op_key (putappend_op args)"
  using assms(3) by (auto simp: PutAppend_poll_applied[OF assms(1,2)] equals_key split: if_splits)

end
