(* ===== verification/KV_Theorems.thy ===== *)
theory KV_Theorems
  imports KVServer
begin

text \<open>
  What the key/value service guarantees to its clients, and the concrete server and
  operations the witnesses use: clerk 5 puts, clerk 6 reads, clerk 5 puts again, and the
  read of clerk 6 is applied a second time.
\<close>

section \<open>A sample server\<close>

definition op_put :: Op where
  "op_put = \<lparr>CommandType = PUT, CommandKey = ''x'', CommandValue = ''1'', ClerkId = 5, CommandId = 0, IsDup = False\<rparr>"

definition args_put :: PutAppendArgs where
  "args_put = \<lparr>pa_Key = ''x'', pa_Value = ''1'', pa_Op = PUT, pa_ClerkId = 5, pa_CommandId = 0\<rparr>"

definition args_get :: GetArgs where
  "args_get = \<lparr>ga_Key = ''x'', ga_ClerkId = 6, ga_CommandId = 3\<rparr>"

definition sample_ops :: "Op list" where
  "sample_ops = [op_put, get_op args_get, op_put\<lparr>CommandId := 1, CommandValue := ''2''\<rparr>, get_op args_get]"

definition sample_ms :: "Op ApplyMsg list" where
  "sample_ms = map (\<lambda>i. \<lparr>CommandValid = True, am_Command = Some (sample_ops ! i), CommandIndex = int i + 1\<rparr>) [0..<4]"

definition sample_rf :: "Op Raft" where
  "sample_rf = (case Make 3 0 MakePersister 0 0 of Inr rf \<Rightarrow> rf
     \<lparr>rf_log := [\<lparr>le_Command = None, le_Term = 0\<rparr>, \<lparr>le_Command = Some op_put, le_Term = 1\<rparr>],
      rf_currentTerm := 1, rf_commitIndex := 1, rf_lastApplied := 1,
      rf_applyCh := [\<lparr>CommandValid = True, am_Command = Some op_put, CommandIndex = 1\<rparr>]\<rparr>)"

lemma sample_fed: "fed sample_rf"
  by (simp add: fed_def sample_rf_def Make_fresh)

lemma sample_ms_ok: "map am_Command sample_ms = map Some sample_ops" "map CommandIndex sample_ms = [1..4]" "length sample_ms = 4"
  by (simp_all add: sample_ms_def sample_ops_def eval_nat_numeral upto.simps)

lemma sample_ordered: "clerk_ordered sample_ops"
  by (auto simp: clerk_ordered_def sample_ops_def op_put_def get_op_def args_get_def less_Suc_eq eval_nat_numeral)

section \<open>Replication\<close>

text \<open>
  C19. The service refines its specification: a server that consumes what its Raft peer
  has delivered never panics, and its store, its log of recorded answers and its
  \<open>lastApplied\<close> are those of the specification applied to the peer's log up to
  \<open>lastApplied\<close>.
\<close>

theorem kv_server_refines:
  assumes "fed rf" and "StartKVServer n me ps mrs now rnd = Inr kv0"
  shows "\<exists>kv. kv_consume (rf_applyCh rf) kv0 = Inr kv \<and> kv_kv kv = store_after (log_ops rf) \<and>
     kv_log kv = record_log (log_ops rf) \<and> kv_lastApplied kv = rf_lastApplied rf"
proof -
  obtain kv where kv: "kv_consume (rf_applyCh rf) kv0 = Inr kv" "kv_applied (log_ops rf) kv"
    using kv_follows_log[OF assms(1) StartKVServer_applied(1)[OF assms(2)]] .
  moreover have "int (length (log_ops rf)) = rf_lastApplied rf"
    using assms(1) fed_stream[OF assms(1), symmetric] fed_channel(1)[OF assms(1)] by simp
  ultimately show ?thesis by (auto simp: kv_applied_def)
qed

theorem kv_server_refines_witness:
  "fed sample_rf \<and> (\<exists>kv0 kv. StartKVServer 3 0 MakePersister (-1) 0 0 = Inr kv0 \<and>
     kv_consume (rf_applyCh sample_rf) kv0 = Inr kv \<and> kv_kv kv = store_after (log_ops sample_rf))"
proof -
  obtain kv0 where s: "StartKVServer 3 0 MakePersister (-1) 0 0 = Inr kv0"
    by (simp add: StartKVServer_def Make_fresh)
  from kv_server_refines[OF sample_fed s] sample_fed s show ?thesis by blast
qed

section \<open>Operations\<close>

text \<open>
  C22. Exactly once: a freshly started server that consumes a sequence of messages, numbered
  from 1 on and each with a command, does not panic, and its store is the result of a
  subsequence of the commands in which no command of a clerk occurs twice. If the clerks
  number their operations in the order they issue them (\<open>clerk_ordered\<close>), the subsequence
  has every command, where it came first.
\<close>

theorem exactly_once:
  assumes "StartKVServer n me ps mrs now rnd = Inr kv0" and "map am_Command ms = map Some ops"
    and "map CommandIndex ms = [1..int (length ms)]"
  shows "\<exists>kv xs. kv_consume ms kv0 = Inr kv \<and> kv_kv kv = fold execute xs Map.empty \<and> subseq xs ops \<and> distinct (map op_key xs) \<and>
     (clerk_ordered ops \<longrightarrow> xs = firsts {} ops)"
proof -
  obtain kv where "kv_consume ms kv0 = Inr kv" "kv_applied ops kv"
    using kv_consume_applied[OF StartKVServer_applied(1)[OF assms(1)] assms(2)] assms(3) by auto
  then show ?thesis using executed_subseq executed_once executed_firsts
    by (intro exI[of _ kv] exI[of _ "executed [] ops"]) (auto simp: kv_applied_def store_after_def)
qed

theorem exactly_once_witness:
  "\<exists>kv0 kv. StartKVServer 3 0 MakePersister (-1) 0 0 = Inr kv0 \<and> kv_consume sample_ms kv0 = Inr kv \<and>
     kv_kv kv = fold execute (take 3 sample_ops) Map.empty \<and> value_of (kv_kv kv) ''x'' = ''2''"
proof -
  obtain kv0 where s: "StartKVServer 3 0 MakePersister (-1) 0 0 = Inr kv0"
    by (simp add: StartKVServer_def Make_fresh)
  have "map CommandIndex sample_ms = [1..int (length sample_ms)]" using sample_ms_ok by simp
  from exactly_once[OF s sample_ms_ok(1) this] sample_ordered
  obtain kv where "kv_consume sample_ms kv0 = Inr kv" "kv_kv kv = fold execute (firsts {} sample_ops) Map.empty" by auto
  moreover have "firsts {} sample_ops = take 3 sample_ops" "value_of (fold execute (firsts {} sample_ops) Map.empty) ''x'' = ''2''"
    by code_simp+
  ultimately show ?thesis using s by auto
qed

text \<open>
  The sentinel entry \<open>Op{}\<close> has the numbers of command 0 of clerk 0. A repeated
  Get with those numbers is answered with the sentinel's empty value, although the key
  had a value when the Get was first applied.
\<close>

lemma sentinel_shadows_clerk_zero:
  "\<exists>kv. let args = \<lparr>ga_Key = ''x'', ga_ClerkId = 0, ga_CommandId = 0\<rparr>;
          ops = [op_put, get_op args, get_op args]
     in kv_applied ops kv \<and> clerk_ordered ops \<and> value_of (store_after (take 1 ops)) ''x'' = ''1'' \<and>
        Get_poll args 2 kv = Inr (Some \<lparr>gr_Err = OK, gr_Value = ''1''\<rparr>) \<and>
        Get_poll args 3 kv = Inr (Some \<lparr>gr_Err = OK, gr_Value = ''''\<rparr>)"
proof -
  let ?args = "\<lparr>ga_Key = ''x'', ga_ClerkId = 0, ga_CommandId = 0\<rparr>"
  let ?ops = "[op_put, get_op ?args, get_op ?args]"
  obtain kv0 where s: "StartKVServer 3 0 MakePersister (-1) 0 0 = Inr kv0"
    by (simp add: StartKVServer_def Make_fresh)
  let ?ms = "map (\<lambda>i. \<lparr>CommandValid = True, am_Command = Some (?ops ! i), CommandIndex = int i + 1\<rparr>) [0..<3]"
  have "map am_Command ?ms = map Some ?ops" "map CommandIndex ?ms = [int (length ([] :: Op list)) + 1..int (length ([] :: Op list) + length ?ms)]"
    by (simp_all add: eval_nat_numeral upto.simps)
  from kv_consume_applied[OF StartKVServer_applied(1)[OF s] this]
  obtain kv where kv: "kv_applied ?ops kv" by auto
  have "clerk_ordered ?ops" by (auto simp: clerk_ordered_def less_Suc_eq op_put_def get_op_def eval_nat_numeral)
  moreover have "value_of (store_after (take 1 ?ops)) ''x'' = ''1''" by code_simp
  moreover have "Get_poll ?args 2 kv = Inr (Some \<lparr>gr_Err = OK, gr_Value = ''1''\<rparr>)"
  proof -
    have "equals (get_op ?args) (?ops ! 1)" "fresh (take 1 ?ops) (?ops ! 1) \<and> \<not> IsDup (?ops ! 1)"
      "CommandValue (recorded (take 1 ?ops) (?ops ! 1)) = ''1''" by code_simp+
    then show ?thesis using Get_poll_applied[OF kv, of 1 ?args] by simp
  qed
  moreover have "Get_poll ?args 3 kv = Inr (Some \<lparr>gr_Err = OK, gr_Value = ''''\<rparr>)"
  proof -
    have "equals (get_op ?args) (?ops ! 2)" "\<not> fresh (take 2 ?ops) (?ops ! 2)"
      "first_value (?ops ! 2) (record_log ?ops) '''' = ''''" by code_simp+
    then show ?thesis using Get_poll_applied[OF kv, of 2 ?args] by simp
  qed
  ultimately show ?thesis using kv by (intro exI[of _ kv]) (simp add: Let_def)
qed

end
