(* ===== verification/KV_Cluster.thy ===== *)
theory KV_Cluster
  imports Raft_Feed Raft_Agreement KV_Theorems
begin

text \<open>
  The service on top of the cluster. Every key/value server consumes the apply channel of
  its own Raft peer; with what the cluster promises, the servers go through the same
  operations, at any two moments of a run, and an acknowledged operation is never lost.
\<close>

section \<open>The operations of two servers\<close>

lemma stream_prefix: "prefix xs ys \<Longrightarrow> prefix (stream xs) (stream ys)"
  by (auto simp: prefix_def)

lemma cluster_ops:
  assumes "creach prompt n cl" and "crun prompt as cl = Some cl'" and "i < n" and "j < n"
  shows "prefix (log_ops (servers cl ! i)) (log_ops (servers cl' ! j)) \<or> prefix (log_ops (servers cl' ! j)) (log_ops (servers cl ! i))"
proof -
  obtain p where p: "agreed n cl p" using creach_agreed[OF assms(1)] by blast
  obtain p' where "agreed n cl' p'" "\<forall>u lg j. settled n p u lg j \<longrightarrow> settled n p' u lg j" using crun_agreed[OF assms(2) p] by blast
  from agreed_channels[OF p this assms(3,4)] show ?thesis
    using stream_prefix fed_stream[OF cluster_fed[OF assms(1,3)]] fed_stream[OF cluster_fed[OF crun_creach[OF assms(1,2)] assms(4)]] by metis
qed

lemma prefix_same_length: "prefix xs ys \<or> prefix ys xs \<Longrightarrow> length xs = length ys \<Longrightarrow> xs = ys"
  by (auto simp: prefix_def)

lemma comparable_nth: "prefix xs ys \<or> prefix ys xs \<Longrightarrow> k < length xs \<Longrightarrow> k < length ys \<Longrightarrow> xs ! k = ys ! k"
  by (auto simp: prefix_def nth_append)

lemma comparable_take: "prefix xs ys \<or> prefix ys xs \<Longrightarrow> k \<le> length xs \<Longrightarrow> k \<le> length ys \<Longrightarrow> take k xs = take k ys"
  by (auto simp: prefix_def)

text \<open>
  C20. Replicas agree. At any two moments of a run of the cluster in which vote requests are
  built in their election's term, two servers that have
  consumed what their peers have delivered have not panicked and hold the results of
  operation sequences of which one is a prefix of the other; when they have applied equally
  many, their stores and recorded answers are the same.
\<close>

theorem replicas_agree:
  assumes "creach prompt n cl" and "crun prompt as cl = Some cl'" and "i < n" and "j < n"
    and "StartKVServer n (int i) ps1 mrs1 now1 rnd1 = Inr kv1" and "StartKVServer n (int j) ps2 mrs2 now2 rnd2 = Inr kv2"
  shows "\<exists>kv1' kv2'. kv_consume (rf_applyCh (servers cl ! i)) kv1 = Inr kv1' \<and> kv_consume (rf_applyCh (servers cl' ! j)) kv2 = Inr kv2' \<and>
     kv_kv kv1' = store_after (log_ops (servers cl ! i)) \<and> kv_kv kv2' = store_after (log_ops (servers cl' ! j)) \<and>
     (prefix (log_ops (servers cl ! i)) (log_ops (servers cl' ! j)) \<or> prefix (log_ops (servers cl' ! j)) (log_ops (servers cl ! i))) \<and>
     (kv_lastApplied kv1' = kv_lastApplied kv2' \<longrightarrow> kv_kv kv1' = kv_kv kv2' \<and> kv_log kv1' = kv_log kv2')"
proof -
  note r' = crun_creach[OF assms(1,2)]
  obtain kv1' where k1: "kv_consume (rf_applyCh (servers cl ! i)) kv1 = Inr kv1'" "kv_applied (log_ops (servers cl ! i)) kv1'"
    using kv_follows_log[OF cluster_fed[OF assms(1,3)] StartKVServer_applied(1)[OF assms(5)]] .
  obtain kv2' where k2: "kv_consume (rf_applyCh (servers cl' ! j)) kv2 = Inr kv2'" "kv_applied (log_ops (servers cl' ! j)) kv2'"
    using kv_follows_log[OF cluster_fed[OF r' assms(4)] StartKVServer_applied(1)[OF assms(6)]] .
  note c = cluster_ops[OF assms(1-4)]
  have "kv_kv kv1' = kv_kv kv2' \<and> kv_log kv1' = kv_log kv2'" if "kv_lastApplied kv1' = kv_lastApplied kv2'"
    using that k1(2) k2(2) prefix_same_length[OF c] by (simp add: kv_applied_def)
  then show ?thesis using k1 k2 c by (simp add: kv_applied_def)
qed

definition kv_committed :: "Op cluster" where
  "kv_committed = the (crun prompt (commit_run op_put) (boot_cluster 3))"

definition kv_spread :: "Op cluster" where
  "kv_spread = the (crun prompt spread_run kv_committed)"

lemma kv_committed_reachable: "creach prompt 3 kv_committed"
proof -
  have "crun prompt (commit_run op_put) (boot_cluster 3) \<noteq> None" by code_simp
  then show ?thesis unfolding kv_committed_def by (metis crun_creach[OF boot_creach] option.exhaust_sel)
qed

lemma kv_spread_follows: "crun prompt spread_run kv_committed = Some kv_spread"
proof -
  have "crun prompt spread_run kv_committed \<noteq> None" by code_simp
  then show ?thesis unfolding kv_spread_def by simp
qed

lemma kv_runs: "log_ops (servers kv_committed ! 0) = [op_put]" "log_ops (servers kv_spread ! 1) = [op_put]"
  by code_simp+

theorem replicas_agree_witness:
  "\<exists>kv1 kv2 kv1' kv2'. StartKVServer 3 0 MakePersister (-1) 0 0 = Inr kv1 \<and> StartKVServer 3 1 MakePersister (-1) 0 0 = Inr kv2 \<and>
     kv_consume (rf_applyCh (servers kv_committed ! 0)) kv1 = Inr kv1' \<and> kv_consume (rf_applyCh (servers kv_spread ! 1)) kv2 = Inr kv2' \<and>
     kv_kv kv1' = kv_kv kv2' \<and> value_of (kv_kv kv1') ''x'' = ''1''"
proof -
  obtain kv1 kv2 where s: "StartKVServer 3 (int 0) MakePersister (-1) 0 0 = Inr kv1" "StartKVServer 3 (int 1) MakePersister (-1) 0 0 = Inr kv2"
    by (simp add: StartKVServer_def Make_fresh)
  have lt: "(0::nat) < 3" "(1::nat) < 3" by simp_all
  obtain kv1' kv2' where c: "kv_consume (rf_applyCh (servers kv_committed ! 0)) kv1 = Inr kv1'" "kv_consume (rf_applyCh (servers kv_spread ! 1)) kv2 = Inr kv2'"
    "kv_kv kv1' = store_after [op_put]" "kv_kv kv2' = store_after [op_put]"
    using replicas_agree[OF kv_committed_reachable kv_spread_follows lt s] unfolding kv_runs by blast
  have "value_of (store_after [op_put]) ''x'' = ''1''" by code_simp
  then show ?thesis using s c by auto
qed

section \<open>Acknowledged operations\<close>

text \<open>
  C21. Nothing acknowledged is lost, in a run in which vote requests are built in their
  election's term. If at some moment a server has answered a Put or Append with \<open>OK\<close> after
  waiting for index \<open>k + 1\<close>, every server whose peer has delivered that index, then or at any
  later moment of the run and after any crashes, holds the store that comes from executing
  every command once, where it came first, and the operation is one of them. This is for logs
  in which the clerks' numbers come in order (\<open>clerk_ordered\<close>) and no other operation has the
  numbers of this one.
\<close>

theorem acknowledged_put_survives:
  assumes "creach prompt n cl" and "crun prompt as cl = Some cl'" and "i < n" and "j < n"
    and "StartKVServer n (int i) ps1 mrs1 now1 rnd1 = Inr kv1" and "kv_consume (rf_applyCh (servers cl ! i)) kv1 = Inr kv"
    and "StartKVServer n (int j) ps2 mrs2 now2 rnd2 = Inr kv2"
    and "clerk_ordered (log_ops (servers cl' ! j))"
    and "\<forall>op\<in>set (log_ops (servers cl' ! j)). op_key op = op_key (putappend_op args) \<longrightarrow> op = putappend_op args"
    and "PutAppend_poll args (int k + 1) kv = Inr (Some \<lparr>par_Err = OK\<rparr>)" and "int k < rf_lastApplied (servers cl' ! j)"
  shows "\<exists>kv2'. kv_consume (rf_applyCh (servers cl' ! j)) kv2 = Inr kv2' \<and>
     kv_kv kv2' = fold execute (firsts {} (log_ops (servers cl' ! j))) Map.empty \<and>
     count_list (firsts {} (log_ops (servers cl' ! j))) (putappend_op args) = 1"
proof -
  let ?a = "log_ops (servers cl ! i)" and ?b = "log_ops (servers cl' ! j)"
  obtain kv' where "kv_consume (rf_applyCh (servers cl ! i)) kv1 = Inr kv'" "kv_applied ?a kv'"
    using kv_follows_log[OF cluster_fed[OF assms(1,3)] StartKVServer_applied(1)[OF assms(5)]] .
  then have ap: "kv_applied ?a kv" using assms(6) by simp
  have ka: "k < length ?a" using Poll_waits(2)[OF ap, of "int k + 1" args] assms(10) by (cases "k < length ?a") auto
  have fb: "fed (servers cl' ! j)" by (rule cluster_fed[OF crun_creach[OF assms(1,2)] assms(4)])
  have kb: "k < length ?b" using assms(11) fed_stream[OF fb, symmetric] fed_channel(1)[OF fb] by simp
  have "op_key (?b ! k) = op_key (putappend_op args)"
    using PutAppend_poll_OK[OF ap ka assms(10)] comparable_nth[OF cluster_ops[OF assms(1-4)] ka kb] by simp
  moreover obtain kv2' where "kv_consume (rf_applyCh (servers cl' ! j)) kv2 = Inr kv2'" "kv_applied ?b kv2'"
    using kv_follows_log[OF fb StartKVServer_applied(1)[OF assms(7)]] .
  ultimately show ?thesis using applied_once[OF _ assms(8) kb _ assms(9)] by blast
qed

theorem acknowledged_put_survives_witness:
  "\<exists>kv2 kv2'. StartKVServer 3 (int 1) MakePersister (-1) 0 0 = Inr kv2 \<and> kv_consume (rf_applyCh (servers kv_spread ! 1)) kv2 = Inr kv2' \<and>
     kv_kv kv2' = fold execute [op_put] Map.empty \<and> count_list [op_put] (putappend_op args_put) = 1"
proof -
  obtain kv1 kv2 where s: "StartKVServer 3 (int 0) MakePersister (-1) 0 0 = Inr kv1" "StartKVServer 3 (int 1) MakePersister (-1) 0 0 = Inr kv2"
    by (simp add: StartKVServer_def Make_fresh)
  have lt: "(0::nat) < 3" "(1::nat) < 3" by simp_all
  obtain kv where c: "kv_consume (rf_applyCh (servers kv_committed ! 0)) kv1 = Inr kv" and ap: "kv_applied [op_put] kv"
    using kv_follows_log[OF cluster_fed[OF kv_committed_reachable lt(1)] StartKVServer_applied(1)[OF s(1)]] unfolding kv_runs .
  have o: "clerk_ordered [op_put]" by (simp add: clerk_ordered_def)
  have "equals (putappend_op args_put) op_put" by code_simp
  then have r: "PutAppend_poll args_put (int 0 + 1) kv = Inr (Some \<lparr>par_Err = OK\<rparr>)" using PutAppend_poll_applied[OF ap, of 0] by simp
  have "int 0 < rf_lastApplied (servers kv_spread ! 1)" by code_simp
  moreover have "op_put = putappend_op args_put" "firsts {} [op_put] = [op_put]" by (code_simp, simp)
  ultimately show ?thesis
    using acknowledged_put_survives[OF kv_committed_reachable kv_spread_follows lt s(1) c s(2) _ _ r] s(2) o unfolding kv_runs by auto
qed

section \<open>Servers along a history\<close>

text \<open>
  A history of the cluster: a sequence of moments, between any two of which the cluster has
  made any steps, with vote requests built in their election's term.
\<close>

definition history :: "nat \<Rightarrow> (nat \<Rightarrow> 'c cluster) \<Rightarrow> bool" where
  "history n hist \<longleftrightarrow> creach prompt n (hist 0) \<and> (\<forall>t. \<exists>as. crun prompt as (hist t) = Some (hist (Suc t)))"

lemma history_creach: "history n hist \<Longrightarrow> creach prompt n (hist t)"
  by (induction t) (auto simp: history_def intro: crun_creach)

lemma crun_append: "crun sched xs cl = Some cl' \<Longrightarrow> crun sched (xs @ ys) cl = crun sched ys cl'"
  by (induction xs arbitrary: cl) (auto split: if_splits option.splits sum.splits)

lemma history_run:
  assumes "history n hist" and "t \<le> u"
  shows "\<exists>as. crun prompt as (hist t) = Some (hist u)"
  using assms(2)
proof (induction u rule: dec_induct)
  case base
  show ?case by (rule exI[of _ "[]"]) simp
next
  case (step u)
  then obtain as bs where "crun prompt as (hist t) = Some (hist u)" "crun prompt bs (hist u) = Some (hist (Suc u))"
    using assms(1) unfolding history_def by blast
  then show ?case by (intro exI[of _ "as @ bs"]) (simp add: crun_append)
qed

lemma history_ops:
  assumes "history n hist" and "i < n" and "j < n"
  shows "prefix (log_ops (servers (hist t) ! i)) (log_ops (servers (hist u) ! j)) \<or>
         prefix (log_ops (servers (hist u) ! j)) (log_ops (servers (hist t) ! i))"
proof (cases "t \<le> u")
  case True
  from history_run[OF assms(1) True] cluster_ops[OF history_creach[OF assms(1)] _ assms(2,3)] show ?thesis by blast
next
  case False
  then have "u \<le> t" by simp
  from history_run[OF assms(1) this] cluster_ops[OF history_creach[OF assms(1)] _ assms(3,2)] show ?thesis by blast
qed

text \<open>
  \<open>kv\<close> is a state of server \<open>i\<close> at this moment: it has been started, after whichever crash, and
  its apply loop has consumed some of the messages its peer has delivered since.
\<close>

definition serving :: "nat \<Rightarrow> Op cluster \<Rightarrow> nat \<Rightarrow> KVServer \<Rightarrow> bool" where
  "serving n cl i kv \<longleftrightarrow> i < n \<and> (\<exists>ps mrs now rnd kv0 ms. StartKVServer n (int i) ps mrs now rnd = Inr kv0 \<and>
     prefix ms (rf_applyCh (servers cl ! i)) \<and> kv_consume ms kv0 = Inr kv)"

lemma serving_applied:
  assumes "creach prompt n cl" and "serving n cl i kv"
  obtains p where "p \<le> length (log_ops (servers cl ! i))" and "kv_lastApplied kv = int p" and "kv_applied (take p (log_ops (servers cl ! i))) kv"
proof -
  from assms(2) obtain ps mrs now rnd kv0 ms where s: "i < n" "StartKVServer n (int i) ps mrs now rnd = Inr kv0"
    "prefix ms (rf_applyCh (servers cl ! i))" "kv_consume ms kv0 = Inr kv" unfolding serving_def by blast
  note f = cluster_fed[OF assms(1) s(1)]
  have ap: "kv_applied (take (length ms) (log_ops (servers cl ! i))) kv"
    using kv_raft.follows_part[OF f StartKVServer_applied(1)[OF s(2)] s(3)] s(4) fed_stream[OF f] by auto
  have l: "length ms \<le> length (log_ops (servers cl ! i))"
    using prefix_length_le[OF s(3)] arg_cong[OF fed_stream[OF f], of length] by simp
  from that[OF l _ ap] ap l show thesis by (simp add: kv_applied_def)
qed

lemma serving_at:
  assumes "creach prompt n cl" and "i < n" and "p \<le> length (log_ops (servers cl ! i))"
  shows "\<exists>kv. serving n cl i kv \<and> kv_lastApplied kv = int p"
proof -
  note f = cluster_fed[OF assms(1,2)]
  obtain kv0 where s: "StartKVServer n (int i) MakePersister (-1) 0 0 = Inr kv0" by (simp add: StartKVServer_def Make_fresh)
  let ?ms = "take p (rf_applyCh (servers cl ! i))"
  have l: "length ?ms = p" using assms(3) arg_cong[OF fed_stream[OF f], of length] by simp
  have pre: "prefix ?ms (rf_applyCh (servers cl ! i))" by (rule take_is_prefix)
  obtain kv where "kv_consume ?ms kv0 = Inr kv" "kv_applied (take p (log_ops (servers cl ! i))) kv"
    using kv_raft.follows_part[OF f StartKVServer_applied(1)[OF s] pre] fed_stream[OF f] l by auto
  moreover from this s pre assms(2) have "serving n cl i kv" unfolding serving_def by blast
  ultimately show ?thesis using assms(3) by (auto simp: kv_applied_def)
qed

end
