(* ===== verification/KVClerk.thy ===== *)
theory KVClerk
  imports KVServer
begin

text \<open>
  \<open>src/src/kvraft/client.go\<close>: the clerk. \<open>Get\<close> and \<open>PutAppend\<close> start a goroutine every half
  second until one of them has an answer; each goroutine goes through the servers until one
  answers. The two methods differ in the replies they accept and in what they keep of them,
  which is the record \<open>protocol\<close>; the goroutines and the loop that starts them are the steps
  of a transition relation over the variables they share. Decoding a reply into a variable
  that was used before leaves fields alone that are empty in the message, as \<open>encoding/gob\<close>
  does not transmit them.
\<close>

section \<open>The clerk\<close>

record Clerk =
  ck_servers :: nat
  ck_clerkId :: int
  ck_comandId :: int
  ck_preLeaderId :: int

text \<open>\<open>rand.Int\<close> returns a number below its argument; \<open>rnd\<close> is what it draws from.\<close>

definition nrand :: "nat \<Rightarrow> int" where
  "nrand rnd = int rnd mod 2 ^ 62"

definition MakeClerk :: "nat \<Rightarrow> nat \<Rightarrow> Clerk" where
  "MakeClerk servers rnd = \<lparr>ck_servers = servers, ck_clerkId = nrand rnd, ck_comandId = 0, ck_preLeaderId = 0\<rparr>"

definition get_args :: "Clerk \<Rightarrow> string \<Rightarrow> GetArgs" where
  "get_args ck key = \<lparr>ga_Key = key, ga_ClerkId = ck_clerkId ck, ga_CommandId = ck_comandId ck\<rparr>"

definition putappend_args :: "Clerk \<Rightarrow> string \<Rightarrow> string \<Rightarrow> string \<Rightarrow> PutAppendArgs" where
  "putappend_args ck key val opn =
     \<lparr>pa_Key = key, pa_Value = val, pa_Op = opn, pa_ClerkId = ck_clerkId ck, pa_CommandId = ck_comandId ck\<rparr>"

definition Put_args :: "Clerk \<Rightarrow> string \<Rightarrow> string \<Rightarrow> PutAppendArgs" where
  "Put_args ck key val = putappend_args ck key val ''Put''"

definition Append_args :: "Clerk \<Rightarrow> string \<Rightarrow> string \<Rightarrow> PutAppendArgs" where
  "Append_args ck key val = putappend_args ck key val ''Append''"

section \<open>The two protocols\<close>

record 'r protocol =
  p_zero :: 'r
  p_decode :: "'r \<Rightarrow> 'r \<Rightarrow> 'r"
  p_final :: "'r \<Rightarrow> bool"
  p_publish :: "'r \<Rightarrow> 'r \<Rightarrow> 'r"

definition get_protocol :: "GetReply protocol" where
  "get_protocol =
     \<lparr>p_zero = \<lparr>gr_Err = '''', gr_Value = ''''\<rparr>,
      p_decode = (\<lambda>old msg. \<lparr>gr_Err = (if gr_Err msg = '''' then gr_Err old else gr_Err msg),
                             gr_Value = (if gr_Value msg = '''' then gr_Value old else gr_Value msg)\<rparr>),
      p_final = (\<lambda>r. gr_Err r = OK \<or> gr_Err r = ErrNoKey),
      p_publish = (\<lambda>r shared. shared\<lparr>gr_Value := gr_Value r\<rparr>)\<rparr>"

definition putappend_protocol :: "PutAppendReply protocol" where
  "putappend_protocol =
     \<lparr>p_zero = \<lparr>par_Err = ''''\<rparr>,
      p_decode = (\<lambda>old msg. \<lparr>par_Err = (if par_Err msg = '''' then par_Err old else par_Err msg)\<rparr>),
      p_final = (\<lambda>r. par_Err r = OK),
      p_publish = (\<lambda>r shared. shared)\<rparr>"

section \<open>The goroutines\<close>

datatype pc = Starting | Calling | Called | Finishing | Ended

record 'r attempt =
  a_i :: int
  a_reply :: 'r
  a_pc :: pc

datatype main_pc = Checking | Spawning | Saving | Back

record 'r clerk_call =
  k_done :: bool
  k_j :: int
  k_reply :: 'r
  k_main :: main_pc
  k_attempts :: "'r attempt list"

text \<open>The beginning of \<open>Get\<close> and \<open>PutAppend\<close>, and one turn of their loop.\<close>

definition call_start :: "'r protocol \<Rightarrow> Clerk \<Rightarrow> 'r clerk_call" where
  "call_start P ck = \<lparr>k_done = False, k_j = ck_preLeaderId ck, k_reply = p_zero P, k_main = Checking, k_attempts = []\<rparr>"

definition main_check :: "'r clerk_call \<Rightarrow> 'r clerk_call" where
  "main_check k = (if k_done k then k\<lparr>k_main := Saving\<rparr> else k\<lparr>k_main := Spawning\<rparr>)"

definition main_spawn :: "'r protocol \<Rightarrow> 'r clerk_call \<Rightarrow> 'r clerk_call" where
  "main_spawn P k = k\<lparr>k_main := Checking, k_attempts := k_attempts k @ [\<lparr>a_i = 0, a_reply = p_zero P, a_pc = Starting\<rparr>]\<rparr>"

text \<open>The end: the leader is remembered, the command number goes up, the reply is returned.\<close>

definition call_return :: "Clerk \<Rightarrow> 'r clerk_call \<Rightarrow> Clerk \<times> 'r" where
  "call_return ck k = (ck\<lparr>ck_preLeaderId := k_j k, ck_comandId := ck_comandId ck + 1\<rparr>, k_reply k)"

text \<open>A goroutine: its local copies, the answer of the server (\<open>None\<close> when \<open>Call\<close> fails), the test, the end.\<close>

definition attempt_start :: "'r clerk_call \<Rightarrow> 'r attempt \<Rightarrow> 'r attempt" where
  "attempt_start k a = a\<lparr>a_i := k_j k, a_reply := k_reply k, a_pc := Calling\<rparr>"

definition attempt_called :: "'r protocol \<Rightarrow> nat \<Rightarrow> 'r option \<Rightarrow> 'r attempt \<Rightarrow> 'r attempt go" where
  "attempt_called P n answer a =
     (if a_i a < 0 \<or> a_i a \<ge> int n then Inl IndexOutOfRange
      else Inr (a\<lparr>a_reply := (case answer of None \<Rightarrow> a_reply a | Some r \<Rightarrow> p_decode P (a_reply a) r), a_pc := Called\<rparr>))"

definition attempt_check :: "'r protocol \<Rightarrow> nat \<Rightarrow> 'r clerk_call \<Rightarrow> 'r attempt \<Rightarrow> 'r attempt" where
  "attempt_check P n k a =
     (if k_done k then a\<lparr>a_pc := Ended\<rparr>
      else if p_final P (a_reply a) then a\<lparr>a_pc := Finishing\<rparr>
      else a\<lparr>a_i := (a_i a + 1) mod int n, a_pc := Calling\<rparr>)"

definition attempt_finish :: "'r protocol \<Rightarrow> 'r attempt \<Rightarrow> 'r clerk_call \<Rightarrow> 'r clerk_call" where
  "attempt_finish P a k = k\<lparr>k_reply := p_publish P (a_reply a) (k_reply k), k_j := a_i a, k_done := True\<rparr>"

text \<open>
  The interleaving. \<open>answers i r\<close> says that server \<open>i\<close> may answer the request with \<open>r\<close>.
\<close>

abbreviation set_attempt :: "nat \<Rightarrow> 'r attempt \<Rightarrow> 'r clerk_call \<Rightarrow> 'r clerk_call" where
  "set_attempt g a k \<equiv> k\<lparr>k_attempts := (k_attempts k)[g := a]\<rparr>"

inductive clerk_step :: "'r protocol \<Rightarrow> nat \<Rightarrow> (int \<Rightarrow> 'r \<Rightarrow> bool) \<Rightarrow> 'r clerk_call \<Rightarrow> 'r clerk_call \<Rightarrow> bool"
  for P n answers where
  check: "k_main k = Checking \<Longrightarrow> clerk_step P n answers k (main_check k)"
| spawn: "k_main k = Spawning \<Longrightarrow> clerk_step P n answers k (main_spawn P k)"
| leave: "k_main k = Saving \<Longrightarrow> clerk_step P n answers k (k\<lparr>k_main := Back\<rparr>)"
| enter: "g < length (k_attempts k) \<Longrightarrow> a_pc (k_attempts k ! g) = Starting \<Longrightarrow>
    clerk_step P n answers k (set_attempt g (attempt_start k (k_attempts k ! g)) k)"
| answer: "g < length (k_attempts k) \<Longrightarrow> a_pc (k_attempts k ! g) = Calling \<Longrightarrow>
    (\<And>r. answer = Some r \<Longrightarrow> answers (a_i (k_attempts k ! g)) r) \<Longrightarrow>
    attempt_called P n answer (k_attempts k ! g) = Inr a \<Longrightarrow> clerk_step P n answers k (set_attempt g a k)"
| test: "g < length (k_attempts k) \<Longrightarrow> a_pc (k_attempts k ! g) = Called \<Longrightarrow>
    clerk_step P n answers k (set_attempt g (attempt_check P n k (k_attempts k ! g)) k)"
| finish: "g < length (k_attempts k) \<Longrightarrow> a_pc (k_attempts k ! g) = Finishing \<Longrightarrow>
    clerk_step P n answers k
      (set_attempt g ((k_attempts k ! g)\<lparr>a_pc := Ended\<rparr>) (attempt_finish P (k_attempts k ! g) k))"

inductive clerk_reach :: "'r protocol \<Rightarrow> Clerk \<Rightarrow> (int \<Rightarrow> 'r \<Rightarrow> bool) \<Rightarrow> 'r clerk_call \<Rightarrow> bool" for P ck answers where
  first: "clerk_reach P ck answers (call_start P ck)"
| more: "clerk_reach P ck answers k \<Longrightarrow> clerk_step P (ck_servers ck) answers k k' \<Longrightarrow> clerk_reach P ck answers k'"

text \<open>The states of a running \<open>Get\<close> and \<open>PutAppend\<close>.\<close>

abbreviation clerk_Get :: "Clerk \<Rightarrow> (int \<Rightarrow> GetReply \<Rightarrow> bool) \<Rightarrow> GetReply clerk_call \<Rightarrow> bool" where
  "clerk_Get \<equiv> clerk_reach get_protocol"

abbreviation clerk_PutAppend :: "Clerk \<Rightarrow> (int \<Rightarrow> PutAppendReply \<Rightarrow> bool) \<Rightarrow> PutAppendReply clerk_call \<Rightarrow> bool" where
  "clerk_PutAppend \<equiv> clerk_reach putappend_protocol"

section \<open>What a protocol promises\<close>

text \<open>
  The contract: a variable into which only refusals have been decoded is \<open>clean\<close>; an
  acceptable answer decoded into a clean variable is there unchanged; and what is published
  of it is \<open>kept\<close>.
\<close>

locale retry_protocol =
  fixes P :: "'r protocol" and allowed clean :: "'r \<Rightarrow> bool" and kept :: "'r \<Rightarrow> 'r \<Rightarrow> bool"
  assumes clean_zero: "clean (p_zero P)" and clean_refused: "clean r \<Longrightarrow> \<not> p_final P r"
    and decode: "clean old \<Longrightarrow> allowed msg \<Longrightarrow> clean (p_decode P old msg) \<or> p_final P msg \<and> p_decode P old msg = msg"
    and publish: "p_final P r \<Longrightarrow> kept r (p_publish P r shared)"
begin

definition accepted_answer :: "(int \<Rightarrow> 'r \<Rightarrow> bool) \<Rightarrow> 'r \<Rightarrow> bool" where
  "accepted_answer answers r \<longleftrightarrow> p_final P r \<and> (\<exists>i. answers i r)"

definition attempt_ok :: "nat \<Rightarrow> (int \<Rightarrow> 'r \<Rightarrow> bool) \<Rightarrow> bool \<Rightarrow> 'r attempt \<Rightarrow> bool" where
  "attempt_ok n answers done a \<longleftrightarrow>
     (a_pc a \<noteq> Starting \<longrightarrow> 0 \<le> a_i a \<and> a_i a < int n) \<and>
     (a_pc a = Calling \<longrightarrow> \<not> done \<longrightarrow> clean (a_reply a)) \<and>
     (a_pc a = Called \<longrightarrow> \<not> done \<longrightarrow> clean (a_reply a) \<or> accepted_answer answers (a_reply a)) \<and>
     (a_pc a = Finishing \<longrightarrow> accepted_answer answers (a_reply a))"

definition clerk_inv :: "nat \<Rightarrow> (int \<Rightarrow> 'r \<Rightarrow> bool) \<Rightarrow> 'r clerk_call \<Rightarrow> bool" where
  "clerk_inv n answers k \<longleftrightarrow>
     0 \<le> k_j k \<and> k_j k < int n \<and> (\<forall>a\<in>set (k_attempts k). attempt_ok n answers (k_done k) a) \<and>
     (\<not> k_done k \<longrightarrow> clean (k_reply k)) \<and> (k_done k \<longrightarrow> (\<exists>r. accepted_answer answers r \<and> kept r (k_reply k))) \<and>
     (k_main k \<in> {Saving, Back} \<longrightarrow> k_done k)"

lemma inv_update:
  assumes "clerk_inv n answers k" and "attempt_ok n answers (k_done k) a"
  shows "clerk_inv n answers (set_attempt g a k)"
  using assms set_update_subset_insert[of "k_attempts k" g a] by (auto simp: clerk_inv_def)

lemma step_inv:
  assumes "clerk_step P n answers k k'" and "clerk_inv n answers k" and "0 < n" and "\<forall>i r. answers i r \<longrightarrow> allowed r"
  shows "clerk_inv n answers k'"
  using assms(1,2)
proof (induction rule: clerk_step.cases)
  case (enter g k)
  then have "attempt_ok n answers (k_done k) (attempt_start k (k_attempts k ! g))"
    by (auto simp: attempt_ok_def attempt_start_def clerk_inv_def)
  then show ?case using enter inv_update by blast
next
  case (answer g k ans a)
  then have ok: "attempt_ok n answers (k_done k) (k_attempts k ! g)" by (simp add: clerk_inv_def)
  have "attempt_ok n answers (k_done k) a"
  proof (cases "k_done k")
    case True
    then show ?thesis using answer ok by (auto simp: attempt_called_def attempt_ok_def split: if_splits)
  next
    case False
    then have "clean (a_reply (k_attempts k ! g))" using ok answer by (simp add: attempt_ok_def)
    moreover have "accepted_answer answers r" if "ans = Some r" "p_final P r" for r
      using answer that by (auto simp: accepted_answer_def)
    ultimately show ?thesis using answer False decode assms(4)
      by (auto simp: attempt_called_def attempt_ok_def split: if_splits option.splits) metis+
  qed
  then show ?case using answer inv_update by blast
next
  case (test g k)
  then have ok: "attempt_ok n answers (k_done k) (k_attempts k ! g)" by (simp add: clerk_inv_def)
  then have "attempt_ok n answers (k_done k) (attempt_check P n k (k_attempts k ! g))"
    using test assms(3) clean_refused by (auto simp: attempt_check_def attempt_ok_def accepted_answer_def)
  then show ?case using test inv_update by blast
next
  case (finish g k)
  then have ok: "attempt_ok n answers (k_done k) (k_attempts k ! g)" by (simp add: clerk_inv_def)
  then have acc: "accepted_answer answers (a_reply (k_attempts k ! g))" "0 \<le> a_i (k_attempts k ! g)" "a_i (k_attempts k ! g) < int n"
    using finish by (auto simp: attempt_ok_def)
  moreover have "kept (a_reply (k_attempts k ! g)) (p_publish P (a_reply (k_attempts k ! g)) (k_reply k))"
    using acc(1) by (auto simp: accepted_answer_def intro: publish)
  moreover have "\<forall>a\<in>set (k_attempts k). attempt_ok n answers True a"
    using finish by (auto simp: clerk_inv_def attempt_ok_def)
  ultimately have "clerk_inv n answers (attempt_finish P (k_attempts k ! g) k)"
    using finish by (auto simp: clerk_inv_def attempt_finish_def)
  then show ?case using finish acc inv_update[of n answers "attempt_finish P (k_attempts k ! g) k"]
    by (auto simp: attempt_finish_def attempt_ok_def)
qed (auto simp: clerk_inv_def main_check_def main_spawn_def attempt_ok_def)

lemma reach_inv:
  assumes "clerk_reach P ck answers k" and "0 \<le> ck_preLeaderId ck" and "ck_preLeaderId ck < int (ck_servers ck)"
    and "\<forall>i r. answers i r \<longrightarrow> allowed r"
  shows "clerk_inv (ck_servers ck) answers k"
  using assms
proof (induction rule: clerk_reach.induct)
  case first
  then show ?case by (simp add: clerk_inv_def call_start_def clean_zero)
next
  case (more k k')
  then show ?case using step_inv[OF more(2)] by fastforce
qed

text \<open>No goroutine indexes outside the servers, and what is returned is somebody's answer.\<close>

lemma never_panics:
  assumes "clerk_reach P ck answers k" and "0 \<le> ck_preLeaderId ck" and "ck_preLeaderId ck < int (ck_servers ck)"
    and "\<forall>i r. answers i r \<longrightarrow> allowed r" and "a \<in> set (k_attempts k)" and "a_pc a = Calling"
  shows "\<exists>a'. attempt_called P (ck_servers ck) ans a = Inr a'"
  using reach_inv[OF assms(1-4)] assms(5,6) by (auto simp: clerk_inv_def attempt_ok_def attempt_called_def)

lemma returns_answer:
  assumes "clerk_reach P ck answers k" and "0 \<le> ck_preLeaderId ck" and "ck_preLeaderId ck < int (ck_servers ck)"
    and "\<forall>i r. answers i r \<longrightarrow> allowed r" and "k_main k = Back" and "call_return ck k = (ck', res)"
  shows "\<exists>i r. answers i r \<and> p_final P r \<and> kept r res" and "0 \<le> ck_preLeaderId ck'" and "ck_preLeaderId ck' < int (ck_servers ck')"
  using reach_inv[OF assms(1-4)] assms(5,6) by (auto simp: clerk_inv_def call_return_def accepted_answer_def)

end

section \<open>The two protocols keep it\<close>

definition get_reply_ok :: "GetReply \<Rightarrow> bool" where
  "get_reply_ok r \<longleftrightarrow> gr_Err r = OK \<or> gr_Err r = ErrWrongLeader \<and> gr_Value r = ''''"

interpretation get_retry: retry_protocol get_protocol get_reply_ok
  "\<lambda>r. gr_Err r \<in> {'''', ErrWrongLeader} \<and> gr_Value r = ''''" "\<lambda>r res. gr_Value res = gr_Value r"
  by unfold_locales (auto simp: get_protocol_def get_reply_ok_def)

interpretation put_retry: retry_protocol putappend_protocol "\<lambda>r. par_Err r \<in> {OK, ErrWrongLeader}"
  "\<lambda>r. par_Err r \<in> {'''', ErrWrongLeader}" "\<lambda>r res. True"
  by unfold_locales (auto simp: putappend_protocol_def)

lemma Get_replies_ok:
  "Get_submit args kv = (kv', Inl r) \<Longrightarrow> get_reply_ok r" "Get_poll args index kv = Inr (Some r) \<Longrightarrow> get_reply_ok r"
  by (auto simp: Get_submit_def Get_poll_def get_reply_ok_def Let_def go_simps split: if_splits prod.splits)

lemma PutAppend_replies_ok:
  "PutAppend_submit args kv = (kv', Inl r) \<Longrightarrow> par_Err r \<in> {OK, ErrWrongLeader}"
  "PutAppend_poll args index kv = Inr (Some r) \<Longrightarrow> par_Err r \<in> {OK, ErrWrongLeader}"
  by (auto simp: PutAppend_submit_def PutAppend_poll_def Let_def go_simps split: if_splits prod.splits)

lemma Submit_refuses:
  "Get_submit ga kv = (kv', Inl r) \<Longrightarrow> gr_Err r \<noteq> OK"
  "PutAppend_submit pa kv = (kv', Inl q) \<Longrightarrow> par_Err q \<noteq> OK"
  by (auto simp: Get_submit_def PutAppend_submit_def Let_def split: if_splits prod.splits)

text \<open>When the server the clerk remembers answers, the call can return with that answer.\<close>

lemma can_return:
  assumes pre: "0 \<le> ck_preLeaderId ck" "ck_preLeaderId ck < int (ck_servers ck)"
    and r: "answers (ck_preLeaderId ck) r" "p_final P (p_decode P (p_zero P) r)"
  shows "\<exists>k. clerk_reach P ck answers k \<and> k_main k = Back \<and> k_reply k = p_publish P (p_decode P (p_zero P) r) (p_zero P)"
proof -
  let ?n = "ck_servers ck" and ?j = "ck_preLeaderId ck" and ?z = "p_zero P" and ?r = "p_decode P (p_zero P) r"
  let ?k = "\<lambda>m as. \<lparr>k_done = False, k_j = ?j, k_reply = ?z, k_main = m, k_attempts = as\<rparr>"
  let ?e = "\<lambda>m. \<lparr>k_done = True, k_j = ?j, k_reply = p_publish P ?r ?z, k_main = m, k_attempts = [\<lparr>a_i = ?j, a_reply = ?r, a_pc = Ended\<rparr>]\<rparr>"
  have "clerk_reach P ck answers (?k Checking [])" using clerk_reach.first[of P ck answers] by (simp add: call_start_def)
  from clerk_reach.more[OF this clerk_step.check] have "clerk_reach P ck answers (?k Spawning [])" by (simp add: main_check_def)
  from clerk_reach.more[OF this clerk_step.spawn] have "clerk_reach P ck answers (?k Checking [\<lparr>a_i = 0, a_reply = ?z, a_pc = Starting\<rparr>])"
    by (simp add: main_spawn_def)
  from clerk_reach.more[OF this clerk_step.enter[of 0]] have "clerk_reach P ck answers (?k Checking [\<lparr>a_i = ?j, a_reply = ?z, a_pc = Calling\<rparr>])"
    by (simp add: attempt_start_def)
  from clerk_reach.more[OF this clerk_step.answer[of 0 _ "Some r" answers P ?n "\<lparr>a_i = ?j, a_reply = ?r, a_pc = Called\<rparr>"]]
  have "clerk_reach P ck answers (?k Checking [\<lparr>a_i = ?j, a_reply = ?r, a_pc = Called\<rparr>])"
    using pre r(1) by (simp add: attempt_called_def)
  from clerk_reach.more[OF this clerk_step.test[of 0]] have "clerk_reach P ck answers (?k Checking [\<lparr>a_i = ?j, a_reply = ?r, a_pc = Finishing\<rparr>])"
    using r(2) by (simp add: attempt_check_def)
  from clerk_reach.more[OF this clerk_step.finish[of 0]] have "clerk_reach P ck answers (?e Checking)" by (simp add: attempt_finish_def)
  from clerk_reach.more[OF this clerk_step.check] have "clerk_reach P ck answers (?e Saving)" by (simp add: main_check_def)
  from clerk_reach.more[OF this clerk_step.leave] have "clerk_reach P ck answers (?e Back)" by simp
  then show ?thesis by (intro exI[of _ "?e Back"]) simp
qed

end
