(* ===== verification/Clerk_Theorems.thy ===== *)
theory Clerk_Theorems
  imports KVClerk KV_Cluster
begin

text \<open>
  Clerk, servers and cluster together: along a history of the cluster the servers consume
  what their peers deliver and answer the clerk's request from the state they have then. The
  samples are those of the server: the clerks are number 5 at its command number 0 and number
  6 at its command number 3.
\<close>

section \<open>The answers a clerk can get\<close>

text \<open>
  What server \<open>i\<close> may answer: the refusal of a server that does not lead, or what its handler
  finds, at some moment of the history and some state the server has then, at the index it
  waits for.
\<close>

definition served_get :: "nat \<Rightarrow> (nat \<Rightarrow> Op cluster) \<Rightarrow> GetArgs \<Rightarrow> int \<Rightarrow> GetReply \<Rightarrow> bool" where
  "served_get n hist args i r \<longleftrightarrow>
     (\<exists>kv kv'. Get_submit args kv = (kv', Inl r)) \<or>
     (\<exists>t kv index. serving n (hist t) (nat i) kv \<and> Get_poll args index kv = Inr (Some r))"

definition served_put :: "nat \<Rightarrow> (nat \<Rightarrow> Op cluster) \<Rightarrow> PutAppendArgs \<Rightarrow> int \<Rightarrow> PutAppendReply \<Rightarrow> bool" where
  "served_put n hist args i r \<longleftrightarrow>
     (\<exists>kv kv'. PutAppend_submit args kv = (kv', Inl r)) \<or>
     (\<exists>t kv index. serving n (hist t) (nat i) kv \<and> PutAppend_poll args index kv = Inr (Some r))"

text \<open>
  What is assumed of the operations that come to be applied: the clerks' numbers come in order
  and no other operation has the numbers of \<open>op\<close>, which are not those of the sentinel.
\<close>

definition well_numbered :: "nat \<Rightarrow> (nat \<Rightarrow> Op cluster) \<Rightarrow> Op \<Rightarrow> bool" where
  "well_numbered n hist op \<longleftrightarrow> op_key op \<noteq> (0, 0) \<and>
     (\<forall>t. \<forall>i<n. clerk_ordered (log_ops (servers (hist t) ! i)) \<and>
        (\<forall>o'\<in>set (log_ops (servers (hist t) ! i)). op_key o' = op_key op \<longrightarrow> o' = op))"

lemma well_numberedD:
  assumes "well_numbered n hist op"
  shows "op_key op \<noteq> (0, 0)" and "i < n \<Longrightarrow> clerk_ordered (log_ops (servers (hist t) ! i))"
    and "i < n \<Longrightarrow> \<forall>o'\<in>set (log_ops (servers (hist t) ! i)). op_key o' = op_key op \<longrightarrow> o' = op"
  using assms unfolding well_numbered_def by blast+

text \<open>An index at which a handler finds the operation it waits for.\<close>

lemma poll_index:
  assumes "kv_applied ops kv" and "kv_lastApplied kv \<ge> index" and "go_index (kv_log kv) index = Inr e" and "op_key e \<noteq> (0, 0)"
  obtains i where "i < length ops" and "index = int i + 1"
proof -
  have e: "0 \<le> index" "index \<le> int (length ops)" "e = record_log ops ! nat index"
    using assms(1-3) by (auto simp: kv_applied_def go_simps)
  have "index \<noteq> 0" using e(3) assms(4) by (auto simp: record_log_def Op0_def)
  then show thesis using that[of "nat index - 1"] e by (auto simp: nat_less_iff)
qed

lemma served_get_value:
  assumes "kv_applied (take p L) kv" and "Get_poll args index kv = Inr (Some r)" and "gr_Err r = OK" and "clerk_ordered L"
    and same: "\<forall>op\<in>set L. op_key op = op_key (get_op args) \<longrightarrow> op = get_op args" and nz: "op_key (get_op args) \<noteq> (0, 0)"
  shows "\<exists>j<length L. L ! j = get_op args \<and> (\<forall>m<j. L ! m \<noteq> get_op args) \<and> gr_Value r = value_of (store_after (take j L)) (ga_Key args)"
proof -
  obtain e where e: "kv_lastApplied kv \<ge> index" "go_index (kv_log kv) index = Inr e" "equals (get_op args) e"
    using assms(2,3) by (auto simp: Get_poll_def go_simps split: if_splits)
  then have "op_key e \<noteq> (0, 0)" using nz by (simp add: equals_key)
  from poll_index[OF assms(1) e(1,2) this] obtain i where i: "i < length (take p L)" "index = int i + 1" by blast
  have "equals (get_op args) (take p L ! i)"
    using assms(2,3) unfolding i(2) Get_poll_applied[OF assms(1) i(1)] by (auto split: if_splits)
  then have oi: "take p L ! i = get_op args" using same i(1) by (auto simp: equals_key)
  have "\<forall>op\<in>set (take p L). op_key op = op_key (get_op args) \<longrightarrow> op = get_op args" using same by (auto dest: in_set_takeD)
  from get_poll_value[OF assms(1) clerk_ordered_take[OF assms(4)] i(1) oi this nz]
  obtain j where j: "j \<le> i" "take p L ! j = get_op args" "\<forall>m<j. take p L ! m \<noteq> get_op args"
    "r = \<lparr>gr_Err = OK, gr_Value = value_of (store_after (take j (take p L))) (ga_Key args)\<rparr>"
    using assms(2) i(2) by auto
  moreover have "j < p" "j < length L" using i(1) j(1) by auto
  ultimately show ?thesis by (intro exI[of _ j]) (simp add: min_absorb1)
qed

lemma served_put_index:
  assumes "kv_applied ops kv" and "PutAppend_poll args index kv = Inr (Some r)" and "par_Err r = OK" and nz: "op_key (putappend_op args) \<noteq> (0, 0)"
  obtains k where "k < length ops" and "op_key (ops ! k) = op_key (putappend_op args)"
proof -
  obtain e where e: "kv_lastApplied kv \<ge> index" "go_index (kv_log kv) index = Inr e" "equals (putappend_op args) e"
    using assms(2,3) by (auto simp: PutAppend_poll_def go_simps split: if_splits)
  then have "op_key e \<noteq> (0, 0)" using nz by (simp add: equals_key)
  from poll_index[OF assms(1) e(1,2) this] obtain i where i: "i < length ops" "index = int i + 1" by blast
  have "r = \<lparr>par_Err = OK\<rparr>" using assms(3) by (cases r) simp
  with that[OF i(1)] PutAppend_poll_OK[OF assms(1) i(1)] assms(2) i(2) show thesis by simp
qed

text \<open>Servers that have applied as many operations, at whatever moments, hold the same store.\<close>

lemma serving_store:
  assumes h: "history n hist" and i: "i < n" and p: "p \<le> length (log_ops (servers (hist t) ! i))"
    and s: "serving n (hist u) j kv" "kv_lastApplied kv = int p"
  shows "kv_kv kv = store_after (take p (log_ops (servers (hist t) ! i)))"
proof -
  have j: "j < n" using s(1) by (simp add: serving_def)
  obtain q where q: "q \<le> length (log_ops (servers (hist u) ! j))" "kv_lastApplied kv = int q"
    "kv_applied (take q (log_ops (servers (hist u) ! j))) kv"
    using serving_applied[OF history_creach[OF h] s(1)] .
  have "p = q" using q(2) s(2) by simp
  then show ?thesis using q(1,3) comparable_take[OF history_ops[OF h i j] p] by (simp add: kv_applied_def)
qed

text \<open>An operation that one server has acknowledged, on every server that has applied its index.\<close>

lemma applied_everywhere:
  assumes h: "history n hist" and num: "well_numbered n hist (putappend_op args)"
    and s: "serving n (hist t) a kv" "PutAppend_poll args index kv = Inr (Some r)" and ok: "par_Err r = OK"
  shows "\<exists>m. (\<exists>t i kv. serving n (hist t) i kv \<and> int m < kv_lastApplied kv) \<and>
     (\<forall>t i kv. serving n (hist t) i kv \<longrightarrow> int m < kv_lastApplied kv \<longrightarrow>
        (let ops = take (nat (kv_lastApplied kv)) (log_ops (servers (hist t) ! i)) in
           kv_kv kv = fold execute (firsts {} ops) Map.empty \<and> count_list (firsts {} ops) (putappend_op args) = 1))"
proof -
  let ?L = "\<lambda>t i. log_ops (servers (hist t) ! i)" and ?op = "putappend_op args"
  have a: "a < n" using s(1) by (simp add: serving_def)
  obtain p where p: "p \<le> length (?L t a)" "kv_lastApplied kv = int p" "kv_applied (take p (?L t a)) kv"
    using serving_applied[OF history_creach[OF h] s(1)] .
  obtain m where m: "m < length (take p (?L t a))" "op_key (take p (?L t a) ! m) = op_key ?op"
    using served_put_index[OF p(3) s(2) ok well_numberedD(1)[OF num]] .
  have mL: "m < length (?L t a)" "op_key (?L t a ! m) = op_key ?op" using m by auto
  have "let ops = take (nat (kv_lastApplied kv')) (?L u i) in
        kv_kv kv' = fold execute (firsts {} ops) Map.empty \<and> count_list (firsts {} ops) ?op = 1"
    if s': "serving n (hist u) i kv'" and lt: "int m < kv_lastApplied kv'" for u i kv'
  proof -
    have i: "i < n" using s' by (simp add: serving_def)
    obtain q where q: "q \<le> length (?L u i)" "kv_lastApplied kv' = int q" "kv_applied (take q (?L u i)) kv'"
      using serving_applied[OF history_creach[OF h] s'] .
    have mq: "m < length (take q (?L u i))" using lt q(1,2) by simp
    have "op_key (take q (?L u i) ! m) = op_key ?op"
      using comparable_nth[OF history_ops[OF h a i, of t u] mL(1)] mL(2) mq by simp
    moreover have "\<forall>o'\<in>set (take q (?L u i)). op_key o' = op_key ?op \<longrightarrow> o' = ?op"
      using well_numberedD(3)[OF num i] by (blast dest: in_set_takeD)
    ultimately show ?thesis
      using applied_once[OF q(3) clerk_ordered_take[OF well_numberedD(2)[OF num i]] mq] q(2) by (simp add: Let_def)
  qed
  moreover have "int m < kv_lastApplied kv" using m(1) p(2) by simp
  ultimately show ?thesis using s(1) by blast
qed

section \<open>What a returned call means\<close>

text \<open>
  C23. When the clerk's \<open>Get\<close> returns, however its goroutines were interleaved, whichever
  servers answered them and at whatever moments of a history of the cluster in which vote
  requests are built in their election's term, its operation has been delivered at some index
  on some server, and the value returned is the one the key has in the store of every server
  that has applied exactly the operations before the first such index; there is such a server.
  The command number has gone up by one and the remembered leader is one of the servers. It is
  assumed that the clerks' numbers come in order, that no other operation has the numbers of
  this one, and that these are not (0, 0), those of the sentinel \<open>Op{}\<close>.
\<close>

theorem clerk_get_linearized:
  assumes reach: "clerk_Get ck (served_get n hist (get_args ck key)) k"
    and pre: "0 \<le> ck_preLeaderId ck" "ck_preLeaderId ck < int (ck_servers ck)"
    and ret: "k_main k = Back" "call_return ck k = (ck', res)" and h: "history n hist"
    and num: "well_numbered n hist (get_op (get_args ck key))"
  shows "(\<exists>t i j. i < n \<and> j < length (log_ops (servers (hist t) ! i)) \<and> log_ops (servers (hist t) ! i) ! j = get_op (get_args ck key) \<and>
       (\<forall>m<j. log_ops (servers (hist t) ! i) ! m \<noteq> get_op (get_args ck key)) \<and>
       (\<exists>kv. serving n (hist t) i kv \<and> kv_lastApplied kv = int j) \<and>
       (\<forall>u i' kv. serving n (hist u) i' kv \<longrightarrow> kv_lastApplied kv = int j \<longrightarrow> gr_Value res = value_of (kv_kv kv) key)) \<and>
     ck_comandId ck' = ck_comandId ck + 1 \<and> 0 \<le> ck_preLeaderId ck' \<and> ck_preLeaderId ck' < int (ck_servers ck')"
proof -
  let ?args = "get_args ck key"
  have "\<forall>i r. served_get n hist ?args i r \<longrightarrow> get_reply_ok r" using Get_replies_ok by (auto simp: served_get_def)
  note ret_ans = get_retry.returns_answer[OF reach pre this ret]
  obtain a r where r: "served_get n hist ?args a r" "p_final get_protocol r" "gr_Value res = gr_Value r" using ret_ans(1) by blast
  have ok: "gr_Err r = OK" using r(1,2) Get_replies_ok by (fastforce simp: served_get_def get_protocol_def get_reply_ok_def)
  then obtain t kv index where s: "serving n (hist t) (nat a) kv" "Get_poll ?args index kv = Inr (Some r)"
    using r(1) Submit_refuses(1) unfolding served_get_def by metis
  let ?L = "log_ops (servers (hist t) ! nat a)"
  have a: "nat a < n" using s(1) by (simp add: serving_def)
  obtain p where "kv_applied (take p ?L) kv" using serving_applied[OF history_creach[OF h] s(1)] by blast
  from served_get_value[OF this s(2) ok well_numberedD(2)[OF num a] well_numberedD(3)[OF num a] well_numberedD(1)[OF num]]
  obtain j where j: "j < length ?L" "?L ! j = get_op ?args" "\<forall>m<j. ?L ! m \<noteq> get_op ?args"
    "gr_Value r = value_of (store_after (take j ?L)) key" by (auto simp: get_args_def)
  have "\<exists>kv. serving n (hist t) (nat a) kv \<and> kv_lastApplied kv = int j"
    using j(1) by (intro serving_at[OF history_creach[OF h] a]) simp
  moreover have "gr_Value res = value_of (kv_kv kv) key" if "serving n (hist u) i' kv" "kv_lastApplied kv = int j" for u i' kv
    using serving_store[OF h a less_imp_le[OF j(1)] that] j(4) r(3) by simp
  ultimately have "\<exists>t i j. i < n \<and> j < length (log_ops (servers (hist t) ! i)) \<and> log_ops (servers (hist t) ! i) ! j = get_op ?args \<and>
       (\<forall>m<j. log_ops (servers (hist t) ! i) ! m \<noteq> get_op ?args) \<and>
       (\<exists>kv. serving n (hist t) i kv \<and> kv_lastApplied kv = int j) \<and>
       (\<forall>u i' kv. serving n (hist u) i' kv \<longrightarrow> kv_lastApplied kv = int j \<longrightarrow> gr_Value res = value_of (kv_kv kv) key)"
    using a j by blast
  then show ?thesis using ret_ans(2,3) ret(2) by (auto simp: call_return_def)
qed

text \<open>
  C24. When the clerk's \<open>PutAppend\<close> returns, however its goroutines were interleaved, whichever
  servers answered them and at whatever moments of a history of the cluster in which vote
  requests are built in their election's term, its operation stands at some index that some
  server has applied, and every server that has applied that index, at whatever moment, holds
  the store that comes from executing every command delivered to it once, where it came first;
  the operation is exactly one of them, however often the goroutines sent it. The command
  number has gone up by one and the remembered leader is one of the servers. It is assumed that
  the clerks' numbers come in order, that no other operation has the numbers of this one, and
  that these are not (0, 0), those of the sentinel \<open>Op{}\<close>.
\<close>

theorem clerk_put_acknowledged:
  assumes reach: "clerk_PutAppend ck (served_put n hist (putappend_args ck key val opn)) k"
    and pre: "0 \<le> ck_preLeaderId ck" "ck_preLeaderId ck < int (ck_servers ck)"
    and ret: "k_main k = Back" "call_return ck k = (ck', res)" and h: "history n hist"
    and num: "well_numbered n hist (putappend_op (putappend_args ck key val opn))"
  shows "(\<exists>m. (\<exists>t i kv. serving n (hist t) i kv \<and> int m < kv_lastApplied kv) \<and>
       (\<forall>t i kv. serving n (hist t) i kv \<longrightarrow> int m < kv_lastApplied kv \<longrightarrow>
          (let ops = take (nat (kv_lastApplied kv)) (log_ops (servers (hist t) ! i)) in
             kv_kv kv = fold execute (firsts {} ops) Map.empty \<and>
             count_list (firsts {} ops) (putappend_op (putappend_args ck key val opn)) = 1))) \<and>
     ck_comandId ck' = ck_comandId ck + 1 \<and> 0 \<le> ck_preLeaderId ck' \<and> ck_preLeaderId ck' < int (ck_servers ck')"
proof -
  let ?args = "putappend_args ck key val opn"
  have "\<forall>i r. served_put n hist ?args i r \<longrightarrow> par_Err r \<in> {OK, ErrWrongLeader}"
    using PutAppend_replies_ok unfolding served_put_def by metis
  note ret_ans = put_retry.returns_answer[OF reach pre this ret]
  obtain a r where r: "served_put n hist ?args a r" "p_final putappend_protocol r" using ret_ans(1) by blast
  have ok: "par_Err r = OK" using r(2) by (simp add: putappend_protocol_def)
  then obtain t kv index where s: "serving n (hist t) (nat a) kv" "PutAppend_poll ?args index kv = Inr (Some r)"
    using r(1) Submit_refuses(2) unfolding served_put_def by metis
  from applied_everywhere[OF h num s ok] show ?thesis
    using ret_ans(2,3) ret(2) by (auto simp: call_return_def)
qed

section \<open>Sample calls\<close>

definition sample_clerk :: "int \<Rightarrow> int \<Rightarrow> Clerk" where
  "sample_clerk clerk command = \<lparr>ck_servers = 3, ck_clerkId = clerk, ck_comandId = command, ck_preLeaderId = 0\<rparr>"

lemma sample_args:
  "get_args (sample_clerk 6 3) ''x'' = args_get" "putappend_args (sample_clerk 5 0) ''x'' ''1'' PUT = args_put"
  by (simp_all add: sample_clerk_def get_args_def putappend_args_def args_get_def args_put_def)

lemma sample_pre: "0 \<le> ck_preLeaderId (sample_clerk c m)" "ck_preLeaderId (sample_clerk c m) < int (ck_servers (sample_clerk c m))"
  by (simp_all add: sample_clerk_def)

text \<open>Server 0 is elected and commits the put of clerk 5 and the get of clerk 6.\<close>

definition sample_run :: "Op action list" where
  "sample_run = [Tick 0 1000000000 0, VoteBuild 0, VoteDeliver 0 1000000000, VoteReply 0 1000000000,
     ClientStart 0 op_put, ClientStart 0 (get_op args_get), Beat 0, HeartBuild 2, HeartDeliver 2 1100000000, HeartReply 2, ApplyCommitted 0]"

definition sample_cluster :: "Op cluster" where
  "sample_cluster = the (crun prompt sample_run (boot_cluster 3))"

definition sample_hist :: "nat \<Rightarrow> Op cluster" where
  "sample_hist t = (if t = 0 then boot_cluster 3 else sample_cluster)"

lemma sample_history: "history 3 sample_hist"
proof -
  have "crun prompt sample_run (boot_cluster 3) \<noteq> None" by code_simp
  then have "crun prompt sample_run (boot_cluster 3) = Some sample_cluster" by (simp add: sample_cluster_def)
  then show ?thesis unfolding history_def sample_hist_def by (auto intro: boot_creach exI[of _ "[]"])
qed

lemma sample_logs:
  "map log_ops (servers (boot_cluster 3)) = [[], [], []]"
  "map log_ops (servers sample_cluster) = [[op_put, get_op args_get], [], []]"
  by code_simp+

lemma sample_log_ops:
  assumes "i < 3"
  shows "log_ops (servers (sample_hist t) ! i) = (if t \<noteq> 0 \<and> i = 0 then [op_put, get_op args_get] else [])"
proof -
  have m: "map log_ops (servers (sample_hist t)) = (if t = 0 then [[], [], []] else [[op_put, get_op args_get], [], []])"
    by (simp add: sample_hist_def sample_logs)
  from arg_cong[OF this, of length] have "length (servers (sample_hist t)) = 3" by (simp split: if_splits)
  then have "log_ops (servers (sample_hist t) ! i) = map log_ops (servers (sample_hist t)) ! i" using assms by simp
  then show ?thesis unfolding m using assms by (auto simp: less_Suc_eq numeral_3_eq_3)
qed

lemma sample_numbered: "well_numbered 3 sample_hist (get_op args_get)" "well_numbered 3 sample_hist (putappend_op args_put)"
proof -
  have "clerk_ordered []" "clerk_ordered [op_put, get_op args_get]"
    by (auto simp: clerk_ordered_def less_Suc_eq op_put_def get_op_def args_get_def)
  then show "well_numbered 3 sample_hist (get_op args_get)" "well_numbered 3 sample_hist (putappend_op args_put)"
    by (auto simp: well_numbered_def sample_log_ops op_put_def putappend_op_def args_put_def get_op_def args_get_def)
qed

lemma sample_serving:
  obtains kv where "serving 3 (sample_hist 1) 0 kv" and "kv_applied [op_put, get_op args_get] kv"
proof -
  obtain kv where kv: "serving 3 (sample_hist 1) 0 kv" "kv_lastApplied kv = int 2"
    using serving_at[OF history_creach[OF sample_history], of 0 2 1] by (auto simp: sample_log_ops)
  obtain q where "kv_lastApplied kv = int q" "kv_applied (take q (log_ops (servers (sample_hist 1) ! 0))) kv"
    using serving_applied[OF history_creach[OF sample_history] kv(1)] .
  with that[OF kv(1)] kv(2) show thesis by (simp add: sample_log_ops)
qed

lemma sample_served_get: "served_get 3 sample_hist args_get 0 \<lparr>gr_Err = OK, gr_Value = ''1''\<rparr>"
proof -
  obtain kv where kv: "serving 3 (sample_hist 1) 0 kv" "kv_applied [op_put, get_op args_get] kv" using sample_serving .
  let ?l = "[op_put, get_op args_get]"
  have "equals (get_op args_get) (?l ! 1)" "fresh (take 1 ?l) (?l ! 1) \<and> \<not> IsDup (?l ! 1)"
    "CommandValue (recorded (take 1 ?l) (?l ! 1)) = ''1''" by code_simp+
  then have "Get_poll args_get (int 1 + 1) kv = Inr (Some \<lparr>gr_Err = OK, gr_Value = ''1''\<rparr>)"
    using Get_poll_applied[OF kv(2), of 1 args_get] by simp
  then show ?thesis using kv(1) unfolding served_get_def by (metis nat_0)
qed

lemma sample_served_put: "served_put 3 sample_hist args_put 0 \<lparr>par_Err = OK\<rparr>"
proof -
  obtain kv where kv: "serving 3 (sample_hist 1) 0 kv" "kv_applied [op_put, get_op args_get] kv" using sample_serving .
  have "equals (putappend_op args_put) op_put" by code_simp
  then have "PutAppend_poll args_put (int 0 + 1) kv = Inr (Some \<lparr>par_Err = OK\<rparr>)"
    using PutAppend_poll_applied[OF kv(2), of 0 args_put] by simp
  then show ?thesis using kv(1) unfolding served_put_def by (metis nat_0)
qed

theorem clerk_get_linearized_witness:
  "\<exists>k ck' res kv. clerk_Get (sample_clerk 6 3) (served_get 3 sample_hist args_get) k \<and> call_return (sample_clerk 6 3) k = (ck', res) \<and>
     serving 3 (sample_hist 1) 0 kv \<and> kv_lastApplied kv = 1 \<and> gr_Value res = value_of (kv_kv kv) ''x'' \<and> ck_comandId ck' = 4"
proof -
  let ?ck = "sample_clerk 6 3" and ?op = "get_op args_get"
  have "served_get 3 sample_hist args_get (ck_preLeaderId ?ck) \<lparr>gr_Err = OK, gr_Value = ''1''\<rparr>"
    using sample_served_get by (simp add: sample_clerk_def)
  from can_return[where P = get_protocol and answers = "served_get 3 sample_hist args_get", OF sample_pre this]
  obtain k where k: "clerk_Get ?ck (served_get 3 sample_hist args_get) k" "k_main k = Back" by (auto simp: get_protocol_def)
  obtain ck' res where res: "call_return ?ck k = (ck', res)" by fastforce
  note lin = clerk_get_linearized[where ck = ?ck and key = "''x''", unfolded sample_args,
      OF k(1) sample_pre k(2) res sample_history sample_numbered(1)]
  then obtain t i j where j: "i < 3" "j < length (log_ops (servers (sample_hist t) ! i))" "log_ops (servers (sample_hist t) ! i) ! j = ?op"
    "\<And>u i' kv. serving 3 (sample_hist u) i' kv \<Longrightarrow> kv_lastApplied kv = int j \<Longrightarrow> gr_Value res = value_of (kv_kv kv) ''x''"
    by blast
  have "op_put \<noteq> ?op" by (simp add: op_put_def get_op_def)
  then have "j = 1" using j(2,3) by (auto simp: sample_log_ops[OF j(1)] less_Suc_eq numeral_2_eq_2 split: if_splits)
  moreover obtain kv where "serving 3 (sample_hist 1) 0 kv" "kv_lastApplied kv = int 1"
    using serving_at[OF history_creach[OF sample_history], of 0 1 1] by (auto simp: sample_log_ops)
  moreover have "ck_comandId ck' = 4" using lin by (simp add: sample_clerk_def)
  ultimately show ?thesis using k(1) res j(4)[of 1 0 kv] by (intro exI[of _ k] exI[of _ ck'] exI[of _ res] exI[of _ kv]) simp
qed

theorem clerk_put_acknowledged_witness:
  "\<exists>k m. clerk_PutAppend (sample_clerk 5 0) (served_put 3 sample_hist args_put) k \<and> k_main k = Back \<and>
     (\<exists>t i kv. serving 3 (sample_hist t) i kv \<and> int m < kv_lastApplied kv \<and>
        count_list (firsts {} (take (nat (kv_lastApplied kv)) (log_ops (servers (sample_hist t) ! i)))) (putappend_op args_put) = 1)"
proof -
  let ?ck = "sample_clerk 5 0"
  have "served_put 3 sample_hist args_put (ck_preLeaderId ?ck) \<lparr>par_Err = OK\<rparr>" using sample_served_put by (simp add: sample_clerk_def)
  from can_return[where P = putappend_protocol and answers = "served_put 3 sample_hist args_put", OF sample_pre this]
  obtain k where k: "clerk_PutAppend ?ck (served_put 3 sample_hist args_put) k" "k_main k = Back"
    by (auto simp: putappend_protocol_def)
  obtain ck' res where res: "call_return ?ck k = (ck', res)" by fastforce
  from clerk_put_acknowledged[where ck = ?ck and key = "''x''" and val = "''1''" and opn = PUT, unfolded sample_args,
      OF k(1) sample_pre k(2) res sample_history sample_numbered(2)]
  show ?thesis using k by (simp add: Let_def) blast
qed

end
