(* ===== verification/KV_Tester.thy ===== *)
theory KV_Tester
  imports KVClerk Labrpc
begin

text \<open>
  \<open>src/src/kvraft/config.go\<close>: the harness of the key/value service. A \<open>*KVServer\<close> and a
  \<open>*Clerk\<close> are addresses; the persister handed to \<open>StartKVServer\<close> is shared with the server's
  Raft peer, so that \<open>cfg.saved[i]\<close> of a running server is the one in that peer
  (\<open>kc_saved_of\<close>). Names of ends, times and random numbers are arguments, and so is what
  \<open>GetState\<close> shows at the moments \<open>Leader\<close> looks. Lists of servers hold server numbers.
\<close>

section \<open>State\<close>

record ('a, 'r) kv_config =
  kc_net :: "(string, nat, nat, 'a, 'r) Network"
  kc_n :: nat
  kc_kvservers :: "nat option list"
  kc_saved :: "Op gob Persister option list"
  kc_endnames :: "string list option list"
  kc_clerks :: "nat \<rightharpoonup> string list"
  kc_nextClientId :: int
  kc_maxraftstate :: int
  kc_start :: int
  kc_t0 :: int
  kc_rpcs0 :: int
  kc_ops :: "32 word"
  kc_failed :: bool
  kc_heap :: "nat \<Rightarrow> KVServer"
  kc_next :: nat

definition kc_saved_of :: "nat \<Rightarrow> ('a, 'r) kv_config \<Rightarrow> Op gob Persister option go" where
  "kc_saved_of i cfg =
     go_bind (go_index (kc_saved cfg) (int i)) (\<lambda>sv.
     go_bind (go_index (kc_kvservers cfg) (int i)) (\<lambda>kv.
       Inr (case sv of
              None \<Rightarrow> None
            | Some ps \<Rightarrow> Some (case kv of None \<Rightarrow> ps | Some a \<Rightarrow> rf_persister (kv_rf (kc_heap cfg a))))))"

text \<open>\<open>rand.Intn(i + 1)\<close> gives \<open>rnd i\<close>; the loop swaps entry \<open>i\<close> with that one.\<close>

definition random_handles :: "(nat \<Rightarrow> nat) \<Rightarrow> 'h list \<Rightarrow> 'h list" where
  "random_handles rnd kvh =
     fold (\<lambda>i sa. let j = rnd i mod (i + 1) in sa[i := sa ! j, j := sa ! i]) [0..<length kvh] kvh"

definition kc_checkTimeout :: "int \<Rightarrow> ('a, 'r) kv_config \<Rightarrow> unit go" where
  "kc_checkTimeout now cfg =
     (if \<not> kc_failed cfg \<and> now - kc_start cfg > 120 * 1000000000 then Inl (Fatal ''test took longer than 120 seconds'') else Inr ())"

definition kc_cleanup :: "int \<Rightarrow> ('a, 'r) kv_config \<Rightarrow> ('a, 'r) kv_config go" where
  "kc_cleanup now cfg =
     (let heap = fold (\<lambda>kv h. case kv of None \<Rightarrow> h | Some a \<Rightarrow> h(a := kv_Kill (h a))) (kc_kvservers cfg) (kc_heap cfg)
      in go_bind (Cleanup (kc_net cfg)) (\<lambda>rn.
         let cfg = cfg\<lparr>kc_heap := heap, kc_net := rn\<rparr>
         in go_bind (kc_checkTimeout now cfg) (\<lambda>_. Inr cfg)))"

text \<open>The loops of \<open>LogSize\<close> and \<open>SnapshotSize\<close>.\<close>

definition max_size :: "(Op gob Persister \<Rightarrow> int) \<Rightarrow> ('a, 'r) kv_config \<Rightarrow> int go" where
  "max_size sz cfg =
     go_each (\<lambda>i m.
       go_bind (kc_saved_of i cfg) (\<lambda>sv.
         case sv of None \<Rightarrow> Inl NilDereference | Some ps \<Rightarrow> Inr (if sz ps > m then sz ps else m))) [0..<kc_n cfg] 0"

definition LogSize :: "('a, 'r) kv_config \<Rightarrow> int go" where
  "LogSize cfg = max_size RaftStateSize cfg"

definition kc_SnapshotSize :: "('a, 'r) kv_config \<Rightarrow> int go" where
  "kc_SnapshotSize cfg = max_size SnapshotSize cfg"

section \<open>Connections between servers\<close>

definition kc_endname :: "('a, 'r) kv_config \<Rightarrow> nat \<Rightarrow> nat \<Rightarrow> string go" where
  "kc_endname cfg i j =
     go_bind (go_index (kc_endnames cfg) (int i)) (\<lambda>row.
       case row of None \<Rightarrow> Inl IndexOutOfRange | Some names \<Rightarrow> go_index names (int j))"

definition kc_enable :: "bool \<Rightarrow> nat \<Rightarrow> nat \<Rightarrow> ('a, 'r) kv_config \<Rightarrow> ('a, 'r) kv_config go" where
  "kc_enable v a b cfg = go_bind (kc_endname cfg a b) (\<lambda>e. Inr (cfg\<lparr>kc_net := Enable e v (kc_net cfg)\<rparr>))"

definition connectUnlocked :: "nat \<Rightarrow> nat list \<Rightarrow> ('a, 'r) kv_config \<Rightarrow> ('a, 'r) kv_config go" where
  "connectUnlocked i to cfg =
     go_bind (go_each (\<lambda>j. kc_enable True i j) to cfg) (go_each (\<lambda>j. kc_enable True j i) to)"

definition kc_connect :: "nat \<Rightarrow> nat list \<Rightarrow> ('a, 'r) kv_config \<Rightarrow> ('a, 'r) kv_config go" where
  "kc_connect i to cfg = connectUnlocked i to cfg"

text \<open>
  The second loop tests \<open>cfg.endnames[j]\<close> with the position \<open>j\<close> in \<open>from\<close>, not the server
  there.
\<close>

definition disconnectUnlocked :: "nat \<Rightarrow> nat list \<Rightarrow> ('a, 'r) kv_config \<Rightarrow> ('a, 'r) kv_config go" where
  "disconnectUnlocked i from cfg =
     go_bind (go_each (\<lambda>j cfg.
         go_bind (go_index (kc_endnames cfg) (int i)) (\<lambda>row. if row \<noteq> None then kc_enable False i j cfg else Inr cfg)) from cfg)
       (go_each (\<lambda>(j, b) cfg.
         go_bind (go_index (kc_endnames cfg) (int j)) (\<lambda>row. if row \<noteq> None then kc_enable False b i cfg else Inr cfg))
           (zip [0..<length from] from))"

definition kc_disconnect :: "nat \<Rightarrow> nat list \<Rightarrow> ('a, 'r) kv_config \<Rightarrow> ('a, 'r) kv_config go" where
  "kc_disconnect i from cfg = disconnectUnlocked i from cfg"

definition kc_All :: "('a, 'r) kv_config \<Rightarrow> nat list" where
  "kc_All cfg = [0..<kc_n cfg]"

definition ConnectAll :: "('a, 'r) kv_config \<Rightarrow> ('a, 'r) kv_config go" where
  "ConnectAll cfg = go_each (\<lambda>i cfg. connectUnlocked i (kc_All cfg) cfg) [0..<kc_n cfg] cfg"

definition kc_partition :: "nat list \<Rightarrow> nat list \<Rightarrow> ('a, 'r) kv_config \<Rightarrow> ('a, 'r) kv_config go" where
  "kc_partition p1 p2 cfg =
     go_bind (go_each (\<lambda>i cfg. go_bind (disconnectUnlocked i p2 cfg) (connectUnlocked i p1)) p1 cfg)
       (go_each (\<lambda>i cfg. go_bind (disconnectUnlocked i p1 cfg) (connectUnlocked i p2)) p2)"

section \<open>Clients\<close>

definition ConnectClientUnlocked :: "nat \<Rightarrow> nat list \<Rightarrow> ('a, 'r) kv_config \<Rightarrow> ('a, 'r) kv_config go" where
  "ConnectClientUnlocked ck to cfg =
     (let endnames = (case kc_clerks cfg ck of None \<Rightarrow> [] | Some es \<Rightarrow> es)
      in go_each (\<lambda>j cfg. go_bind (go_index endnames (int j)) (\<lambda>s. Inr (cfg\<lparr>kc_net := Enable s True (kc_net cfg)\<rparr>))) to cfg)"

definition ConnectClient :: "nat \<Rightarrow> nat list \<Rightarrow> ('a, 'r) kv_config \<Rightarrow> ('a, 'r) kv_config go" where
  "ConnectClient ck to cfg = ConnectClientUnlocked ck to cfg"

definition DisconnectClientUnlocked :: "nat \<Rightarrow> nat list \<Rightarrow> ('a, 'r) kv_config \<Rightarrow> ('a, 'r) kv_config go" where
  "DisconnectClientUnlocked ck from cfg =
     (let endnames = (case kc_clerks cfg ck of None \<Rightarrow> [] | Some es \<Rightarrow> es)
      in go_each (\<lambda>j cfg. go_bind (go_index endnames (int j)) (\<lambda>s. Inr (cfg\<lparr>kc_net := Enable s False (kc_net cfg)\<rparr>))) from cfg)"

definition DisconnectClient :: "nat \<Rightarrow> nat list \<Rightarrow> ('a, 'r) kv_config \<Rightarrow> ('a, 'r) kv_config go" where
  "DisconnectClient ck from cfg = DisconnectClientUnlocked ck from cfg"

text \<open>A new end for every server; used for clerks and for servers.\<close>

definition new_ends :: "string list \<Rightarrow> ('a, 'r) kv_config \<Rightarrow> ('a, 'r) kv_config go" where
  "new_ends endnames cfg =
     go_each (\<lambda>j cfg.
       go_bind (go_index endnames (int j)) (\<lambda>e.
       go_bind (MakeEnd e (kc_net cfg)) (\<lambda>rn. Inr (cfg\<lparr>kc_net := Connect e j rn\<rparr>)))) [0..<kc_n cfg] cfg"

text \<open>
  \<open>makeClient\<close> returns the address of the clerk, the clerk and its handles, the ends in the
  order the clerk will see them.
\<close>

definition makeClient ::
  "(nat \<Rightarrow> string) \<Rightarrow> (nat \<Rightarrow> nat) \<Rightarrow> nat \<Rightarrow> nat list \<Rightarrow> ('a, 'r) kv_config \<Rightarrow> (nat \<times> Clerk \<times> string list \<times> ('a, 'r) kv_config) go" where
  "makeClient names rnd crnd to cfg =
     (let endnames = map names [0..<kc_n cfg] in
      go_bind (new_ends endnames cfg) (\<lambda>cfg.
        let handles = random_handles rnd endnames; a = kc_next cfg; ck = MakeClerk (length handles) crnd;
            cfg = cfg\<lparr>kc_next := a + 1, kc_clerks := (kc_clerks cfg)(a \<mapsto> endnames), kc_nextClientId := kc_nextClientId cfg + 1\<rparr>
        in go_bind (ConnectClientUnlocked a to cfg) (\<lambda>cfg. Inr (a, ck, handles, cfg))))"

definition deleteClient :: "nat \<Rightarrow> ('a, 'r) kv_config \<Rightarrow> ('a, 'r) kv_config" where
  "deleteClient ck cfg = cfg\<lparr>kc_clerks := (kc_clerks cfg)(ck := None)\<rparr>"

section \<open>Starting and stopping servers\<close>

definition ShutdownServer :: "nat \<Rightarrow> ('a, 'r) kv_config \<Rightarrow> ('a, 'r) kv_config go" where
  "ShutdownServer i cfg =
     go_bind (disconnectUnlocked i (kc_All cfg) cfg) (\<lambda>cfg.
     let cfg = cfg\<lparr>kc_net := DeleteServer i (kc_net cfg)\<rparr> in
     go_bind (kc_saved_of i cfg) (\<lambda>sv.
     go_bind (go_index (kc_kvservers cfg) (int i)) (\<lambda>kv.
       let cfg = cfg\<lparr>kc_saved := (kc_saved cfg)[i := map_option Copy sv]\<rparr>
       in Inr (case kv of
                 None \<Rightarrow> cfg
               | Some a \<Rightarrow> cfg\<lparr>kc_heap := (kc_heap cfg)(a := kv_Kill (kc_heap cfg a)), kc_kvservers := (kc_kvservers cfg)[i := None]\<rparr>))))"

text \<open>\<open>kvmethods\<close> and \<open>rfmethods\<close> are what \<open>reflect\<close> finds in \<open>*KVServer\<close> and \<open>*Raft\<close>.\<close>

definition StartServer ::
  "(nat, 'a, 'r) Method list \<Rightarrow> (nat, 'a, 'r) Method list \<Rightarrow> (nat \<Rightarrow> string) \<Rightarrow> int \<Rightarrow> nat \<Rightarrow> nat \<Rightarrow> ('a, 'r) kv_config \<Rightarrow> ('a, 'r) kv_config go" where
  "StartServer kvmethods rfmethods names now rnd i cfg =
     (let row = map names [0..<kc_n cfg] in
      go_bind (go_set (kc_endnames cfg) (int i) (Some row)) (\<lambda>es.
      go_bind (new_ends row (cfg\<lparr>kc_endnames := es\<rparr>)) (\<lambda>cfg.
      go_bind (kc_saved_of i cfg) (\<lambda>sv.
        let saved = (case sv of Some ps \<Rightarrow> Copy ps | None \<Rightarrow> MakePersister) in
        go_bind (StartKVServer (kc_n cfg) (int i) saved (kc_maxraftstate cfg) now rnd) (\<lambda>kv.
          let a = kc_next cfg;
              srv = AddService (MakeService ''Raft'' a rfmethods) (AddService (MakeService ''KVServer'' a kvmethods) MakeServer);
              rn = kc_net cfg
          in Inr (cfg\<lparr>kc_saved := (kc_saved cfg)[i := Some saved], kc_heap := (kc_heap cfg)(a := kv),
                      kc_kvservers := (kc_kvservers cfg)[i := Some a], kc_next := a + 1,
                      kc_net := AddServer i a (rn\<lparr>n_srv := (n_srv rn)(a := srv)\<rparr>)\<rparr>))))))"

text \<open>\<open>Leader\<close>: the first server that takes itself for the leader, and 0 when there is none.\<close>

fun Leader_from :: "(nat \<Rightarrow> KVServer) \<Rightarrow> ('a, 'r) kv_config \<Rightarrow> nat list \<Rightarrow> (bool \<times> nat) go" where
  "Leader_from view cfg [] = Inr (False, 0)"
| "Leader_from view cfg (i # xs) =
     go_bind (go_index (kc_kvservers cfg) (int i)) (\<lambda>kv.
       case kv of
         None \<Rightarrow> Inl NilDereference
       | Some a \<Rightarrow> if snd (GetState (kv_rf (view a))) then Inr (True, i) else Leader_from view cfg xs)"

definition kc_Leader :: "(nat \<Rightarrow> KVServer) \<Rightarrow> ('a, 'r) kv_config \<Rightarrow> (bool \<times> nat) go" where
  "kc_Leader view cfg = Leader_from view cfg [0..<kc_n cfg]"

text \<open>The body of the loop of \<open>make_partition\<close>, on \<open>j\<close> and the two slices.\<close>

definition partition_step :: "nat \<Rightarrow> nat \<Rightarrow> nat \<times> nat list \<times> nat list \<Rightarrow> (nat \<times> nat list \<times> nat list) go" where
  "partition_step l i = (\<lambda>(j, p1, p2).
     if i \<noteq> l then
       (if j < length p1 then go_bind (go_set p1 (int j) i) (\<lambda>p1. Inr (j + 1, p1, p2))
        else go_bind (go_set p2 (int j - go_len p1) i) (\<lambda>p2. Inr (j + 1, p1, p2)))
     else Inr (j, p1, p2))"

definition make_partition :: "(nat \<Rightarrow> KVServer) \<Rightarrow> ('a, 'r) kv_config \<Rightarrow> (nat list \<times> nat list) go" where
  "make_partition view cfg =
     go_bind (kc_Leader view cfg) (\<lambda>(_, l).
     go_bind (go_each (partition_step l) [0..<kc_n cfg]
                (0, replicate (kc_n cfg div 2 + 1) 0, replicate (kc_n cfg div 2) 0)) (\<lambda>(_, p1, p2).
     go_bind (go_set p2 (go_len p2 - 1) l) (\<lambda>p2. Inr (p1, p2))))"

definition kc_make_config ::
  "(nat, 'a, 'r) Method list \<Rightarrow> (nat, 'a, 'r) Method list \<Rightarrow> (nat \<Rightarrow> nat \<Rightarrow> string) \<Rightarrow> int \<Rightarrow> nat \<Rightarrow> (nat \<Rightarrow> KVServer) \<Rightarrow>
   nat \<Rightarrow> bool \<Rightarrow> int \<Rightarrow> ('a, 'r) kv_config go" where
  "kc_make_config kvmethods rfmethods names now rnd heap n unreliable maxraftstate =
     (let cfg = \<lparr>kc_net = MakeNetwork, kc_n = n, kc_kvservers = replicate n None, kc_saved = replicate n None,
                 kc_endnames = replicate n None, kc_clerks = Map.empty, kc_nextClientId = int n + 1000,
                 kc_maxraftstate = maxraftstate, kc_start = now, kc_t0 = 0, kc_rpcs0 = 0, kc_ops = 0, kc_failed = False,
                 kc_heap = heap, kc_next = 0\<rparr>
      in go_bind (go_each (\<lambda>i. StartServer kvmethods rfmethods (names i) now rnd i) [0..<n] cfg) (\<lambda>cfg.
         go_bind (ConnectAll cfg) (\<lambda>cfg. Inr (cfg\<lparr>kc_net := Reliable (\<not> unreliable) (kc_net cfg)\<rparr>))))"

section \<open>Statistics\<close>

definition kc_rpcTotal :: "('a, 'r) kv_config \<Rightarrow> int" where
  "kc_rpcTotal cfg = GetTotalCount (kc_net cfg)"

definition kc_begin :: "int \<Rightarrow> ('a, 'r) kv_config \<Rightarrow> ('a, 'r) kv_config" where
  "kc_begin now cfg = cfg\<lparr>kc_t0 := now, kc_rpcs0 := kc_rpcTotal cfg, kc_ops := 0\<rparr>"

definition kc_op :: "('a, 'r) kv_config \<Rightarrow> ('a, 'r) kv_config" where
  "kc_op cfg = cfg\<lparr>kc_ops := kc_ops cfg + 1\<rparr>"

definition kc_end :: "int \<Rightarrow> ('a, 'r) kv_config \<Rightarrow> (int \<times> nat \<times> int \<times> int) option go" where
  "kc_end now cfg =
     go_bind (kc_checkTimeout now cfg) (\<lambda>_.
       Inr (if kc_failed cfg = False then
              Some (now - kc_t0 cfg, kc_n cfg, kc_rpcTotal cfg - kc_rpcs0 cfg, sint (kc_ops cfg))
            else None))"

end
