(* ===== verification/KV_Tester_Theorems.thy ===== *)
theory KV_Tester_Theorems
  imports KV_Tester "HOL-Library.Multiset"
begin

text \<open>
  What the key/value tester does to the network: \<open>make_config\<close> connects everything,
  \<open>make_partition\<close> splits an odd number of servers with the leader in the minority, and
  \<open>partition\<close> leaves exactly the links within the two sides; \<open>random_handles\<close> permutes.
\<close>

section \<open>Links\<close>

definition kc_link :: "('a, 'r) kv_config \<Rightarrow> nat \<Rightarrow> nat \<Rightarrow> string" where
  "kc_link cfg i j = the (kc_endnames cfg ! i) ! j"

definition up :: "('a, 'r) kv_config \<Rightarrow> nat \<Rightarrow> nat \<Rightarrow> bool" where
  "up cfg i j = n_enabled (kc_net cfg) (kc_link cfg i j)"

text \<open>All servers have ends of their own to all others.\<close>

definition kc_ready :: "nat \<Rightarrow> ('a, 'r) kv_config \<Rightarrow> bool" where
  "kc_ready n cfg \<longleftrightarrow> kc_n cfg = n \<and> length (kc_endnames cfg) = n \<and>
     (\<forall>i<n. \<exists>names. kc_endnames cfg ! i = Some names \<and> length names = n) \<and>
     inj_on (\<lambda>(i, j). kc_link cfg i j) ({..<n} \<times> {..<n})"

text \<open>A change of nothing but the links: afterwards \<open>f i j\<close> says which are enabled.\<close>

definition rewired :: "nat \<Rightarrow> (nat \<Rightarrow> nat \<Rightarrow> bool) \<Rightarrow> ('a, 'r) kv_config \<Rightarrow> ('a, 'r) kv_config \<Rightarrow> bool" where
  "rewired n f cfg cfg' \<longleftrightarrow> (\<exists>P. cfg' = cfg\<lparr>kc_net := (kc_net cfg)\<lparr>n_enabled := P\<rparr>\<rparr> \<and> (\<forall>i<n. \<forall>j<n. P (kc_link cfg i j) = f i j) \<and>
     (\<forall>e. (\<forall>i<n. \<forall>j<n. e \<noteq> kc_link cfg i j) \<longrightarrow> P e = n_enabled (kc_net cfg) e))"

lemma kc_link_same [simp]: "kc_link (cfg\<lparr>kc_net := rn\<rparr>) = kc_link cfg"
  by (simp add: kc_link_def fun_eq_iff)

lemma kc_ready_same [simp]: "kc_ready n (cfg\<lparr>kc_net := rn\<rparr>) = kc_ready n cfg"
  by (simp add: kc_ready_def)

lemma rewiredD:
  assumes "rewired n f cfg cfg'"
  shows "kc_ready n cfg' = kc_ready n cfg" and "kc_n cfg' = kc_n cfg" and "kc_kvservers cfg' = kc_kvservers cfg"
    and "kc_link cfg' = kc_link cfg" and "i < n \<Longrightarrow> j < n \<Longrightarrow> up cfg' i j = f i j"
  using assms by (auto simp: rewired_def up_def)

lemma rewired_trans:
  assumes "rewired n f cfg cfg'" and "rewired n g cfg' cfg''" and "\<And>i j. i < n \<Longrightarrow> j < n \<Longrightarrow> h i j = g i j"
  shows "rewired n h cfg cfg''"
proof -
  obtain P where P: "cfg' = cfg\<lparr>kc_net := (kc_net cfg)\<lparr>n_enabled := P\<rparr>\<rparr>"
    "\<forall>e. (\<forall>i<n. \<forall>j<n. e \<noteq> kc_link cfg i j) \<longrightarrow> P e = n_enabled (kc_net cfg) e" using assms(1) by (auto simp: rewired_def)
  obtain Q where Q: "cfg'' = cfg'\<lparr>kc_net := (kc_net cfg')\<lparr>n_enabled := Q\<rparr>\<rparr>" "\<forall>i<n. \<forall>j<n. Q (kc_link cfg' i j) = g i j"
    "\<forall>e. (\<forall>i<n. \<forall>j<n. e \<noteq> kc_link cfg' i j) \<longrightarrow> Q e = n_enabled (kc_net cfg') e" using assms(2) unfolding rewired_def by blast
  show ?thesis
    unfolding rewired_def
  proof (intro exI[of _ Q] conjI allI impI)
    show "cfg'' = cfg\<lparr>kc_net := (kc_net cfg)\<lparr>n_enabled := Q\<rparr>\<rparr>" by (simp add: Q(1) P(1))
    show "Q (kc_link cfg i j) = h i j" if "i < n" "j < n" for i j using that Q(2) assms(3) by (simp add: P(1))
    show "Q e = n_enabled (kc_net cfg) e" if "\<forall>i<n. \<forall>j<n. e \<noteq> kc_link cfg i j" for e using that Q(3) P(2) by (simp add: P(1))
  qed
qed

lemma rewired_refl: "(\<And>i j. i < n \<Longrightarrow> j < n \<Longrightarrow> f i j = up cfg i j) \<Longrightarrow> rewired n f cfg cfg"
  by (auto simp: rewired_def up_def intro!: exI[of _ "n_enabled (kc_net cfg)"])

lemma kc_endname_ready: "kc_ready n cfg \<Longrightarrow> i < n \<Longrightarrow> j < n \<Longrightarrow> kc_endname cfg i j = Inr (kc_link cfg i j)"
  by (auto simp: kc_endname_def kc_ready_def kc_link_def go_index_def go_len_def)

lemma kc_enable_rewires:
  assumes "kc_ready n cfg" and "i < n" and "j < n"
  shows "\<exists>cfg'. kc_enable v i j cfg = Inr cfg' \<and> rewired n (\<lambda>a b. if a = i \<and> b = j then v else up cfg a b) cfg cfg'"
proof -
  let ?P = "(n_enabled (kc_net cfg))(kc_link cfg i j := v)"
  have inj: "kc_link cfg a b = kc_link cfg i j \<longleftrightarrow> a = i \<and> b = j" if "a < n" "b < n" for a b
    using assms that unfolding kc_ready_def inj_on_def by fastforce
  have "rewired n (\<lambda>a b. if a = i \<and> b = j then v else up cfg a b) cfg (cfg\<lparr>kc_net := (kc_net cfg)\<lparr>n_enabled := ?P\<rparr>\<rparr>)"
    unfolding rewired_def by (intro exI[of _ ?P]) (use assms(2,3) inj in \<open>auto simp: up_def\<close>)
  moreover have "kc_enable v i j cfg = Inr (cfg\<lparr>kc_net := (kc_net cfg)\<lparr>n_enabled := ?P\<rparr>\<rparr>)"
    using kc_endname_ready[OF assms] by (simp add: kc_enable_def Enable_def)
  ultimately show ?thesis by blast
qed

text \<open>A loop that sets the links from \<open>a x\<close> to \<open>b x\<close>.\<close>

lemma enable_loop:
  assumes "kc_ready n cfg" and "\<forall>x\<in>set xs. a x < n \<and> b x < n"
    and step: "\<And>x c. x \<in> set xs \<Longrightarrow> kc_ready n c \<Longrightarrow> f x c = kc_enable v (a x) (b x) c"
  shows "\<exists>cfg'. go_each f xs cfg = Inr cfg' \<and> rewired n (\<lambda>i j. if \<exists>x\<in>set xs. i = a x \<and> j = b x then v else up cfg i j) cfg cfg'"
  using assms
proof (induction xs arbitrary: cfg)
  case Nil
  then show ?case using rewired_refl[of n "up cfg" cfg] by simp
next
  case (Cons x xs)
  obtain c where c: "kc_enable v (a x) (b x) cfg = Inr c" "rewired n (\<lambda>i j. if i = a x \<and> j = b x then v else up cfg i j) cfg c"
    using kc_enable_rewires[OF Cons.prems(1), of "a x" "b x" v] Cons.prems(2) by auto
  have "kc_ready n c" using Cons.prems(1) rewiredD(1)[OF c(2)] by simp
  then obtain c' where c': "go_each f xs c = Inr c'" "rewired n (\<lambda>i j. if \<exists>x\<in>set xs. i = a x \<and> j = b x then v else up c i j) c c'"
    using Cons.IH[of c] Cons.prems(2,3) by auto
  have "rewired n (\<lambda>i j. if \<exists>x\<in>set (x # xs). i = a x \<and> j = b x then v else up cfg i j) cfg c'"
    by (rule rewired_trans[OF c(2) c'(2)]) (auto simp: rewiredD(5)[OF c(2)])
  then show ?case using c(1) c'(1) Cons.prems(1,3) by auto
qed

lemma connectUnlocked_rewires:
  assumes r: "kc_ready n cfg" and i: "i < n" and xs: "set to \<subseteq> {..<n}"
  shows "\<exists>cfg'. connectUnlocked i to cfg = Inr cfg' \<and> rewired n (\<lambda>a b. up cfg a b \<or> a = i \<and> b \<in> set to \<or> b = i \<and> a \<in> set to) cfg cfg'"
proof -
  obtain c where c: "go_each (\<lambda>j. kc_enable True i j) to cfg = Inr c" "rewired n (\<lambda>a b. if \<exists>x\<in>set to. a = i \<and> b = x then True else up cfg a b) cfg c"
    using enable_loop[OF r, of to "\<lambda>_. i" "\<lambda>j. j" "\<lambda>j. kc_enable True i j" True] i xs by auto
  have "kc_ready n c" using r rewiredD(1)[OF c(2)] by simp
  then obtain d where d: "go_each (\<lambda>j. kc_enable True j i) to c = Inr d" "rewired n (\<lambda>a b. if \<exists>x\<in>set to. a = x \<and> b = i then True else up c a b) c d"
    using enable_loop[of n c to "\<lambda>j. j" "\<lambda>_. i" "\<lambda>j. kc_enable True j i" True] i xs by auto
  have "rewired n (\<lambda>a b. up cfg a b \<or> a = i \<and> b \<in> set to \<or> b = i \<and> a \<in> set to) cfg d"
    by (rule rewired_trans[OF c(2) d(2)]) (auto simp: rewiredD(5)[OF c(2)])
  then show ?thesis using c(1) d(1) by (simp add: connectUnlocked_def)
qed

lemma disconnectUnlocked_rewires:
  fixes cfg :: "('a, 'b) kv_config"
  assumes r: "kc_ready n cfg" and i: "i < n" and xs: "set from \<subseteq> {..<n}" and len: "length from \<le> n"
  shows "\<exists>cfg'. disconnectUnlocked i from cfg = Inr cfg' \<and>
    rewired n (\<lambda>a b. up cfg a b \<and> \<not> (a = i \<and> b \<in> set from) \<and> \<not> (b = i \<and> a \<in> set from)) cfg cfg'"
proof -
  let ?f = "\<lambda>j cfg. go_bind (go_index (kc_endnames cfg) (int i)) (\<lambda>row. if row \<noteq> None then kc_enable False i j cfg else Inr cfg)"
  let ?g = "\<lambda>(j, b) cfg. go_bind (go_index (kc_endnames cfg) (int j)) (\<lambda>row. if row \<noteq> None then kc_enable False b i cfg else Inr cfg)"
  let ?ys = "zip [0..<length from] from"
  have row: "go_index (kc_endnames c) (int j) = Inr (kc_endnames c ! j) \<and> kc_endnames c ! j \<noteq> None" if "kc_ready n c" "j < n" for c :: "('a, 'b) kv_config" and j
    using that by (auto simp: kc_ready_def go_index_def go_len_def)
  obtain c where c: "go_each ?f from cfg = Inr c" "rewired n (\<lambda>a b. if \<exists>x\<in>set from. a = i \<and> b = x then False else up cfg a b) cfg c"
    using enable_loop[OF r, of "from" "\<lambda>_. i" "\<lambda>j. j" ?f False] i xs row by auto
  have "kc_ready n c" using r rewiredD(1)[OF c(2)] by simp
  moreover have "\<forall>x\<in>set ?ys. snd x < n \<and> i < n" using i xs by (auto dest: set_zip_rightD)
  moreover have "?g x d = kc_enable False (snd x) i d" if "x \<in> set ?ys" "kc_ready n d" for x and d :: "('a, 'b) kv_config"
  proof -
    have "fst x < n" using that(1) len by (auto simp: set_zip)
    then show ?thesis using row[OF that(2)] by (cases x) simp
  qed
  ultimately have "\<exists>d. go_each ?g ?ys c = Inr d \<and> rewired n (\<lambda>a b. if \<exists>x\<in>set ?ys. a = snd x \<and> b = i then False else up c a b) c d"
    by (rule enable_loop)
  then obtain d where d: "go_each ?g ?ys c = Inr d" "rewired n (\<lambda>a b. if \<exists>x\<in>set ?ys. a = snd x \<and> b = i then False else up c a b) c d" by blast
  have "snd ` set ?ys = set from" by (simp add: zip_map_fst_snd flip: set_map)
  then have "(\<exists>x\<in>set ?ys. a = snd x \<and> b = i) \<longleftrightarrow> a \<in> set from \<and> b = i" for a b by auto
  then have "rewired n (\<lambda>a b. up cfg a b \<and> \<not> (a = i \<and> b \<in> set from) \<and> \<not> (b = i \<and> a \<in> set from)) cfg d"
    by (intro rewired_trans[OF c(2) d(2)]) (auto simp: rewiredD(5)[OF c(2)])
  then show ?thesis using c(1) d(1) by (simp add: disconnectUnlocked_def)
qed


section \<open>Partitions\<close>

text \<open>One of the two loops of \<open>partition\<close>: the servers \<open>xs\<close> of side \<open>p\<close> leave side \<open>q\<close> and join \<open>p\<close>.\<close>

definition sided :: "nat set \<Rightarrow> nat set \<Rightarrow> nat set \<Rightarrow> (nat \<Rightarrow> nat \<Rightarrow> bool) \<Rightarrow> nat \<Rightarrow> nat \<Rightarrow> bool" where
  "sided X p q st a b = (if a \<in> X \<and> b \<in> p \<or> b \<in> X \<and> a \<in> p then True else if a \<in> X \<and> b \<in> q \<or> b \<in> X \<and> a \<in> q then False else st a b)"

lemma side_loop:
  assumes "kc_ready n cfg" and "set xs \<subseteq> set p" and "set p \<subseteq> {..<n}" and "set q \<subseteq> {..<n}" and "length q \<le> n" and "set p \<inter> set q = {}"
  shows "\<exists>cfg'. go_each (\<lambda>i cfg. go_bind (disconnectUnlocked i q cfg) (connectUnlocked i p)) xs cfg = Inr cfg' \<and>
    rewired n (sided (set xs) (set p) (set q) (up cfg)) cfg cfg'"
  using assms(1,2)
proof (induction xs arbitrary: cfg)
  case Nil
  have "rewired n (sided (set []) (set p) (set q) (up cfg)) cfg cfg" by (rule rewired_refl) (simp add: sided_def)
  then show ?case by simp
next
  case (Cons i xs)
  have i: "i < n" "i \<in> set p" using Cons.prems(2) assms(3) by auto
  obtain c where c: "disconnectUnlocked i q cfg = Inr c" "rewired n (\<lambda>a b. up cfg a b \<and> \<not> (a = i \<and> b \<in> set q) \<and> \<not> (b = i \<and> a \<in> set q)) cfg c"
    using disconnectUnlocked_rewires[OF Cons.prems(1) i(1) assms(4,5)] by blast
  have rc: "kc_ready n c" using Cons.prems(1) rewiredD(1)[OF c(2)] by simp
  obtain d where d: "connectUnlocked i p c = Inr d" "rewired n (\<lambda>a b. up c a b \<or> a = i \<and> b \<in> set p \<or> b = i \<and> a \<in> set p) c d"
    using connectUnlocked_rewires[OF rc i(1) assms(3)] by blast
  have "kc_ready n d" using rc rewiredD(1)[OF d(2)] by simp
  then obtain e where e: "go_each (\<lambda>i cfg. go_bind (disconnectUnlocked i q cfg) (connectUnlocked i p)) xs d = Inr e"
    "rewired n (sided (set xs) (set p) (set q) (up d)) d e" using Cons.IH[of d] Cons.prems(2) by auto
  have cd: "rewired n (\<lambda>a b. up d a b) cfg d"
    by (rule rewired_trans[OF c(2) d(2)]) (simp add: rewiredD(5)[OF d(2)])
  have "rewired n (sided (set (i # xs)) (set p) (set q) (up cfg)) cfg e"
  proof (rule rewired_trans[OF cd e(2)])
    fix a b assume ab: "a < n" "b < n"
    show "sided (set (i # xs)) (set p) (set q) (up cfg) a b = sided (set xs) (set p) (set q) (up d) a b"
      using assms(6) i(2) ab by (auto simp: sided_def rewiredD(5)[OF d(2)] rewiredD(5)[OF c(2)])
  qed
  then show ?case using c(1) d(1) e(1) by simp
qed

lemma partition_rewires:
  assumes r: "kc_ready n cfg" and p: "set p1 \<union> set p2 = {..<n}" "set p1 \<inter> set p2 = {}" "length p1 \<le> n" "length p2 \<le> n"
  shows "\<exists>cfg'. kc_partition p1 p2 cfg = Inr cfg' \<and> rewired n (\<lambda>a b. a \<in> set p1 \<longleftrightarrow> b \<in> set p1) cfg cfg'"
proof -
  have sub: "set p1 \<subseteq> {..<n}" "set p2 \<subseteq> {..<n}" using p(1) by auto
  obtain c where c: "go_each (\<lambda>i cfg. go_bind (disconnectUnlocked i p2 cfg) (connectUnlocked i p1)) p1 cfg = Inr c"
    "rewired n (sided (set p1) (set p1) (set p2) (up cfg)) cfg c" using side_loop[OF r order_refl sub p(4,2)] by blast
  have "kc_ready n c" using r rewiredD(1)[OF c(2)] by simp
  then obtain d where d: "go_each (\<lambda>i cfg. go_bind (disconnectUnlocked i p1 cfg) (connectUnlocked i p2)) p2 c = Inr d"
    "rewired n (sided (set p2) (set p2) (set p1) (up c)) c d" using side_loop[OF _ order_refl sub(2,1) p(3)] p(2) by blast
  have "rewired n (\<lambda>a b. a \<in> set p1 \<longleftrightarrow> b \<in> set p1) cfg d"
  proof (rule rewired_trans[OF c(2) d(2)])
    fix a b assume ab: "a < n" "b < n"
    then have m: "a \<in> set p2 \<longleftrightarrow> a \<notin> set p1" "b \<in> set p2 \<longleftrightarrow> b \<notin> set p1" using p(1,2) by blast+
    show "(a \<in> set p1 \<longleftrightarrow> b \<in> set p1) = sided (set p2) (set p2) (set p1) (up c) a b"
      unfolding sided_def rewiredD(5)[OF c(2) ab] m by simp
  qed
  then show ?thesis using c(1) d(1) by (simp add: kc_partition_def)
qed

text \<open>The loop of \<open>make_partition\<close> fills the first slice and then the second with the servers other than \<open>l\<close>.\<close>

lemma partition_loop:
  fixes l :: nat
  assumes "m \<le> n" and room: "n \<le> a + b"
  defines "xs \<equiv> \<lambda>m. filter (\<lambda>i. i \<noteq> l) [0..<m]"
  shows "go_each (partition_step l) [0..<m] (0, replicate a 0, replicate b 0) =
    Inr (length (xs m), take a (xs m) @ replicate (a - length (xs m)) 0, drop a (xs m) @ replicate (b - (length (xs m) - a)) 0)"
  using assms(1)
proof (induction m)
  case 0
  show ?case by (simp add: xs_def)
next
  case (Suc m)
  have len: "length (xs m) \<le> m" by (metis length_filter_le length_upt minus_nat.diff_0 xs_def)
  show ?case
  proof (cases "m = l")
    case True
    then show ?thesis using Suc by (simp add: go_each_append partition_step_def xs_def)
  next
    case False
    then have xs: "xs (Suc m) = xs m @ [m]" by (simp add: xs_def)
    show ?thesis
    proof (cases "length (xs m) < a")
      case True
      then have "(take a (xs m) @ replicate (a - length (xs m)) 0)[length (xs m) := m] = take a (xs m @ [m]) @ replicate (a - Suc (length (xs m))) 0"
        by (simp add: list_update_append take_append Suc_diff_Suc[symmetric] del: Suc_diff_Suc)
      then show ?thesis using Suc True False by (simp add: go_each_append partition_step_def xs go_set_def go_len_def)
    next
      case nf: False
      let ?k = "length (xs m) - a"
      have "?k < b" using nf len Suc.prems room by linarith
      then have "(drop a (xs m) @ replicate (b - ?k) 0)[?k := m] = drop a (xs m @ [m]) @ replicate (b - Suc ?k) 0"
        using nf by (simp add: list_update_append Suc_diff_Suc[symmetric])
      moreover have "int (length (xs m)) - int a = int ?k" using nf by simp
      ultimately show ?thesis using Suc False nf \<open>?k < b\<close>
        by (simp add: go_each_append partition_step_def xs go_set_def go_len_def Suc_diff_le del: of_nat_diff)
    qed
  qed
qed


definition kc_running :: "('a, 'r) kv_config \<Rightarrow> bool" where
  "kc_running cfg \<longleftrightarrow> length (kc_kvservers cfg) = kc_n cfg \<and> (\<forall>i<kc_n cfg. kc_kvservers cfg ! i \<noteq> None)"

lemma Leader_from_returns:
  assumes "kc_running cfg" and "set xs \<subseteq> {..<kc_n cfg}" and "0 < kc_n cfg"
  shows "\<exists>b l. Leader_from view cfg xs = Inr (b, l) \<and> l < kc_n cfg"
  using assms(2)
proof (induction xs)
  case (Cons i xs)
  then obtain a where "go_index (kc_kvservers cfg) (int i) = Inr (Some a)" using assms(1) by (auto simp: kc_running_def go_index_def go_len_def)
  then show ?case using Cons by auto
qed (use assms(3) in auto)

lemma go_set_last: "go_set (ys @ [z]) (go_len (ys @ [z]) - 1) v = Inr (ys @ [v])"
  by (simp add: go_set_def go_len_def)

lemma make_partition_splits:
  assumes r: "kc_running cfg" and odd: "odd (kc_n cfg)" and big: "1 < kc_n cfg"
  shows "\<exists>p1 p2 b l. make_partition view cfg = Inr (p1, p2) \<and> kc_Leader view cfg = Inr (b, l) \<and> l \<in> set p2 \<and>
    mset (p1 @ p2) = mset [0..<kc_n cfg] \<and> length p2 < length p1"
proof -
  let ?n = "kc_n cfg"
  obtain k where k: "?n = 2 * k + 1" "0 < k" using odd big by (elim oddE) simp
  obtain b l where l: "kc_Leader view cfg = Inr (b, l)" "l < ?n" using Leader_from_returns[OF r, of "[0..<?n]" view] big by (auto simp: kc_Leader_def atLeast0LessThan)
  define xs where "xs = filter (\<lambda>i. i \<noteq> l) [0..<?n]"
  have ms: "add_mset l (mset xs) = mset [0..<?n]"
  proof -
    have "xs = remove1 l [0..<?n]" unfolding xs_def by (simp add: distinct_remove1_removeAll removeAll_filter_not_eq) (rule filter_cong, auto)
    then show ?thesis using l(2) by simp
  qed
  have len: "length xs = 2 * k" using arg_cong[OF ms, of size] k(1) by simp
  have "?n \<le> k + 1 + k" by (simp add: k(1))
  from partition_loop[OF order_refl this, of l]
  have loop: "go_each (partition_step l) [0..<?n] (0, replicate (k + 1) 0, replicate k 0) = Inr (2 * k, take (k + 1) xs, drop (k + 1) xs @ [0])"
    using k(2) by (simp add: xs_def[symmetric] len)
  have half: "?n div 2 = k" using k(1) by simp
  have d: "length (drop (k + 1) xs) = k - 1" by (simp add: len)
  have "make_partition view cfg = Inr (take (k + 1) xs, drop (k + 1) xs @ [l])"
  proof -
    have "go_set (drop (k + 1) xs @ [0]) (go_len (drop (k + 1) xs @ [0]) - 1) l = Inr (drop (k + 1) xs @ [l])" by (rule go_set_last)
    then show ?thesis unfolding make_partition_def half l(1) using loop by simp
  qed
  moreover have "mset (take (k + 1) xs @ drop (k + 1) xs @ [l]) = mset [0..<?n]"
    unfolding ms[symmetric] append_assoc[symmetric] append_take_drop_id by simp
  moreover have "length (drop (k + 1) xs @ [l]) < length (take (k + 1) xs)" using d k(2) by (simp add: len)
  ultimately show ?thesis using l(1) by (intro exI[of _ "take (k + 1) xs"] exI[of _ "drop (k + 1) xs @ [l]"] exI[of _ b] exI[of _ l]) simp
qed

text \<open>
  C14. A partition of the key/value servers. With an odd number of servers, at least three, all running,
  \<open>make_partition\<close> splits them into two lists that together have every server once, the
  first of them longer and the current leader in the second; then \<open>partition\<close> leaves the end
  between two servers enabled exactly when they are on the same side.
\<close>

theorem partition_isolates:
  assumes "kc_ready n cfg" and "kc_running cfg" and "odd n" and "1 < n"
  shows "\<exists>p1 p2 b l cfg'. make_partition view cfg = Inr (p1, p2) \<and> kc_Leader view cfg = Inr (b, l) \<and> l \<in> set p2 \<and>
    mset (p1 @ p2) = mset [0..<n] \<and> length p2 < length p1 \<and> kc_partition p1 p2 cfg = Inr cfg' \<and>
    (\<forall>i<n. \<forall>j<n. \<exists>e. kc_endname cfg' i j = Inr e \<and> (n_enabled (kc_net cfg') e \<longleftrightarrow> (i \<in> set p1 \<longleftrightarrow> j \<in> set p1)))"
proof -
  have n: "kc_n cfg = n" using assms(1) by (simp add: kc_ready_def)
  obtain p1 p2 b l where p: "make_partition view cfg = Inr (p1, p2)" "kc_Leader view cfg = Inr (b, l)" "l \<in> set p2"
    "mset (p1 @ p2) = mset [0..<n]" "length p2 < length p1" using make_partition_splits[OF assms(2), of view] assms(3,4) by (auto simp: n)
  have "set (p1 @ p2) = {..<n}" using mset_eq_setD[OF p(4)] by (simp add: atLeast0LessThan)
  moreover have "distinct (p1 @ p2)" using mset_eq_imp_distinct_iff[OF p(4)] by simp
  moreover have "length (p1 @ p2) = n" using mset_eq_length[OF p(4)] by simp
  ultimately obtain cfg' where c: "kc_partition p1 p2 cfg = Inr cfg'" "rewired n (\<lambda>a b. a \<in> set p1 \<longleftrightarrow> b \<in> set p1) cfg cfg'"
    using partition_rewires[OF assms(1), of p1 p2] by auto
  have "kc_ready n cfg'" using assms(1) rewiredD(1)[OF c(2)] by simp
  then have "kc_endname cfg' i j = Inr (kc_link cfg' i j) \<and> (n_enabled (kc_net cfg') (kc_link cfg' i j) \<longleftrightarrow> (i \<in> set p1 \<longleftrightarrow> j \<in> set p1))"
    if "i < n" "j < n" for i j using kc_endname_ready that rewiredD(5)[OF c(2) that] by (simp add: up_def)
  then show ?thesis using p c(1) by blast
qed

text \<open>With an even number of servers the last place but one of the minority is never filled, so that server 0 is on both sides.\<close>

lemma even_partition_overlaps:
  "go_each (partition_step 3) [0..<4] (0, replicate (4 div 2 + 1) 0, replicate (4 div 2) 0) = Inr (3, [0, 1, 2], [0, 0])"
  by code_simp

section \<open>The initial configuration\<close>

lemma new_ends_returns:
  fixes cfg :: "('a, 'r) kv_config"
  assumes inj: "inj_on names {..<kc_n cfg}" and fresh: "\<And>j. j < kc_n cfg \<Longrightarrow> names j \<notin> n_ends (kc_net cfg)"
  shows "\<exists>rn. new_ends (map names [0..<kc_n cfg]) cfg = Inr (cfg\<lparr>kc_net := rn\<rparr>) \<and> n_ends rn = n_ends (kc_net cfg) \<union> names ` {..<kc_n cfg}"
proof -
  let ?f = "\<lambda>j cfg'. go_bind (go_index (map names [0..<kc_n cfg]) (int j)) (\<lambda>e.
       go_bind (MakeEnd e (kc_net cfg')) (\<lambda>rn. Inr (cfg'\<lparr>kc_net := Connect e j rn\<rparr>)))"
  have "\<exists>rn. go_each ?f [0..<m] cfg = Inr (cfg\<lparr>kc_net := rn\<rparr>) \<and> n_ends rn = n_ends (kc_net cfg) \<union> names ` {..<m}" if "m \<le> kc_n cfg" for m
    using that
  proof (induction m)
    case 0
    show ?case by (intro exI[of _ "kc_net cfg"]) simp
  next
    case (Suc m)
    then obtain rn where IH: "go_each ?f [0..<m] cfg = Inr (cfg\<lparr>kc_net := rn\<rparr>)" "n_ends rn = n_ends (kc_net cfg) \<union> names ` {..<m}" by auto
    have m: "m < kc_n cfg" using Suc.prems by simp
    have new: "names m \<notin> n_ends rn" using fresh[OF m] m by (auto simp: IH(2) dest!: inj_onD[OF inj])
    let ?rn = "Connect (names m) m (rn\<lparr>n_ends := insert (names m) (n_ends rn), n_enabled := (n_enabled rn)(names m := False), n_connections := (n_connections rn)(names m := None)\<rparr>)"
    have "go_each ?f [0..<Suc m] cfg = Inr (cfg\<lparr>kc_net := ?rn\<rparr>)"
      using IH(1) m new by (simp add: go_each_append MakeEnd_def go_index_def go_len_def)
    then show ?case by (intro exI[of _ ?rn]) (auto simp: Connect_def IH(2) lessThan_Suc)
  qed
  from this[OF order_refl] show ?thesis by (simp add: new_ends_def)
qed


text \<open>The first loop of \<open>make_config\<close> after \<open>m\<close> servers.\<close>

definition kc_started :: "(nat \<Rightarrow> nat \<Rightarrow> string) \<Rightarrow> nat \<Rightarrow> nat \<Rightarrow> ('a, 'r) kv_config \<Rightarrow> bool" where
  "kc_started names n m cfg \<longleftrightarrow> kc_n cfg = n \<and> length (kc_endnames cfg) = n \<and> length (kc_saved cfg) = n \<and> length (kc_kvservers cfg) = n \<and>
     (\<forall>i<m. kc_endnames cfg ! i = Some (map (names i) [0..<n]) \<and> kc_kvservers cfg ! i \<noteq> None) \<and>
     (\<forall>i<n. m \<le> i \<longrightarrow> kc_saved cfg ! i = None) \<and> n_ends (kc_net cfg) = (\<lambda>(i, j). names i j) ` ({..<m} \<times> {..<n})"

lemma StartServer_started:
  assumes s: "kc_started names n m cfg" and m: "m < n" and inj: "inj_on (\<lambda>(i, j). names i j) ({..<n} \<times> {..<n})"
  shows "\<exists>cfg'. StartServer kvmethods rfmethods (names m) now rnd m cfg = Inr cfg' \<and> kc_started names n (Suc m) cfg'"
proof -
  have d: "kc_n cfg = n" "length (kc_endnames cfg) = n" "length (kc_saved cfg) = n" "length (kc_kvservers cfg) = n"
    "\<forall>i<m. kc_endnames cfg ! i = Some (map (names i) [0..<n]) \<and> kc_kvservers cfg ! i \<noteq> None" "\<forall>i<n. m \<le> i \<longrightarrow> kc_saved cfg ! i = None"
    and ends: "n_ends (kc_net cfg) = (\<lambda>(i, j). names i j) ` ({..<m} \<times> {..<n})" using s by (auto simp: kc_started_def)
  have same: "i = i' \<and> j = j'" if "i < n" "j < n" "i' < n" "j' < n" "names i j = names i' j'" for i j i' j'
    using inj_onD[OF inj, of "(i, j)" "(i', j')"] that by auto
  have fresh: "names m j \<notin> n_ends (kc_net cfg)" if "j < n" for j
  proof
    assume "names m j \<in> n_ends (kc_net cfg)"
    then obtain a b where "a < m" "b < n" "names m j = names a b" unfolding ends by auto
    then show False using same[of m j a b] m that by auto
  qed
  let ?row = "map (names m) [0..<n]"
  let ?c = "cfg\<lparr>kc_endnames := (kc_endnames cfg)[m := Some ?row]\<rparr>"
  have "inj_on (names m) {..<kc_n ?c}" using same m by (auto intro!: inj_onI simp: d(1))
  then obtain rn where rn: "new_ends ?row ?c = Inr (?c\<lparr>kc_net := rn\<rparr>)" "n_ends rn = n_ends (kc_net cfg) \<union> names m ` {..<n}"
    using new_ends_returns[of "names m" ?c] fresh by (auto simp: d(1))
  have sv: "kc_saved_of m (?c\<lparr>kc_net := rn\<rparr>) = Inr None" using m d by (simp add: kc_saved_of_def go_index_def go_len_def)
  obtain kv where kv: "StartKVServer n (int m) MakePersister (kc_maxraftstate cfg) now rnd = Inr kv" by (simp add: StartKVServer_def Make_fresh)
  obtain e where e: "StartServer kvmethods rfmethods (names m) now rnd m cfg = Inr e"
    "kc_n e = n" "kc_endnames e = (kc_endnames cfg)[m := Some ?row]" "kc_saved e = (kc_saved cfg)[m := Some MakePersister]"
    "kc_kvservers e = (kc_kvservers cfg)[m := Some (kc_next cfg)]" "n_ends (kc_net e) = n_ends rn"
    using rn(1) sv kv m d(1,2) by (auto simp: StartServer_def go_set_def go_len_def Let_def AddServer_def)
  have "kc_endnames e ! i = Some (map (names i) [0..<n]) \<and> kc_kvservers e ! i \<noteq> None" if "i < Suc m" for i
    using that d(2,4,5) m unfolding e(3,5) by (cases "i = m") auto
  moreover have "n_ends (kc_net e) = (\<lambda>(i, j). names i j) ` ({..<Suc m} \<times> {..<n})" unfolding e(6) rn(2) ends lessThan_Suc by auto
  ultimately have "kc_started names n (Suc m) e" using d(2-4,6) e(2-5) by (auto simp: kc_started_def)
  then show ?thesis using e(1) by blast
qed

lemma kc_make_config_ready:
  fixes kvmethods rfmethods :: "(nat, 'a, 'r) Method list"
  assumes inj: "inj_on (\<lambda>(i, j). names i j) ({..<n} \<times> {..<n})"
  shows "\<exists>cfg. kc_make_config kvmethods rfmethods names now rnd heap n unreliable maxraftstate = Inr cfg \<and> kc_ready n cfg \<and> kc_running cfg \<and>
    (\<forall>i<n. \<forall>j<n. up cfg i j)"
proof -
  define c0 :: "('a, 'r) kv_config" where "c0 = \<lparr>kc_net = MakeNetwork, kc_n = n, kc_kvservers = replicate n None, kc_saved = replicate n None,
                 kc_endnames = replicate n None, kc_clerks = Map.empty, kc_nextClientId = int n + 1000,
                 kc_maxraftstate = maxraftstate, kc_start = now, kc_t0 = 0, kc_rpcs0 = 0, kc_ops = 0, kc_failed = False,
                 kc_heap = heap, kc_next = 0\<rparr>"
  let ?f = "\<lambda>i. StartServer kvmethods rfmethods (names i) now rnd i"
  have "kc_started names n 0 c0" by (simp add: c0_def kc_started_def MakeNetwork_def)
  then have "\<exists>c. go_each ?f [0..<m] c0 = Inr c \<and> kc_started names n m c" if "m \<le> n" for m
    using that
  proof (induction m)
    case (Suc m)
    then obtain c where c: "go_each ?f [0..<m] c0 = Inr c" "kc_started names n m c" by auto
    obtain c' where "StartServer kvmethods rfmethods (names m) now rnd m c = Inr c'" "kc_started names n (Suc m) c'"
      using StartServer_started[OF c(2) _ inj, of kvmethods rfmethods now rnd] Suc.prems by auto
    then show ?case using c(1) by (auto simp: go_each_append)
  qed simp
  then obtain c where c: "go_each ?f [0..<n] c0 = Inr c" "kc_started names n n c" by blast
  have link: "kc_link c i j = names i j" if "i < n" "j < n" for i j using c(2) that by (simp add: kc_started_def kc_link_def)
  have "inj_on (\<lambda>(i, j). kc_link c i j) ({..<n} \<times> {..<n})"
    by (rule inj_on_cong[THEN iffD1, OF _ inj]) (auto simp: link)
  then have ready: "kc_ready n c" and run: "kc_running c" and kn: "kc_n c = n" using c(2) by (auto simp: kc_started_def kc_ready_def kc_running_def)
  have "\<exists>d. go_each (\<lambda>i cfg. connectUnlocked i (kc_All cfg) cfg) [0..<m] c = Inr d \<and> rewired n (\<lambda>a b. up c a b \<or> a < m \<or> b < m) c d" if "m \<le> n" for m
    using that
  proof (induction m)
    case 0
    have "rewired n (\<lambda>a b. up c a b \<or> a < 0 \<or> b < 0) c c" by (rule rewired_refl) simp
    then show ?case by simp
  next
    case (Suc m)
    then obtain d where d: "go_each (\<lambda>i cfg. connectUnlocked i (kc_All cfg) cfg) [0..<m] c = Inr d" "rewired n (\<lambda>a b. up c a b \<or> a < m \<or> b < m) c d" by auto
    have "kc_ready n d" "kc_All d = [0..<n]" using ready kn rewiredD(1,2)[OF d(2)] by (auto simp: kc_All_def)
    then obtain e where e: "connectUnlocked m (kc_All d) d = Inr e" "rewired n (\<lambda>a b. up d a b \<or> a = m \<and> b \<in> {0..<n} \<or> b = m \<and> a \<in> {0..<n}) d e"
      using connectUnlocked_rewires[of n d m "[0..<n]"] Suc.prems by (auto simp: atLeast0LessThan)
    have "rewired n (\<lambda>a b. up c a b \<or> a < Suc m \<or> b < Suc m) c e"
      by (rule rewired_trans[OF d(2) e(2)]) (auto simp: rewiredD(5)[OF d(2)])
    then show ?case using d(1) e(1) by (auto simp: go_each_append)
  qed
  from this[OF order_refl] obtain d where d: "ConnectAll c = Inr d" "rewired n (\<lambda>a b. up c a b \<or> a < n \<or> b < n) c d" by (auto simp: ConnectAll_def kn)
  let ?e = "d\<lparr>kc_net := Reliable (\<not> unreliable) (kc_net d)\<rparr>"
  have "kc_ready n ?e" "kc_running ?e" using ready run rewiredD(1,2,3)[OF d(2)] by (auto simp: kc_running_def)
  moreover have "up ?e i j" if "i < n" "j < n" for i j using rewiredD(5)[OF d(2) that] that by (simp add: up_def Reliable_def)
  moreover have "kc_make_config kvmethods rfmethods names now rnd heap n unreliable maxraftstate = Inr ?e"
    using c(1) d(1) by (simp add: kc_make_config_def c0_def)
  ultimately show ?thesis by blast
qed


theorem partition_isolates_witness:
  "\<exists>(cfg :: (unit, unit) kv_config) p1 p2. kc_make_config [] [] unary_names 0 0 (\<lambda>_. undefined) 3 False (-1) = Inr cfg \<and>
     make_partition (kc_heap cfg) cfg = Inr (p1, p2) \<and> mset (p1 @ p2) = mset [0..<3] \<and> length p2 < length p1"
proof -
  obtain cfg :: "(unit, unit) kv_config" where m: "kc_make_config [] [] unary_names 0 0 (\<lambda>_. undefined) 3 False (-1) = Inr cfg"
    and c: "kc_ready 3 cfg" "kc_running cfg"
    using kc_make_config_ready[OF unary_names_inj, where n = 3 and kvmethods = "[]" and rfmethods = "[]" and now = 0 and rnd = 0 and
      heap = "\<lambda>_. undefined" and unreliable = False and maxraftstate = "-1"] by blast
  have "odd (3 :: nat)" "1 < (3 :: nat)" by simp_all
  from partition_isolates[OF c this, of "kc_heap cfg"] m show ?thesis by blast
qed

section \<open>Clients\<close>

text \<open>\<open>random_handles\<close> permutes the handles of a clerk, whatever random numbers are drawn.\<close>

lemma swap_mset: "i < length xs \<Longrightarrow> j < length xs \<Longrightarrow> mset (xs[i := xs ! j, j := xs ! i]) = mset xs"
  by (cases "i = j") (simp_all add: mset_swap)

lemma random_handles_permutes: "mset (random_handles rnd kvh) = mset kvh"
proof -
  let ?f = "\<lambda>i sa. let j = rnd i mod (i + 1) in sa[i := sa ! j, j := sa ! i]"
  have "mset (fold ?f [0..<m] kvh) = mset kvh" if "m \<le> length kvh" for m
    using that
  proof (induction m)
    case (Suc m)
    let ?sa = "fold ?f [0..<m] kvh"
    have ms: "mset ?sa = mset kvh" using Suc by simp
    have "length ?sa = length kvh" by (rule mset_eq_length[OF ms])
    then have "m < length ?sa" "rnd m mod (m + 1) < length ?sa" using Suc.prems mod_less_divisor[of "m + 1" "rnd m"] by linarith+
    then have "mset (?f m ?sa) = mset ?sa" unfolding Let_def by (rule swap_mset)
    then show ?case using ms by simp
  qed simp
  then show ?thesis by (simp add: random_handles_def)
qed

end
