(* ===== verification/MR_Master.thy ===== *)
theory MR_Master
  imports Prelude
begin

text \<open>
  \<open>src/src/mr/master.go\<close> and \<open>rpc.go\<close>: the MapReduce master. Every RPC handler runs
  under \<open>MapLock\<close> and is one function on the record \<open>Master\<close>; the time of day is an
  argument. A run of the master is a sequence of such calls with a clock that does not go
  backwards; the tasks handed out are recorded with their times as history.
\<close>

section \<open>Data\<close>

abbreviation (input) todo :: int where "todo \<equiv> 0"
abbreviation (input) doing :: int where "doing \<equiv> 1"
abbreviation (input) finished :: int where "finished \<equiv> 2"
abbreviation (input) mapTask :: int where "mapTask \<equiv> 0"
abbreviation (input) rdcTask :: int where "rdcTask \<equiv> 1"

record Master =
  Files :: "string list"
  MapStates :: "int list"
  RdcStates :: "int list"
  NReduce :: int
  TaskTime :: "int list"

record ExampleArgs =
  ex_X :: int

record ExampleReply =
  ex_Y :: int

record GetFileArgs =
  gf_TaskType :: int

record GetFileReply =
  gfr_Id :: int
  gfr_FileName :: string
  gfr_NMap :: int
  gfr_NReduce :: int

record SetStateArgs =
  ss_TaskType :: int
  ss_Id :: int
  ss_State :: int

record SetStateReply =
  ssr_Success :: bool

record TaskFinishedArgs =
  tf_TaskType :: int

record TaskFinishedReply =
  tfr_TaskFinished :: bool

definition GetFileReply0 :: GetFileReply where
  "GetFileReply0 = \<lparr>gfr_Id = 0, gfr_FileName = '''', gfr_NMap = 0, gfr_NReduce = 0\<rparr>"

section \<open>The handlers\<close>

text \<open>The first task in state \<open>todo\<close>, scanning from the front.\<close>

fun first_todo :: "int list \<Rightarrow> nat option" where
  "first_todo [] = None"
| "first_todo (v # vs) = (if v = todo then Some 0 else map_option Suc (first_todo vs))"

definition GetFile :: "int \<Rightarrow> GetFileArgs \<Rightarrow> Master \<Rightarrow> (Master \<times> GetFileReply) go" where
  "GetFile now args m =
     (let reply = GetFileReply0 in
      if gf_TaskType args = mapTask then
        (case first_todo (MapStates m) of
           None \<Rightarrow> Inr (m, reply)
         | Some i \<Rightarrow>
             go_bind (go_set (MapStates m) (int i) doing) (\<lambda>sts.
             go_bind (go_set (TaskTime m) (int i) now) (\<lambda>tt.
             go_bind (go_index (Files m) (int i)) (\<lambda>f.
               Inr (m\<lparr>MapStates := sts, TaskTime := tt\<rparr>,
                    reply\<lparr>gfr_Id := int i, gfr_FileName := f, gfr_NReduce := NReduce m\<rparr>)))))
      else
        let reply = reply\<lparr>gfr_Id := NReduce m\<rparr> in
        (case first_todo (RdcStates m) of
           None \<Rightarrow> Inr (m, reply)
         | Some i \<Rightarrow>
             go_bind (go_set (RdcStates m) (int i) doing) (\<lambda>sts.
             go_bind (go_set (TaskTime m) (int i) now) (\<lambda>tt.
               Inr (m\<lparr>RdcStates := sts, TaskTime := tt\<rparr>,
                    reply\<lparr>gfr_Id := int i, gfr_NReduce := NReduce m, gfr_NMap := go_len (Files m)\<rparr>)))))"

definition SetState :: "SetStateArgs \<Rightarrow> Master \<Rightarrow> (Master \<times> SetStateReply) go" where
  "SetState args m =
     (if ss_TaskType args = mapTask then
        go_bind (go_set (MapStates m) (ss_Id args) (ss_State args)) (\<lambda>sts.
          Inr (m\<lparr>MapStates := sts\<rparr>, \<lparr>ssr_Success = True\<rparr>))
      else
        go_bind (go_set (RdcStates m) (ss_Id args) (ss_State args)) (\<lambda>sts.
          Inr (m\<lparr>RdcStates := sts\<rparr>, \<lparr>ssr_Success = True\<rparr>)))"

text \<open>The loop of \<open>TaskFinished\<close> and \<open>Done\<close>: is some task still to do or being done?\<close>

fun unfinished :: "int list \<Rightarrow> bool" where
  "unfinished [] = False"
| "unfinished (v # vs) = (if v = todo \<or> v = doing then True else unfinished vs)"

definition TaskFinished :: "TaskFinishedArgs \<Rightarrow> Master \<Rightarrow> TaskFinishedReply" where
  "TaskFinished args m =
     (if unfinished (if tf_TaskType args = mapTask then MapStates m else RdcStates m)
      then \<lparr>tfr_TaskFinished = False\<rparr> else \<lparr>tfr_TaskFinished = True\<rparr>)"

definition Example :: "ExampleArgs \<Rightarrow> ExampleReply" where
  "Example args = \<lparr>ex_Y = ex_X args + 1\<rparr>"

text \<open>Lines 145-149 and 151-155: tasks in progress for more than ten seconds go back to \<open>todo\<close>.\<close>

definition second :: duration where
  "second = 1000 * millisecond"

definition expired :: "int \<Rightarrow> int \<Rightarrow> bool" where
  "expired now t \<longleftrightarrow> \<not> duration_ge (10 * second) (time_since now t)"

fun requeue :: "int \<Rightarrow> int list \<Rightarrow> int list \<Rightarrow> int list go" where
  "requeue now [] tt = Inr []"
| "requeue now (v # vs) tt =
     (if v = doing then
        (case tt of
           [] \<Rightarrow> Inl IndexOutOfRange
         | t # ts \<Rightarrow> go_bind (requeue now vs ts) (\<lambda>vs'. Inr ((if expired now t then todo else v) # vs')))
      else go_bind (requeue now vs (tl tt)) (\<lambda>vs'. Inr (v # vs')))"

definition Done :: "int \<Rightarrow> Master \<Rightarrow> (Master \<times> bool) go" where
  "Done now m =
     (let mapFinished = (\<not> unfinished (MapStates m));
          ret = (mapFinished \<and> \<not> unfinished (RdcStates m))
      in if \<not> mapFinished then
           go_bind (requeue now (MapStates m) (TaskTime m)) (\<lambda>sts. Inr (m\<lparr>MapStates := sts\<rparr>, ret))
         else
           go_bind (requeue now (RdcStates m) (TaskTime m)) (\<lambda>sts. Inr (m\<lparr>RdcStates := sts\<rparr>, ret)))"

definition max_int :: "int \<Rightarrow> int \<Rightarrow> int" where
  "max_int x y = (if x > y then x else y)"

text \<open>\<open>zero_time\<close> is the zero \<open>time.Time\<close> of a new slice, in Unix nanoseconds.\<close>

definition zero_time :: int where
  "zero_time = - 62135596800 * 10 ^ 9"

definition MakeMaster :: "string list \<Rightarrow> int \<Rightarrow> Master go" where
  "MakeMaster files nReduce =
     (if nReduce < 0 then Inl (Fatal ''makeslice: len out of range'')
      else Inr \<lparr>Files = files, MapStates = replicate (length files) todo,
                RdcStates = replicate (nat nReduce) todo, NReduce = nReduce,
                TaskTime = replicate (nat (max_int (go_len files) nReduce)) zero_time\<rparr>)"

section \<open>The scans\<close>

lemma first_todo_Some:
  "first_todo vs = Some i \<longleftrightarrow> i < length vs \<and> vs ! i = todo \<and> (\<forall>k<i. vs ! k \<noteq> todo)"
proof (induction vs arbitrary: i)
  case (Cons v vs)
  show ?case
  proof (cases i)
    case (Suc k)
    then show ?thesis using Cons[of k] by (auto simp: All_less_Suc2)
  qed auto
qed simp

lemma first_todo_None: "first_todo vs = None \<longleftrightarrow> todo \<notin> set vs"
  by (induction vs) auto

lemma unfinished_iff: "unfinished vs \<longleftrightarrow> todo \<in> set vs \<or> doing \<in> set vs"
  by (induction vs) auto

lemma requeue_eq:
  "length vs \<le> length tt \<Longrightarrow>
   requeue now vs tt = Inr (map2 (\<lambda>v t. if v = doing \<and> expired now t then todo else v) vs tt)"
proof (induction now vs tt rule: requeue.induct)
  case (2 now v vs tt)
  then show ?case by (cases tt) auto
qed simp

section \<open>The invariant\<close>

definition states_ok :: "int list \<Rightarrow> bool" where
  "states_ok vs \<longleftrightarrow> set vs \<subseteq> {todo, doing, finished}"

definition master_ok :: "Master \<Rightarrow> bool" where
  "master_ok m \<longleftrightarrow> length (MapStates m) = length (Files m) \<and> int (length (RdcStates m)) = NReduce m \<and>
     length (MapStates m) \<le> length (TaskTime m) \<and> length (RdcStates m) \<le> length (TaskTime m) \<and>
     states_ok (MapStates m) \<and> states_ok (RdcStates m)"

lemma states_ok_update [simp, intro]:
  "states_ok vs \<Longrightarrow> s \<in> {todo, doing, finished} \<Longrightarrow> states_ok (vs[i := s])"
  using set_update_subset_insert[of vs i s] by (auto simp: states_ok_def)

lemma MakeMaster_ok: "MakeMaster files n = Inr m \<Longrightarrow> master_ok m"
  by (auto simp: MakeMaster_def master_ok_def states_ok_def max_int_def go_len_def set_replicate_conv_if split: if_splits)

text \<open>The states of the tasks of one kind, and a master with other states.\<close>

definition states :: "int \<Rightarrow> Master \<Rightarrow> int list" where
  "states ty m = (if ty = mapTask then MapStates m else RdcStates m)"

lemma GetFile_none:
  "first_todo (states (gf_TaskType args) m) = None \<Longrightarrow>
   GetFile now args m = Inr (m, if gf_TaskType args = mapTask then GetFileReply0 else GetFileReply0\<lparr>gfr_Id := NReduce m\<rparr>)"
  by (simp add: GetFile_def states_def Let_def split: if_splits)

lemma GetFile_some:
  assumes "master_ok m" and "first_todo (states (gf_TaskType args) m) = Some i"
  shows "\<exists>m' reply. GetFile now args m = Inr (m', reply) \<and> master_ok m' \<and> gfr_Id reply = int i \<and>
     gfr_NReduce reply = NReduce m \<and> (gf_TaskType args = mapTask \<longrightarrow> gfr_FileName reply = Files m ! i) \<and>
     (gf_TaskType args \<noteq> mapTask \<longrightarrow> gfr_NMap reply = go_len (Files m)) \<and>
     states (gf_TaskType args) m' = (states (gf_TaskType args) m)[i := doing] \<and>
     (\<forall>ty. (ty = mapTask) \<noteq> (gf_TaskType args = mapTask) \<longrightarrow> states ty m' = states ty m) \<and>
     TaskTime m' = (TaskTime m)[i := now] \<and> Files m' = Files m \<and> NReduce m' = NReduce m"
proof -
  have i: "i < length (states (gf_TaskType args) m)" using assms(2) by (simp add: first_todo_Some)
  then show ?thesis
    using assms
    by (cases "gf_TaskType args = mapTask")
      (auto simp: GetFile_def states_def master_ok_def go_set_def go_index_def go_len_def GetFileReply0_def Let_def)
qed

lemma SetState_ok:
  assumes "master_ok m" and "0 \<le> ss_Id args" "ss_Id args < go_len (states (ss_TaskType args) m)" and "ss_State args = finished"
  shows "\<exists>m'. SetState args m = Inr (m', \<lparr>ssr_Success = True\<rparr>) \<and> master_ok m' \<and>
     states (ss_TaskType args) m' = (states (ss_TaskType args) m)[nat (ss_Id args) := finished] \<and>
     (\<forall>ty. (ty = mapTask) \<noteq> (ss_TaskType args = mapTask) \<longrightarrow> states ty m' = states ty m) \<and>
     TaskTime m' = TaskTime m \<and> Files m' = Files m \<and> NReduce m' = NReduce m"
  using assms by (cases "ss_TaskType args = mapTask") (auto simp: SetState_def states_def master_ok_def go_set_def)

lemma requeue_states_ok:
  "states_ok vs \<Longrightarrow> length vs \<le> length tt \<Longrightarrow>
   states_ok (map2 (\<lambda>v t. if v = doing \<and> expired now t then todo else v) vs tt)"
  unfolding states_ok_def by (auto dest!: set_zip_leftD) (blast+)

lemma Done_ok:
  assumes "master_ok m"
  shows "\<exists>m'. Done now m = Inr (m', \<not> unfinished (MapStates m) \<and> \<not> unfinished (RdcStates m)) \<and> master_ok m' \<and>
     MapStates m' = (if unfinished (MapStates m) then map2 (\<lambda>v t. if v = doing \<and> expired now t then todo else v) (MapStates m) (TaskTime m) else MapStates m) \<and>
     RdcStates m' = (if unfinished (MapStates m) then RdcStates m else map2 (\<lambda>v t. if v = doing \<and> expired now t then todo else v) (RdcStates m) (TaskTime m)) \<and>
     TaskTime m' = TaskTime m \<and> Files m' = Files m \<and> NReduce m' = NReduce m"
  using assms by (auto simp: Done_def master_ok_def requeue_eq requeue_states_ok Let_def min_def)

section \<open>Runs\<close>

text \<open>
  The calls that workers and \<open>mrmaster\<close> make, at times \<open>now\<close> that do not decrease: a worker
  asks for reduce tasks only after \<open>TaskFinished\<close> has told it that all maps are finished,
  and reports only tasks it was given, as finished. The history lists the tasks handed
  out, latest first, as kind (is it a map task), number and time.
\<close>

type_synonym handout = "bool \<times> nat \<times> int"

inductive mrun :: "Master \<Rightarrow> int \<Rightarrow> handout list \<Rightarrow> bool" where
  start: "MakeMaster files nReduce = Inr m \<Longrightarrow> mrun m now []"
| give: "mrun m t h \<Longrightarrow> t \<le> now \<Longrightarrow> first_todo (states ty m) = Some i \<Longrightarrow>
    (ty \<noteq> mapTask \<longrightarrow> tfr_TaskFinished (TaskFinished \<lparr>tf_TaskType = mapTask\<rparr> m)) \<Longrightarrow>
    GetFile now \<lparr>gf_TaskType = ty\<rparr> m = Inr (m', reply) \<Longrightarrow> mrun m' now ((ty = mapTask, i, now) # h)"
| report: "mrun m t h \<Longrightarrow> t \<le> now \<Longrightarrow> (ty = mapTask, i, s) \<in> set h \<Longrightarrow>
    SetState \<lparr>ss_TaskType = ty, ss_Id = int i, ss_State = finished\<rparr> m = Inr (m', reply) \<Longrightarrow> mrun m' now h"
| poll: "mrun m t h \<Longrightarrow> t \<le> now \<Longrightarrow> Done now m = Inr (m', ret) \<Longrightarrow> mrun m' now h"

fun separated :: "handout list \<Rightarrow> bool" where
  "separated [] = True"
| "separated ((b, i, s) # h) = ((\<forall>r. (b, i, r) \<in> set h \<longrightarrow> 10 ^ 10 < s - r) \<and> separated h)"

text \<open>Tasks of one kind: what their states say about the handouts, at time \<open>t\<close>.\<close>

definition kind_inv :: "bool \<Rightarrow> int list \<Rightarrow> int list \<Rightarrow> int \<Rightarrow> handout list \<Rightarrow> bool" where
  "kind_inv b sts tt t h \<longleftrightarrow>
     (\<forall>i r. (b, i, r) \<in> set h \<longrightarrow> i < length sts \<and> r \<le> t \<and>
        (sts ! i = todo \<longrightarrow> 10 ^ 10 < t - r) \<and> (sts ! i = doing \<longrightarrow> r \<le> tt ! i \<and> tt ! i \<le> t))"

definition mrun_inv :: "Master \<Rightarrow> int \<Rightarrow> handout list \<Rightarrow> bool" where
  "mrun_inv m t h \<longleftrightarrow> master_ok m \<and> separated h \<and>
     kind_inv True (MapStates m) (TaskTime m) t h \<and>
     (if unfinished (MapStates m) then \<forall>i r. (False, i, r) \<notin> set h
      else kind_inv False (RdcStates m) (TaskTime m) t h)"

lemma expired_iff: "t \<le> now \<Longrightarrow> expired now t \<longleftrightarrow> 10 ^ 10 < now - t"
proof -
  assume "t \<le> now"
  note sint_time_since[OF this]
  moreover have "sint (10 * second) = 10 ^ 10" by (simp add: second_def)
  ultimately show ?thesis by (simp add: expired_def duration_ge_def max_duration_def not_le)
qed

lemma kind_invD:
  assumes "kind_inv b sts tt t h" and "(b, i, r) \<in> set h"
  shows "i < length sts" and "r \<le> t" and "sts ! i = todo \<Longrightarrow> 10 ^ 10 < t - r"
    and "sts ! i = doing \<Longrightarrow> r \<le> tt ! i \<and> tt ! i \<le> t"
  using assms unfolding kind_inv_def by blast+

lemma kind_inv_later: "kind_inv b sts tt t h \<Longrightarrow> t \<le> t' \<Longrightarrow> kind_inv b sts tt t' h"
  unfolding kind_inv_def by (meson diff_right_mono less_le_trans order_trans)

lemma kind_inv_finish:
  assumes "kind_inv b sts tt t h"
  shows "kind_inv b (sts[i := finished]) tt t h"
  unfolding kind_inv_def
proof (intro allI impI)
  fix j r assume "(b, j, r) \<in> set h"
  note f = kind_invD[OF assms this]
  show "j < length (sts[i := finished]) \<and> r \<le> t \<and> (sts[i := finished] ! j = todo \<longrightarrow> 10 ^ 10 < t - r) \<and>
      (sts[i := finished] ! j = doing \<longrightarrow> r \<le> tt ! j \<and> tt ! j \<le> t)"
    using f by (cases "i = j") auto
qed

lemma kind_inv_requeue:
  assumes "kind_inv b sts tt t h" and "length sts \<le> length tt"
  shows "kind_inv b (map2 (\<lambda>v s. if v = doing \<and> expired t s then todo else v) sts tt) tt t h"
  (is "kind_inv b ?sts tt t h")
  unfolding kind_inv_def
proof (intro allI impI)
  fix j r assume "(b, j, r) \<in> set h"
  note f = kind_invD[OF assms(1) this]
  have e: "?sts ! j = (if sts ! j = doing \<and> expired t (tt ! j) then todo else sts ! j)" using f(1) assms(2) by simp
  show "j < length ?sts \<and> r \<le> t \<and> (?sts ! j = todo \<longrightarrow> 10 ^ 10 < t - r) \<and>
      (?sts ! j = doing \<longrightarrow> r \<le> tt ! j \<and> tt ! j \<le> t)"
    unfolding e using f assms(2) expired_iff[of "tt ! j" t] by auto
qed

lemma kind_inv_give:
  assumes "kind_inv b sts tt t h" and "t \<le> now" and "i < length sts" "length sts \<le> length tt"
  shows "kind_inv b (sts[i := doing]) (tt[i := now]) now ((b, i, now) # h)"
  unfolding kind_inv_def
proof (intro allI impI)
  fix j r assume "(b, j, r) \<in> set ((b, i, now) # h)"
  then consider "j = i" "r = now" | "(b, j, r) \<in> set h" by auto
  then show "j < length (sts[i := doing]) \<and> r \<le> now \<and> (sts[i := doing] ! j = todo \<longrightarrow> 10 ^ 10 < now - r) \<and>
      (sts[i := doing] ! j = doing \<longrightarrow> r \<le> tt[i := now] ! j \<and> tt[i := now] ! j \<le> now)"
  proof cases
    case 2
    note f = kind_invD[OF assms(1) 2]
    show ?thesis using f assms(2-4) by (cases "i = j") auto
  qed (use assms in auto)
qed

lemma kind_inv_other: "kind_inv b sts tt t h \<Longrightarrow> b \<noteq> b' \<Longrightarrow> kind_inv b sts tt t ((b', i, now) # h)"
  unfolding kind_inv_def by auto

lemma kind_inv_finished:
  assumes "kind_inv b sts tt t h" and "\<not> unfinished sts"
  shows "kind_inv b sts tt' t h"
  unfolding kind_inv_def
proof (intro allI impI)
  fix j r assume "(b, j, r) \<in> set h"
  note f = kind_invD[OF assms(1) this]
  have "sts ! j \<in> set sts" using f(1) by simp
  then have "sts ! j \<noteq> todo" "sts ! j \<noteq> doing" using assms(2) by (metis unfinished_iff)+
  then show "j < length sts \<and> r \<le> t \<and> (sts ! j = todo \<longrightarrow> 10 ^ 10 < t - r) \<and> (sts ! j = doing \<longrightarrow> r \<le> tt' ! j \<and> tt' ! j \<le> t)"
    using f by auto
qed

lemma give_inv:
  assumes inv: "mrun_inv m t h" and "t \<le> now" and ft: "first_todo (states ty m) = Some i"
    and g: "ty \<noteq> mapTask \<longrightarrow> tfr_TaskFinished (TaskFinished \<lparr>tf_TaskType = mapTask\<rparr> m)"
    and r: "GetFile now \<lparr>gf_TaskType = ty\<rparr> m = Inr (m', reply)"
  shows "mrun_inv m' now ((ty = mapTask, i, now) # h)"
proof -
  have ok: "master_ok m" and sep: "separated h" and km: "kind_inv True (MapStates m) (TaskTime m) now h"
    and kr: "if unfinished (MapStates m) then \<forall>i r. (False, i, r) \<notin> set h
      else kind_inv False (RdcStates m) (TaskTime m) now h"
    using inv kind_inv_later[OF _ assms(2)] by (auto simp: mrun_inv_def split: if_splits)
  have i: "i < length (states ty m)" "states ty m ! i = todo" using ft by (auto simp: first_todo_Some)
  have m': "master_ok m'" "states ty m' = (states ty m)[i := doing]" "TaskTime m' = (TaskTime m)[i := now]"
    "\<forall>ty'. (ty' = mapTask) \<noteq> (ty = mapTask) \<longrightarrow> states ty' m' = states ty' m"
    using GetFile_some[OF ok, of "\<lparr>gf_TaskType = ty\<rparr>" i now] ft r by auto
  have len: "length (states ty m) \<le> length (TaskTime m)" using ok by (auto simp: master_ok_def states_def)
  show ?thesis
  proof (cases "ty = mapTask")
    case True
    then have st: "MapStates m' = (MapStates m)[i := doing]" and un: "unfinished (MapStates m)"
      using m'(2) i by (auto simp: states_def unfinished_iff in_set_conv_nth)
    have "unfinished (MapStates m')" using i True st by (auto simp: unfinished_iff states_def set_update_memI)
    moreover have "kind_inv True (MapStates m') (TaskTime m') now ((True, i, now) # h)"
      using kind_inv_give[OF km order_refl, of i] i(1) len True st m'(3) by (simp add: states_def)
    moreover have "separated ((True, i, now) # h)"
      using sep kind_invD(3)[OF km, of i] i True by (auto simp: states_def)
    ultimately show ?thesis using True m'(1) kr un by (auto simp: mrun_inv_def)
  next
    case False
    then have st: "RdcStates m' = (RdcStates m)[i := doing]" "MapStates m' = MapStates m"
      using m'(2,4) by (auto simp: states_def split: if_splits)
    have un: "\<not> unfinished (MapStates m)" using g False by (auto simp: TaskFinished_def split: if_splits)
    have k: "kind_inv False (RdcStates m) (TaskTime m) now h" using kr un by simp
    have "kind_inv False (RdcStates m') (TaskTime m') now ((False, i, now) # h)"
      using kind_inv_give[OF k order_refl, of i] i(1) len False st m'(3) by (simp add: states_def)
    moreover have "kind_inv True (MapStates m') (TaskTime m') now ((False, i, now) # h)"
      using kind_inv_finished[OF km un] st by (auto intro: kind_inv_other)
    moreover have "separated ((False, i, now) # h)"
      using sep kind_invD(3)[OF k, of i] i False by (auto simp: states_def)
    ultimately show ?thesis using False m'(1) un st by (simp add: mrun_inv_def)
  qed
qed

lemma poll_inv:
  assumes inv: "mrun_inv m t h" and "t \<le> now" and r: "Done now m = Inr (m', ret)"
  shows "mrun_inv m' now h"
proof -
  have ok: "master_ok m" and sep: "separated h" and km: "kind_inv True (MapStates m) (TaskTime m) now h"
    and kr: "if unfinished (MapStates m) then \<forall>i r. (False, i, r) \<notin> set h
      else kind_inv False (RdcStates m) (TaskTime m) now h"
    using inv kind_inv_later[OF _ assms(2)] by (auto simp: mrun_inv_def split: if_splits)
  have len: "length (MapStates m) \<le> length (TaskTime m)" "length (RdcStates m) \<le> length (TaskTime m)"
    using ok by (auto simp: master_ok_def)
  obtain m2 where m2: "Done now m = Inr (m2, \<not> unfinished (MapStates m) \<and> \<not> unfinished (RdcStates m))" "master_ok m2"
     "MapStates m2 = (if unfinished (MapStates m) then map2 (\<lambda>v t. if v = doing \<and> expired now t then todo else v) (MapStates m) (TaskTime m) else MapStates m)"
     "RdcStates m2 = (if unfinished (MapStates m) then RdcStates m else map2 (\<lambda>v t. if v = doing \<and> expired now t then todo else v) (RdcStates m) (TaskTime m))"
     "TaskTime m2 = TaskTime m"
    using Done_ok[OF ok, of now] by blast
  have [simp]: "m' = m2" using r m2(1) by simp
  show ?thesis
  proof (cases "unfinished (MapStates m)")
    case True
    then show ?thesis
      using m2 kr sep kind_inv_requeue[OF km len(1)] by (auto simp: mrun_inv_def kind_inv_def)
  next
    case False
    then show ?thesis
      using m2 kr sep km kind_inv_requeue[OF _ len(2)] by (auto simp: mrun_inv_def)
  qed
qed

lemma report_inv:
  assumes inv: "mrun_inv m t h" and "t \<le> now" and hd: "(ty = mapTask, i, s) \<in> set h"
    and r: "SetState \<lparr>ss_TaskType = ty, ss_Id = int i, ss_State = finished\<rparr> m = Inr (m', reply)"
  shows "mrun_inv m' now h"
proof -
  have ok: "master_ok m" and sep: "separated h" and km: "kind_inv True (MapStates m) (TaskTime m) now h"
    and kr: "if unfinished (MapStates m) then \<forall>i r. (False, i, r) \<notin> set h
      else kind_inv False (RdcStates m) (TaskTime m) now h"
    using inv kind_inv_later[OF _ assms(2)] by (auto simp: mrun_inv_def split: if_splits)
  have i: "int i < go_len (states ty m)"
    using r by (auto simp: SetState_def states_def go_simps split: if_splits)
  then have m': "master_ok m'" "states ty m' = (states ty m)[i := finished]" "TaskTime m' = TaskTime m"
    "\<forall>ty'. (ty' = mapTask) \<noteq> (ty = mapTask) \<longrightarrow> states ty' m' = states ty' m"
    using SetState_ok[OF ok, of "\<lparr>ss_TaskType = ty, ss_Id = int i, ss_State = finished\<rparr>"] r by auto
  show ?thesis
  proof (cases "ty = mapTask")
    case True
    then have st: "MapStates m' = (MapStates m)[i := finished]" "RdcStates m' = RdcStates m"
      using m'(2) m'(4)[rule_format, of rdcTask] by (auto simp: states_def)
    have "unfinished (MapStates m)" if "unfinished (MapStates m')"
      using that st(1) set_update_subset_insert[of "MapStates m" i finished] by (auto simp: unfinished_iff)
    moreover have "kind_inv False (RdcStates m) (TaskTime m) now h"
      using kr by (cases "unfinished (MapStates m)") (auto simp: kind_inv_def)
    ultimately show ?thesis
      using kr st m' sep kind_inv_finish[OF km, of i] by (auto simp: mrun_inv_def)
  next
    case False
    then have st: "RdcStates m' = (RdcStates m)[i := finished]" "MapStates m' = MapStates m"
      using m'(2,4) by (auto simp: states_def split: if_splits)
    have un: "\<not> unfinished (MapStates m)" using hd kr False by auto
    then show ?thesis using kr st m' sep km kind_inv_finish[of False _ _ now h i] by (simp add: mrun_inv_def)
  qed
qed

lemma mrun_mrun_inv: "mrun m t h \<Longrightarrow> mrun_inv m t h"
proof (induction rule: mrun.induct)
  case (start files nReduce m now)
  then show ?case by (auto simp: mrun_inv_def kind_inv_def dest: MakeMaster_ok)
qed (auto intro: give_inv report_inv poll_inv)

section \<open>What the master guarantees\<close>

definition sample_master :: Master where
  "sample_master = \<lparr>Files = [''a'', ''b''], MapStates = [1, 0], RdcStates = [0], NReduce = 1,
     TaskTime = [5, zero_time]\<rparr>"

lemma sample_run: "mrun sample_master 5 [(True, 0, 5)]"
proof -
  let ?m = "\<lparr>Files = [''a'', ''b''], MapStates = [0, 0], RdcStates = [0], NReduce = 1, TaskTime = [zero_time, zero_time]\<rparr>"
  have m: "MakeMaster [''a'', ''b''] 1 = Inr ?m" by (simp add: MakeMaster_def max_int_def numeral_2_eq_2)
  have "GetFile 5 \<lparr>gf_TaskType = 0\<rparr> ?m = Inr (sample_master, GetFileReply0\<lparr>gfr_Id := 0, gfr_FileName := ''a'', gfr_NReduce := 1\<rparr>)"
    by (simp add: GetFile_def sample_master_def go_set_def go_index_def Let_def)
  from give[OF start[OF m, of 5], of 5 0 0, OF _ _ _ this] show ?thesis by (simp add: states_def)
qed

text \<open>
  C36. No task is given to two workers at once: in every run, two handouts of the same task
  are more than ten seconds apart.
\<close>

theorem handouts_separated:
  assumes "mrun m t h" and "h = h1 @ (b, i, s) # h2" and "(b, i, r) \<in> set h2"
  shows "10 ^ 10 < s - r"
proof -
  have "separated (h1 @ (b, i, s) # h2) \<Longrightarrow> separated ((b, i, s) # h2)"
    by (induction h1) auto
  then show ?thesis using mrun_mrun_inv[OF assms(1)] assms(2,3) by (auto simp: mrun_inv_def)
qed

theorem handouts_separated_witness:
  "\<exists>m. mrun m 20000000000 [(True, 0, 20000000000), (True, 0, 5)] \<and> (10::int) ^ 10 < 20000000000 - 5"
proof -
  let ?t = "20000000000 :: int"
  let ?m1 = "sample_master\<lparr>MapStates := [0, 0]\<rparr>" and ?m2 = "sample_master\<lparr>MapStates := [1, 0], TaskTime := [?t, zero_time]\<rparr>"
  have "Done ?t sample_master = Inr (?m1, False)"
  proof -
    have "expired ?t 5" by (simp add: expired_iff)
    then show ?thesis by (simp add: Done_def sample_master_def Let_def)
  qed
  then have r1: "mrun ?m1 ?t [(True, 0, 5)]" using mrun.poll[OF sample_run, of ?t ?m1 False] by simp
  have "GetFile ?t \<lparr>gf_TaskType = 0\<rparr> ?m1 = Inr (?m2, GetFileReply0\<lparr>gfr_Id := 0, gfr_FileName := ''a'', gfr_NReduce := 1\<rparr>)"
    by (simp add: GetFile_def sample_master_def go_set_def go_index_def Let_def)
  from give[OF r1, of ?t 0 0, OF _ _ _ this] have r2: "mrun ?m2 ?t [(True, 0, ?t), (True, 0, 5)]"
    by (simp add: states_def)
  from handouts_separated[OF r2, of "[]" True 0 ?t "[(True, 0, 5)]" 5] r2 show ?thesis by auto
qed

text \<open>
  C37. \<open>Done\<close> tells the truth and loses nothing: in every run it returns, its answer is that
  every task of both kinds is finished, finished tasks stay finished, and a map task that
  a worker has held for more than ten seconds can be handed out again.
\<close>

theorem done_sound_and_requeues:
  assumes "mrun m t h" and "t \<le> now"
  shows "\<exists>m' ret. Done now m = Inr (m', ret) \<and>
     (ret \<longleftrightarrow> set (MapStates m) \<subseteq> {finished} \<and> set (RdcStates m) \<subseteq> {finished}) \<and>
     (\<forall>ty i. i < length (states ty m) \<longrightarrow> states ty m ! i = finished \<longrightarrow> states ty m' ! i = finished) \<and>
     (\<forall>i<length (MapStates m). MapStates m ! i = doing \<longrightarrow> TaskTime m ! i \<le> now \<longrightarrow>
        (MapStates m' ! i = todo \<longleftrightarrow> 10 ^ 10 < now - TaskTime m ! i))"
proof -
  have ok: "master_ok m" using mrun_mrun_inv[OF assms(1)] by (simp add: mrun_inv_def)
  obtain m' where m': "Done now m = Inr (m', \<not> unfinished (MapStates m) \<and> \<not> unfinished (RdcStates m))"
     "MapStates m' = (if unfinished (MapStates m) then map2 (\<lambda>v t. if v = doing \<and> expired now t then todo else v) (MapStates m) (TaskTime m) else MapStates m)"
     "RdcStates m' = (if unfinished (MapStates m) then RdcStates m else map2 (\<lambda>v t. if v = doing \<and> expired now t then todo else v) (RdcStates m) (TaskTime m))"
    using Done_ok[OF ok, of now] by blast
  have len: "length (MapStates m) \<le> length (TaskTime m)" "length (RdcStates m) \<le> length (TaskTime m)"
    using ok by (auto simp: master_ok_def)
  have fin: "\<not> unfinished vs \<longleftrightarrow> set vs \<subseteq> {finished}" if "states_ok vs" for vs
    using that by (auto simp: unfinished_iff states_ok_def)
  have "unfinished (MapStates m)" if "i < length (MapStates m)" "MapStates m ! i = doing" for i
    using that by (metis nth_mem unfinished_iff)
  then have "MapStates m' ! i = todo \<longleftrightarrow> 10 ^ 10 < now - TaskTime m ! i"
    if "i < length (MapStates m)" "MapStates m ! i = doing" "TaskTime m ! i \<le> now" for i
    using that len m'(2) expired_iff[of "TaskTime m ! i" now] by auto
  moreover have "states ty m' ! i = finished" if "i < length (states ty m)" "states ty m ! i = finished" for ty i
    using that len m'(2,3) by (auto simp: states_def)
  ultimately show ?thesis using m'(1) fin ok by (auto simp: master_ok_def)
qed

theorem done_sound_and_requeues_witness:
  "\<exists>m'. Done 20000000000 sample_master = Inr (m', False) \<and> MapStates m' ! 0 = todo"
proof -
  have "\<exists>m' ret. Done 20000000000 sample_master = Inr (m', ret) \<and>
     (ret \<longleftrightarrow> set (MapStates sample_master) \<subseteq> {finished} \<and> set (RdcStates sample_master) \<subseteq> {finished}) \<and>
     (\<forall>i<length (MapStates sample_master). MapStates sample_master ! i = doing \<longrightarrow> TaskTime sample_master ! i \<le> 20000000000 \<longrightarrow>
        (MapStates m' ! i = todo \<longleftrightarrow> 10 ^ 10 < 20000000000 - TaskTime sample_master ! i))"
    using done_sound_and_requeues[OF sample_run, of 20000000000] by fastforce
  then show ?thesis by (auto simp: sample_master_def)
qed

end
