(* ===== verification/Utf8.thy ===== *)
theory Utf8
  imports Prelude
begin

text \<open>
  The part of Go's strings that bytes alone do not show: a string is a sequence of bytes, and
  \<open>range\<close>, \<open>strings.FieldsFunc\<close> and \<open>encoding/json\<close> read it as UTF-8. A byte that does not
  begin a well-formed sequence is decoded as the rune \<open>U+FFFD\<close> of width 1. The lemmas say
  that well-formed sequences are self-delimiting, so that a string cut between runes, or put
  together from them, decodes to the same runes.
\<close>

section \<open>Decoding\<close>

definition byte :: "char \<Rightarrow> int" where
  "byte c = of_char c"

abbreviation RuneError :: int where
  "RuneError \<equiv> 0xFFFD"

abbreviation in_range :: "int \<Rightarrow> int \<Rightarrow> char \<Rightarrow> bool" where
  "in_range lo hi c \<equiv> lo \<le> byte c \<and> byte c \<le> hi"

text \<open>
  The length of the sequence that begins with \<open>c\<close> (0 if none does) and which bytes may follow:
  the limits on the second byte exclude overlong sequences, surrogates and numbers above
  \<open>U+10FFFF\<close>.
\<close>

definition seq_len :: "char \<Rightarrow> nat" where
  "seq_len c =
     (if byte c < 0x80 then 1
      else if in_range 0xC2 0xDF c then 2
      else if in_range 0xE0 0xEF c then 3
      else if in_range 0xF0 0xF4 c then 4
      else 0)"

definition second_ok :: "char \<Rightarrow> char \<Rightarrow> bool" where
  "second_ok c c1 =
     (if byte c = 0xE0 then in_range 0xA0 0xBF c1
      else if byte c = 0xED then in_range 0x80 0x9F c1
      else if byte c = 0xF0 then in_range 0x90 0xBF c1
      else if byte c = 0xF4 then in_range 0x80 0x8F c1
      else in_range 0x80 0xBF c1)"

fun seq_ok :: "string \<Rightarrow> bool" where
  "seq_ok (c # c1 # cs) = (second_ok c c1 \<and> list_all (in_range 0x80 0xBF) cs)"
| "seq_ok _ = True"

text \<open>The number a sequence stands for.\<close>

fun rune_of :: "string \<Rightarrow> int" where
  "rune_of [c] = byte c"
| "rune_of [c, c1] = byte c mod 0x20 * 0x40 + byte c1 mod 0x40"
| "rune_of [c, c1, c2] = byte c mod 0x10 * 0x1000 + byte c1 mod 0x40 * 0x40 + byte c2 mod 0x40"
| "rune_of [c, c1, c2, c3] =
     byte c mod 0x08 * 0x40000 + byte c1 mod 0x40 * 0x1000 + byte c2 mod 0x40 * 0x40 + byte c3 mod 0x40"
| "rune_of _ = RuneError"

text \<open>\<open>utf8.DecodeRuneInString\<close>: the first rune and its width.\<close>

definition DecodeRune :: "string \<Rightarrow> int \<times> nat" where
  "DecodeRune s =
     (if s = [] then (RuneError, 0)
      else let n = seq_len (hd s) in
        if n = 0 \<or> length s < n \<or> \<not> seq_ok (take n s) then (RuneError, 1)
        else (rune_of (take n s), n))"

lemma DecodeRune_width:
  assumes "s \<noteq> []"
  shows "0 < snd (DecodeRune s)" and "snd (DecodeRune s) \<le> length s"
  using assms by (auto simp: DecodeRune_def Let_def Suc_le_eq)

text \<open>The runes of a string, each with its bytes.\<close>

function runes :: "string \<Rightarrow> (int \<times> string) list" where
  "runes s =
     (if s = [] then []
      else (let (r, w) = DecodeRune s in (r, take w s) # runes (drop w s)))"
  by pat_completeness auto
termination
proof (relation "measure length")
  fix s :: string and x r w assume "s \<noteq> []" and "x = DecodeRune s" and "(r, w) = x"
  then have "0 < w" using DecodeRune_width(1)[of s] by (metis snd_conv)
  then show "(drop w s, s) \<in> measure length" using \<open>s \<noteq> []\<close> by simp
qed simp

declare runes.simps [simp del]

lemma runes_Nil [simp]: "runes [] = []"
  by (simp add: runes.simps)

lemma runes_step: "s \<noteq> [] \<Longrightarrow> runes s = (fst (DecodeRune s), take (snd (DecodeRune s)) s) # runes (drop (snd (DecodeRune s)) s)"
  by (subst runes.simps) (simp add: case_prod_beta)

lemma runes_bytes: "concat (map snd (runes s)) = s"
proof (induction s rule: measure_induct_rule[of length])
  case (less s)
  then show ?case using DecodeRune_width(1)[of s] by (cases "s = []") (auto simp: runes_step)
qed

section \<open>Well-formed strings\<close>

text \<open>A rune as \<open>range\<close> yields it for a byte that is not part of a well-formed sequence.\<close>

definition bad_rune :: "int \<times> string \<Rightarrow> bool" where
  "bad_rune x \<longleftrightarrow> fst x = RuneError \<and> length (snd x) = 1"

definition valid_utf8 :: "string \<Rightarrow> bool" where
  "valid_utf8 s \<longleftrightarrow> (\<forall>x\<in>set (runes s). \<not> bad_rune x)"

text \<open>
  What becomes of a string that \<open>encoding/json\<close> writes or reads: every byte that is not part of
  a well-formed sequence turns into \<open>U+FFFD\<close>, that is the bytes \<open>EF BF BD\<close>.
\<close>

definition to_valid :: "string \<Rightarrow> string" where
  "to_valid s = concat (map (\<lambda>x. if bad_rune x then [CHR 0xEF, CHR 0xBF, CHR 0xBD] else snd x) (runes s))"

lemma to_valid_id: "valid_utf8 s \<Longrightarrow> to_valid s = s"
proof -
  assume "valid_utf8 s"
  then have "map (\<lambda>x. if bad_rune x then [CHR 0xEF, CHR 0xBF, CHR 0xBD] else snd x) (runes s) = map snd (runes s)"
    by (auto simp: valid_utf8_def)
  then show ?thesis by (simp only: to_valid_def runes_bytes)
qed

text \<open>A well-formed sequence is decoded alike, whatever follows it.\<close>

definition whole :: "int \<times> string \<Rightarrow> bool" where
  "whole x \<longleftrightarrow> snd x \<noteq> [] \<and> (\<forall>t. DecodeRune (snd x @ t) = (fst x, length (snd x)))"

lemma DecodeRune_whole:
  assumes "s \<noteq> []" and "\<not> bad_rune (fst (DecodeRune s), take (snd (DecodeRune s)) s)"
  shows "whole (fst (DecodeRune s), take (snd (DecodeRune s)) s)"
proof -
  let ?n = "seq_len (hd s)"
  have n: "0 < ?n" "?n \<le> length s" "seq_ok (take ?n s)"
    using assms by (auto simp: bad_rune_def DecodeRune_def Let_def Suc_le_eq split: if_splits)
  then have "hd (take ?n s @ t) = hd s" for t using assms(1) by (cases s) (auto simp: take_Cons')
  with n assms(1) show ?thesis by (simp add: whole_def DecodeRune_def Let_def)
qed

lemma runes_whole: "x \<in> set (runes s) \<Longrightarrow> \<not> bad_rune x \<Longrightarrow> whole x"
proof (induction s rule: measure_induct_rule[of length])
  case (less s)
  have ne: "s \<noteq> []" using less.prems(1) by auto
  then have "length (drop (snd (DecodeRune s)) s) < length s" using DecodeRune_width(1)[of s] by simp
  from less.IH[OF this _ less.prems(2)] show ?case
    using less.prems DecodeRune_whole[OF ne] by (auto simp: runes_step[OF ne])
qed

lemma runes_concat: "(\<And>x. x \<in> set xs \<Longrightarrow> whole x) \<Longrightarrow> runes (concat (map snd xs)) = xs"
proof (induction xs)
  case (Cons x xs)
  then have "whole x" and IH: "runes (concat (map snd xs)) = xs" by simp_all
  then show ?case by (subst runes_step) (simp_all add: whole_def IH)
qed simp

lemma valid_concat: "(\<And>x. x \<in> set xs \<Longrightarrow> whole x \<and> \<not> bad_rune x) \<Longrightarrow> valid_utf8 (concat (map snd xs))"
  using runes_concat[of xs] by (auto simp: valid_utf8_def)

lemma to_valid_valid: "valid_utf8 (to_valid s)"
proof -
  let ?R = "(RuneError, [CHR 0xEF, CHR 0xBF, CHR 0xBD])"
  let ?xs = "map (\<lambda>x. if bad_rune x then ?R else x) (runes s)"
  have "DecodeRune (snd ?R) = (RuneError, 3)" by code_simp
  then have "whole ?R \<and> \<not> bad_rune ?R" using DecodeRune_whole[of "snd ?R"] by (simp add: bad_rune_def)
  then have "valid_utf8 (concat (map snd ?xs))" using runes_whole by (intro valid_concat) auto
  moreover have "map snd ?xs = map (\<lambda>x. if bad_rune x then [CHR 0xEF, CHR 0xBF, CHR 0xBD] else snd x) (runes s)" by simp
  ultimately show ?thesis by (simp only: to_valid_def)
qed

lemma ascii_valid:
  assumes "\<And>c. c \<in> set s \<Longrightarrow> byte c < 0x80"
  shows "valid_utf8 s"
proof -
  have "whole (byte c, [c]) \<and> \<not> bad_rune (byte c, [c])" if "c \<in> set s" for c
    using assms[OF that] by (simp add: whole_def bad_rune_def DecodeRune_def seq_len_def)
  then have "valid_utf8 (concat (map snd (map (\<lambda>c. (byte c, [c])) s)))" by (intro valid_concat) auto
  then show ?thesis by (simp add: comp_def)
qed

lemma Itoa_valid: "valid_utf8 (Itoa i)"
proof -
  have d: "byte c < 0x80" if "c \<in> set (digits n)" for c n
    using that
  proof (induction n rule: digits.induct)
    case (1 n)
    have "n mod 10 < 10" by simp
    then have "48 + n mod 10 < (256 :: nat)" "48 + n mod 10 < (128 :: nat)" by linarith+
    moreover have "byte (char_of m) = int (m mod 256)" for m :: nat by (metis byte_def of_char_of of_nat_of_char)
    ultimately show ?case using 1 by (subst (asm) (2) digits.simps) (auto split: if_splits)
  qed
  show ?thesis by (rule ascii_valid) (auto simp: Itoa_def byte_def split: if_splits dest!: d[unfolded byte_def])
qed

end
