(* ===== verification/MR_Worker.thy ===== *)
theory MR_Worker
  imports MR_Master Utf8 "HOL-Library.Multiset" "HOL-Library.AList" "HOL-Library.List_Lexorder" "HOL-Library.Char_ord"
begin

unbundle bit_operations_syntax

text \<open>
  \<open>src/src/mr/worker.go\<close> and the sequential reference \<open>src/src/main/mrsequential.go\<close>. The
  application's \<open>mapf\<close> and \<open>reducef\<close> and the library's \<open>sort.Sort\<close>, which may order equal
  keys in any way, are arguments. The directory the workers share is the record
  \<open>directory\<close>: the input files, the intermediate files \<open>out-x-y\<close> by their two numbers, as
  the sequence of the JSON texts in them, and the output files \<open>mr-out-y\<close> as the sequence of
  lines printed. Strings are sequences of bytes and are ordered bytewise. A JSON text is
  represented by the record it stands for, or by \<open>None\<close> when \<open>Decode\<close> rejects it. What
  \<open>encoding/json\<close> does to a record on the way is \<open>json_record\<close>: escapes are undone by the
  reader, but bytes that are not UTF-8 become \<open>U+FFFD\<close>, when they are written and when they
  are read. (Text that begins with a closing bracket, at which \<open>More\<close> stops, is not
  represented; \<open>Encode\<close> never writes it.)
\<close>

section \<open>Data\<close>

record KeyValue =
  mr_Key :: string
  mr_Value :: string

record KeyValues =
  kvs_Key :: string
  kvs_Values :: "string list"

record directory =
  inputs :: "string \<rightharpoonup> string"
  inter :: "int \<times> int \<rightharpoonup> KeyValues option list"
  outs :: "int \<rightharpoonup> string list"

text \<open>\<open>hash/fnv\<close>'s 32-bit FNV-1a and the worker's \<open>ihash\<close>.\<close>

definition fnv32a :: "string \<Rightarrow> 32 word" where
  "fnv32a s = fold (\<lambda>c h. (h XOR of_nat (of_char c)) * 16777619) s 2166136261"

definition ihash :: "string \<Rightarrow> int" where
  "ihash key = uint (fnv32a key AND 0x7fffffff)"

section \<open>Map tasks\<close>

text \<open>
  Lines 95-123 (and 76-92 of \<open>mrsequential.go\<close>): cut the sorted pairs into runs of equal
  keys.
\<close>

function runs :: "KeyValue list \<Rightarrow> KeyValues list" where
  "runs [] = []"
| "runs (kv # kvs) =
     \<lparr>kvs_Key = mr_Key kv,
      kvs_Values = mr_Value kv # map mr_Value (takeWhile (\<lambda>x. mr_Key x = mr_Key kv) kvs)\<rparr>
     # runs (dropWhile (\<lambda>x. mr_Key x = mr_Key kv) kvs)"
  by pat_completeness auto
termination
  by (relation "measure length") (auto simp: le_imp_less_Suc length_dropWhile_le)

definition inter_at :: "directory \<Rightarrow> int \<Rightarrow> int \<Rightarrow> KeyValues option list" where
  "inter_at d x y = (case inter d (x, y) of None \<Rightarrow> [] | Some l \<Rightarrow> l)"

definition json_record :: "KeyValues \<Rightarrow> KeyValues" where
  "json_record kvs = \<lparr>kvs_Key = to_valid (kvs_Key kvs), kvs_Values = map to_valid (kvs_Values kvs)\<rparr>"

text \<open>Lines 107-121: open with \<open>O_APPEND|O_CREATE\<close>, append the encoding of one record.\<close>

definition append_record :: "int \<Rightarrow> int \<Rightarrow> KeyValues \<Rightarrow> directory \<Rightarrow> directory" where
  "append_record x y kvs d = d\<lparr>inter := (inter d)((x, y) \<mapsto> inter_at d x y @ [Some (json_record kvs)])\<rparr>"

fun write_runs :: "int \<Rightarrow> int \<Rightarrow> KeyValues list \<Rightarrow> directory \<Rightarrow> directory go" where
  "write_runs x n [] d = Inr d"
| "write_runs x n (kvs # rest) d =
     (if n = 0 then Inl DivideByZero
      else write_runs x n rest (append_record x (ihash (kvs_Key kvs) mod n) kvs d))"

definition do_map ::
  "(string \<Rightarrow> string \<Rightarrow> KeyValue list) \<Rightarrow> (KeyValue list \<Rightarrow> KeyValue list) \<Rightarrow> GetFileReply \<Rightarrow> directory \<Rightarrow> directory go" where
  "do_map mapf sort_Sort reply d =
     (case inputs d (gfr_FileName reply) of
        None \<Rightarrow> Inl (Fatal ''cannot open'')
      | Some content \<Rightarrow>
          let kva = mapf (gfr_FileName reply) content;
              intermediate = [] @ kva
          in write_runs (gfr_Id reply) (gfr_NReduce reply) (runs (sort_Sort intermediate)) d)"

section \<open>Reduce tasks\<close>

text \<open>A Go map from keys to value lists is an association list with distinct keys.\<close>

definition add_value :: "string \<Rightarrow> string \<Rightarrow> (string \<times> string list) list \<Rightarrow> (string \<times> string list) list" where
  "add_value k v kva = AList.update k ((case map_of kva k of None \<Rightarrow> [] | Some vs \<Rightarrow> vs) @ [v]) kva"

text \<open>Lines 173-182: the loop over one file; a text that \<open>Decode\<close> rejects ends the process.\<close>

fun read_records :: "KeyValues option list \<Rightarrow> (string \<times> string list) list \<Rightarrow> (string \<times> string list) list go" where
  "read_records [] kva = Inr kva"
| "read_records (None # texts) kva = Inl (Fatal ''decode'')"
| "read_records (Some t # texts) kva =
     (let kvs = json_record t in read_records texts (fold (add_value (kvs_Key kvs)) (kvs_Values kvs) kva))"

text \<open>Lines 162-185: read and remove the files of reduce task \<open>y\<close>; a missing file is empty.\<close>

fun read_inter ::
  "nat \<Rightarrow> nat \<Rightarrow> int \<Rightarrow> directory \<times> (string \<times> string list) list \<Rightarrow> (directory \<times> (string \<times> string list) list) go" where
  "read_inter i 0 y (d, kva) = Inr (d, kva)"
| "read_inter i (Suc n) y (d, kva) =
     go_bind (read_records (inter_at d (int i) y) kva) (\<lambda>kva.
       read_inter (Suc i) n y (d\<lparr>inter := (inter d)((int i, y) := None)\<rparr>, kva))"

definition out_line :: "string \<Rightarrow> string \<Rightarrow> string" where
  "out_line k v = k @ '' '' @ v @ [CHR 0x0A]"

definition do_reduce :: "(string \<Rightarrow> string list \<Rightarrow> string) \<Rightarrow> GetFileReply \<Rightarrow> directory \<Rightarrow> directory go" where
  "do_reduce reducef reply d =
     (let rdcId = gfr_Id reply;
          d = d\<lparr>outs := (outs d)(rdcId \<mapsto> [])\<rparr>
      in go_bind (read_inter 0 (nat (gfr_NMap reply)) rdcId (d, [])) (\<lambda>(d, kva).
        let keys = sort (map fst kva)
        in Inr (d\<lparr>outs := (outs d)(rdcId \<mapsto> map (\<lambda>key. out_line key (reducef key (the (map_of kva key)))) keys)\<rparr>)))"

section \<open>The worker's loops\<close>

text \<open>
  Lines 61-137 and 143-211 of a worker that is alone with the master: \<open>fin\<close> is the last
  answer of \<open>TaskFinished\<close>, \<open>now\<close> the time of the calls, and the first argument bounds
  the number of iterations (the sleeps are iterations too).
\<close>

fun worker_maps ::
  "nat \<Rightarrow> (string \<Rightarrow> string \<Rightarrow> KeyValue list) \<Rightarrow> (KeyValue list \<Rightarrow> KeyValue list) \<Rightarrow> int \<Rightarrow> bool \<Rightarrow>
   Master \<times> directory \<Rightarrow> (Master \<times> directory) go option" where
  "worker_maps 0 mapf sort_Sort now fin st = None"
| "worker_maps (Suc k) mapf sort_Sort now fin (m, d) =
     (if fin then Some (Inr (m, d))
      else
        let fin = tfr_TaskFinished (TaskFinished \<lparr>tf_TaskType = mapTask\<rparr> m) in
        (case GetFile now \<lparr>gf_TaskType = mapTask\<rparr> m of
           Inl p \<Rightarrow> Some (Inl p)
         | Inr (m, reply) \<Rightarrow>
             if gfr_FileName reply = '''' then worker_maps k mapf sort_Sort now fin (m, d)
             else (case do_map mapf sort_Sort reply d of
                     Inl p \<Rightarrow> Some (Inl p)
                   | Inr d \<Rightarrow>
                       (case SetState \<lparr>ss_TaskType = mapTask, ss_Id = gfr_Id reply, ss_State = finished\<rparr> m of
                          Inl p \<Rightarrow> Some (Inl p)
                        | Inr (m, ssr) \<Rightarrow>
                            if \<not> ssr_Success ssr then Some (Inl (Fatal ''map set state fail''))
                            else worker_maps k mapf sort_Sort now fin (m, d)))))"

fun worker_reduces ::
  "nat \<Rightarrow> (string \<Rightarrow> string list \<Rightarrow> string) \<Rightarrow> int \<Rightarrow> bool \<Rightarrow>
   Master \<times> directory \<Rightarrow> (Master \<times> directory) go option" where
  "worker_reduces 0 reducef now fin st = None"
| "worker_reduces (Suc k) reducef now fin (m, d) =
     (if fin then Some (Inr (m, d))
      else
        let fin = tfr_TaskFinished (TaskFinished \<lparr>tf_TaskType = rdcTask\<rparr> m) in
        (case GetFile now \<lparr>gf_TaskType = rdcTask\<rparr> m of
           Inl p \<Rightarrow> Some (Inl p)
         | Inr (m, reply) \<Rightarrow>
             if gfr_Id reply \<ge> gfr_NReduce reply then worker_reduces k reducef now fin (m, d)
             else (case do_reduce reducef reply d of
                     Inl p \<Rightarrow> Some (Inl p)
                   | Inr d \<Rightarrow>
                       (case SetState \<lparr>ss_TaskType = rdcTask, ss_Id = gfr_Id reply, ss_State = finished\<rparr> m of
                          Inl p \<Rightarrow> Some (Inl p)
                        | Inr (m, ssr) \<Rightarrow>
                            if \<not> ssr_Success ssr then Some (Inl (Fatal ''reduce set state fail''))
                            else worker_reduces k reducef now fin (m, d)))))"

text \<open>
  The whole worker, alone with the master: nobody else calls the master meanwhile, its \<open>Done\<close>
  is not run in between and the clock stands at \<open>now\<close>, so that no task is requeued.
\<close>

definition Worker ::
  "nat \<Rightarrow> (string \<Rightarrow> string \<Rightarrow> KeyValue list) \<Rightarrow> (string \<Rightarrow> string list \<Rightarrow> string) \<Rightarrow>
   (KeyValue list \<Rightarrow> KeyValue list) \<Rightarrow> int \<Rightarrow> Master \<times> directory \<Rightarrow> (Master \<times> directory) go option" where
  "Worker k mapf reducef sort_Sort now st =
     (case worker_maps k mapf sort_Sort now (tfr_TaskFinished (TaskFinished \<lparr>tf_TaskType = mapTask\<rparr> (fst st))) st of
        Some (Inr st') \<Rightarrow>
          worker_reduces k reducef now (tfr_TaskFinished (TaskFinished \<lparr>tf_TaskType = rdcTask\<rparr> (fst st'))) st'
      | r \<Rightarrow> r)"

text \<open>The sequential program: \<open>mr-out-0\<close> for the named input files.\<close>

fun read_all :: "(string \<Rightarrow> string \<Rightarrow> KeyValue list) \<Rightarrow> string list \<Rightarrow> directory \<Rightarrow> KeyValue list go" where
  "read_all mapf [] d = Inr []"
| "read_all mapf (f # fs) d =
     (case inputs d f of
        None \<Rightarrow> Inl (Fatal ''cannot open'')
      | Some content \<Rightarrow> go_bind (read_all mapf fs d) (\<lambda>rest. Inr (mapf f content @ rest)))"

definition mrsequential ::
  "(string \<Rightarrow> string \<Rightarrow> KeyValue list) \<Rightarrow> (string \<Rightarrow> string list \<Rightarrow> string) \<Rightarrow> (KeyValue list \<Rightarrow> KeyValue list) \<Rightarrow>
   string list \<Rightarrow> directory \<Rightarrow> directory go" where
  "mrsequential mapf reducef sort_Sort files d =
     go_bind (read_all mapf files d) (\<lambda>intermediate.
       Inr (d\<lparr>outs := (outs d)(0 \<mapsto> map (\<lambda>g. out_line (kvs_Key g) (reducef (kvs_Key g) (kvs_Values g)))
                                  (runs (sort_Sort intermediate)))\<rparr>))"

section \<open>Contracts of the parameters\<close>

definition sorts :: "(KeyValue list \<Rightarrow> KeyValue list) \<Rightarrow> bool" where
  "sorts f \<longleftrightarrow> (\<forall>xs. mset (f xs) = mset xs \<and> sorted (map mr_Key (f xs)))"

definition order_free :: "(string \<Rightarrow> string list \<Rightarrow> string) \<Rightarrow> bool" where
  "order_free f \<longleftrightarrow> (\<forall>k vs ws. mset vs = mset ws \<longrightarrow> f k vs = f k ws)"

lemma order_freeD: "order_free f \<Longrightarrow> mset vs = mset ws \<Longrightarrow> f k vs = f k ws"
  unfolding order_free_def by blast

lemma sorts_mset:
  assumes "sorts f"
  shows "mset (f xs) = mset xs" and "set (f xs) = set xs" and "sorted (map mr_Key (f xs))"
proof -
  show m: "mset (f xs) = mset xs" and "sorted (map mr_Key (f xs))" using assms by (auto simp: sorts_def)
  show "set (f xs) = set xs" using mset_eq_setD[OF m] .
qed

section \<open>Runs of sorted pairs\<close>

definition values_for :: "string \<Rightarrow> KeyValue list \<Rightarrow> string list" where
  "values_for k kvs = map mr_Value (filter (\<lambda>kv. mr_Key kv = k) kvs)"

lemma values_for_append [simp]: "values_for k (xs @ ys) = values_for k xs @ values_for k ys"
  by (simp add: values_for_def)

lemma values_for_mset: "mset xs = mset ys \<Longrightarrow> mset (values_for k xs) = mset (values_for k ys)"
  by (simp add: values_for_def)

lemma ihash_range: "0 \<le> ihash k" "ihash k < 2 ^ 31"
proof -
  have "fnv32a k AND 0x7fffffff = take_bit 31 (fnv32a k)"
    by (simp add: take_bit_eq_mask mask_eq_exp_minus_1)
  then show "ihash k < 2 ^ 31" 
    using take_bit_int_less_exp[of 31 "uint (fnv32a k)"] by (simp add: ihash_def unsigned_take_bit_eq)
qed (simp add: ihash_def)

lemma sorted_head_run:
  assumes "sorted (map mr_Key (kv # kvs))"
  shows "takeWhile (\<lambda>x. mr_Key x = mr_Key kv) kvs = filter (\<lambda>x. mr_Key x = mr_Key kv) kvs \<and>
    dropWhile (\<lambda>x. mr_Key x = mr_Key kv) kvs = filter (\<lambda>x. mr_Key x \<noteq> mr_Key kv) kvs"
  using assms
proof (induction kvs)
  case (Cons x xs)
  show ?case
  proof (cases "mr_Key x = mr_Key kv")
    case False
    then have "\<forall>y\<in>set xs. mr_Key y \<noteq> mr_Key kv" using Cons.prems by fastforce
    then show ?thesis using False by (auto simp: filter_id_conv filter_empty_conv eq_commute[of "[]"])
  qed (use Cons in auto)
qed auto

lemma runs_sorted:
  "sorted (map mr_Key xs) \<Longrightarrow> sorted_wrt (<) (map kvs_Key (runs xs)) \<and> kvs_Key ` set (runs xs) = mr_Key ` set xs \<and>
   (\<forall>g\<in>set (runs xs). kvs_Values g = values_for (kvs_Key g) xs)"
proof (induction xs rule: runs.induct)
  case (2 kv kvs)
  let ?rest = "filter (\<lambda>x. mr_Key x \<noteq> mr_Key kv) kvs"
  note h = sorted_head_run[OF 2(2)]
  have "sorted (map mr_Key ?rest)" using 2(2) by (auto intro: sorted_filter)
  with 2(1) h have IH: "sorted_wrt (<) (map kvs_Key (runs ?rest))" "kvs_Key ` set (runs ?rest) = mr_Key ` set ?rest"
    "\<forall>g\<in>set (runs ?rest). kvs_Values g = values_for (kvs_Key g) ?rest" by auto
  have lt: "mr_Key kv < kvs_Key g" if "g \<in> set (runs ?rest)" for g
  proof -
    have "kvs_Key g \<in> mr_Key ` set ?rest" using that IH(2) by blast
    then show ?thesis using 2(2) by fastforce
  qed
  have "values_for (kvs_Key g) ?rest = values_for (kvs_Key g) (kv # kvs)" if "g \<in> set (runs ?rest)" for g
    using lt[OF that] by (auto simp: values_for_def intro!: arg_cong[where f = "map mr_Value"] filter_cong)
  then have "\<forall>g\<in>set (runs (kv # kvs)). kvs_Values g = values_for (kvs_Key g) (kv # kvs)"
    using IH(3) by (auto simp: h values_for_def)
  moreover have "sorted_wrt (<) (map kvs_Key (runs (kv # kvs)))" using IH(1) lt by (auto simp: h)
  moreover have "kvs_Key ` set (runs (kv # kvs)) = mr_Key ` set (kv # kvs)" using IH(2) by (auto simp: h)
  ultimately show ?case by blast
qed auto

text \<open>The runs are determined by the pairs up to the order of values.\<close>

definition sorted_keys :: "string set \<Rightarrow> string list" where
  "sorted_keys K = sorted_list_of_set K"

lemma runs_keys: "sorted (map mr_Key xs) \<Longrightarrow> map kvs_Key (runs xs) = sorted_keys (mr_Key ` set xs)"
  using runs_sorted[of xs] unfolding sorted_keys_def
  by (intro sorted_distinct_set_unique) (auto simp: strict_sorted_iff)

section \<open>The map phase\<close>

lemma write_runs_eq:
  "0 < n \<Longrightarrow> \<exists>d'. write_runs x n gs d = Inr d' \<and> inputs d' = inputs d \<and> outs d' = outs d \<and>
   (\<forall>a y. inter_at d' a y = (if a = x then inter_at d x y @ map (\<lambda>g. Some (json_record g)) (filter (\<lambda>g. ihash (kvs_Key g) mod n = y) gs) else inter_at d a y))"
proof (induction gs arbitrary: d)
  case (Cons g gs)
  let ?y = "ihash (kvs_Key g) mod n"
  have "inter_at (append_record x ?y g d) a y = (if a = x \<and> y = ?y then inter_at d x y @ [Some (json_record g)] else inter_at d a y)" for a y
    by (simp add: inter_at_def append_record_def)
  with Cons.IH[OF Cons.prems, of "append_record x ?y g d"] Cons.prems show ?case
    by (auto simp: append_record_def)
qed auto

definition map_reply :: "string list \<Rightarrow> int \<Rightarrow> nat \<Rightarrow> GetFileReply" where
  "map_reply files n i = \<lparr>gfr_Id = int i, gfr_FileName = files ! i, gfr_NMap = 0, gfr_NReduce = n\<rparr>"

text \<open>Map tasks one after the other.\<close>

fun map_phase ::
  "(string \<Rightarrow> string \<Rightarrow> KeyValue list) \<Rightarrow> (KeyValue list \<Rightarrow> KeyValue list) \<Rightarrow> string list \<Rightarrow> int \<Rightarrow> nat list \<Rightarrow> directory \<Rightarrow> directory go" where
  "map_phase mapf srt files n [] d = Inr d"
| "map_phase mapf srt files n (i # is) d =
     go_bind (do_map mapf srt (map_reply files n i) d) (map_phase mapf srt files n is)"

definition emitted :: "(string \<Rightarrow> string \<Rightarrow> KeyValue list) \<Rightarrow> string list \<Rightarrow> directory \<Rightarrow> nat \<Rightarrow> KeyValue list" where
  "emitted mapf files d i = mapf (files ! i) (the (inputs d (files ! i)))"

lemma map_phase_inter:
  assumes "0 < n" and "set files \<subseteq> dom (inputs d)" and "set is \<subseteq> {..<length files}" and "distinct is"
  shows "\<exists>d'. map_phase mapf srt files n is d = Inr d' \<and> inputs d' = inputs d \<and> outs d' = outs d \<and>
    (\<forall>a y. inter_at d' a y = inter_at d a y @
       (if a \<in> int ` set is then map (\<lambda>g. Some (json_record g)) (filter (\<lambda>g. ihash (kvs_Key g) mod n = y) (runs (srt (emitted mapf files d (nat a))))) else []))"
  using assms(2-)
proof (induction "is" arbitrary: d)
  case (Cons i ids)
  have i: "files ! i \<in> dom (inputs d)" using Cons.prems by (auto dest!: subsetD)
  obtain d1 where d1: "do_map mapf srt (map_reply files n i) d = Inr d1" "inputs d1 = inputs d" "outs d1 = outs d"
    "\<And>a y. inter_at d1 a y = (if a = int i then inter_at d (int i) y @ map (\<lambda>g. Some (json_record g)) (filter (\<lambda>g. ihash (kvs_Key g) mod n = y) (runs (srt (emitted mapf files d i)))) else inter_at d a y)"
    using i write_runs_eq[OF assms(1), of "int i" "runs (srt (emitted mapf files d i))" d]
    by (auto simp: do_map_def map_reply_def emitted_def)
  have em: "emitted mapf files d1 = emitted mapf files d" using d1(2) by (simp add: emitted_def fun_eq_iff)
  obtain d' where d': "map_phase mapf srt files n ids d1 = Inr d'" "inputs d' = inputs d1" "outs d' = outs d1"
    "\<And>a y. inter_at d' a y = inter_at d1 a y @
       (if a \<in> int ` set ids then map (\<lambda>g. Some (json_record g)) (filter (\<lambda>g. ihash (kvs_Key g) mod n = y) (runs (srt (emitted mapf files d (nat a))))) else [])"
    using Cons.IH[of d1] Cons.prems d1(2) em by auto
  show ?case
    using d1 d' Cons.prems(3) by (auto simp: image_iff)
qed auto

section \<open>The reduce phase\<close>

definition listed :: "'a list option \<Rightarrow> 'a list" where
  "listed m = (case m of None \<Rightarrow> [] | Some vs \<Rightarrow> vs)"

definition record_values :: "string \<Rightarrow> KeyValues list \<Rightarrow> string list" where
  "record_values k recs = concat (map kvs_Values (filter (\<lambda>g. kvs_Key g = k) recs))"

lemma listed_simps [simp]: "listed None = []" "listed (Some vs) = vs"
  by (simp_all add: listed_def)

lemma record_values_simps [simp]:
  "record_values k [] = []"
  "record_values k (g # gs) = (if kvs_Key g = k then kvs_Values g else []) @ record_values k gs"
  "record_values k (xs @ ys) = record_values k xs @ record_values k ys"
  by (simp_all add: record_values_def)

lemma add_value_simps:
  "listed (map_of (add_value k v kva) k') = listed (map_of kva k') @ (if k' = k then [v] else [])"
  "fst ` set (add_value k v kva) = insert k (fst ` set kva)"
  "distinct (map fst kva) \<Longrightarrow> distinct (map fst (add_value k v kva))"
  unfolding add_value_def listed_def
  by (auto simp: update_conv' dom_update distinct_update split: option.splits)

lemma add_values:
  "listed (map_of (fold (add_value k) vs kva) k') = listed (map_of kva k') @ (if k' = k then vs else [])"
  "fst ` set (fold (add_value k) vs kva) = (if vs = [] then {} else {k}) \<union> fst ` set kva"
  "distinct (map fst kva) \<Longrightarrow> distinct (map fst (fold (add_value k) vs kva))"
  by (induction vs arbitrary: kva) (auto simp: add_value_simps)

text \<open>What reading the records of texts that \<open>Decode\<close> accepts comes to.\<close>

definition gather :: "KeyValues list \<Rightarrow> (string \<times> string list) list \<Rightarrow> (string \<times> string list) list" where
  "gather = fold (\<lambda>kvs. fold (add_value (kvs_Key kvs)) (kvs_Values kvs))"

lemma gather_eq:
  "listed (map_of (gather recs kva) k) = listed (map_of kva k) @ record_values k recs"
  "fst ` set (gather recs kva) = fst ` set kva \<union> {kvs_Key g | g. g \<in> set recs \<and> kvs_Values g \<noteq> []}"
  "distinct (map fst kva) \<Longrightarrow> distinct (map fst (gather recs kva))"
  unfolding gather_def
  by (induction recs arbitrary: kva) (auto simp: add_values)

lemma gather_append: "gather (xs @ ys) kva = gather ys (gather xs kva)"
  by (simp add: gather_def)

definition decoded :: "KeyValues option list \<Rightarrow> KeyValues list" where
  "decoded texts = map (\<lambda>t. json_record (the t)) texts"

lemma read_records_eq:
  "read_records texts kva = (if None \<in> set texts then Inl (Fatal ''decode'') else Inr (gather (decoded texts) kva))"
  by (induction texts kva rule: read_records.induct) (auto simp: gather_def decoded_def Let_def)

lemma read_inter_rejects:
  "None \<in> set (concat (map (\<lambda>j. inter_at d (int j) y) [i..<i + n])) \<Longrightarrow> read_inter i n y (d, kva) = Inl (Fatal ''decode'')"
proof (induction n arbitrary: i d kva)
  case (Suc n)
  let ?d = "d\<lparr>inter := (inter d)((int i, y) := None)\<rparr>"
  have "map (\<lambda>j. inter_at ?d (int j) y) [Suc i..<Suc i + n] = map (\<lambda>j. inter_at d (int j) y) [Suc i..<Suc i + n]"
    by (intro map_cong) (auto simp: inter_at_def)
  then show ?case using Suc.IH[of ?d "Suc i"] Suc.prems by (auto simp: read_records_eq upt_conv_Cons simp del: upt_Suc)
qed simp

lemma read_inter_eq:
  "None \<notin> set (concat (map (\<lambda>j. inter_at d (int j) y) [i..<i + n])) \<Longrightarrow>
   \<exists>d'. read_inter i n y (d, kva) = Inr (d', gather (decoded (concat (map (\<lambda>j. inter_at d (int j) y) [i..<i + n]))) kva) \<and>
     inputs d' = inputs d \<and> outs d' = outs d \<and>
     (\<forall>a b. b \<noteq> y \<longrightarrow> inter_at d' a b = inter_at d a b) \<and>
     (\<forall>j. inter_at d' (int j) y = (if i \<le> j \<and> j < i + n then [] else inter_at d (int j) y))"
proof (induction n arbitrary: i d kva)
  case (Suc n)
  let ?d = "d\<lparr>inter := (inter d)((int i, y) := None)\<rparr>" and ?kva = "gather (decoded (inter_at d (int i) y)) kva"
  have at: "inter_at ?d a b = (if a = int i \<and> b = y then [] else inter_at d a b)" for a b
    by (simp add: inter_at_def)
  have m: "map (\<lambda>j. inter_at ?d (int j) y) [Suc i..<Suc i + n] = map (\<lambda>j. inter_at d (int j) y) [Suc i..<Suc i + n]"
    using at by (intro map_cong) auto
  have u: "[i..<i + Suc n] = i # [Suc i..<Suc i + n]" by (simp add: upt_conv_Cons)
  have ok: "None \<notin> set (inter_at d (int i) y)" "None \<notin> set (concat (map (\<lambda>j. inter_at d (int j) y) [Suc i..<Suc i + n]))"
    using Suc.prems unfolding u by simp_all
  then obtain d' where "read_inter (Suc i) n y (?d, ?kva) =
      Inr (d', gather (decoded (concat (map (\<lambda>j. inter_at d (int j) y) [Suc i..<Suc i + n]))) ?kva)"
    "inputs d' = inputs ?d" "outs d' = outs ?d" "\<forall>a b. b \<noteq> y \<longrightarrow> inter_at d' a b = inter_at ?d a b"
    "\<forall>j. inter_at d' (int j) y = (if Suc i \<le> j \<and> j < Suc i + n then [] else inter_at ?d (int j) y)"
    using Suc.IH[of ?d "Suc i" ?kva] unfolding m by blast
  with ok(1) show ?case unfolding u
    by (intro exI[of _ d']) (auto simp: at gather_append decoded_def read_records_eq simp del: upt_Suc)
qed (auto simp: gather_def decoded_def)

definition rdc_reply :: "int \<Rightarrow> int \<Rightarrow> int \<Rightarrow> GetFileReply" where
  "rdc_reply nmap n r = \<lparr>gfr_Id = r, gfr_FileName = '''', gfr_NMap = nmap, gfr_NReduce = n\<rparr>"

definition records_for :: "directory \<Rightarrow> nat \<Rightarrow> int \<Rightarrow> KeyValues option list" where
  "records_for d nmap r = concat (map (\<lambda>j. inter_at d (int j) r) [0..<nmap])"

lemma do_reduce_rejects:
  assumes "None \<in> set (records_for d nmap r)"
  shows "do_reduce reducef (rdc_reply (int nmap) n r) d = Inl (Fatal ''decode'')"
proof -
  let ?d = "d\<lparr>outs := (outs d)(r \<mapsto> [])\<rparr>"
  have at: "inter_at ?d = inter_at d" by (simp add: inter_at_def fun_eq_iff)
  have "None \<in> set (concat (map (\<lambda>j. inter_at ?d (int j) r) [0..<0 + nmap]))" using assms by (simp add: at records_for_def)
  from read_inter_rejects[OF this] show ?thesis by (simp add: do_reduce_def rdc_reply_def)
qed

lemma do_reduce_eq:
  assumes "None \<notin> set (records_for d nmap r)"
  defines "recs \<equiv> decoded (records_for d nmap r)"
  shows "\<exists>d'. do_reduce reducef (rdc_reply (int nmap) n r) d = Inr d' \<and> inputs d' = inputs d \<and>
     outs d' = (outs d)(r \<mapsto> map (\<lambda>k. out_line k (reducef k (record_values k recs)))
        (sorted_keys {kvs_Key g | g. g \<in> set recs \<and> kvs_Values g \<noteq> []})) \<and>
     (\<forall>a b. b \<noteq> r \<longrightarrow> inter_at d' a b = inter_at d a b) \<and> (\<forall>j<nmap. inter_at d' (int j) r = [])"
proof -
  let ?d = "d\<lparr>outs := (outs d)(r \<mapsto> [])\<rparr>"
  have at: "inter_at ?d = inter_at d" by (simp add: inter_at_def fun_eq_iff)
  define kva where "kva = gather recs []"
  have "None \<notin> set (concat (map (\<lambda>j. inter_at ?d (int j) r) [0..<0 + nmap]))" using assms(1) by (simp add: at records_for_def)
  then obtain d1 where d1: "read_inter 0 nmap r (?d, []) = Inr (d1, kva)" "inputs d1 = inputs d" "outs d1 = (outs d)(r \<mapsto> [])"
    "\<forall>a b. b \<noteq> r \<longrightarrow> inter_at d1 a b = inter_at d a b" "\<forall>j<nmap. inter_at d1 (int j) r = []"
    using read_inter_eq[of ?d r 0 nmap "[]"] by (auto simp: at kva_def records_for_def recs_def)
  have keys: "fst ` set kva = {kvs_Key g | g. g \<in> set recs \<and> kvs_Values g \<noteq> []}" and dist: "distinct (map fst kva)"
    unfolding kva_def by (simp_all add: gather_eq)
  have "sort (map fst kva) = sorted_keys (fst ` set kva)"
    unfolding sorted_keys_def by (rule sorted_distinct_set_unique) (simp_all add: dist)
  moreover have "the (map_of kva k) = record_values k recs" if mem: "k \<in> fst ` set kva" for k
  proof -
    obtain vs where "map_of kva k = Some vs" using mem by (cases "map_of kva k") (auto simp: map_of_eq_None_iff)
    then show ?thesis using gather_eq(1)[of recs "[]" k] by (simp add: kva_def)
  qed
  moreover have "set (sorted_keys (fst ` set kva)) = fst ` set kva" by (simp add: sorted_keys_def)
  ultimately have out: "map (\<lambda>k. out_line k (reducef k (the (map_of kva k)))) (sort (map fst kva)) =
      map (\<lambda>k. out_line k (reducef k (record_values k recs))) (sorted_keys (fst ` set kva))"
    by (auto intro!: map_cong)
  have "inter_at (d1\<lparr>outs := x\<rparr>) = inter_at d1" for x by (simp add: inter_at_def fun_eq_iff)
  then show ?thesis
    using d1 out by (simp add: do_reduce_def rdc_reply_def keys)
qed

lemma record_values_runs: "record_values k (runs xs) = values_for k xs"
proof (induction xs rule: runs.induct)
  case (2 kv kvs)
  let ?P = "\<lambda>x. mr_Key x = mr_Key kv"
  have "values_for k kvs = values_for k (takeWhile ?P kvs) @ values_for k (dropWhile ?P kvs)"
    by (simp flip: values_for_append)
  moreover have "values_for k (takeWhile ?P kvs) = (if k = mr_Key kv then map mr_Value (takeWhile ?P kvs) else [])"
    by (cases "k = mr_Key kv")
      (auto simp: values_for_def filter_empty_conv intro!: arg_cong[where f = "map mr_Value"] filter_True dest: set_takeWhileD)
  ultimately show ?case using 2 by (auto simp: values_for_def)
qed (simp add: values_for_def)

lemma record_values_filter:
  "record_values k (filter (\<lambda>g. P (kvs_Key g)) gs) = (if P k then record_values k gs else [])"
  by (induction gs) auto

lemma runs_nonempty: "g \<in> set (runs xs) \<Longrightarrow> kvs_Values g \<noteq> []"
  by (induction xs rule: runs.induct) auto

lemma runs_key_set: "kvs_Key ` set (runs xs) = mr_Key ` set xs"
proof (induction xs rule: runs.induct)
  case (2 kv kvs)
  let ?P = "\<lambda>x. mr_Key x = mr_Key kv"
  have "set kvs = set (takeWhile ?P kvs) \<union> set (dropWhile ?P kvs)" by (metis set_append takeWhile_dropWhile_id)
  then show ?case using 2 by (auto dest: set_takeWhileD)
qed simp

section \<open>The whole job\<close>

definition all_emitted :: "(string \<Rightarrow> string \<Rightarrow> KeyValue list) \<Rightarrow> string list \<Rightarrow> directory \<Rightarrow> KeyValue list" where
  "all_emitted mapf files d = concat (map (emitted mapf files d) [0..<length files])"

text \<open>What the output for a set of keys should be: a line per key, in key order.\<close>

definition job_lines :: "(string \<Rightarrow> string list \<Rightarrow> string) \<Rightarrow> KeyValue list \<Rightarrow> string set \<Rightarrow> string list" where
  "job_lines reducef kvs K = map (\<lambda>k. out_line k (reducef k (values_for k kvs))) (sorted_keys K)"

text \<open>The intermediate files of a completed map phase.\<close>

definition mapped :: "(string \<Rightarrow> string \<Rightarrow> KeyValue list) \<Rightarrow> (KeyValue list \<Rightarrow> KeyValue list) \<Rightarrow> string list \<Rightarrow> int \<Rightarrow> directory \<Rightarrow> int \<Rightarrow> directory \<Rightarrow> bool" where
  "mapped mapf srt files n d0 r d \<longleftrightarrow> (\<forall>i<length files.
     inter_at d (int i) r = map (\<lambda>g. Some (json_record g)) (filter (\<lambda>g. ihash (kvs_Key g) mod n = r) (runs (srt (emitted mapf files d0 i)))))"

lemma record_values_concat: "record_values k (concat xss) = concat (map (record_values k) xss)"
  by (induction xss) auto

lemma mset_concat_cong: "(\<And>x. x \<in> set xs \<Longrightarrow> mset (f x) = mset (g x)) \<Longrightarrow> mset (concat (map f xs)) = mset (concat (map g xs))"
  by (induction xs) auto

text \<open>Pairs of UTF-8 strings, which JSON leaves alone.\<close>

definition text_kv :: "KeyValue \<Rightarrow> bool" where
  "text_kv kv \<longleftrightarrow> valid_utf8 (mr_Key kv) \<and> valid_utf8 (mr_Value kv)"

lemma json_record_id:
  assumes "valid_utf8 (kvs_Key g)" and "\<forall>v\<in>set (kvs_Values g). valid_utf8 v"
  shows "json_record g = g"
proof -
  have "map to_valid (kvs_Values g) = kvs_Values g" using assms(2) to_valid_id by (intro map_idI) blast
  then show ?thesis using to_valid_id[OF assms(1)] by (simp add: json_record_def)
qed

lemma runs_text: "\<forall>kv\<in>set xs. text_kv kv \<Longrightarrow> g \<in> set (runs xs) \<Longrightarrow> json_record g = g"
proof (induction xs rule: runs.induct)
  case (2 kv kvs)
  let ?P = "\<lambda>x. mr_Key x = mr_Key kv"
  show ?case
  proof (cases "g \<in> set (runs (dropWhile ?P kvs))")
    case True
    with 2 show ?thesis by (auto dest: set_dropWhileD)
  next
    case False
    then have "kvs_Key g = mr_Key kv" "set (kvs_Values g) \<subseteq> insert (mr_Value kv) (mr_Value ` set kvs)"
      using 2(3) by (auto dest: set_takeWhileD)
    with 2(2) show ?thesis by (intro json_record_id) (auto simp: text_kv_def)
  qed
qed simp

lemma reduce_records:
  assumes "mapped mapf srt files n d0 r d" and "sorts srt" and utf8: "\<forall>kv\<in>set (all_emitted mapf files d0). text_kv kv"
  defines "E \<equiv> all_emitted mapf files d0" and "recs \<equiv> decoded (records_for d (length files) r)"
  shows "None \<notin> set (records_for d (length files) r)"
    and "mset (record_values k recs) = (if ihash k mod n = r then mset (values_for k E) else {#})"
    and "{kvs_Key g | g. g \<in> set recs \<and> kvs_Values g \<noteq> []} = {k \<in> mr_Key ` set E. ihash k mod n = r}"
proof -
  let ?part = "\<lambda>i. filter (\<lambda>g. ihash (kvs_Key g) mod n = r) (runs (srt (emitted mapf files d0 i)))"
  have all: "records_for d (length files) r = concat (map (\<lambda>i. map (\<lambda>g. Some (json_record g)) (?part i)) [0..<length files])"
    using assms(1) by (auto simp: records_for_def mapped_def intro!: arg_cong[where f = concat] map_cong)
  then show "None \<notin> set (records_for d (length files) r)" by auto
  have "json_record g = g" if "i < length files" "g \<in> set (?part i)" for i g
    using that utf8 sorts_mset(2)[OF assms(2)] by (intro runs_text[of "srt (emitted mapf files d0 i)"]) (auto simp: all_emitted_def)
  then have "map (\<lambda>t. json_record (the t)) (map (\<lambda>g. Some (json_record g)) (?part i)) = ?part i" if "i < length files" for i
    using that by (auto intro: map_idI)
  then have rec: "recs = concat (map ?part [0..<length files])"
    unfolding recs_def decoded_def all map_concat by (auto intro!: arg_cong[where f = concat])
  note srt = sorts_mset[OF assms(2)]
  have "values_for k E = concat (map (\<lambda>i. values_for k (emitted mapf files d0 i)) [0..<length files])"
    by (simp add: E_def all_emitted_def values_for_def filter_concat map_concat o_def)
  then show "mset (record_values k recs) = (if ihash k mod n = r then mset (values_for k E) else {#})"
    using srt(1) by (auto simp: rec record_values_concat o_def record_values_filter[of k "\<lambda>k. ihash k mod n = r"] record_values_runs
        simp del: mset_concat intro!: mset_concat_cong values_for_mset)
  have "kvs_Key ` {g \<in> set (runs (srt xs)). ihash (kvs_Key g) mod n = r} = {k \<in> mr_Key ` set xs. ihash k mod n = r}" for xs
    using runs_key_set[of "srt xs"] srt(2)[of xs] by (auto simp: set_eq_iff image_iff) (metis+)
  note keys = this
  have "{kvs_Key g | g. g \<in> set recs \<and> kvs_Values g \<noteq> []} = kvs_Key ` set recs"
    unfolding rec by (auto dest: runs_nonempty)
  also have "\<dots> = (\<Union>i<length files. kvs_Key ` {g \<in> set (runs (srt (emitted mapf files d0 i))). ihash (kvs_Key g) mod n = r})"
    unfolding rec by (simp add: image_UN lessThan_atLeast0)
  also have "\<dots> = {k \<in> mr_Key ` set E. ihash k mod n = r}"
    unfolding keys E_def all_emitted_def by (auto simp: image_UN lessThan_atLeast0)
  finally show "{kvs_Key g | g. g \<in> set recs \<and> kvs_Values g \<noteq> []} = {k \<in> mr_Key ` set E. ihash k mod n = r}" .
qed

lemma do_reduce_lines:
  assumes m: "mapped mapf srt files n d0 r d" and "sorts srt" and utf8: "\<forall>kv\<in>set (all_emitted mapf files d0). text_kv kv"
    and of: "order_free reducef"
  defines "E \<equiv> all_emitted mapf files d0"
  shows "\<exists>d'. do_reduce reducef (rdc_reply (int (length files)) n r) d = Inr d' \<and>
     outs d' = (outs d)(r \<mapsto> job_lines reducef E {k \<in> mr_Key ` set E. ihash k mod n = r}) \<and>
     (\<forall>a b. b \<noteq> r \<longrightarrow> inter_at d' a b = inter_at d a b)"
proof -
  let ?recs = "decoded (records_for d (length files) r)"
  note rr = reduce_records[OF m assms(2) utf8, folded E_def]
  have fin: "finite {k \<in> mr_Key ` set E. ihash k mod n = r}" by simp
  have eq: "reducef k (record_values k ?recs) = reducef k (values_for k E)"
    if "k \<in> {k \<in> mr_Key ` set E. ihash k mod n = r}" for k
    using that rr(2)[of k] by (intro order_freeD[OF of]) simp
  have "map (\<lambda>k. out_line k (reducef k (record_values k ?recs))) (sorted_keys {k \<in> mr_Key ` set E. ihash k mod n = r}) =
      job_lines reducef E {k \<in> mr_Key ` set E. ihash k mod n = r}"
    unfolding job_lines_def using eq fin by (auto simp: sorted_keys_def intro!: map_cong)
  with do_reduce_eq[OF rr(1), of reducef n] show ?thesis unfolding rr(3) by auto
qed

text \<open>Reduce tasks one after the other.\<close>

fun reduce_phase :: "(string \<Rightarrow> string list \<Rightarrow> string) \<Rightarrow> nat \<Rightarrow> int \<Rightarrow> nat list \<Rightarrow> directory \<Rightarrow> directory go" where
  "reduce_phase reducef nmap n [] d = Inr d"
| "reduce_phase reducef nmap n (r # rs) d =
     go_bind (do_reduce reducef (rdc_reply (int nmap) n (int r)) d) (reduce_phase reducef nmap n rs)"

lemma reduce_phase_lines:
  assumes "sorts srt" and "order_free reducef" and utf8: "\<forall>kv\<in>set (all_emitted mapf files d0). text_kv kv" and "distinct rs"
    and "\<And>r. r \<in> set rs \<Longrightarrow> mapped mapf srt files n d0 (int r) d"
  defines "E \<equiv> all_emitted mapf files d0"
  shows "\<exists>d'. reduce_phase reducef (length files) n rs d = Inr d' \<and> (\<forall>y. outs d' y =
     (if y \<in> int ` set rs then Some (job_lines reducef E {k \<in> mr_Key ` set E. ihash k mod n = y}) else outs d y))"
  using assms(4,5)
proof (induction rs arbitrary: d)
  case (Cons r rs)
  obtain d1 where d1: "do_reduce reducef (rdc_reply (int (length files)) n (int r)) d = Inr d1"
    "outs d1 = (outs d)(int r \<mapsto> job_lines reducef E {k \<in> mr_Key ` set E. ihash k mod n = int r})"
    "\<forall>a b. b \<noteq> int r \<longrightarrow> inter_at d1 a b = inter_at d a b"
    using do_reduce_lines[OF Cons.prems(2)[of r] assms(1) utf8 assms(2)] by (auto simp: E_def)
  have "mapped mapf srt files n d0 (int q) d1" if "q \<in> set rs" for q
  proof -
    have "int q \<noteq> int r" using Cons.prems(1) that by auto
    then show ?thesis using Cons.prems(2)[of q] that d1(3) by (simp add: mapped_def)
  qed
  with Cons.IH[of d1] Cons.prems(1) obtain d' where "reduce_phase reducef (length files) n rs d1 = Inr d'"
    "\<forall>y. outs d' y = (if y \<in> int ` set rs then Some (job_lines reducef E {k \<in> mr_Key ` set E. ihash k mod n = y}) else outs d1 y)"
    by auto
  then show ?case using d1(1,2) by auto
qed simp

lemma sequential_lines:
  assumes "sorts srt" and "order_free reducef"
  shows "map (\<lambda>g. out_line (kvs_Key g) (reducef (kvs_Key g) (kvs_Values g))) (runs (srt E)) = job_lines reducef E (mr_Key ` set E)"
proof -
  note s = sorts_mset[OF assms(1), of E]
  have v: "reducef (kvs_Key g) (kvs_Values g) = reducef (kvs_Key g) (values_for (kvs_Key g) E)" if "g \<in> set (runs (srt E))" for g
    using runs_sorted[OF s(3)] that values_for_mset[OF s(1)] by (intro order_freeD[OF assms(2)]) simp
  have "map (\<lambda>g. out_line (kvs_Key g) (reducef (kvs_Key g) (kvs_Values g))) (runs (srt E)) =
      map (\<lambda>k. out_line k (reducef k (values_for k E))) (map kvs_Key (runs (srt E)))"
    using v by simp
  then show ?thesis using runs_keys[OF s(3)] s(2) by (simp add: job_lines_def)
qed

lemma read_all_eq:
  "set files \<subseteq> dom (inputs d) \<Longrightarrow> read_all mapf files d = Inr (all_emitted mapf files d)"
proof (induction files)
  case (Cons f fs)
  then obtain c where c: "inputs d f = Some c" by auto
  have "map (emitted mapf (f # fs) d) [0..<length (f # fs)] = mapf f c # map (emitted mapf fs d) [0..<length fs]"
    by (simp add: emitted_def c map_upt_Suc del: upt_Suc)
  then show ?case using Cons c by (simp add: all_emitted_def del: upt_Suc)
qed (simp add: all_emitted_def)

lemma lines_partition:
  assumes "finite K" and "0 < n"
  shows "mset (concat (map (\<lambda>r. job_lines reducef E {k \<in> K. ihash k mod int n = int r}) [0..<n])) = mset (job_lines reducef E K)"
proof -
  let ?f = "\<lambda>k. out_line k (reducef k (values_for k E))"
  have ms: "mset (job_lines reducef E A) = image_mset ?f (mset_set A)" for A
    by (simp add: job_lines_def sorted_keys_def flip: sorted_list_of_mset_set)
  have "mset (concat (map (\<lambda>r. job_lines reducef E {k \<in> K. ihash k mod int n = int r}) [0..<m])) =
      image_mset ?f (mset_set {k \<in> K. ihash k mod int n < int m})" for m
  proof (induction m)
    case (Suc m)
    have "{k \<in> K. ihash k mod int n < int (Suc m)} = {k \<in> K. ihash k mod int n < int m} \<union> {k \<in> K. ihash k mod int n = int m}"
      by auto
    moreover have "mset_set ({k \<in> K. ihash k mod int n < int m} \<union> {k \<in> K. ihash k mod int n = int m}) =
        mset_set {k \<in> K. ihash k mod int n < int m} + mset_set {k \<in> K. ihash k mod int n = int m}"
      using assms(1) by (intro mset_set_Union) auto
    ultimately show ?case using Suc by (simp add: ms)
  next
    case 0
    have "0 \<le> ihash k mod int n" for k using assms(2) by simp
    then have "{k \<in> K. ihash k mod int n < int 0} = {}" by (auto simp: not_less)
    then show ?case unfolding \<open>{k \<in> K. ihash k mod int n < int 0} = {}\<close> by simp
  qed
  moreover have "{k \<in> K. ihash k mod int n < int n} = K" using assms(2) by auto
  ultimately show ?thesis by (simp only: ms)
qed

section \<open>A worker alone with the master\<close>

text \<open>The states of \<open>N\<close> tasks of which the first \<open>j\<close> are finished and the others not begun.\<close>

definition progress :: "nat \<Rightarrow> nat \<Rightarrow> int list" where
  "progress j N = replicate j finished @ replicate (N - j) todo"

lemma progress_simps:
  "length (progress j N) = max j N"
  "j < N \<Longrightarrow> first_todo (progress j N) = Some j"
  "first_todo (progress N N) = None"
  "unfinished (progress j N) \<longleftrightarrow> j < N"
  "j < N \<Longrightarrow> (progress j N)[j := finished] = progress (Suc j) N"
proof -
  show "j < N \<Longrightarrow> first_todo (progress j N) = Some j"
    by (auto simp: first_todo_Some progress_def nth_append)
  show "first_todo (progress N N) = None" by (simp add: first_todo_None progress_def)
  show "unfinished (progress j N) \<longleftrightarrow> j < N" by (auto simp: unfinished_iff progress_def)
  show "j < N \<Longrightarrow> (progress j N)[j := finished] = progress (Suc j) N"
  proof -
    assume "j < N"
    then have "N - j = Suc (N - Suc j)" by simp
    then show ?thesis by (simp add: progress_def list_update_append replicate_app_Cons_same)
  qed
qed (simp add: progress_def max_def)

lemma progress_ends: "progress N N = replicate N finished" "progress 0 N = replicate N todo"
  by (simp_all add: progress_def)

lemma lone_map_step:
  assumes ok: "master_ok m" and st: "MapStates m = progress j (length (Files m))" and j: "j < length (Files m)"
    and ne: "'''' \<notin> set (Files m)" and d: "do_map mapf srt (map_reply (Files m) (NReduce m) j) d = Inr d1"
  shows "\<exists>m1. worker_maps (Suc k) mapf srt now False (m, d) = worker_maps k mapf srt now False (m1, d1) \<and>
     master_ok m1 \<and> MapStates m1 = progress (Suc j) (length (Files m)) \<and> RdcStates m1 = RdcStates m \<and>
     Files m1 = Files m \<and> NReduce m1 = NReduce m"
proof -
  let ?m1 = "m\<lparr>MapStates := progress (Suc j) (length (Files m)), TaskTime := (TaskTime m)[j := now]\<rparr>"
  have len: "length (MapStates m) = length (Files m)" "length (Files m) \<le> length (TaskTime m)" using ok by (auto simp: master_ok_def)
  have g: "GetFile now \<lparr>gf_TaskType = mapTask\<rparr> m =
      Inr (m\<lparr>MapStates := (MapStates m)[j := doing], TaskTime := (TaskTime m)[j := now]\<rparr>, map_reply (Files m) (NReduce m) j)"
    using j len by (simp add: GetFile_def st progress_simps go_set_def go_index_def go_len_def map_reply_def GetFileReply0_def Let_def)
  have s: "SetState \<lparr>ss_TaskType = mapTask, ss_Id = int j, ss_State = finished\<rparr>
      (m\<lparr>MapStates := (MapStates m)[j := doing], TaskTime := (TaskTime m)[j := now]\<rparr>) = Inr (?m1, \<lparr>ssr_Success = True\<rparr>)"
    using j len by (simp add: SetState_def st progress_simps go_set_def go_len_def)
  have f: "files ! j \<noteq> ''''" if "files = Files m" for files using ne j that by (metis nth_mem)
  have ok1: "master_ok ?m1" using ok j by (auto simp: master_ok_def progress_simps states_ok_def progress_def)
  have "worker_maps (Suc k) mapf srt now False (m, d) = worker_maps k mapf srt now False (?m1, d1)"
    using j f d s by (simp add: g TaskFinished_def st progress_simps map_reply_def)
  with ok1 show ?thesis by (intro exI[of _ ?m1]) simp
qed

lemma lone_maps:
  assumes "master_ok m" and "MapStates m = progress j (length (Files m))" and "j \<le> length (Files m)"
    and "'''' \<notin> set (Files m)" and "map_phase mapf srt (Files m) (NReduce m) [j..<length (Files m)] d = Inr d'"
    and "length (Files m) - j + 2 \<le> k"
  shows "\<exists>m'. worker_maps k mapf srt now False (m, d) = Some (Inr (m', d')) \<and>
     master_ok m' \<and> MapStates m' = replicate (length (Files m)) finished \<and> RdcStates m' = RdcStates m \<and>
     Files m' = Files m \<and> NReduce m' = NReduce m"
  using assms
proof (induction "length (Files m) - j" arbitrary: j m d k)
  case 0
  then have j: "j = length (Files m)" by simp
  obtain k' where k: "k = Suc (Suc k')" using 0 by (metis add_2_eq_Suc' Suc_le_D Suc_le_mono)
  have "GetFile now \<lparr>gf_TaskType = mapTask\<rparr> m = Inr (m, GetFileReply0)"
    using 0 j by (simp add: GetFile_def progress_simps)
  then have "worker_maps k mapf srt now False (m, d) = Some (Inr (m, d))"
    using 0 j by (simp add: k TaskFinished_def progress_simps GetFileReply0_def)
  then show ?case using 0 j by (simp add: progress_ends)
next
  case (Suc x)
  then have j: "j < length (Files m)" by simp
  have "[j..<length (Files m)] = j # [Suc j..<length (Files m)]" using j by (simp add: upt_conv_Cons)
  then obtain d1 where d1: "do_map mapf srt (map_reply (Files m) (NReduce m) j) d = Inr d1"
      "map_phase mapf srt (Files m) (NReduce m) [Suc j..<length (Files m)] d1 = Inr d'"
    using Suc.prems(5) by (auto simp: go_simps)
  obtain k' where k: "k = Suc k'" using Suc.prems(6) by (cases k) auto
  obtain m1 where m1: "worker_maps (Suc k') mapf srt now False (m, d) = worker_maps k' mapf srt now False (m1, d1)"
     "master_ok m1" "MapStates m1 = progress (Suc j) (length (Files m))" "RdcStates m1 = RdcStates m"
     "Files m1 = Files m" "NReduce m1 = NReduce m"
    using lone_map_step[OF Suc.prems(1,2) j Suc.prems(4) d1(1), of k' now] by blast
  have "\<exists>m'. worker_maps k' mapf srt now False (m1, d1) = Some (Inr (m', d')) \<and>
     master_ok m' \<and> MapStates m' = replicate (length (Files m1)) finished \<and> RdcStates m' = RdcStates m1 \<and>
     Files m' = Files m1 \<and> NReduce m' = NReduce m1"
    using Suc.hyps(2) Suc.prems j m1 d1(2) k by (intro Suc.hyps(1)[of m1 "Suc j"]) auto
  then show ?case using m1 k by auto
qed

lemma lone_reduce_step:
  assumes ok: "master_ok m" and st: "RdcStates m = progress j N" "NReduce m = int N" and j: "j < N"
    and d: "do_reduce reducef (rdc_reply (go_len (Files m)) (NReduce m) (int j)) d = Inr d1"
  shows "\<exists>m1. worker_reduces (Suc k) reducef now False (m, d) = worker_reduces k reducef now False (m1, d1) \<and>
     master_ok m1 \<and> RdcStates m1 = progress (Suc j) N \<and> MapStates m1 = MapStates m \<and>
     Files m1 = Files m \<and> NReduce m1 = NReduce m"
proof -
  let ?m1 = "m\<lparr>RdcStates := progress (Suc j) N, TaskTime := (TaskTime m)[j := now]\<rparr>"
  have len: "length (RdcStates m) = N" "N \<le> length (TaskTime m)" using ok j by (auto simp: master_ok_def st progress_simps)
  have g: "GetFile now \<lparr>gf_TaskType = rdcTask\<rparr> m =
      Inr (m\<lparr>RdcStates := (RdcStates m)[j := doing], TaskTime := (TaskTime m)[j := now]\<rparr>, rdc_reply (go_len (Files m)) (NReduce m) (int j))"
    using j len by (simp add: GetFile_def st progress_simps go_set_def go_len_def rdc_reply_def GetFileReply0_def Let_def)
  have s: "SetState \<lparr>ss_TaskType = rdcTask, ss_Id = int j, ss_State = finished\<rparr>
      (m\<lparr>RdcStates := (RdcStates m)[j := doing], TaskTime := (TaskTime m)[j := now]\<rparr>) = Inr (?m1, \<lparr>ssr_Success = True\<rparr>)"
    using j len by (simp add: SetState_def st progress_simps go_set_def go_len_def)
  have ok1: "master_ok ?m1" using ok j st by (auto simp: master_ok_def progress_simps states_ok_def progress_def)
  have "worker_reduces (Suc k) reducef now False (m, d) = worker_reduces k reducef now False (?m1, d1)"
    using j s d by (simp add: g TaskFinished_def st progress_simps rdc_reply_def Let_def)
  with ok1 show ?thesis by (intro exI[of _ ?m1]) simp
qed

lemma lone_reduces:
  assumes "master_ok m" and "RdcStates m = progress j N" "NReduce m = int N" and "j \<le> N" and "N - j + 2 \<le> k"
    and "reduce_phase reducef (length (Files m)) (NReduce m) [j..<N] d = Inr d'"
  shows "\<exists>m'. worker_reduces k reducef now False (m, d) = Some (Inr (m', d')) \<and>
     RdcStates m' = replicate N finished \<and> MapStates m' = MapStates m"
  using assms
proof (induction "N - j" arbitrary: j m d k)
  case 0
  then have j: "j = N" by simp
  obtain k' where k: "k = Suc (Suc k')" using 0 by (metis add_2_eq_Suc' Suc_le_D Suc_le_mono)
  have "GetFile now \<lparr>gf_TaskType = rdcTask\<rparr> m = Inr (m, GetFileReply0\<lparr>gfr_Id := NReduce m\<rparr>)"
    using 0 j by (simp add: GetFile_def progress_simps)
  then have "worker_reduces k reducef now False (m, d) = Some (Inr (m, d))"
    using 0 j by (simp add: k TaskFinished_def progress_simps GetFileReply0_def Let_def)
  then show ?case using 0 j by (simp add: progress_ends)
next
  case (Suc x)
  then have j: "j < N" by simp
  have upt: "[j..<N] = j # [Suc j..<N]" using j by (simp add: upt_conv_Cons)
  obtain k' where k: "k = Suc k'" using Suc.prems by (cases k) auto
  obtain d1 where d1: "do_reduce reducef (rdc_reply (go_len (Files m)) (NReduce m) (int j)) d = Inr d1"
      "reduce_phase reducef (length (Files m)) (NReduce m) [Suc j..<N] d1 = Inr d'"
    using Suc.prems(6) by (auto simp: upt go_len_def go_simps)
  obtain m1 where m1: "worker_reduces (Suc k') reducef now False (m, d) = worker_reduces k' reducef now False (m1, d1)"
     "master_ok m1" "RdcStates m1 = progress (Suc j) N" "MapStates m1 = MapStates m"
     "Files m1 = Files m" "NReduce m1 = NReduce m"
    using lone_reduce_step[OF Suc.prems(1,2,3) j d1(1), of k' now] by blast
  have "\<exists>m'. worker_reduces k' reducef now False (m1, d1) = Some (Inr (m', d')) \<and>
     RdcStates m' = replicate N finished \<and> MapStates m' = MapStates m1"
    using Suc.hyps(2) Suc.prems j m1 d1(2) k by (intro Suc.hyps(1)[of "Suc j"]) auto
  then show ?case using m1 k by auto
qed

end
