(* ===== verification/MR_Job.thy ===== *)
theory MR_Job
  imports MR_Worker
begin

text \<open>
  A MapReduce job from end to end. What the framework relies on in an application is the
  locale \<open>mr_app\<close>: its \<open>Reduce\<close> must not depend on the order of the values, and its \<open>Map\<close>
  must emit UTF-8, since the pairs go through JSON; \<open>suits\<close> says for which files it does.
  Inside the locale, a job in which every task is executed once, in any order and by any number of
  workers, is shown to produce what the sequential program produces, and a worker alone
  with the master is shown to finish.
\<close>

section \<open>Clean jobs\<close>

text \<open>No leftovers of an earlier job, every input present, at least one reduce task.\<close>

definition clean_job :: "string list \<Rightarrow> nat \<Rightarrow> directory \<Rightarrow> bool" where
  "clean_job files n d \<longleftrightarrow> 0 < n \<and> set files \<subseteq> dom (inputs d) \<and> '''' \<notin> set files \<and> inter d = Map.empty"

lemma clean_inter: "clean_job files n d \<Longrightarrow> inter_at d a y = []"
  by (simp add: clean_job_def inter_at_def)

lemma map_phase_mapped:
  assumes "clean_job files n d" and "distinct is" and "set is = {..<length files}"
  shows "\<exists>d'. map_phase mapf srt files (int n) is d = Inr d' \<and> inputs d' = inputs d \<and> outs d' = outs d \<and>
     (\<forall>r. mapped mapf srt files (int n) d r d')"
proof -
  obtain d' where d': "map_phase mapf srt files (int n) is d = Inr d'" "inputs d' = inputs d" "outs d' = outs d"
    "\<forall>a y. inter_at d' a y = inter_at d a y @ (if a \<in> int ` set is
       then map (\<lambda>g. Some (json_record g)) (filter (\<lambda>g. ihash (kvs_Key g) mod int n = y) (runs (srt (emitted mapf files d (nat a))))) else [])"
    using map_phase_inter[of "int n" files d "is" mapf srt] assms unfolding clean_job_def by auto
  then have "mapped mapf srt files (int n) d r d'" for r
    using assms(3) clean_inter[OF assms(1)] by (auto simp: mapped_def)
  with d' show ?thesis by blast
qed

text \<open>All lines of the output files \<open>mr-out-0\<close> to \<open>mr-out-(n-1)\<close>.\<close>

definition all_lines :: "nat \<Rightarrow> directory \<Rightarrow> string list" where
  "all_lines n d = concat (map (\<lambda>r. listed (outs d (int r))) [0..<n])"

locale mr_app =
  fixes mapf :: "string \<Rightarrow> string \<Rightarrow> KeyValue list" and reducef :: "string \<Rightarrow> string list \<Rightarrow> string"
    and suits :: "string \<Rightarrow> string \<Rightarrow> bool"
  assumes reduce_order_free: "order_free reducef"
    and map_text: "suits name content \<Longrightarrow> kv \<in> set (mapf name content) \<Longrightarrow> text_kv kv"
begin

lemma emits_text:
  assumes "\<forall>f\<in>set files. suits f (the (inputs d f))"
  shows "\<forall>kv\<in>set (all_emitted mapf files d). text_kv kv"
  by (auto simp: all_emitted_def emitted_def dest: map_text[OF bspec[OF assms nth_mem]])

text \<open>The files a complete reduce phase writes.\<close>

lemma job_output:
  assumes c: "clean_job files n d" and suit: "\<forall>f\<in>set files. suits f (the (inputs d f))" and s: "sorts srt"
    and i: "distinct is" "set is = {..<length files}"
    and r: "distinct rs" "set rs = {..<n}" and m: "map_phase mapf srt files (int n) is d = Inr d1"
  defines "E \<equiv> all_emitted mapf files d"
  obtains d2 where "reduce_phase reducef (length files) (int n) rs d1 = Inr d2"
    and "\<And>q. q < n \<Longrightarrow> outs d2 (int q) = Some (job_lines reducef E {k \<in> mr_Key ` set E. ihash k mod int n = int q})"
    and "mset (all_lines n d2) = mset (job_lines reducef E (mr_Key ` set E))"
proof -
  have map: "mapped mapf srt files (int n) d y d1" for y
    using map_phase_mapped[OF c i, of mapf srt] m by auto
  obtain d2 where d2: "reduce_phase reducef (length files) (int n) rs d1 = Inr d2" "\<forall>y. outs d2 y =
      (if y \<in> int ` set rs then Some (job_lines reducef E {k \<in> mr_Key ` set E. ihash k mod int n = y}) else outs d1 y)"
    using reduce_phase_lines[OF s reduce_order_free emits_text[OF suit] r(1), of "int n" d1] map by (auto simp: E_def)
  then have out: "outs d2 (int q) = Some (job_lines reducef E {k \<in> mr_Key ` set E. ihash k mod int n = int q})" if "q < n" for q
    using that r(2) by simp
  have "all_lines n d2 = concat (map (\<lambda>r. job_lines reducef E {k \<in> mr_Key ` set E. ihash k mod int n = int r}) [0..<n])"
    unfolding all_lines_def using out by (auto intro!: arg_cong[where f = concat] map_cong)
  then have "mset (all_lines n d2) = mset (job_lines reducef E (mr_Key ` set E))"
    using lines_partition[of "mr_Key ` set E" n reducef E] c by (simp add: clean_job_def)
  with that[OF d2(1) out] show thesis by blast
qed

lemma sequential_output:
  assumes "clean_job files n d" and "sorts srt"
  defines "E \<equiv> all_emitted mapf files d"
  shows "\<exists>d'. mrsequential mapf reducef srt files d = Inr d' \<and> outs d' 0 = Some (job_lines reducef E (mr_Key ` set E))"
  using assms read_all_eq[of files d mapf] sequential_lines[OF assms(2) reduce_order_free]
  by (auto simp: mrsequential_def clean_job_def)

text \<open>Tasks executed once each, in any order, give the lines of the sequential program.\<close>

lemma any_order_eq_sequential:
  assumes "clean_job files n d" and "\<forall>f\<in>set files. suits f (the (inputs d f))" and "sorts srt" and "sorts srt'"
    and "distinct is" "set is = {..<length files}" and "distinct rs" "set rs = {..<n}"
  shows "\<exists>d1 d2 ds. map_phase mapf srt files (int n) is d = Inr d1 \<and> reduce_phase reducef (length files) (int n) rs d1 = Inr d2 \<and>
     mrsequential mapf reducef srt' files d = Inr ds \<and> mset (all_lines n d2) = mset (listed (outs ds 0))"
proof -
  obtain d1 where d1: "map_phase mapf srt files (int n) is d = Inr d1" using map_phase_mapped[OF assms(1,5,6)] by blast
  obtain ds where "mrsequential mapf reducef srt' files d = Inr ds"
    "outs ds 0 = Some (job_lines reducef (all_emitted mapf files d) (mr_Key ` set (all_emitted mapf files d)))"
    using sequential_output[OF assms(1,4)] by blast
  moreover obtain d2 where "reduce_phase reducef (length files) (int n) rs d1 = Inr d2"
    "mset (all_lines n d2) = mset (job_lines reducef (all_emitted mapf files d) (mr_Key ` set (all_emitted mapf files d)))"
    using job_output[OF assms(1,2,3,5-8) d1] by blast
  ultimately show ?thesis using d1 by auto
qed

text \<open>A worker alone with the master ends, and leaves the same lines.\<close>

lemma lone_worker:
  assumes c: "clean_job files n d" and suit: "\<forall>f\<in>set files. suits f (the (inputs d f))" and s: "sorts srt"
    and m: "MakeMaster files (int n) = Inr m" and k: "max (length files) n + 2 \<le> k"
  shows "\<exists>m' d'. Worker k mapf reducef srt now (m, d) = Some (Inr (m', d')) \<and>
     \<not> unfinished (MapStates m') \<and> \<not> unfinished (RdcStates m') \<and>
     mset (all_lines n d') = mset (job_lines reducef (all_emitted mapf files d) (mr_Key ` set (all_emitted mapf files d)))"
proof -
  have n: "0 < n" and ne: "'''' \<notin> set files" using c by (auto simp: clean_job_def)
  have k1: "length files + 2 \<le> k" "n + 2 \<le> k" using k by auto
  have mm: "master_ok m" "Files m = files" "NReduce m = int n" "MapStates m = progress 0 (length files)" "RdcStates m = progress 0 n"
    using m MakeMaster_ok[OF m] by (auto simp: MakeMaster_def progress_ends)
  obtain d1 where d1: "map_phase mapf srt files (int n) [0..<length files] d = Inr d1"
    using map_phase_mapped[OF c, of "[0..<length files]" mapf srt] by (auto simp: lessThan_atLeast0)
  obtain m1 where m1: "worker_maps k mapf srt now False (m, d) = Some (Inr (m1, d1))" "master_ok m1"
    "MapStates m1 = replicate (length files) finished" "RdcStates m1 = progress 0 n" "Files m1 = files" "NReduce m1 = int n"
    using lone_maps[of m 0 mapf srt d d1 k now] mm ne d1 k1(1) by auto
  have maps: "worker_maps k mapf srt now (tfr_TaskFinished (TaskFinished \<lparr>tf_TaskType = mapTask\<rparr> m)) (m, d) = Some (Inr (m1, d1))"
  proof (cases "files = []")
    case True
    then obtain k' where "k = Suc k'" using k by (cases k) auto
    moreover have "m1 = m \<and> d1 = d" using True m1(1) d1 mm \<open>k = Suc k'\<close> k
      by (cases k') (auto simp: GetFile_def progress_simps TaskFinished_def GetFileReply0_def progress_def split: if_splits)
    ultimately show ?thesis using True mm by (simp add: TaskFinished_def progress_simps)
  next
    case False
    then show ?thesis using m1(1) mm(4) by (simp add: TaskFinished_def progress_simps)
  qed
  have all: "set [0..<length files] = {..<length files}" "set [0..<n] = {..<n}" by (simp_all add: lessThan_atLeast0)
  obtain d2 where d2: "reduce_phase reducef (length files) (int n) [0..<n] d1 = Inr d2"
    "mset (all_lines n d2) = mset (job_lines reducef (all_emitted mapf files d) (mr_Key ` set (all_emitted mapf files d)))"
    using job_output[OF c suit s distinct_upt all(1) distinct_upt all(2) d1] by blast
  obtain m2 where m2: "worker_reduces k reducef now False (m1, d1) = Some (Inr (m2, d2))"
    "RdcStates m2 = replicate n finished" "MapStates m2 = MapStates m1"
    using lone_reduces[of m1 0 n k reducef d1 d2 now] m1 k1(2) d2(1) by auto
  have "Worker k mapf reducef srt now (m, d) = Some (Inr (m2, d2))"
    using maps m2(1) m1(4) n by (simp add: Worker_def TaskFinished_def progress_simps)
  then show ?thesis using m1(3) m2(2,3) d2(2) by (auto simp: unfinished_iff)
qed

end

end
