(* ===== verification/MR_Apps.thy ===== *)
theory MR_Apps
  imports MR_Job
begin

text \<open>
  \<open>src/src/mrapps\<close>: the word-count and indexer applications, the crash-test pair, and the
  parts of the timing applications that do not look at other processes. Which runes
  are letters (\<open>unicode.IsLetter\<close>), the order in which \<open>range\<close> visits a map and the random
  numbers are arguments. Each application is shown to be an \<open>mr_app\<close>.
\<close>

section \<open>Library functions\<close>

text \<open>The maximal runs of elements that are not separators.\<close>

function fields :: "('a \<Rightarrow> bool) \<Rightarrow> 'a list \<Rightarrow> 'a list list" where
  "fields f s =
     (case dropWhile f s of
        [] \<Rightarrow> []
      | c # cs \<Rightarrow> (c # takeWhile (\<lambda>x. \<not> f x) cs) # fields f (dropWhile (\<lambda>x. \<not> f x) cs))"
  by pat_completeness auto
termination
proof (relation "measure (\<lambda>(f, s). length s)")
  fix f :: "'a \<Rightarrow> bool" and s c cs
  assume "dropWhile f s = c # cs"
  then have "length cs < length s" using length_dropWhile_le[of f s] by simp
  then show "((f, dropWhile (\<lambda>x. \<not> f x) cs), f, s) \<in> measure (\<lambda>(f, s). length s)"
    using length_dropWhile_le[of "\<lambda>x. \<not> f x" cs] by simp
qed simp

declare fields.simps [simp del]

text \<open>\<open>strings.FieldsFunc\<close>: the bytes of the maximal runs of runes that are not separators.\<close>

definition FieldsFunc :: "(int \<Rightarrow> bool) \<Rightarrow> string \<Rightarrow> string list" where
  "FieldsFunc f s = map (\<lambda>w. concat (map snd w)) (fields (\<lambda>x. f (fst x)) (runes s))"

text \<open>\<open>strings.Join\<close>.\<close>

fun Join :: "string list \<Rightarrow> string \<Rightarrow> string" where
  "Join [] sep = ''''"
| "Join [a] sep = a"
| "Join (a # b # as) sep = a @ sep @ Join (b # as) sep"

section \<open>The applications\<close>

definition wc_Map :: "(int \<Rightarrow> bool) \<Rightarrow> string \<Rightarrow> string \<Rightarrow> KeyValue list" where
  "wc_Map isLetter filename contents =
     (let words = FieldsFunc (\<lambda>r. \<not> isLetter r) contents
      in map (\<lambda>w. \<lparr>mr_Key = w, mr_Value = ''1''\<rparr>) words)"

definition wc_Reduce :: "string \<Rightarrow> string list \<Rightarrow> string" where
  "wc_Reduce key values = Itoa (go_len values)"

definition indexer_Map :: "(string list \<Rightarrow> string list) \<Rightarrow> (int \<Rightarrow> bool) \<Rightarrow> string \<Rightarrow> string \<Rightarrow> KeyValue list" where
  "indexer_Map visit isLetter document value =
     (let words = FieldsFunc (\<lambda>x. \<not> isLetter x) value;
          m = remdups words
      in map (\<lambda>w. \<lparr>mr_Key = w, mr_Value = document\<rparr>) (visit m))"

definition indexer_Reduce :: "string \<Rightarrow> string list \<Rightarrow> string" where
  "indexer_Reduce key values =
     (let values = sort values in Itoa (go_len values) @ '' '' @ Join values '','')"

text \<open>\<open>crash.go\<close> and \<open>nocrash.go\<close>: \<open>rr\<close> is the random number below 1000; leaving the process is a panic.\<close>

definition crash_maybeCrash :: "int \<Rightarrow> unit go" where
  "crash_maybeCrash rr = (if rr < 330 then Inl (Fatal ''exit status 1'') else Inr ())"

definition nocrash_maybeCrash :: "int \<Rightarrow> unit go" where
  "nocrash_maybeCrash rr = (if False \<and> rr < 500 then Inl (Fatal ''exit status 1'') else Inr ())"

definition crash_kva :: "string \<Rightarrow> string \<Rightarrow> KeyValue list" where
  "crash_kva filename contents =
     [\<lparr>mr_Key = ''a'', mr_Value = filename\<rparr>,
      \<lparr>mr_Key = ''b'', mr_Value = Itoa (go_len filename)\<rparr>,
      \<lparr>mr_Key = ''c'', mr_Value = Itoa (go_len contents)\<rparr>,
      \<lparr>mr_Key = ''d'', mr_Value = ''xyzzy''\<rparr>]"

definition sorted_join :: "string \<Rightarrow> string list \<Rightarrow> string" where
  "sorted_join key values = (let vv = sort values in Join vv '' '')"

definition crash_Map :: "int \<Rightarrow> string \<Rightarrow> string \<Rightarrow> KeyValue list go" where
  "crash_Map rr filename contents = go_bind (crash_maybeCrash rr) (\<lambda>_. Inr (crash_kva filename contents))"

definition crash_Reduce :: "int \<Rightarrow> string \<Rightarrow> string list \<Rightarrow> string go" where
  "crash_Reduce rr key values = go_bind (crash_maybeCrash rr) (\<lambda>_. Inr (sorted_join key values))"

definition nocrash_Map :: "int \<Rightarrow> string \<Rightarrow> string \<Rightarrow> KeyValue list go" where
  "nocrash_Map rr filename contents = go_bind (nocrash_maybeCrash rr) (\<lambda>_. Inr (crash_kva filename contents))"

definition nocrash_Reduce :: "int \<Rightarrow> string \<Rightarrow> string list \<Rightarrow> string go" where
  "nocrash_Reduce rr key values = go_bind (nocrash_maybeCrash rr) (\<lambda>_. Inr (sorted_join key values))"

definition rtiming_Map :: "string \<Rightarrow> string \<Rightarrow> KeyValue list" where
  "rtiming_Map filename contents =
     map (\<lambda>k. \<lparr>mr_Key = k, mr_Value = ''1''\<rparr>)
       [''a'', ''b'', ''c'', ''d'', ''e'', ''f'', ''g'', ''h'', ''i'', ''j'']"

definition mtiming_Reduce :: "string \<Rightarrow> string list \<Rightarrow> string" where
  "mtiming_Reduce key values = sorted_join key values"

section \<open>Every application is an \<open>mr_app\<close>\<close>

lemma sort_cong_mset: "mset vs = mset ws \<Longrightarrow> sort vs = sort ws"
  by (rule properties_for_sort) simp_all

lemma wc_order_free: "order_free wc_Reduce"
  by (auto simp: order_free_def wc_Reduce_def go_len_def dest: mset_eq_length)


lemma indexer_order_free: "order_free indexer_Reduce"
  unfolding order_free_def
proof (intro allI impI)
  fix k :: string and vs ws :: "string list" assume "mset vs = mset ws"
  then have "sort vs = sort ws" by (rule sort_cong_mset)
  then show "indexer_Reduce k vs = indexer_Reduce k ws" by (simp only: indexer_Reduce_def)
qed

lemma sorted_join_order_free: "order_free sorted_join"
  by (auto simp: order_free_def sorted_join_def Let_def dest!: sort_cong_mset)

text \<open>The words of a text: they consist of letters, and together they are all its letters.\<close>

lemma fields_letters: "concat (fields f s) = filter (\<lambda>c. \<not> f c) s"
proof (induction f s rule: fields.induct)
  case (1 f s)
  have drop: "filter (\<lambda>c. \<not> f c) s = filter (\<lambda>c. \<not> f c) (dropWhile f s)"
    by (induction s) auto
  show ?case
  proof (cases "dropWhile f s")
    case Nil
    have "fields f s = []" by (subst fields.simps) (simp only: Nil list.case)
    then show ?thesis using drop unfolding Nil by simp
  next
    case (Cons c cs)
    have c: "\<not> f c" using Cons hd_dropWhile[of f s] by auto
    have "filter (\<lambda>c. \<not> f c) cs = takeWhile (\<lambda>x. \<not> f x) cs @ filter (\<lambda>c. \<not> f c) (dropWhile (\<lambda>x. \<not> f x) cs)"
      by (induction cs) auto
    moreover have "fields f s = (c # takeWhile (\<lambda>x. \<not> f x) cs) # fields f (dropWhile (\<lambda>x. \<not> f x) cs)"
      by (subst fields.simps) (simp only: Cons list.case)
    ultimately show ?thesis using 1[OF Cons] c drop unfolding Cons by simp
  qed
qed

text \<open>When \<open>U+FFFD\<close> is not a letter, words are UTF-8, whatever the text is.\<close>

lemma words_valid:
  assumes "\<not> isLetter RuneError" and "w \<in> set (FieldsFunc (\<lambda>r. \<not> isLetter r) s)"
  shows "valid_utf8 w"
proof -
  obtain xs where xs: "xs \<in> set (fields (\<lambda>x. \<not> isLetter (fst x)) (runes s))" "w = concat (map snd xs)"
    using assms(2) by (auto simp: FieldsFunc_def)
  have "x \<in> set (runes s) \<and> isLetter (fst x)" if "x \<in> set xs" for x
  proof -
    have "x \<in> set (concat (fields (\<lambda>x. \<not> isLetter (fst x)) (runes s)))" using that xs(1) by auto
    then show ?thesis unfolding fields_letters by simp
  qed
  then have "\<not> bad_rune x" "x \<in> set (runes s)" if "x \<in> set xs" for x
    using that assms(1) unfolding bad_rune_def by metis+
  then show ?thesis unfolding xs(2) using runes_whole by (intro valid_concat) blast
qed

lemma letters_valid: "valid_utf8 ''1''" "valid_utf8 ''a''" "valid_utf8 ''b''" "valid_utf8 ''c''" "valid_utf8 ''d''" "valid_utf8 ''xyzzy''"
  by code_simp+

interpretation wc: mr_app "wc_Map isLetter" wc_Reduce "\<lambda>name content. \<not> isLetter RuneError" for isLetter
proof
  show "order_free wc_Reduce" by (rule wc_order_free)
  show "text_kv kv" if "\<not> isLetter RuneError" "kv \<in> set (wc_Map isLetter name content)" for name content kv
    using that words_valid[of isLetter] letters_valid by (auto simp: wc_Map_def text_kv_def)
qed

interpretation indexer: mr_app "indexer_Map visit isLetter" indexer_Reduce
  "\<lambda>name content. \<not> isLetter RuneError \<and> valid_utf8 name \<and> (\<forall>ws. set (visit ws) \<subseteq> set ws)" for visit isLetter
proof
  show "order_free indexer_Reduce" by (rule indexer_order_free)
  show "text_kv kv" if s: "\<not> isLetter RuneError \<and> valid_utf8 name \<and> (\<forall>ws. set (visit ws) \<subseteq> set ws)"
    and "kv \<in> set (indexer_Map visit isLetter name content)" for name content kv
  proof -
    from that(2) obtain w where w: "w \<in> set (visit (remdups (FieldsFunc (\<lambda>r. \<not> isLetter r) content)))"
      and kv: "kv = \<lparr>mr_Key = w, mr_Value = name\<rparr>" by (auto simp: indexer_Map_def)
    have "w \<in> set (FieldsFunc (\<lambda>r. \<not> isLetter r) content)" using w s by fastforce
    then show ?thesis using words_valid[of isLetter w content] s by (simp add: kv text_kv_def)
  qed
qed

interpretation crashtest: mr_app crash_kva sorted_join "\<lambda>name content. valid_utf8 name"
proof
  show "order_free sorted_join" by (rule sorted_join_order_free)
  show "text_kv kv" if "valid_utf8 name" "kv \<in> set (crash_kva name content)" for name content kv
    using that Itoa_valid letters_valid by (auto simp: crash_kva_def text_kv_def)
qed

lemma nocrash_returns:
  "nocrash_Map rr f c = Inr (crash_kva f c)" "nocrash_Reduce rr k vs = Inr (sorted_join k vs)"
  by (simp_all add: nocrash_Map_def nocrash_Reduce_def nocrash_maybeCrash_def)

lemma crash_returns:
  "crash_Map rr f c = (if rr < 330 then Inl (Fatal ''exit status 1'') else nocrash_Map rr f c)"
  "crash_Reduce rr k vs = (if rr < 330 then Inl (Fatal ''exit status 1'') else nocrash_Reduce rr k vs)"
  by (simp_all add: crash_Map_def crash_Reduce_def crash_maybeCrash_def nocrash_returns)

section \<open>Word count\<close>

definition wc_words :: "(int \<Rightarrow> bool) \<Rightarrow> string list \<Rightarrow> directory \<Rightarrow> string list" where
  "wc_words isLetter files d = concat (map (\<lambda>f. FieldsFunc (\<lambda>r. \<not> isLetter r) (the (inputs d f))) files)"

lemma wc_values:
  "values_for k (map (\<lambda>w. \<lparr>mr_Key = w, mr_Value = ''1''\<rparr>) ws) = replicate (count_list ws k) ''1''"
  by (induction ws) (auto simp: values_for_def)

lemma wc_emitted:
  "all_emitted (wc_Map isLetter) files d = map (\<lambda>w. \<lparr>mr_Key = w, mr_Value = ''1''\<rparr>) (wc_words isLetter files d)"
proof -
  have "map (emitted (wc_Map isLetter) files d) [0..<length files] =
      map (\<lambda>f. map (\<lambda>w. \<lparr>mr_Key = w, mr_Value = ''1''\<rparr>) (FieldsFunc (\<lambda>r. \<not> isLetter r) (the (inputs d f)))) files"
    by (intro nth_equalityI) (auto simp: emitted_def wc_Map_def)
  then show ?thesis by (simp add: all_emitted_def wc_words_def map_concat o_def)
qed

lemma wc_lines:
  "job_lines wc_Reduce (all_emitted (wc_Map isLetter) files d) (mr_Key ` set (all_emitted (wc_Map isLetter) files d)) =
   map (\<lambda>w. out_line w (Itoa (int (count_list (wc_words isLetter files d) w)))) (sorted_keys (set (wc_words isLetter files d)))"
  by (simp add: wc_emitted job_lines_def wc_values wc_Reduce_def go_len_def image_image)

section \<open>What a job guarantees\<close>

definition sample_letter :: "int \<Rightarrow> bool" where
  "sample_letter r \<longleftrightarrow> r \<noteq> 32 \<and> r \<noteq> RuneError"

definition sample_dir :: directory where
  "sample_dir = \<lparr>inputs = [''f'' \<mapsto> ''a b a'', ''g'' \<mapsto> ''b''], inter = Map.empty, outs = Map.empty\<rparr>"

lemma sample_clean: "clean_job [''f'', ''g''] 2 sample_dir"
  by (simp add: clean_job_def sample_dir_def)

lemma sample_sorts: "sorts (sort_key mr_Key)"
  by (simp add: sorts_def)

text \<open>
  C25. MapReduce computes what the sequential program computes. If every map task and then
  every reduce task is executed once, in any order, on a directory without leftovers, all of
  them succeed and the output files together hold the same lines as \<open>mrsequential\<close>'s single
  file, whatever the two sorts do with equal keys, for every application whose \<open>Reduce\<close> does
  not depend on the order of values and whose \<open>Map\<close> emits UTF-8 on the job's files. (JSON
  would change other bytes.)
\<close>

theorem job_eq_sequential:
  assumes "order_free reducef" and "\<forall>f\<in>set files. \<forall>kv\<in>set (mapf f (the (inputs d f))). valid_utf8 (mr_Key kv) \<and> valid_utf8 (mr_Value kv)"
    and "clean_job files n d" and "sorts srt" and "sorts srt'"
    and "distinct is" and "set is = {..<length files}" and "distinct rs" and "set rs = {..<n}"
  shows "\<exists>d1 d2 ds. map_phase mapf srt files (int n) is d = Inr d1 \<and> reduce_phase reducef (length files) (int n) rs d1 = Inr d2 \<and>
     mrsequential mapf reducef srt' files d = Inr ds \<and> mset (all_lines n d2) = mset (listed (outs ds 0))"
proof -
  have "mr_app mapf reducef (\<lambda>name content. \<forall>kv\<in>set (mapf name content). text_kv kv)"
    using assms(1) by unfold_locales auto
  from mr_app.any_order_eq_sequential[OF this assms(3) _ assms(4-9)] assms(2) show ?thesis by (simp add: text_kv_def)
qed

theorem job_eq_sequential_witness:
  "\<exists>d1 d2 ds. map_phase (wc_Map sample_letter) (sort_key mr_Key) [''f'', ''g''] 2 [1, 0] sample_dir = Inr d1 \<and>
     reduce_phase wc_Reduce 2 2 [1, 0] d1 = Inr d2 \<and>
     mrsequential (wc_Map sample_letter) wc_Reduce (sort_key mr_Key) [''f'', ''g''] sample_dir = Inr ds \<and>
     mset (all_lines 2 d2) = mset (listed (outs ds 0))"
proof -
  have i: "distinct [1, 0 :: nat]" "set [1, 0] = {..<length [''f'', ''g'']}" "set [1, 0] = {..<(2::nat)}" by auto
  have t: "\<forall>f\<in>set [''f'', ''g'']. \<forall>kv\<in>set (wc_Map sample_letter f (the (inputs sample_dir f))). valid_utf8 (mr_Key kv) \<and> valid_utf8 (mr_Value kv)"
    using wc.map_text[of sample_letter] by (auto simp: text_kv_def sample_letter_def)
  show ?thesis
    using job_eq_sequential[where mapf = "wc_Map sample_letter", OF wc_order_free t sample_clean sample_sorts sample_sorts i(1,2) i(1,3)]
    by (simp add: eval_nat_numeral del: map_phase.simps reduce_phase.simps)
qed

text \<open>
  C26. A single worker finishes a word-count job: with as many iterations as there are
  tasks of one kind and two more, the worker's two loops end, every task is finished, and
  the output lists each word of the input files once, with the number of its occurrences.
  The files may hold any bytes; of \<open>unicode.IsLetter\<close> it is only used that \<open>U+FFFD\<close>, as which
  a byte outside UTF-8 counts, is not a letter.
\<close>

theorem wc_lone_worker:
  assumes "clean_job files n d" and "sorts srt" and "MakeMaster files (int n) = Inr m" and "\<not> isLetter RuneError"
  shows "\<exists>m' d'. Worker (max (length files) n + 2) (wc_Map isLetter) wc_Reduce srt now (m, d) = Some (Inr (m', d')) \<and>
     \<not> unfinished (MapStates m') \<and> \<not> unfinished (RdcStates m') \<and>
     mset (all_lines n d') = mset (map (\<lambda>w. out_line w (Itoa (int (count_list (wc_words isLetter files d) w))))
       (sorted_keys (set (wc_words isLetter files d))))"
  using wc.lone_worker[OF assms(1) _ assms(2,3) order_refl, of isLetter now] assms(4) unfolding wc_lines by simp

theorem wc_lone_worker_witness:
  "\<exists>m m' d'. MakeMaster [''f'', ''g''] 2 = Inr m \<and>
     Worker 4 (wc_Map sample_letter) wc_Reduce (sort_key mr_Key) 7 (m, sample_dir) = Some (Inr (m', d')) \<and>
     mset (all_lines 2 d') = mset [out_line ''a'' ''2'', out_line ''b'' ''2'']"
proof -
  obtain m where m: "MakeMaster [''f'', ''g''] (int 2) = Inr m" by (simp add: MakeMaster_def)
  have w: "wc_words sample_letter [''f'', ''g''] sample_dir = [''a'', ''b'', ''a'', ''b'']" by code_simp
  have k: "sorted_keys (set [''a'', ''b'', ''a'', ''b'']) = [''a'', ''b'']" and i: "Itoa 2 = ''2''" by code_simp+
  have "map (\<lambda>v. out_line v (Itoa (int (count_list [''a'', ''b'', ''a'', ''b''] v))))
      (sorted_keys (set [''a'', ''b'', ''a'', ''b''])) = [out_line ''a'' ''2'', out_line ''b'' ''2'']"
    unfolding k by (simp add: i)
  moreover have "max (length [''f'', ''g'']) 2 + 2 = 4" by simp
  moreover obtain m' d' where "Worker (max (length [''f'', ''g'']) 2 + 2) (wc_Map sample_letter) wc_Reduce (sort_key mr_Key) 7 (m, sample_dir) = Some (Inr (m', d'))"
    "mset (all_lines 2 d') = mset (map (\<lambda>v. out_line v (Itoa (int (count_list [''a'', ''b'', ''a'', ''b''] v))))
      (sorted_keys (set [''a'', ''b'', ''a'', ''b''])))"
    using wc_lone_worker[OF sample_clean sample_sorts m, of sample_letter 7] unfolding w by (auto simp: sample_letter_def)
  moreover have "Suc (Suc (Suc (Suc 0))) = 4" by simp
  ultimately show ?thesis using m by (rule_tac exI[of _ m], rule_tac exI[of _ m'], rule_tac exI[of _ d']) simp
qed



end
