(* ===== verification/Bitset.thy ===== *)
theory Bitset
  imports Prelude
begin

unbundle bit_operations_syntax

text \<open>
  \<open>src/src/porcupine/bitset.go\<close>: sets of small numbers as slices of 64-bit words. The Go
  methods \<open>set\<close> and \<open>clear\<close> update the slice in place and return it; here they return the
  updated list. Positions outside the slice panic. The interface the checker relies on is
  the locale \<open>bit_sets\<close>: a bitset of \<open>n\<close> positions behaves like the set of the positions
  that are in it.
\<close>

section \<open>The operations\<close>

type_synonym bitset = "64 word list"

definition newBitset :: "nat \<Rightarrow> bitset" where
  "newBitset bits =
     (let extra = (if bits mod 64 \<noteq> 0 then 1 else 0);
          chunks = bits div 64 + extra
      in replicate chunks 0)"

text \<open>
  A slice is a value here, so a copy is the value itself. What the copy is for in Go, that
  the in-place \<open>set\<close> and \<open>clear\<close> do not show through to another holder of the slice, is
  built into the model.
\<close>

definition bs_clone :: "bitset \<Rightarrow> bitset" where
  "bs_clone b = b"

definition bitsetIndex :: "nat \<Rightarrow> nat \<times> nat" where
  "bitsetIndex pos = (pos div 64, pos mod 64)"

definition bs_set :: "nat \<Rightarrow> bitset \<Rightarrow> bitset go" where
  "bs_set pos b =
     (let (major, minor) = bitsetIndex pos in
      go_bind (go_index b (int major)) (\<lambda>w. go_set b (int major) (w OR push_bit minor 1)))"

definition bs_clear :: "nat \<Rightarrow> bitset \<Rightarrow> bitset go" where
  "bs_clear pos b =
     (let (major, minor) = bitsetIndex pos in
      go_bind (go_index b (int major)) (\<lambda>w. go_set b (int major) (w AND NOT (push_bit minor 1))))"

definition bs_get :: "nat \<Rightarrow> bitset \<Rightarrow> bool go" where
  "bs_get pos b =
     (let (major, minor) = bitsetIndex pos in
      go_bind (go_index b (int major)) (\<lambda>w. Inr (w AND push_bit minor 1 \<noteq> 0)))"

text \<open>\<open>bits.OnesCount64\<close>, and the two loops over the words.\<close>

definition OnesCount64 :: "64 word \<Rightarrow> nat" where
  "OnesCount64 w = length (filter (bit w) [0..<64])"

definition popcnt :: "bitset \<Rightarrow> nat" where
  "popcnt b = fold (\<lambda>v total. total + OnesCount64 v) b 0"

definition bs_hash :: "bitset \<Rightarrow> 64 word" where
  "bs_hash b = fold (\<lambda>v hash. hash XOR v) b (of_nat (popcnt b))"

fun bs_equals_from :: "bitset \<Rightarrow> bitset \<Rightarrow> bool" where
  "bs_equals_from [] b2 = True"
| "bs_equals_from (v # vs) b2 = (if v \<noteq> hd b2 then False else bs_equals_from vs (tl b2))"

definition bs_equals :: "bitset \<Rightarrow> bitset \<Rightarrow> bool" where
  "bs_equals b b2 = (if length b \<noteq> length b2 then False else bs_equals_from b b2)"

section \<open>The interface\<close>

locale bit_sets =
  fixes wf :: "nat \<Rightarrow> 'b \<Rightarrow> bool" and new :: "nat \<Rightarrow> 'b" and ins del :: "nat \<Rightarrow> 'b \<Rightarrow> 'b go"
    and mem :: "nat \<Rightarrow> 'b \<Rightarrow> bool go" and eq :: "'b \<Rightarrow> 'b \<Rightarrow> bool" and elems :: "'b \<Rightarrow> nat set"
  assumes new_wf: "wf n (new n)" and new_elems: "elems (new n) = {}"
    and ins_ok: "wf n b \<Longrightarrow> i < n \<Longrightarrow> \<exists>b'. ins i b = Inr b' \<and> wf n b' \<and> elems b' = insert i (elems b)"
    and del_ok: "wf n b \<Longrightarrow> i < n \<Longrightarrow> \<exists>b'. del i b = Inr b' \<and> wf n b' \<and> elems b' = elems b - {i}"
    and mem_ok: "wf n b \<Longrightarrow> i < n \<Longrightarrow> mem i b = Inr (i \<in> elems b)"
    and eq_iff: "wf n a \<Longrightarrow> wf n b \<Longrightarrow> eq a b \<longleftrightarrow> elems a = elems b"
begin

text \<open>Inserting a list of positions, as the checker does one linearized operation at a time.\<close>

lemma inserts:
  assumes "wf n b" and "set is \<subseteq> {..<n}"
  shows "\<exists>b'. foldl (\<lambda>r i. go_bind r (ins i)) (Inr b) is = Inr b' \<and> wf n b' \<and> elems b' = elems b \<union> set is"
  using assms
proof (induction "is" arbitrary: b)
  case (Cons i ids)
  obtain b1 where b1: "ins i b = Inr b1" "wf n b1" "elems b1 = insert i (elems b)"
    using ins_ok[OF Cons.prems(1), of i] Cons.prems(2) by auto
  then show ?case using Cons.IH[of b1] Cons.prems(2) by auto
qed simp

lemma ins_del:
  assumes "wf n b" and "i < n" and "i \<notin> elems b"
  shows "\<exists>b' b''. ins i b = Inr b' \<and> del i b' = Inr b'' \<and> eq b'' b"
proof -
  obtain b' where b': "ins i b = Inr b'" "wf n b'" "elems b' = insert i (elems b)" using ins_ok[OF assms(1,2)] by blast
  obtain b'' where "del i b' = Inr b''" "wf n b''" "elems b'' = elems b' - {i}" using del_ok[OF b'(2) assms(2)] by blast
  then show ?thesis using b' assms eq_iff[of n b'' b] by auto
qed

end

section \<open>The operations implement it\<close>

definition bs_elems :: "bitset \<Rightarrow> nat set" where
  "bs_elems b = {i. i < 64 * length b \<and> bit (b ! (i div 64)) (i mod 64)}"

definition bs_wf :: "nat \<Rightarrow> bitset \<Rightarrow> bool" where
  "bs_wf n b \<longleftrightarrow> length b = (n + 63) div 64 \<and> bs_elems b \<subseteq> {..<n}"

lemma chunk_bound: "length b = (n + 63) div 64 \<Longrightarrow> i < n \<Longrightarrow> i div 64 < length b"
  by (simp add: less_mult_imp_div_less)

lemma chunks_eq: "(n::nat) div 64 + (if n mod 64 \<noteq> 0 then 1 else 0) = (n + 63) div 64"
proof -
  obtain q r where n: "n = r + 64 * q" "r < 64" by (metis div_mult_mod_eq add.commute mult.commute mod_less_divisor zero_less_numeral)
  then have "(n + 63) div 64 = q + (r + 63) div 64" "n div 64 = q" "n mod 64 = r"
    by (simp_all add: add.commute add.left_commute)
  moreover have "(r + 63) div 64 = (if r \<noteq> 0 then 1 else 0)" using n(2) by (cases r) auto
  ultimately show ?thesis by simp
qed

lemma bit_set_word: "m < 64 \<Longrightarrow> k < 64 \<Longrightarrow> bit (w OR 2 ^ m) k \<longleftrightarrow> bit w k \<or> k = m" for w :: "64 word"
  by (auto simp: bit_simps)

lemma bit_clear_word: "m < 64 \<Longrightarrow> k < 64 \<Longrightarrow> bit (w AND NOT (2 ^ m)) k \<longleftrightarrow> bit w k \<and> k \<noteq> m" for w :: "64 word"
  by (auto simp: bit_simps)

lemma test_bit_word: "w AND 2 ^ m \<noteq> 0 \<longleftrightarrow> bit w m" for w :: "64 word"
  using bit_iff_and_push_bit_not_eq_0[of w m] by simp

text \<open>Changing one bit of one word changes one element.\<close>

lemma bs_elems_update:
  assumes i: "i div 64 < length b" and w: "\<And>k. k < 64 \<Longrightarrow> bit w k \<longleftrightarrow> (if k = i mod 64 then p else bit (b ! (i div 64)) k)"
  shows "bs_elems (b[i div 64 := w]) = (if p then insert i (bs_elems b) else bs_elems b - {i})"
proof -
  have lt: "i < 64 * length b" using i by (simp add: div_less_iff_less_mult mult.commute)
  have mem: "j \<in> bs_elems (b[i div 64 := w]) \<longleftrightarrow> (if j = i then p else j \<in> bs_elems b)" for j
  proof (cases "j div 64 = i div 64")
    case True
    then have "j = i \<longleftrightarrow> j mod 64 = i mod 64" by (metis div_mult_mod_eq)
    then have bw: "bit w (j mod 64) \<longleftrightarrow> (if j = i then p else bit (b ! (j div 64)) (j mod 64))"
      using w[of "j mod 64"] True by simp
    have "j < 64 * length b" using True i by (simp add: div_less_iff_less_mult[symmetric] mult.commute)
    then have "j \<in> bs_elems (b[i div 64 := w]) \<longleftrightarrow> bit w (j mod 64)" "j \<in> bs_elems b \<longleftrightarrow> bit (b ! (j div 64)) (j mod 64)"
      unfolding bs_elems_def mem_Collect_eq length_list_update True using i by simp_all
    then show ?thesis unfolding bw by simp
  next
    case False
    then show ?thesis using i by (auto simp: bs_elems_def)
  qed
  show ?thesis by (rule set_eqI) (simp add: mem)
qed

lemma bs_set_ok:
  assumes "bs_wf n b" and "i < n"
  shows "\<exists>b'. bs_set i b = Inr b' \<and> bs_wf n b' \<and> bs_elems b' = insert i (bs_elems b)"
proof -
  have i: "i div 64 < length b" using assms by (auto simp: bs_wf_def intro: chunk_bound)
  let ?w = "b ! (i div 64) OR push_bit (i mod 64) 1"
  have "bs_set i b = Inr (b[i div 64 := ?w])"
    using i by (simp add: bs_set_def bitsetIndex_def go_index_def go_set_def go_len_def)
  moreover have "bs_elems (b[i div 64 := ?w]) = insert i (bs_elems b)"
    using bs_elems_update[OF i, of ?w True] by (auto simp: bit_set_word)
  ultimately show ?thesis using assms by (auto simp: bs_wf_def)
qed

lemma bs_clear_ok:
  assumes "bs_wf n b" and "i < n"
  shows "\<exists>b'. bs_clear i b = Inr b' \<and> bs_wf n b' \<and> bs_elems b' = bs_elems b - {i}"
proof -
  have i: "i div 64 < length b" using assms by (auto simp: bs_wf_def intro: chunk_bound)
  let ?w = "b ! (i div 64) AND NOT (push_bit (i mod 64) 1)"
  have "bs_clear i b = Inr (b[i div 64 := ?w])"
    using i by (simp add: bs_clear_def bitsetIndex_def go_index_def go_set_def go_len_def)
  moreover have "bs_elems (b[i div 64 := ?w]) = bs_elems b - {i}"
    using bs_elems_update[OF i, of ?w False] by (auto simp: bit_clear_word)
  ultimately show ?thesis using assms by (auto simp: bs_wf_def)
qed

lemma bs_get_ok:
  assumes "bs_wf n b" and "i < n"
  shows "bs_get i b = Inr (i \<in> bs_elems b)"
proof -
  have i: "i div 64 < length b" using assms by (auto simp: bs_wf_def intro: chunk_bound)
  then have "i < 64 * length b" by (simp add: div_less_iff_less_mult mult.commute)
  then show ?thesis using i by (simp add: bs_get_def bitsetIndex_def go_index_def go_len_def test_bit_word bs_elems_def)
qed

lemma bs_equals_from_iff: "length b = length b2 \<Longrightarrow> bs_equals_from b b2 \<longleftrightarrow> b = b2"
  by (induction b b2 rule: list_induct2) auto

lemma bs_equals_iff:
  assumes "bs_wf n a" and "bs_wf n b"
  shows "bs_equals a b \<longleftrightarrow> bs_elems a = bs_elems b"
proof
  assume eq: "bs_elems a = bs_elems b"
  have len: "length a = length b" using assms by (simp add: bs_wf_def)
  have "a ! j = b ! j" if j: "j < length a" for j
  proof (rule bit_word_eqI)
    fix k assume "k < LENGTH(64)"
    then have "64 * j + k < 64 * length a" "(64 * j + k) div 64 = j" "(64 * j + k) mod 64 = k" using j by auto
    then show "bit (a ! j) k \<longleftrightarrow> bit (b ! j) k"
      using eq len by (auto simp: bs_elems_def set_eq_iff dest!: spec[of _ "64 * j + k"])
  qed
  then have "a = b" using len by (intro nth_equalityI)
  then show "bs_equals a b" by (simp add: bs_equals_def bs_equals_from_iff)
qed (auto simp: bs_equals_def bs_equals_from_iff split: if_splits)

interpretation bs: bit_sets bs_wf newBitset bs_set bs_clear bs_get bs_equals bs_elems
proof unfold_locales
  show "bs_elems (newBitset n) = {}" for n
    by (auto simp: bs_elems_def newBitset_def Let_def less_mult_imp_div_less mult.commute)
  then show "bs_wf n (newBitset n)" for n
    by (simp add: bs_wf_def newBitset_def Let_def flip: chunks_eq)
qed (auto intro: bs_set_ok bs_clear_ok bs_get_ok simp: bs_equals_iff)

section \<open>Counting\<close>

lemma bs_elems_Cons: "bs_elems (v # vs) = {k. k < 64 \<and> bit v k} \<union> (+) 64 ` bs_elems vs"
proof (intro equalityI subsetI)
  fix i assume "i \<in> bs_elems (v # vs)"
  then have i: "i < 64 * Suc (length vs)" "bit ((v # vs) ! (i div 64)) (i mod 64)" by (auto simp: bs_elems_def)
  show "i \<in> {k. k < 64 \<and> bit v k} \<union> (+) 64 ` bs_elems vs"
  proof (cases "i < 64")
    case False
    then obtain j where j: "i = 64 + j" by (metis le_add_diff_inverse linorder_not_less)
    moreover have "(64 + j) div 64 = Suc (j div 64)" "(64 + j) mod 64 = j mod 64" by simp_all
    ultimately have "j \<in> bs_elems vs" using i by (simp add: bs_elems_def del: div_mult_self1 div_mult_self2)
    then show ?thesis using j by blast
  qed (use i in auto)
next
  have "(64 + j) div 64 = Suc (j div 64)" for j :: nat by simp
  then show "i \<in> bs_elems (v # vs)" if "i \<in> {k. k < 64 \<and> bit v k} \<union> (+) 64 ` bs_elems vs" for i
    using that by (auto simp: bs_elems_def)
qed

lemma popcnt_card: "popcnt b = card (bs_elems b)"
proof -
  have "fold (\<lambda>v n. n + OnesCount64 v) b n = n + card (bs_elems b)" for n
  proof (induction b arbitrary: n)
    case (Cons v vs)
    have fin: "finite (bs_elems vs)" by (auto simp: bs_elems_def)
    have "card (bs_elems (v # vs)) = card {k. k < 64 \<and> bit v k} + card (bs_elems vs)"
      unfolding bs_elems_Cons using fin by (subst card_Un_disjoint) (auto simp: card_image)
    moreover have "OnesCount64 v = card {k. k < 64 \<and> bit v k}"
      using distinct_card[of "filter (bit v) [0..<64]"] by (simp add: OnesCount64_def Collect_conj_eq inf_commute lessThan_def atLeast0LessThan)
    ultimately show ?case using Cons by simp
  qed (simp add: bs_elems_def)
  then show ?thesis by (simp add: popcnt_def)
qed

end
