(* ===== verification/Porcupine.thy ===== *)
theory Porcupine
  imports Bitset
begin

text \<open>
  \<open>src/src/porcupine\<close> (\<open>model.go\<close>, \<open>checker.go\<close>, \<open>porcupine.go\<close>): the linearizability
  checker the tests of the key/value service use. Values and states of the checked system
  are type parameters; the user's \<open>Model\<close> is a record of functions that may panic (they
  assert the types of their arguments); its two fields that print values for pictures are
  left out. The doubly linked list of the checker lives in
  an explicit heap: every field of the nodes is a map from addresses, and a nil pointer
  is \<open>None\<close>. The library's unstable sort is an argument. The search loop is executed with
  a bound on the number of its iterations.
\<close>

section \<open>Data\<close>

record 'v Operation =
  op_ClientId :: int
  op_Input :: 'v
  op_Call :: int
  op_Output :: 'v
  op_Return :: int

record 'v Event =
  ev_ClientId :: int
  ev_Kind :: bool
  ev_Value :: 'v
  ev_Id :: int

record ('v, 's) Model =
  Partition :: "('v Operation list \<Rightarrow> 'v Operation list list go) option"
  PartitionEvent :: "('v Event list \<Rightarrow> 'v Event list list go) option"
  Init :: 's
  Step :: "'s \<Rightarrow> 'v \<Rightarrow> 'v \<Rightarrow> (bool \<times> 's) go"
  Equal :: "('s \<Rightarrow> 's \<Rightarrow> bool) option"

definition NoPartition :: "'v Operation list \<Rightarrow> 'v Operation list list go" where
  "NoPartition history = Inr [history]"

definition NoPartitionEvent :: "'v Event list \<Rightarrow> 'v Event list list go" where
  "NoPartitionEvent history = Inr [history]"

text \<open>
  Go's \<open>==\<close> on two interface values. It would panic on states whose dynamic type is not
  comparable (a slice or a map); the model is for states of a comparable type.
\<close>

definition ShallowEqual :: "'s \<Rightarrow> 's \<Rightarrow> bool" where
  "ShallowEqual state1 state2 \<longleftrightarrow> state1 = state2"

datatype CheckResult = Unknown | Ok | Illegal

abbreviation (input) CallEvent :: bool where "CallEvent \<equiv> False"
abbreviation (input) ReturnEvent :: bool where "ReturnEvent \<equiv> True"
abbreviation (input) callEntry :: bool where "callEntry \<equiv> False"
abbreviation (input) returnEntry :: bool where "returnEntry \<equiv> True"

record 'v entry =
  e_kind :: bool
  e_value :: 'v
  e_id :: int
  e_time :: int
  e_clientId :: int

section \<open>From histories to entries\<close>

fun entries_from :: "int \<Rightarrow> 'v Operation list \<Rightarrow> 'v entry list" where
  "entries_from nid [] = []"
| "entries_from nid (elem # elems) =
     \<lparr>e_kind = callEntry, e_value = op_Input elem, e_id = nid, e_time = op_Call elem, e_clientId = op_ClientId elem\<rparr>
     # \<lparr>e_kind = returnEntry, e_value = op_Output elem, e_id = nid, e_time = op_Return elem, e_clientId = op_ClientId elem\<rparr>
     # entries_from (nid + 1) elems"

definition makeEntries :: "('v entry list \<Rightarrow> 'v entry list) \<Rightarrow> 'v Operation list \<Rightarrow> 'v entry list" where
  "makeEntries sort_Sort history = sort_Sort (entries_from 0 history)"

fun renumber_from :: "(int \<rightharpoonup> int) \<Rightarrow> int \<Rightarrow> 'v Event list \<Rightarrow> 'v Event list" where
  "renumber_from m nid [] = []"
| "renumber_from m nid (v # vs) =
     (case m (ev_Id v) of
        Some r \<Rightarrow> v\<lparr>ev_Id := r\<rparr> # renumber_from m nid vs
      | None \<Rightarrow> v\<lparr>ev_Id := nid\<rparr> # renumber_from (m(ev_Id v \<mapsto> nid)) (nid + 1) vs)"

definition renumber :: "'v Event list \<Rightarrow> 'v Event list" where
  "renumber events = renumber_from Map.empty 0 events"

fun convert_from :: "int \<Rightarrow> 'v Event list \<Rightarrow> 'v entry list" where
  "convert_from i [] = []"
| "convert_from i (elem # elems) =
     \<lparr>e_kind = (if ev_Kind elem = ReturnEvent then returnEntry else callEntry), e_value = ev_Value elem,
      e_id = ev_Id elem, e_time = i, e_clientId = ev_ClientId elem\<rparr>
     # convert_from (i + 1) elems"

definition convertEntries :: "'v Event list \<Rightarrow> 'v entry list" where
  "convertEntries events = convert_from 0 events"

section \<open>The linked list\<close>

record 'v heap =
  h_size :: nat
  h_value :: "nat \<Rightarrow> 'v option"
  h_match :: "nat \<Rightarrow> nat option"
  h_id :: "nat \<Rightarrow> int"
  h_next :: "nat \<Rightarrow> nat option"
  h_prev :: "nat \<Rightarrow> nat option"

definition empty_heap :: "'v heap" where
  "empty_heap = \<lparr>h_size = 0, h_value = (\<lambda>_. None), h_match = (\<lambda>_. None), h_id = (\<lambda>_. 0),
                 h_next = (\<lambda>_. None), h_prev = (\<lambda>_. None)\<rparr>"

definition alloc :: "'v option \<Rightarrow> nat option \<Rightarrow> int \<Rightarrow> 'v heap \<Rightarrow> nat \<times> 'v heap" where
  "alloc v mt i h =
     (h_size h, h\<lparr>h_size := Suc (h_size h), h_value := (h_value h)(h_size h := v),
                  h_match := (h_match h)(h_size h := mt), h_id := (h_id h)(h_size h := i),
                  h_next := (h_next h)(h_size h := None), h_prev := (h_prev h)(h_size h := None)\<rparr>)"

definition deref :: "nat option \<Rightarrow> nat go" where
  "deref p = (case p of None \<Rightarrow> Inl NilDereference | Some a \<Rightarrow> Inr a)"

definition insertBefore :: "nat \<Rightarrow> nat option \<Rightarrow> 'v heap \<Rightarrow> 'v heap" where
  "insertBefore n mark h =
     (case mark of
        None \<Rightarrow> h
      | Some mk \<Rightarrow>
          let beforeMark = h_prev h mk;
              h = h\<lparr>h_prev := (h_prev h)(mk := Some n)\<rparr>;
              h = h\<lparr>h_next := (h_next h)(n := Some mk)\<rparr>
          in (case beforeMark of
                None \<Rightarrow> h
              | Some bm \<Rightarrow>
                  let h = h\<lparr>h_prev := (h_prev h)(n := Some bm)\<rparr>
                  in h\<lparr>h_next := (h_next h)(bm := Some n)\<rparr>))"

fun list_length :: "nat \<Rightarrow> nat option \<Rightarrow> 'v heap \<Rightarrow> nat option" where
  "list_length k None h = Some 0"
| "list_length 0 (Some n) h = None"
| "list_length (Suc k) (Some n) h = map_option Suc (list_length k (h_next h n) h)"

text \<open>The loop of \<open>makeLinkedEntries\<close>, on the entries from the last to the first.\<close>

fun link_entries :: "'v entry list \<Rightarrow> (int \<rightharpoonup> nat) \<Rightarrow> nat option \<Rightarrow> 'v heap \<Rightarrow> nat option \<times> 'v heap" where
  "link_entries [] mt root h = (root, h)"
| "link_entries (elem # es) mt root h =
     (if e_kind elem = returnEntry then
        let (a, h) = alloc (Some (e_value elem)) None (e_id elem) h
        in link_entries es (mt(e_id elem \<mapsto> a)) (Some a) (insertBefore a root h)
      else
        let (a, h) = alloc (Some (e_value elem)) (mt (e_id elem)) (e_id elem) h
        in link_entries es mt (Some a) (insertBefore a root h))"

definition makeLinkedEntries :: "'v entry list \<Rightarrow> nat option \<times> 'v heap" where
  "makeLinkedEntries entries = link_entries (rev entries) Map.empty None empty_heap"

text \<open>Lines 154-172: \<open>x.prev.next = x.next\<close> and so on; a nil pointer on the way panics.\<close>

definition set_next :: "nat option \<Rightarrow> nat option \<Rightarrow> 'v heap \<Rightarrow> 'v heap go" where
  "set_next p v h = go_bind (deref p) (\<lambda>a. Inr (h\<lparr>h_next := (h_next h)(a := v)\<rparr>))"

definition set_prev :: "nat option \<Rightarrow> nat option \<Rightarrow> 'v heap \<Rightarrow> 'v heap go" where
  "set_prev p v h = go_bind (deref p) (\<lambda>a. Inr (h\<lparr>h_prev := (h_prev h)(a := v)\<rparr>))"

definition lift :: "nat \<Rightarrow> 'v heap \<Rightarrow> 'v heap go" where
  "lift entry h =
     go_bind (set_next (h_prev h entry) (h_next h entry) h) (\<lambda>h.
     go_bind (set_prev (h_next h entry) (h_prev h entry) h) (\<lambda>h.
     go_bind (deref (h_match h entry)) (\<lambda>m.
     go_bind (set_next (h_prev h m) (h_next h m) h) (\<lambda>h.
     if h_next h m \<noteq> None then set_prev (h_next h m) (h_prev h m) h else Inr h))))"

definition unlift :: "nat \<Rightarrow> 'v heap \<Rightarrow> 'v heap go" where
  "unlift entry h =
     go_bind (deref (h_match h entry)) (\<lambda>m.
     go_bind (set_next (h_prev h m) (Some m) h) (\<lambda>h.
     go_bind (if h_next h m \<noteq> None then set_prev (h_next h m) (Some m) h else Inr h) (\<lambda>h.
     go_bind (set_next (h_prev h entry) (Some entry) h) (\<lambda>h.
     set_prev (h_next h entry) (Some entry) h))))"

section \<open>The search\<close>

type_synonym 's cacheEntry = "bitset \<times> 's"

fun cacheContains_in :: "('s \<Rightarrow> 's \<Rightarrow> bool) \<Rightarrow> 's cacheEntry list \<Rightarrow> 's cacheEntry \<Rightarrow> bool" where
  "cacheContains_in eq [] ce = False"
| "cacheContains_in eq (elem # elems) ce =
     (if bs_equals (fst ce) (fst elem) \<and> eq (snd ce) (snd elem) then True else cacheContains_in eq elems ce)"

definition cacheContains :: "('s \<Rightarrow> 's \<Rightarrow> bool) \<Rightarrow> (64 word \<Rightarrow> 's cacheEntry list) \<Rightarrow> 's cacheEntry \<Rightarrow> bool" where
  "cacheContains eq cache ce = cacheContains_in eq (cache (bs_hash (fst ce))) ce"

record ('v, 's) search =
  s_heap :: "'v heap"
  s_entry :: "nat option"
  s_state :: 's
  s_linearized :: bitset
  s_cache :: "64 word \<Rightarrow> 's cacheEntry list"
  s_calls :: "(nat \<times> 's) list"
  s_longest :: "int list option list"

text \<open>
  Lines 214-229: note the current sequence for every operation in it for which no longer
  sequence is known.
\<close>

fun note_longest :: "int list \<Rightarrow> int list \<Rightarrow> int list option list \<Rightarrow> int list option list go" where
  "note_longest seq [] longest = Inr longest"
| "note_longest seq (i # is) longest =
     go_bind (go_index longest i) (\<lambda>l.
       if l = None \<or> go_len seq > go_len (the l)
       then go_bind (go_set longest i (Some seq)) (note_longest seq is)
       else note_longest seq is longest)"

text \<open>The conversion \<open>uint(id)\<close>: a negative number becomes a position outside every bitset.\<close>

definition go_pos :: "int \<Rightarrow> nat go" where
  "go_pos i = (if i < 0 then Inl IndexOutOfRange else Inr (nat i))"

text \<open>
  One iteration of the loop, lines 186-237; \<open>Inl\<close> is the early return with its answer.
  \<open>kill\<close> is what the atomic load finds.
\<close>

definition search_step ::
  "('v, 's) Model \<Rightarrow> nat \<Rightarrow> bool \<Rightarrow> bool \<Rightarrow> ('v, 's) search \<Rightarrow> (bool + ('v, 's) search) go" where
  "search_step model headEntry computePartial kill st =
     (if kill then Inr (Inl False)
      else
        go_bind (deref (s_entry st)) (\<lambda>entry.
        let h = s_heap st in
        case h_match h entry of
          Some matching \<Rightarrow>
            go_bind (Step model (s_state st) (the (h_value h entry)) (the (h_value h matching))) (\<lambda>(ok, newState).
              if ok then
                go_bind (go_bind (go_pos (h_id h entry)) (\<lambda>pos. bs_set pos (bs_clone (s_linearized st)))) (\<lambda>newLinearized.
                let newCacheEntry = (newLinearized, newState) in
                if \<not> cacheContains (the (Equal model)) (s_cache st) newCacheEntry then
                  let hash = bs_hash newLinearized in
                  go_bind (go_bind (go_pos (h_id h entry)) (\<lambda>pos. bs_set pos (s_linearized st))) (\<lambda>linearized.
                  go_bind (lift entry h) (\<lambda>h'.
                    Inr (Inr (st\<lparr>s_cache := (s_cache st)(hash := s_cache st hash @ [newCacheEntry]),
                                 s_calls := s_calls st @ [(entry, s_state st)],
                                 s_state := newState, s_linearized := linearized, s_heap := h',
                                 s_entry := h_next h' headEntry\<rparr>))))
                else Inr (Inr (st\<lparr>s_entry := h_next h entry\<rparr>)))
              else Inr (Inr (st\<lparr>s_entry := h_next h entry\<rparr>)))
        | None \<Rightarrow>
            if s_calls st = [] then Inr (Inl False)
            else
              let ids = map (\<lambda>(e, _). h_id h e) (s_calls st) in
              go_bind (if computePartial then note_longest ids ids (s_longest st) else Inr (s_longest st)) (\<lambda>longest.
              let (top, state) = last (s_calls st) in
              go_bind (go_bind (go_pos (h_id h top)) (\<lambda>pos. bs_clear pos (s_linearized st))) (\<lambda>linearized.
              go_bind (unlift top h) (\<lambda>h'.
                Inr (Inr (st\<lparr>s_longest := longest, s_state := state, s_linearized := linearized,
                             s_calls := butlast (s_calls st), s_heap := h', s_entry := h_next h' top\<rparr>)))))))"

text \<open>The loop, with at most \<open>k\<close> iterations; \<open>kill i\<close> is the flag when \<open>i\<close> iterations are left.\<close>

fun search_loop ::
  "nat \<Rightarrow> (nat \<Rightarrow> bool) \<Rightarrow> ('v, 's) Model \<Rightarrow> nat \<Rightarrow> bool \<Rightarrow> ('v, 's) search \<Rightarrow> (bool \<times> ('v, 's) search) go option" where
  "search_loop k kill model headEntry computePartial st =
     (if h_next (s_heap st) headEntry = None then Some (Inr (True, st))
      else (case k of
              0 \<Rightarrow> None
            | Suc k' \<Rightarrow>
                (case search_step model headEntry computePartial (kill k') st of
                   Inl p \<Rightarrow> Some (Inl p)
                 | Inr (Inl r) \<Rightarrow> Some (Inr (r, st))
                 | Inr (Inr st') \<Rightarrow> search_loop k' kill model headEntry computePartial st')))"

declare search_loop.simps [simp del]

definition checkSingle ::
  "nat \<Rightarrow> (nat \<Rightarrow> bool) \<Rightarrow> ('v, 's) Model \<Rightarrow> 'v entry list \<Rightarrow> bool \<Rightarrow> (bool \<times> int list option list) go option" where
  "checkSingle k kill model history computePartial =
     (let (entry, h) = makeLinkedEntries history in
      case list_length (h_size h) entry h of
        None \<Rightarrow> None
      | Some len \<Rightarrow>
          let n = len div 2;
              (headEntry, h) = alloc None None (-1) h;
              h = insertBefore headEntry entry h;
              st = \<lparr>s_heap = h, s_entry = entry, s_state = Init model, s_linearized = newBitset n,
                    s_cache = (\<lambda>_. []), s_calls = [], s_longest = replicate n None\<rparr>
          in (case search_loop k kill model headEntry computePartial st of
                None \<Rightarrow> None
              | Some (Inl p) \<Rightarrow> Some (Inl p)
              | Some (Inr (False, st)) \<Rightarrow> Some (Inr (False, s_longest st))
              | Some (Inr (True, st)) \<Rightarrow>
                  let seq = map (\<lambda>(e, _). h_id (s_heap st) e) (s_calls st)
                  in Some (Inr (True, replicate n (Some seq)))))"

section \<open>Checking a history\<close>

definition fillDefault :: "('v, 's) Model \<Rightarrow> ('v, 's) Model" where
  "fillDefault model =
     (let model = (if Partition model = None then model\<lparr>Partition := Some NoPartition\<rparr> else model);
          model = (if PartitionEvent model = None then model\<lparr>PartitionEvent := Some NoPartitionEvent\<rparr> else model)
      in if Equal model = None then model\<lparr>Equal := Some ShallowEqual\<rparr> else model)"

text \<open>
  \<open>checkParallel\<close> runs one goroutine per partition. \<open>arrivals\<close> is the order in which its
  \<open>select\<close> gets answers: \<open>Some i\<close> when partition \<open>i\<close> reports, \<open>None\<close> when the timeout
  fires. The flag \<open>kill\<close> is raised only when the collecting loop ends, so the answers that
  loop sees come from runs that never found it raised. \<open>collect\<close> is the loop, lines
  286-305; it returns \<open>(ok, timedOut, count)\<close>, and \<open>None\<close> when it waits for an answer that
  never comes.
\<close>

type_synonym partials = "int list option list"

fun collect ::
  "(nat \<Rightarrow> (bool \<times> partials) go option) \<Rightarrow> nat \<Rightarrow> bool \<Rightarrow> nat \<Rightarrow> bool \<Rightarrow> nat option list
   \<Rightarrow> (bool \<times> bool \<times> nat) go option" where
  "collect run nparts computeInfo count ok [] = None"
| "collect run nparts computeInfo count ok (None # rest) = Some (Inr (ok, True, count))"
| "collect run nparts computeInfo count ok (Some i # rest) =
     (case run i of
        None \<Rightarrow> None
      | Some (Inl p) \<Rightarrow> Some (Inl p)
      | Some (Inr (result, _)) \<Rightarrow>
          let count = count + 1; ok = (ok \<and> result) in
          if \<not> ok \<and> \<not> computeInfo then Some (Inr (ok, False, count))
          else if count \<ge> nparts then Some (Inr (ok, False, count))
          else collect run nparts computeInfo count ok rest)"

definition check_result :: "bool \<Rightarrow> bool \<Rightarrow> CheckResult" where
  "check_result ok timedOut = (if \<not> ok then Illegal else if timedOut then Unknown else Ok)"

text \<open>
  Lines 313-335: the distinct partial linearizations of a partition; Go's map iterates over
  them in any order, here in the order of their first operation. The runs that had not
  reported when the timeout fired find the flag raised at some point, given by \<open>kills\<close>.
\<close>

record 'v linearizationInfo =
  li_history :: "'v entry list list"
  li_partialLinearizations :: "int list list list"

definition partials_of :: "partials \<Rightarrow> int list list" where
  "partials_of longest = remdups (List.map_filter id longest)"

fun all_partials :: "(nat \<Rightarrow> (bool \<times> partials) go option) \<Rightarrow> nat list \<Rightarrow> int list list list go option" where
  "all_partials run [] = Some (Inr [])"
| "all_partials run (i # is) =
     (case run i of
        None \<Rightarrow> None
      | Some (Inl p) \<Rightarrow> Some (Inl p)
      | Some (Inr (_, longest)) \<Rightarrow> map_option (map_sum id ((#) (partials_of longest))) (all_partials run is))"

definition checkParallel ::
  "nat \<Rightarrow> nat option list \<Rightarrow> (nat \<Rightarrow> nat \<Rightarrow> bool) \<Rightarrow> ('v, 's) Model \<Rightarrow> 'v entry list list \<Rightarrow> bool
   \<Rightarrow> (CheckResult \<times> 'v linearizationInfo) go option" where
  "checkParallel k arrivals kills model history computeInfo =
     (let run = (\<lambda>i. checkSingle k (\<lambda>_. False) model (history ! i) computeInfo) in
      case collect run (length history) computeInfo 0 True arrivals of
        None \<Rightarrow> None
      | Some (Inl p) \<Rightarrow> Some (Inl p)
      | Some (Inr (ok, timedOut, count)) \<Rightarrow>
          if computeInfo then
            (let reported = take count arrivals;
                 run' = (\<lambda>i. if Some i \<in> set reported then run i
                             else checkSingle k (kills i) model (history ! i) computeInfo) in
             case all_partials run' [0..<length history] of
               None \<Rightarrow> None
             | Some (Inl p) \<Rightarrow> Some (Inl p)
             | Some (Inr ps) \<Rightarrow>
                 Some (Inr (check_result ok timedOut, \<lparr>li_history = history, li_partialLinearizations = ps\<rparr>)))
          else Some (Inr (check_result ok timedOut, \<lparr>li_history = [], li_partialLinearizations = []\<rparr>)))"

definition checkEvents ::
  "nat \<Rightarrow> nat option list \<Rightarrow> (nat \<Rightarrow> nat \<Rightarrow> bool) \<Rightarrow> ('v, 's) Model \<Rightarrow> 'v Event list \<Rightarrow> bool
   \<Rightarrow> (CheckResult \<times> 'v linearizationInfo) go option" where
  "checkEvents k arrivals kills model history verbose =
     (let model = fillDefault model in
      case the (PartitionEvent model) history of
        Inl p \<Rightarrow> Some (Inl p)
      | Inr partitions \<Rightarrow>
          let l = map (\<lambda>subhistory. convertEntries (renumber subhistory)) partitions
          in checkParallel k arrivals kills model l verbose)"

definition checkOperations ::
  "nat \<Rightarrow> nat option list \<Rightarrow> (nat \<Rightarrow> nat \<Rightarrow> bool) \<Rightarrow> ('v entry list \<Rightarrow> 'v entry list) \<Rightarrow> ('v, 's) Model
   \<Rightarrow> 'v Operation list \<Rightarrow> bool \<Rightarrow> (CheckResult \<times> 'v linearizationInfo) go option" where
  "checkOperations k arrivals kills sort_Sort model history verbose =
     (let model = fillDefault model in
      case the (Partition model) history of
        Inl p \<Rightarrow> Some (Inl p)
      | Inr partitions \<Rightarrow>
          let l = map (makeEntries sort_Sort) partitions
          in checkParallel k arrivals kills model l verbose)"

text \<open>
  \<open>porcupine.go\<close>. Without a timeout \<open>timeoutChan\<close> is nil and never fires: the arrivals of
  \<open>CheckOperations\<close> and \<open>CheckEvents\<close> are answers only, so \<open>order\<close> is a list of partitions.
\<close>

definition CheckOperations ::
  "nat \<Rightarrow> nat list \<Rightarrow> ('v entry list \<Rightarrow> 'v entry list) \<Rightarrow> ('v, 's) Model \<Rightarrow> 'v Operation list \<Rightarrow> bool go option" where
  "CheckOperations k order sort_Sort model history =
     map_option (map_sum id (\<lambda>(res, _). res = Ok))
       (checkOperations k (map Some order) (\<lambda>_ _. False) sort_Sort model history False)"

definition CheckOperationsTimeout ::
  "nat \<Rightarrow> nat option list \<Rightarrow> (nat \<Rightarrow> nat \<Rightarrow> bool) \<Rightarrow> ('v entry list \<Rightarrow> 'v entry list) \<Rightarrow> ('v, 's) Model
   \<Rightarrow> 'v Operation list \<Rightarrow> CheckResult go option" where
  "CheckOperationsTimeout k arrivals kills sort_Sort model history =
     map_option (map_sum id fst) (checkOperations k arrivals kills sort_Sort model history False)"

definition CheckOperationsVerbose ::
  "nat \<Rightarrow> nat option list \<Rightarrow> (nat \<Rightarrow> nat \<Rightarrow> bool) \<Rightarrow> ('v entry list \<Rightarrow> 'v entry list) \<Rightarrow> ('v, 's) Model
   \<Rightarrow> 'v Operation list \<Rightarrow> (CheckResult \<times> 'v linearizationInfo) go option" where
  "CheckOperationsVerbose k arrivals kills sort_Sort model history =
     checkOperations k arrivals kills sort_Sort model history True"

definition CheckEvents ::
  "nat \<Rightarrow> nat list \<Rightarrow> ('v, 's) Model \<Rightarrow> 'v Event list \<Rightarrow> bool go option" where
  "CheckEvents k order model history =
     map_option (map_sum id (\<lambda>(res, _). res = Ok))
       (checkEvents k (map Some order) (\<lambda>_ _. False) model history False)"

definition CheckEventsTimeout ::
  "nat \<Rightarrow> nat option list \<Rightarrow> (nat \<Rightarrow> nat \<Rightarrow> bool) \<Rightarrow> ('v, 's) Model \<Rightarrow> 'v Event list \<Rightarrow> CheckResult go option" where
  "CheckEventsTimeout k arrivals kills model history =
     map_option (map_sum id fst) (checkEvents k arrivals kills model history False)"

definition CheckEventsVerbose ::
  "nat \<Rightarrow> nat option list \<Rightarrow> (nat \<Rightarrow> nat \<Rightarrow> bool) \<Rightarrow> ('v, 's) Model \<Rightarrow> 'v Event list
   \<Rightarrow> (CheckResult \<times> 'v linearizationInfo) go option" where
  "CheckEventsVerbose k arrivals kills model history = checkEvents k arrivals kills model history True"

end
