(* ===== verification/Porcupine_List.thy ===== *)
theory Porcupine_List
  imports Porcupine
begin

text \<open>
  The checker's doubly linked list. \<open>linked h xs\<close> says that the nodes \<open>xs\<close>, in this order,
  are what a walk along \<open>next\<close> from the first of them meets, with \<open>prev\<close> pointing back.
  \<open>lift\<close> takes a call and its return out of the list, and \<open>unlift\<close> restores the heap
  exactly as it was.
\<close>

named_theorems heap_simps \<open>fields of the heap after pointer updates\<close>

section \<open>Lists in the heap\<close>

fun linked :: "'v heap \<Rightarrow> nat list \<Rightarrow> bool" where
  "linked h [] = True"
| "linked h [a] = (h_next h a = None)"
| "linked h (a # b # xs) = (h_next h a = Some b \<and> h_prev h b = Some a \<and> linked h (b # xs))"

text \<open>The links from the first of \<open>xs\<close> up to \<open>a\<close>.\<close>

fun link_path :: "'v heap \<Rightarrow> nat list \<Rightarrow> nat \<Rightarrow> bool" where
  "link_path h [] a = True"
| "link_path h [x] a = (h_next h x = Some a \<and> h_prev h a = Some x)"
| "link_path h (x # y # xs) a = (h_next h x = Some y \<and> h_prev h y = Some x \<and> link_path h (y # xs) a)"

lemma linked_append: "linked h (xs @ a # ys) \<longleftrightarrow> link_path h xs a \<and> linked h (a # ys)"
  by (induction h xs a rule: link_path.induct) auto

lemma linked_next: "linked h (a # ys) \<Longrightarrow> h_next h a = (if ys = [] then None else Some (hd ys))"
  by (cases ys) auto

lemma linked_next_at: "linked h (xs @ a # ys) \<Longrightarrow> h_next h a = (if ys = [] then None else Some (hd ys))"
  by (simp add: linked_append linked_next)

lemma linked_cong:
  "(\<And>a. a \<in> set xs \<Longrightarrow> h_next h' a = h_next h a) \<Longrightarrow> (\<And>a. a \<in> set (tl xs) \<Longrightarrow> h_prev h' a = h_prev h a)
   \<Longrightarrow> linked h' xs = linked h xs"
  by (induction h xs rule: linked.induct) auto

lemma link_path_cong:
  "(\<And>b. b \<in> set xs \<Longrightarrow> h_next h' b = h_next h b) \<Longrightarrow> (\<And>b. b \<in> set (tl (xs @ [a])) \<Longrightarrow> h_prev h' b = h_prev h b)
   \<Longrightarrow> link_path h' xs a = link_path h xs a"
  by (induction h xs a rule: link_path.induct) auto

lemma list_length_linked: "linked h (a # xs) \<Longrightarrow> length xs < k \<Longrightarrow> list_length k (Some a) h = Some (Suc (length xs))"
proof (induction xs arbitrary: a k)
  case Nil
  then show ?case by (cases k) auto
next
  case (Cons b xs)
  then show ?case by (cases k) auto
qed

section \<open>Taking a node out and putting it back\<close>

definition unlink :: "nat \<Rightarrow> 'v heap \<Rightarrow> 'v heap" where
  "unlink x h =
     (let h1 = h\<lparr>h_next := (h_next h)(the (h_prev h x) := h_next h x)\<rparr>
      in case h_next h x of None \<Rightarrow> h1 | Some b \<Rightarrow> h1\<lparr>h_prev := (h_prev h)(b := h_prev h x)\<rparr>)"

definition relink :: "nat \<Rightarrow> 'v heap \<Rightarrow> 'v heap" where
  "relink x h =
     (let h1 = h\<lparr>h_next := (h_next h)(the (h_prev h x) := Some x)\<rparr>
      in case h_next h x of None \<Rightarrow> h1 | Some b \<Rightarrow> h1\<lparr>h_prev := (h_prev h)(b := Some x)\<rparr>)"

lemma unlink_fields [heap_simps, simp]:
  "h_match (unlink x h) = h_match h" "h_id (unlink x h) = h_id h" "h_value (unlink x h) = h_value h"
  "h_size (unlink x h) = h_size h"
  by (simp_all add: unlink_def Let_def split: option.split)

lemma unlink_linked_split:
  assumes l: "linked h (xs @ a # x # ys)" and d: "distinct (xs @ a # x # ys)"
  shows "linked (unlink x h) (xs @ a # ys)" and "relink x (unlink x h) = h"
    and "h_next (unlink x h) x = h_next h x" and "h_prev (unlink x h) x = h_prev h x"
proof -
  have p: "link_path h xs a" "h_next h a = Some x" "h_prev h x = Some a" "linked h (x # ys)"
    using l by (auto simp: linked_append)
  have n: "h_next h x = (if ys = [] then None else Some (hd ys))" using linked_next[OF p(4)] .
  have same: "h_next (unlink x h) b = h_next h b" if "b \<noteq> a" for b
    using that p by (auto simp: unlink_def Let_def split: option.split)
  have same': "h_prev (unlink x h) b = h_prev h b" if "b \<notin> set ys" for b
    using that n by (auto simp: unlink_def Let_def split: option.split if_splits)
  have "link_path (unlink x h) xs a"
    using p(1) d by (subst link_path_cong) (auto intro!: same same' dest: in_set_butlastD list.set_sel(2)[rotated] simp: tl_append split: list.splits)
  moreover have "linked (unlink x h) (a # ys)"
  proof (cases ys)
    case Nil
    then show ?thesis using p n by (simp add: unlink_def)
  next
    case (Cons y zs)
    have "linked (unlink x h) (y # zs) = linked h (y # zs)"
      using d Cons n p by (intro linked_cong) (auto simp: unlink_def)
    then show ?thesis using p n Cons by (auto simp: unlink_def)
  qed
  ultimately show "linked (unlink x h) (xs @ a # ys)" by (simp add: linked_append)
  show nx: "h_next (unlink x h) x = h_next h x" using same[of x] d by auto
  show pv: "h_prev (unlink x h) x = h_prev h x" using same'[of x] d by auto
  show "relink x (unlink x h) = h"
  proof (cases ys)
    case Nil
    then show ?thesis using nx pv p n by (simp add: relink_def unlink_def fun_upd_idem)
  next
    case (Cons y zs)
    then have "h_prev h y = Some x" using p(4) by simp
    then show ?thesis using nx pv p n Cons by (simp add: relink_def unlink_def fun_upd_idem)
  qed
qed

lemma split_before:
  assumes "x \<in> set ys"
  obtains us p vs where "a # ys = us @ p # x # vs" and "remove1 x ys = tl (us @ p # vs)" and "hd (us @ p # vs) = a"
proof -
  obtain us vs where u: "ys = us @ x # vs" "x \<notin> set us" using assms split_list_first by fast
  have "a # ys = butlast (a # us) @ last (a # us) # x # vs" using u(1)
    by (metis append_Cons append_assoc append_butlast_last_id append_self_conv2 list.distinct(1))
  moreover have "butlast (a # us) @ last (a # us) # vs = (a # us) @ vs"
    by (metis append_Cons append_assoc append_butlast_last_id append_self_conv2 list.distinct(1))
  ultimately show thesis using that[of "butlast (a # us)" "last (a # us)" vs] u by (simp add: remove1_append)
qed

lemma unlink_linked:
  assumes "linked h (a # ys)" and "distinct (a # ys)" and "x \<in> set ys"
  shows "linked (unlink x h) (a # remove1 x ys)" and "relink x (unlink x h) = h"
    and "h_next (unlink x h) x = h_next h x" and "h_prev (unlink x h) x = h_prev h x" and "h_prev h x \<noteq> None"
proof -
  obtain us p vs where u: "a # ys = us @ p # x # vs" "remove1 x ys = tl (us @ p # vs)" "hd (us @ p # vs) = a"
    using split_before[OF assms(3)] .
  note s = unlink_linked_split[of h us p x vs, folded u(1), OF assms(1,2)]
  show "linked (unlink x h) (a # remove1 x ys)" using s(1) u(2,3)
    by (metis Nil_is_append_conv list.collapse list.distinct(1))
  show "relink x (unlink x h) = h" "h_next (unlink x h) x = h_next h x" "h_prev (unlink x h) x = h_prev h x" by (fact s)+
  show "h_prev h x \<noteq> None" using assms(1) unfolding u(1) by (auto simp: linked_append)
qed

section \<open>Lifting a call and its return\<close>

lemma unlink_go:
  assumes "h_prev h x = Some p" and "p \<noteq> x"
  shows "set_next (h_prev h x) (h_next h x) h = Inr (h\<lparr>h_next := (h_next h)(p := h_next h x)\<rparr>)"
    and "(if h_next h x \<noteq> None
          then set_prev (h_next h x) (h_prev h x) (h\<lparr>h_next := (h_next h)(p := h_next h x)\<rparr>)
          else Inr (h\<lparr>h_next := (h_next h)(p := h_next h x)\<rparr>)) = Inr (unlink x h)"
  using assms by (auto simp: set_next_def set_prev_def deref_def unlink_def Let_def)

lemma relink_go:
  assumes "h_prev h x = Some p" and "p \<noteq> x"
  shows "set_next (h_prev h x) (Some x) h = Inr (h\<lparr>h_next := (h_next h)(p := Some x)\<rparr>)"
    and "(if h_next h x \<noteq> None
          then set_prev (h_next h x) (Some x) (h\<lparr>h_next := (h_next h)(p := Some x)\<rparr>)
          else Inr (h\<lparr>h_next := (h_next h)(p := Some x)\<rparr>)) = Inr (relink x h)"
  using assms by (auto simp: set_next_def set_prev_def deref_def relink_def Let_def)

lemma linked_prev_neq:
  assumes "linked h (a # ys)" and "distinct (a # ys)" and "x \<in> set ys"
  obtains p where "h_prev h x = Some p" and "p \<noteq> x"
proof -
  obtain us p vs where u: "a # ys = us @ p # x # vs" using split_before[OF assms(3)] .
  then have "linked h (us @ p # x # vs)" "distinct (us @ p # x # vs)" using assms by simp_all
  then show thesis using that by (auto simp: linked_append)
qed

lemma linked_next_Some:
  assumes "linked h (a # ys)" and "ys = us @ x # vs" and "vs \<noteq> []"
  shows "h_next h x \<noteq> None"
  using assms linked_next_at[of h "a # us" x vs] by simp

lemma lift_linked:
  assumes l: "linked h (a # ys)" and d: "distinct (a # ys)"
    and y: "ys = us @ c # vs" and m: "h_match h c = Some m" "m \<in> set vs"
  shows "lift c h = Inr (unlink m (unlink c h))"
    and "linked (unlink m (unlink c h)) (a # remove1 m (remove1 c ys))"
    and "unlift c (unlink m (unlink c h)) = Inr h"
proof -
  have c: "c \<in> set ys" using y by simp
  have nc: "h_next h c \<noteq> None" using linked_next_Some[OF l y] m(2) by (cases vs) auto
  obtain p where p: "h_prev h c = Some p" "p \<noteq> c" using linked_prev_neq[OF l d c] .
  note u = unlink_linked[OF l d c]
  have d': "distinct (a # remove1 c ys)" using d set_remove1_subset[of c ys] by auto
  have m': "m \<in> set (remove1 c ys)" using m d y by (auto simp: remove1_append)
  note v = unlink_linked[OF u(1) d' m']
  obtain q where q: "h_prev (unlink c h) m = Some q" "q \<noteq> m" using linked_prev_neq[OF u(1) d' m'] .
  show "linked (unlink m (unlink c h)) (a # remove1 m (remove1 c ys))" by (fact v(1))
  have "set_prev (h_next h c) (h_prev h c) (h\<lparr>h_next := (h_next h)(p := h_next h c)\<rparr>) = Inr (unlink c h)"
    using unlink_go(2)[OF p] nc by simp
  then show "lift c h = Inr (unlink m (unlink c h))"
    using unlink_go(1)[OF p] p unlink_go[OF q] q(2) m(1) by (simp add: lift_def deref_def fun_upd_other cong: if_cong)
  have q': "h_prev (unlink m (unlink c h)) m = Some q" using v(4) q by simp
  have "set_prev (h_next h c) (Some c) ((unlink c h)\<lparr>h_next := (h_next (unlink c h))(p := Some c)\<rparr>) = Inr h"
    using relink_go(2)[of "unlink c h" c p] u(2,3,4) p nc by simp
  then show "unlift c (unlink m (unlink c h)) = Inr h"
    using relink_go[OF q' q(2)] q(2) v(2) m(1) relink_go(1)[of "unlink c h" c p] u(3,4) p
    by (simp add: unlift_def deref_def fun_upd_other cong: if_cong)
qed

end
