(* ===== verification/Porcupine_Search.thy ===== *)
theory Porcupine_Search
  imports Porcupine_List
begin

text \<open>
  The search of \<open>checkSingle\<close>. Which nodes are left in the list is determined by the set of
  linearized operations (\<open>rest\<close>). \<open>linz\<close> describes the linearizations of what is left:
  repeatedly an operation is taken whose call comes before every return that is left, and
  the model must accept it. The search finds one, or backtracks having shown that there is
  none; the cache only ever skips configurations from which there is none.
\<close>

section \<open>What is left of a history\<close>

abbreviation hid :: "'v heap \<Rightarrow> nat \<Rightarrow> nat" where
  "hid h a \<equiv> nat (h_id h a)"

definition rest :: "'v heap \<Rightarrow> nat list \<Rightarrow> nat set \<Rightarrow> nat list" where
  "rest h R S = filter (\<lambda>a. hid h a \<notin> S) R"

text \<open>The call \<open>c\<close> comes before every return of the list.\<close>

fun enabled :: "'v heap \<Rightarrow> nat list \<Rightarrow> nat \<Rightarrow> bool" where
  "enabled h [] c = False"
| "enabled h (a # as) c = (h_match h a \<noteq> None \<and> (a = c \<or> enabled h as c))"

abbreviation step_of :: "('v, 's) Model \<Rightarrow> 'v heap \<Rightarrow> 's \<Rightarrow> nat \<Rightarrow> (bool \<times> 's) go" where
  "step_of M h s c \<equiv> Step M s (the (h_value h c)) (the (h_value h (the (h_match h c))))"

fun linz :: "('v, 's) Model \<Rightarrow> 'v heap \<Rightarrow> nat list \<Rightarrow> nat set \<Rightarrow> 's \<Rightarrow> nat list \<Rightarrow> bool" where
  "linz M h R S s [] = (rest h R S = [])"
| "linz M h R S s (c # cs) =
     (enabled h (rest h R S) c \<and>
      (\<exists>s'. step_of M h s c = Inr (True, s') \<and> linz M h R (insert (hid h c) S) s' cs))"

definition lin :: "('v, 's) Model \<Rightarrow> 'v heap \<Rightarrow> nat list \<Rightarrow> nat set \<Rightarrow> 's \<Rightarrow> bool" where
  "lin M h R S s \<longleftrightarrow> (\<exists>cs. linz M h R S s cs)"

text \<open>No linearization starts with \<open>c\<close>.\<close>

definition dead :: "('v, 's) Model \<Rightarrow> 'v heap \<Rightarrow> nat list \<Rightarrow> nat set \<Rightarrow> 's \<Rightarrow> nat \<Rightarrow> bool" where
  "dead M h R S s c \<longleftrightarrow> (\<forall>s'. step_of M h s c = Inr (True, s') \<longrightarrow> \<not> lin M h R (insert (hid h c) S) s')"

text \<open>The nodes of a history: every operation has one call and, behind it, one return.\<close>

definition nodes_ok :: "'v heap \<Rightarrow> nat \<Rightarrow> nat list \<Rightarrow> nat \<Rightarrow> bool" where
  "nodes_ok h hd0 R n \<longleftrightarrow> distinct (hd0 # R) \<and>
     (\<forall>a\<in>set R. 0 \<le> h_id h a \<and> hid h a < n) \<and>
     (\<forall>a\<in>set R. \<forall>b\<in>set R. hid h a = hid h b \<longrightarrow> (h_match h a = None \<longleftrightarrow> h_match h b = None) \<longrightarrow> a = b) \<and>
     (\<forall>us c vs m. R = us @ c # vs \<longrightarrow> h_match h c = Some m \<longrightarrow> m \<in> set vs \<and> h_match h m = None \<and> hid h m = hid h c)"

lemma nodes_okD:
  assumes "nodes_ok h hd0 R n"
  shows "distinct R" and "hd0 \<notin> set R" and "a \<in> set R \<Longrightarrow> 0 \<le> h_id h a" and "a \<in> set R \<Longrightarrow> hid h a < n"
    and "a \<in> set R \<Longrightarrow> b \<in> set R \<Longrightarrow> hid h a = hid h b \<Longrightarrow> (h_match h a = None \<longleftrightarrow> h_match h b = None) \<Longrightarrow> a = b"
    and "R = us @ c # vs \<Longrightarrow> h_match h c = Some m \<Longrightarrow> m \<in> set vs \<and> h_match h m = None \<and> hid h m = hid h c"
proof -
  note d = assms[unfolded nodes_ok_def]
  show "distinct R" "hd0 \<notin> set R" using d by simp_all
  show "a \<in> set R \<Longrightarrow> 0 \<le> h_id h a" "a \<in> set R \<Longrightarrow> hid h a < n" using d by blast+
  show "a \<in> set R \<Longrightarrow> b \<in> set R \<Longrightarrow> hid h a = hid h b \<Longrightarrow> (h_match h a = None \<longleftrightarrow> h_match h b = None) \<Longrightarrow> a = b"
    by (rule d[THEN conjunct2, THEN conjunct2, THEN conjunct1, rule_format])
  show "R = us @ c # vs \<Longrightarrow> h_match h c = Some m \<Longrightarrow> m \<in> set vs \<and> h_match h m = None \<and> hid h m = hid h c"
    using d by blast
qed

lemma rest_split:
  assumes "rest h R S = us @ c # vs"
  obtains xs ys where "R = xs @ c # ys" and "vs = rest h ys S" and "us = rest h xs S" and "hid h c \<notin> S"
proof -
  have "\<exists>xs ys. R = xs @ c # ys \<and> vs = rest h ys S \<and> us = rest h xs S \<and> hid h c \<notin> S"
    using assms
  proof (induction R arbitrary: us)
    case (Cons a R)
    show ?case
    proof (cases "hid h a \<notin> S")
      case False
      then have "rest h R S = us @ c # vs" using Cons.prems by (simp add: rest_def)
      then obtain xs ys where "R = xs @ c # ys" "vs = rest h ys S" "us = rest h xs S" "hid h c \<notin> S"
        using Cons.IH by blast
      then show ?thesis using False by (intro exI[of _ "a # xs"] exI[of _ ys]) (simp add: rest_def)
    next
      case True
      then have ar: "a # rest h R S = us @ c # vs" using Cons.prems by (simp add: rest_def)
      show ?thesis
      proof (cases us)
        case Nil
        then show ?thesis using ar True by (intro exI[of _ "[]"] exI[of _ R]) (simp add: rest_def)
      next
        case (Cons u us')
        then obtain xs ys where "R = xs @ c # ys" "vs = rest h ys S" "us' = rest h xs S" "hid h c \<notin> S"
          using Cons.IH[of us'] ar by auto
        then show ?thesis using True Cons ar by (intro exI[of _ "a # xs"] exI[of _ ys]) (simp add: rest_def)
      qed
    qed
  qed (simp add: rest_def)
  then show thesis using that by blast
qed

lemma rest_match:
  assumes "nodes_ok h hd0 R n" and "rest h R S = us @ c # vs" and "h_match h c = Some m"
  shows "m \<in> set vs"
proof -
  obtain xs ys where r: "R = xs @ c # ys" "vs = rest h ys S" "hid h c \<notin> S" using rest_split[OF assms(2)] .
  then show ?thesis using nodes_okD(6)[OF assms(1) r(1) assms(3)] by (simp add: rest_def)
qed

lemma rest_insert:
  assumes N: "nodes_ok h hd0 R n" and r: "rest h R S = us @ c # vs" and m: "h_match h c = Some m"
  shows "rest h R (insert (hid h c) S) = remove1 m (remove1 c (rest h R S))"
proof -
  obtain xs ys where x: "R = xs @ c # ys" using rest_split[OF r] .
  have c: "c \<in> set R" and mm: "m \<in> set R" "h_match h m = None" "hid h m = hid h c"
    using nodes_okD(6)[OF N x m] x by auto
  have "hid h a = hid h c \<longleftrightarrow> a = c \<or> a = m" if a: "a \<in> set R" for a
    using nodes_okD(5)[OF N a c] nodes_okD(5)[OF N a mm(1)] mm m by auto
  then have "rest h R (insert (hid h c) S) = filter (\<lambda>a. m \<noteq> a) (filter (\<lambda>a. c \<noteq> a) (rest h R S))"
    unfolding rest_def filter_filter by (intro filter_cong) auto
  moreover have "distinct (rest h R S)" using nodes_okD(1)[OF N] by (simp add: rest_def)
  ultimately show ?thesis by (simp add: distinct_remove1_removeAll removeAll_filter_not_eq)
qed

lemma enabled_calls:
  assumes "\<forall>a\<in>set pre. h_match h a \<noteq> None"
  shows "enabled h (pre @ c # zs) c \<longleftrightarrow> (h_match h c \<noteq> None \<or> c \<in> set pre)"
    and "h_match h r = None \<Longrightarrow> enabled h (pre @ r # zs) c \<longleftrightarrow> c \<in> set pre"
  using assms by (induction pre) auto

lemma lin_unfold:
  "lin M h R S s \<longleftrightarrow> rest h R S = [] \<or>
     (\<exists>c s'. enabled h (rest h R S) c \<and> step_of M h s c = Inr (True, s') \<and> lin M h R (insert (hid h c) S) s')"
proof
  assume "lin M h R S s"
  then obtain cs where "linz M h R S s cs" by (auto simp: lin_def)
  then show "rest h R S = [] \<or> (\<exists>c s'. enabled h (rest h R S) c \<and> step_of M h s c = Inr (True, s') \<and> lin M h R (insert (hid h c) S) s')"
    by (cases cs) (auto simp: lin_def)
next
  assume r: "rest h R S = [] \<or> (\<exists>c s'. enabled h (rest h R S) c \<and> step_of M h s c = Inr (True, s') \<and> lin M h R (insert (hid h c) S) s')"
  show "lin M h R S s"
  proof (cases "rest h R S = []")
    case True
    then have "linz M h R S s []" by simp
    then show ?thesis unfolding lin_def by blast
  next
    case False
    with r obtain c s' cs where "enabled h (rest h R S) c" "step_of M h s c = Inr (True, s')"
      "linz M h R (insert (hid h c) S) s' cs" by (auto simp: lin_def)
    then have "linz M h R S s (c # cs)" by auto
    then show ?thesis unfolding lin_def by blast
  qed
qed

text \<open>When all calls before the first return are dead, there is no linearization.\<close>

lemma not_lin:
  assumes "rest h R S = pre @ r # zs" and "\<forall>c\<in>set pre. h_match h c \<noteq> None \<and> dead M h R S s c" and "h_match h r = None"
  shows "\<not> lin M h R S s"
  using assms lin_unfold[of M h R S s] enabled_calls(2)[of pre h r zs] by (auto simp: dead_def)

section \<open>Steps of the search\<close>

definition reaches :: "('v, 's) Model \<Rightarrow> nat \<Rightarrow> bool \<Rightarrow> ('v, 's) search \<Rightarrow> ('v, 's) search \<Rightarrow> bool" where
  "reaches M hd0 cp st st' \<longleftrightarrow>
     (\<exists>j. \<forall>k. search_loop (k + j) (\<lambda>_. False) M hd0 cp st = search_loop k (\<lambda>_. False) M hd0 cp st')"

lemma reaches_refl [simp, intro]: "reaches M hd0 cp st st"
  unfolding reaches_def by (rule exI[of _ 0]) simp

lemma reaches_trans:
  assumes "reaches M hd0 cp st st'" and "reaches M hd0 cp st' st''"
  shows "reaches M hd0 cp st st''"
proof -
  obtain i j where "\<forall>k. search_loop (k + i) (\<lambda>_. False) M hd0 cp st = search_loop k (\<lambda>_. False) M hd0 cp st'"
    "\<forall>k. search_loop (k + j) (\<lambda>_. False) M hd0 cp st' = search_loop k (\<lambda>_. False) M hd0 cp st''"
    using assms by (auto simp: reaches_def)
  then show ?thesis unfolding reaches_def by (intro exI[of _ "j + i"]) (simp flip: add.assoc)
qed

lemma reaches_step:
  assumes "h_next (s_heap st) hd0 \<noteq> None" and "search_step M hd0 cp False st = Inr (Inr st')"
  shows "reaches M hd0 cp st st'"
proof -
  have "search_loop (Suc k) (\<lambda>_. False) M hd0 cp st = search_loop k (\<lambda>_. False) M hd0 cp st'" for k
    using assms by (subst search_loop.simps) auto
  then show ?thesis unfolding reaches_def by (intro exI[of _ 1]) simp
qed

definition same_nodes :: "'v heap \<Rightarrow> 'v heap \<Rightarrow> bool" where
  "same_nodes h h0 \<longleftrightarrow> h_match h = h_match h0 \<and> h_id h = h_id h0 \<and> h_value h = h_value h0"

abbreviation left :: "'v heap \<Rightarrow> nat list \<Rightarrow> ('v, 's) search \<Rightarrow> nat list" where
  "left h0 R st \<equiv> rest h0 R (bs_elems (s_linearized st))"

definition searching :: "'v heap \<Rightarrow> nat \<Rightarrow> nat list \<Rightarrow> nat \<Rightarrow> ('v, 's) search \<Rightarrow> bool" where
  "searching h0 hd0 R n st \<longleftrightarrow>
     same_nodes (s_heap st) h0 \<and> linked (s_heap st) (hd0 # left h0 R st) \<and> bs_wf n (s_linearized st) \<and>
     length (s_longest st) = n \<and> fst ` set (s_calls st) \<subseteq> set R"

text \<open>The user's model: its \<open>Step\<close> does not panic on the history, its \<open>Equal\<close> is equality.\<close>

definition model_ok :: "('v, 's) Model \<Rightarrow> 'v heap \<Rightarrow> nat list \<Rightarrow> bool" where
  "model_ok M h R \<longleftrightarrow>
     (\<forall>c\<in>set R. h_match h c \<noteq> None \<longrightarrow> (\<forall>s. \<exists>r. step_of M h s c = Inr r)) \<and>
     (\<exists>eq. Equal M = Some eq \<and> (\<forall>s t. eq s t \<longrightarrow> s = t))"

definition cached :: "(64 word \<Rightarrow> 's cacheEntry list) \<Rightarrow> 's cacheEntry set" where
  "cached K = (\<Union>x. set (K x))"

definition cache_ok :: "('v, 's) Model \<Rightarrow> 'v heap \<Rightarrow> nat list \<Rightarrow> nat \<Rightarrow> nat \<Rightarrow> 's cacheEntry set \<Rightarrow> bool" where
  "cache_ok M h R n d K \<longleftrightarrow>
     (\<forall>b t. (b, t) \<in> K \<longrightarrow> bs_wf n b \<and> (d < card (bs_elems b) \<longrightarrow> \<not> lin M h R (bs_elems b) t))"

lemma cached_push: "cached (K(x := K x @ [e])) = insert e (cached K)"
  by (auto simp: cached_def split: if_splits)

lemma cacheContains_in_iff: "cacheContains_in eq es ce \<longleftrightarrow> (\<exists>e\<in>set es. bs_equals (fst ce) (fst e) \<and> eq (snd ce) (snd e))"
  by (induction es) auto

lemma cache_hit_dead:
  assumes "cacheContains eq K (b, t)" and "\<forall>s t. eq s t \<longrightarrow> s = t" and "bs_wf n b" and "cache_ok M h R n d (cached K)"
    and "d < card (bs_elems b)"
  shows "\<not> lin M h R (bs_elems b) t"
proof -
  obtain b2 t2 where e: "(b2, t2) \<in> cached K" "bs_equals b b2" "eq t t2"
    using assms(1) unfolding cacheContains_def cacheContains_in_iff cached_def by fastforce
  then have "bs_wf n b2" "d < card (bs_elems b2) \<longrightarrow> \<not> lin M h R (bs_elems b2) t2"
    using assms(4) unfolding cache_ok_def by blast+
  moreover have "bs_elems b = bs_elems b2" using bs.eq_iff[OF assms(3) \<open>bs_wf n b2\<close>] e(2) by simp
  ultimately show ?thesis using assms(2,5) e(3) by auto
qed

lemma bs_wf_finite: "bs_wf n b \<Longrightarrow> finite (bs_elems b)"
  by (auto simp: bs_wf_def intro: finite_subset)

lemma note_longest_ok:
  assumes "set is \<subseteq> {0..<int n}" and "length l = n"
  shows "\<exists>l'. note_longest seq is l = Inr l' \<and> length l' = n"
  using assms
proof (induction "is" arbitrary: l)
  case (Cons i ids)
  then have i: "0 \<le> i" "i < go_len l" by (auto simp: go_len_def)
  show ?case using Cons.IH[of l] Cons.IH[of "l[nat i := Some seq]"] Cons.prems i by (simp add: go_index_in go_set_in)
qed simp

lemma searching_next:
  assumes "searching h0 hd0 R n st" and "left h0 R st = pre @ c # suf"
  shows "h_next (s_heap st) hd0 \<noteq> None" and "h_next (s_heap st) c = (if suf = [] then None else Some (hd suf))"
    and "h_next (s_heap st) hd0 = Some (hd (left h0 R st))"
proof -
  have l: "linked (s_heap st) ((hd0 # pre) @ c # suf)" using assms by (simp add: searching_def)
  show "h_next (s_heap st) c = (if suf = [] then None else Some (hd suf))" by (rule linked_next_at[OF l])
  show "h_next (s_heap st) hd0 = Some (hd (left h0 R st))" "h_next (s_heap st) hd0 \<noteq> None"
    using linked_next[of "s_heap st" hd0 "left h0 R st"] assms by (auto simp: searching_def)
qed

text \<open>An operation is passed over: the model rejects it, or the cache knows where it leads.\<close>

lemma skip_step:
  assumes s: "searching h0 hd0 R n st" and l: "left h0 R st = pre @ c # suf" and e: "s_entry st = Some c"
    and m: "h_match h0 c = Some m" and ok: "step_of M h0 (s_state st) c = Inr (ok, s')"
    and b: "go_pos (h_id h0 c) = Inr p" "bs_set p (s_linearized st) = Inr b'"
    and skip: "ok \<longrightarrow> cacheContains (the (Equal M)) (s_cache st) (b', s')"
  shows "reaches M hd0 cp st (st\<lparr>s_entry := h_next (s_heap st) c\<rparr>)"
proof (rule reaches_step)
  show "h_next (s_heap st) hd0 \<noteq> None" using searching_next[OF s l] by blast
  show "search_step M hd0 cp False st = Inr (Inr (st\<lparr>s_entry := h_next (s_heap st) c\<rparr>))"
    using s e m ok b skip by (cases ok) (auto simp: search_step_def deref_def searching_def same_nodes_def bs_clone_def)
qed

text \<open>An operation is taken, and given back when nothing came of it.\<close>

definition pushed :: "nat \<Rightarrow> nat \<Rightarrow> 's \<Rightarrow> bitset \<Rightarrow> nat \<Rightarrow> ('v, 's) search \<Rightarrow> ('v, 's) search" where
  "pushed hd0 c s' b' m st =
     (let h' = unlink m (unlink c (s_heap st)) in
      st\<lparr>s_cache := (s_cache st)(bs_hash b' := s_cache st (bs_hash b') @ [(b', s')]),
         s_calls := s_calls st @ [(c, s_state st)], s_state := s', s_linearized := b', s_heap := h',
         s_entry := h_next h' hd0\<rparr>)"

lemma push_step:
  assumes N: "nodes_ok h0 hd0 R n" and s: "searching h0 hd0 R n st" and l: "left h0 R st = pre @ c # suf"
    and e: "s_entry st = Some c" and m: "h_match h0 c = Some m" and ok: "step_of M h0 (s_state st) c = Inr (True, s')"
    and b: "go_pos (h_id h0 c) = Inr p" "bs_set p (s_linearized st) = Inr b'"
    and miss: "\<not> cacheContains (the (Equal M)) (s_cache st) (b', s')"
  shows "reaches M hd0 cp st (pushed hd0 c s' b' m st)"
    and "linked (s_heap (pushed hd0 c s' b' m st)) (hd0 # rest h0 R (insert (hid h0 c) (bs_elems (s_linearized st))))"
    and "unlift c (s_heap (pushed hd0 c s' b' m st)) = Inr (s_heap st)"
proof -
  have li: "linked (s_heap st) (hd0 # left h0 R st)" and mm: "h_match (s_heap st) c = Some m" "m \<in> set suf"
    using s m rest_match[OF N l m] by (auto simp: searching_def same_nodes_def)
  have d: "distinct (hd0 # left h0 R st)" using nodes_okD(1,2)[OF N] by (simp add: rest_def)
  note lf = lift_linked[OF li d l mm]
  show "linked (s_heap (pushed hd0 c s' b' m st)) (hd0 # rest h0 R (insert (hid h0 c) (bs_elems (s_linearized st))))"
    using lf(2) rest_insert[OF N l m] by (simp add: pushed_def Let_def)
  show "unlift c (s_heap (pushed hd0 c s' b' m st)) = Inr (s_heap st)" using lf(3) by (simp add: pushed_def Let_def)
  show "reaches M hd0 cp st (pushed hd0 c s' b' m st)"
  proof (rule reaches_step)
    show "h_next (s_heap st) hd0 \<noteq> None" using searching_next[OF s l] by blast
    show "search_step M hd0 cp False st = Inr (Inr (pushed hd0 c s' b' m st))"
      using s e m ok b miss lf(1)
      by (auto simp: search_step_def deref_def searching_def same_nodes_def bs_clone_def pushed_def Let_def)
  qed
qed

lemma pop_step:
  assumes s: "searching h0 hd0 R n st" and l: "left h0 R st = pre @ r # suf" and e: "s_entry st = Some r"
    and r: "h_match h0 r = None" and c: "s_calls st = cs @ [(c, s')]" and N: "nodes_ok h0 hd0 R n"
    and b: "go_pos (h_id h0 c) = Inr p" "bs_clear p (s_linearized st) = Inr b'"
    and u: "unlift c (s_heap st) = Inr h'"
  shows "\<exists>l. length l = n \<and> reaches M hd0 cp st
     (st\<lparr>s_longest := l, s_state := s', s_linearized := b', s_calls := cs, s_heap := h', s_entry := h_next h' c\<rparr>)"
proof -
  let ?ids = "map (\<lambda>(e, _). h_id (s_heap st) e) (s_calls st)"
  have "set ?ids \<subseteq> {0..<int n}"
  proof
    fix i assume "i \<in> set ?ids"
    then obtain a where "a \<in> set R" "i = h_id h0 a" using s by (fastforce simp: searching_def same_nodes_def)
    then show "i \<in> {0..<int n}" using nodes_okD(3,4)[OF N, of a] by auto
  qed
  then obtain l' where l': "note_longest ?ids ?ids (s_longest st) = Inr l'" "length l' = n"
    using note_longest_ok[of ?ids n "s_longest st" ?ids] s by (auto simp: searching_def)
  define lo where "lo = (if cp then l' else s_longest st)"
  have "search_step M hd0 cp False st = Inr (Inr
     (st\<lparr>s_longest := lo, s_state := s', s_linearized := b', s_calls := cs, s_heap := h', s_entry := h_next h' c\<rparr>))"
    using s e r c b u l'(1) by (auto simp: search_step_def deref_def searching_def same_nodes_def Let_def lo_def)
  then have "reaches M hd0 cp st
     (st\<lparr>s_longest := lo, s_state := s', s_linearized := b', s_calls := cs, s_heap := h', s_entry := h_next h' c\<rparr>)"
    using searching_next(1)[OF s l] by (intro reaches_step)
  moreover have "length lo = n" using l'(2) s by (simp add: lo_def searching_def)
  ultimately show ?thesis by blast
qed

section \<open>The search finds a linearization or shows that there is none\<close>

text \<open>The search has come back to where \<open>st\<close> was, knowing more.\<close>

definition resumed :: "('v, 's) Model \<Rightarrow> 'v heap \<Rightarrow> nat \<Rightarrow> nat list \<Rightarrow> nat \<Rightarrow> bool \<Rightarrow> ('v, 's) search \<Rightarrow> ('v, 's) search \<Rightarrow> bool" where
  "resumed M h0 hd0 R n cp st st' \<longleftrightarrow>
     reaches M hd0 cp st st' \<and> searching h0 hd0 R n st' \<and> s_heap st' = s_heap st \<and> s_calls st' = s_calls st \<and>
     s_state st' = s_state st \<and> bs_elems (s_linearized st') = bs_elems (s_linearized st) \<and>
     cache_ok M h0 R n (card (bs_elems (s_linearized st))) (cached (s_cache st')) \<and>
     (\<forall>e\<in>cached (s_cache st'). card (bs_elems (fst e)) \<le> card (bs_elems (s_linearized st)) \<longrightarrow> e \<in> cached (s_cache st))"

lemma resumed_trans:
  "resumed M h0 hd0 R n cp st st' \<Longrightarrow> resumed M h0 hd0 R n cp st' st'' \<Longrightarrow> resumed M h0 hd0 R n cp st st''"
  unfolding resumed_def by (metis reaches_trans)

definition found :: "('v, 's) Model \<Rightarrow> 'v heap \<Rightarrow> nat \<Rightarrow> nat list \<Rightarrow> bool \<Rightarrow> ('v, 's) search \<Rightarrow> bool" where
  "found M h0 hd0 R cp st \<longleftrightarrow>
     (\<exists>st' cs. reaches M hd0 cp st st' \<and> h_next (s_heap st') hd0 = None \<and> same_nodes (s_heap st') h0 \<and>
        map fst (s_calls st') = map fst (s_calls st) @ cs \<and> linz M h0 R (bs_elems (s_linearized st)) (s_state st) cs)"

definition exhausted :: "('v, 's) Model \<Rightarrow> 'v heap \<Rightarrow> nat \<Rightarrow> nat list \<Rightarrow> nat \<Rightarrow> bool \<Rightarrow> ('v, 's) search \<Rightarrow> bool" where
  "exhausted M h0 hd0 R n cp st \<longleftrightarrow>
     (\<exists>st' pre r suf. resumed M h0 hd0 R n cp st st' \<and> left h0 R st = pre @ r # suf \<and> s_entry st' = Some r \<and>
        h_match h0 r = None \<and> \<not> lin M h0 R (bs_elems (s_linearized st)) (s_state st))"

lemma found_resumed: "resumed M h0 hd0 R n cp st st' \<Longrightarrow> found M h0 hd0 R cp st' \<Longrightarrow> found M h0 hd0 R cp st"
  unfolding resumed_def found_def by (metis reaches_trans)

lemma exhausted_resumed:
  assumes "resumed M h0 hd0 R n cp st st'" and "exhausted M h0 hd0 R n cp st'"
  shows "exhausted M h0 hd0 R n cp st"
proof -
  have "bs_elems (s_linearized st') = bs_elems (s_linearized st)" "s_state st' = s_state st"
    using assms(1) by (auto simp: resumed_def)
  then show ?thesis using assms(2) resumed_trans[OF assms(1)] unfolding exhausted_def by metis
qed

lemma set_position:
  assumes "nodes_ok h0 hd0 R n" and "searching h0 hd0 R n st" and "left h0 R st = pre @ c # suf"
  obtains b' where "go_pos (h_id h0 c) = Inr (hid h0 c)" and "bs_set (hid h0 c) (s_linearized st) = Inr b'"
    and "bs_wf n b'" and "bs_elems b' = insert (hid h0 c) (bs_elems (s_linearized st))"
    and "card (bs_elems b') = Suc (card (bs_elems (s_linearized st)))" and "hid h0 c \<notin> bs_elems (s_linearized st)"
proof -
  have wf: "bs_wf n (s_linearized st)" using assms(2) by (simp add: searching_def)
  have "c \<in> set (left h0 R st)" using assms(3) by simp
  then have c: "c \<in> set R" "hid h0 c \<notin> bs_elems (s_linearized st)" by (auto simp: rest_def)
  obtain b' where "bs_set (hid h0 c) (s_linearized st) = Inr b'" "bs_wf n b'"
      "bs_elems b' = insert (hid h0 c) (bs_elems (s_linearized st))"
    using bs.ins_ok[OF wf nodes_okD(4)[OF assms(1) c(1)]] by blast
  then show thesis using that nodes_okD(3)[OF assms(1) c(1)] c(2) bs_wf_finite[OF wf] by (simp add: go_pos_def)
qed

lemma pushed_searching:
  assumes N: "nodes_ok h0 hd0 R n" and s: "searching h0 hd0 R n st" and l: "left h0 R st = pre @ c # suf"
    and b': "bs_wf n b'" "bs_elems b' = insert (hid h0 c) (bs_elems (s_linearized st))"
    and li: "linked (s_heap (pushed hd0 c s' b' m st)) (hd0 # rest h0 R (bs_elems b'))"
  shows "searching h0 hd0 R n (pushed hd0 c s' b' m st)"
proof -
  have "c \<in> set (left h0 R st)" using l by simp
  then have "c \<in> set R" by (simp add: rest_def)
  then show ?thesis using s li b' by (auto simp: searching_def pushed_def Let_def same_nodes_def)
qed

lemma pushed_cache:
  assumes "cache_ok M h0 R n d (cached (s_cache st))" and "bs_wf n b'" and "card (bs_elems b') = Suc d"
  shows "cache_ok M h0 R n (Suc d) (cached (s_cache (pushed hd0 c s' b' m st)))"
  using assms by (auto simp: pushed_def Let_def cached_push cache_ok_def)

text \<open>The cache after an operation was tried in vain.\<close>

lemma tried_cache:
  assumes old: "cache_ok M h0 R n d K" and new: "cache_ok M h0 R n (Suc d) K'"
    and sub: "\<forall>e\<in>K'. card (bs_elems (fst e)) \<le> Suc d \<longrightarrow> e \<in> insert (b', s') K"
    and b': "card (bs_elems b') = Suc d" "\<not> lin M h0 R (bs_elems b') s'"
  shows "cache_ok M h0 R n d K'" and "\<forall>e\<in>K'. card (bs_elems (fst e)) \<le> d \<longrightarrow> e \<in> K"
proof -
  show "\<forall>e\<in>K'. card (bs_elems (fst e)) \<le> d \<longrightarrow> e \<in> K"
  proof (intro ballI impI)
    fix e assume "e \<in> K'" "card (bs_elems (fst e)) \<le> d"
    then show "e \<in> K" using sub b'(1) by fastforce
  qed
  show "cache_ok M h0 R n d K'"
    unfolding cache_ok_def
  proof (intro allI impI conjI)
    fix b t assume e: "(b, t) \<in> K'"
    then show "bs_wf n b" using new by (auto simp: cache_ok_def)
    assume d: "d < card (bs_elems b)"
    show "\<not> lin M h0 R (bs_elems b) t"
    proof (cases "card (bs_elems b) = Suc d")
      case True
      then have "(b, t) = (b', s') \<or> (b, t) \<in> K" using sub e by fastforce
      then show ?thesis using b'(2) old d by (auto simp: cache_ok_def)
    next
      case False
      then show ?thesis using new e d by (auto simp: cache_ok_def)
    qed
  qed
qed

lemma tried_in_vain:
  assumes N: "nodes_ok h0 hd0 R n" and s: "searching h0 hd0 R n st" and l: "left h0 R st = pre @ c # suf"
    and e: "s_entry st = Some c" and m: "h_match h0 c = Some m" and ok: "step_of M h0 (s_state st) c = Inr (True, s')"
    and K: "cache_ok M h0 R n (card (bs_elems (s_linearized st))) (cached (s_cache st))"
    and b: "go_pos (h_id h0 c) = Inr (hid h0 c)" "bs_set (hid h0 c) (s_linearized st) = Inr b'"
    and b': "bs_wf n b'" "bs_elems b' = insert (hid h0 c) (bs_elems (s_linearized st))"
      "card (bs_elems b') = Suc (card (bs_elems (s_linearized st)))" "hid h0 c \<notin> bs_elems (s_linearized st)"
    and miss: "\<not> cacheContains (the (Equal M)) (s_cache st) (b', s')"
    and ex: "exhausted M h0 hd0 R n cp (pushed hd0 c s' b' m st)"
  shows "\<exists>st3. resumed M h0 hd0 R n cp st st3 \<and> s_entry st3 = h_next (s_heap st) c \<and>
           dead M h0 R (bs_elems (s_linearized st)) (s_state st) c"
proof -
  let ?st1 = "pushed hd0 c s' b' m st" and ?d = "card (bs_elems (s_linearized st))"
  note p = push_step[OF N s l e m ok b miss]
  have st1: "s_linearized ?st1 = b'" "s_state ?st1 = s'" "s_calls ?st1 = s_calls st @ [(c, s_state st)]"
    "cached (s_cache ?st1) = insert (b', s') (cached (s_cache st))"
    by (simp_all add: pushed_def Let_def cached_push)
  obtain st2 pre2 r2 suf2 where st2: "resumed M h0 hd0 R n cp ?st1 st2" "left h0 R ?st1 = pre2 @ r2 # suf2"
      "s_entry st2 = Some r2" "h_match h0 r2 = None" and nl: "\<not> lin M h0 R (bs_elems b') s'"
    using ex unfolding exhausted_def st1 by blast
  note r = st2(1)[unfolded resumed_def st1]
  have s2: "searching h0 hd0 R n st2" and l2: "left h0 R st2 = pre2 @ r2 # suf2" and c2: "s_calls st2 = s_calls st @ [(c, s_state st)]"
    and h2: "unlift c (s_heap st2) = Inr (s_heap st)"
    using r st2(2) p(3) st1(1) by simp_all
  have w2: "bs_wf n (s_linearized st2)" using s2 by (simp add: searching_def)
  have "c \<in> set (left h0 R st)" using l by simp
  then have "hid h0 c < n" using nodes_okD(4)[OF N] by (simp add: rest_def)
  then obtain b'' where b'': "bs_clear (hid h0 c) (s_linearized st2) = Inr b''" "bs_wf n b''"
      "bs_elems b'' = bs_elems (s_linearized st)"
    using bs.del_ok[OF w2, of "hid h0 c"] r b'(2,4) by fastforce
  obtain lo where lo: "length lo = n" "reaches M hd0 cp st2 (st2\<lparr>s_longest := lo, s_state := s_state st,
      s_linearized := b'', s_calls := s_calls st, s_heap := s_heap st, s_entry := h_next (s_heap st) c\<rparr>)"
    using pop_step[OF s2 l2 st2(3,4) c2 N b(1) b''(1) h2] by blast
  let ?st3 = "st2\<lparr>s_longest := lo, s_state := s_state st, s_linearized := b'', s_calls := s_calls st,
     s_heap := s_heap st, s_entry := h_next (s_heap st) c\<rparr>"
  have "reaches M hd0 cp st ?st3" using reaches_trans[OF p(1) reaches_trans[OF _ lo(2)]] r by blast
  moreover have "searching h0 hd0 R n ?st3" using s lo(1) b''(2,3) by (auto simp: searching_def)
  moreover have "cache_ok M h0 R n ?d (cached (s_cache st2))"
    "\<forall>e\<in>cached (s_cache st2). card (bs_elems (fst e)) \<le> ?d \<longrightarrow> e \<in> cached (s_cache st)"
    using tried_cache[OF K, of "cached (s_cache st2)" b' s'] r[unfolded b'(3)] b'(3) nl by blast+
  ultimately have "resumed M h0 hd0 R n cp st ?st3" using b''(3) by (simp add: resumed_def)
  moreover have "dead M h0 R (bs_elems (s_linearized st)) (s_state st) c" using ok nl b'(2) by (simp add: dead_def)
  ultimately show ?thesis by (intro exI[of _ ?st3]) simp
qed

text \<open>One operation: a linearization is found, or the search goes on behind it.\<close>

lemma try_operation:
  assumes N: "nodes_ok h0 hd0 R n" and M: "model_ok M h0 R" and s: "searching h0 hd0 R n st"
    and l: "left h0 R st = pre @ c # suf" and pre: "\<forall>a\<in>set pre. h_match h0 a \<noteq> None"
    and e: "s_entry st = Some c" and m: "h_match h0 c = Some m"
    and K: "cache_ok M h0 R n (card (bs_elems (s_linearized st))) (cached (s_cache st))"
    and child: "\<And>st1. searching h0 hd0 R n st1 \<Longrightarrow> length (left h0 R st1) < length (left h0 R st) \<Longrightarrow> left h0 R st1 \<noteq> [] \<Longrightarrow>
       s_entry st1 = Some (hd (left h0 R st1)) \<Longrightarrow>
       cache_ok M h0 R n (card (bs_elems (s_linearized st1))) (cached (s_cache st1)) \<Longrightarrow>
       found M h0 hd0 R cp st1 \<or> exhausted M h0 hd0 R n cp st1"
  shows "found M h0 hd0 R cp st \<or>
    (\<exists>st3. resumed M h0 hd0 R n cp st st3 \<and> s_entry st3 = h_next (s_heap st) c \<and>
       dead M h0 R (bs_elems (s_linearized st)) (s_state st) c)"
proof -
  have "c \<in> set (left h0 R st)" using l by simp
  then have "c \<in> set R" by (simp add: rest_def)
  then obtain ok s' where ok: "step_of M h0 (s_state st) c = Inr (ok, s')" using M m by (fastforce simp: model_ok_def)
  obtain eq where eq: "Equal M = Some eq" "\<forall>s t. eq s t \<longrightarrow> s = t" using M by (auto simp: model_ok_def)
  obtain b' where b: "go_pos (h_id h0 c) = Inr (hid h0 c)" "bs_set (hid h0 c) (s_linearized st) = Inr b'"
    and b': "bs_wf n b'" "bs_elems b' = insert (hid h0 c) (bs_elems (s_linearized st))"
      "card (bs_elems b') = Suc (card (bs_elems (s_linearized st)))" "hid h0 c \<notin> bs_elems (s_linearized st)"
    using set_position[OF N s l] .
  show ?thesis
  proof (cases "ok \<longrightarrow> cacheContains (the (Equal M)) (s_cache st) (b', s')")
    case True
    let ?st1 = "st\<lparr>s_entry := h_next (s_heap st) c\<rparr>"
    have "dead M h0 R (bs_elems (s_linearized st)) (s_state st) c"
      using True ok cache_hit_dead[OF _ eq(2) b'(1) K, of s'] b'(2,3) eq(1) by (auto simp: dead_def)
    moreover have "resumed M h0 hd0 R n cp st ?st1"
      using skip_step[OF s l e m ok b True] s K by (simp add: resumed_def searching_def)
    ultimately show ?thesis by (intro disjI2 exI[of _ ?st1]) simp
  next
    case False
    then have miss: "\<not> cacheContains (the (Equal M)) (s_cache st) (b', s')" and ok': "step_of M h0 (s_state st) c = Inr (True, s')"
      using ok by auto
    let ?st1 = "pushed hd0 c s' b' m st"
    note p = push_step[OF N s l e m ok' b miss, folded b'(2)]
    have s1: "searching h0 hd0 R n ?st1" using pushed_searching[OF N s l b'(1,2) p(2)] .
    have st1: "s_linearized ?st1 = b'" "s_state ?st1 = s'" "s_calls ?st1 = s_calls st @ [(c, s_state st)]"
      by (simp_all add: pushed_def Let_def)
    have found: "found M h0 hd0 R cp st" if f: "found M h0 hd0 R cp ?st1"
    proof -
      obtain st' cs where st': "reaches M hd0 cp ?st1 st'" "h_next (s_heap st') hd0 = None" "same_nodes (s_heap st') h0"
        "map fst (s_calls st') = map fst (s_calls st) @ c # cs" "linz M h0 R (bs_elems b') s' cs"
        using f unfolding found_def st1 by auto
      moreover have "linz M h0 R (bs_elems (s_linearized st)) (s_state st) (c # cs)"
        using st'(5) ok' b'(2) enabled_calls(1)[OF pre] m l by auto
      ultimately show ?thesis using reaches_trans[OF p(1)] unfolding found_def by blast
    qed
    show ?thesis
    proof (cases "left h0 R ?st1 = []")
      case True
      then have "h_next (s_heap ?st1) hd0 = None" using s1 linked_next[of "s_heap ?st1" hd0 "[]"] by (simp add: searching_def)
      then have "found M h0 hd0 R cp ?st1"
        using True s1 st1(1) unfolding found_def by (intro exI[of _ ?st1] exI[of _ "[]"]) (auto simp: searching_def)
      then show ?thesis using found by blast
    next
      case False
      have "length (left h0 R ?st1) < length (left h0 R st)"
        using rest_insert[OF N l m] b'(2) st1(1) l by (simp add: length_remove1) (metis Suc_le_mono Suc_pred diff_le_self le_imp_less_Suc length_pos_if_in_set less_SucI)
      moreover have "s_entry ?st1 = Some (hd (left h0 R ?st1))"
        using s1 False linked_next[of "s_heap ?st1" hd0 "left h0 R ?st1"] by (simp add: searching_def pushed_def Let_def)
      moreover have "cache_ok M h0 R n (card (bs_elems (s_linearized ?st1))) (cached (s_cache ?st1))"
        using pushed_cache[OF K b'(1,3)] st1(1) b'(3) by simp
      ultimately have "found M h0 hd0 R cp ?st1 \<or> exhausted M h0 hd0 R n cp ?st1" using child[OF s1 _ False] by blast
      then show ?thesis using found tried_in_vain[OF N s l e m ok' K b b' miss] by blast
    qed
  qed
qed

lemma explore:
  assumes N: "nodes_ok h0 hd0 R n" and M: "model_ok M h0 R"
    and "searching h0 hd0 R n st" and "left h0 R st = pre @ suf" and "suf \<noteq> []" and "s_entry st = Some (hd suf)"
    and "\<forall>c\<in>set pre. h_match h0 c \<noteq> None \<and> dead M h0 R (bs_elems (s_linearized st)) (s_state st) c"
    and "cache_ok M h0 R n (card (bs_elems (s_linearized st))) (cached (s_cache st))"
  shows "found M h0 hd0 R cp st \<or> exhausted M h0 hd0 R n cp st"
  using assms(3-)
proof (induction "length (left h0 R st)" arbitrary: st pre suf rule: less_induct)
  case less
  show ?case using less.prems less.hyps
  proof (induction suf arbitrary: st pre)
    case (Cons c suf)
    let ?S = "bs_elems (s_linearized st)"
    have e: "s_entry st = Some c" and pre: "\<forall>a\<in>set pre. h_match h0 a \<noteq> None" using Cons.prems by simp_all
    show ?case
    proof (cases "h_match h0 c")
      case None
      then have "\<not> lin M h0 R ?S (s_state st)" by (rule not_lin[OF Cons.prems(2,5)])
      then have "exhausted M h0 hd0 R n cp st"
        using Cons.prems None e unfolding exhausted_def resumed_def by (intro exI[of _ st]) auto
      then show ?thesis by blast
    next
      case (Some m)
      have suf: "suf \<noteq> []" using rest_match[OF N Cons.prems(2) Some] by auto
      have child: "found M h0 hd0 R cp st1 \<or> exhausted M h0 hd0 R n cp st1"
        if "searching h0 hd0 R n st1" "length (left h0 R st1) < length (left h0 R st)" "left h0 R st1 \<noteq> []"
          "s_entry st1 = Some (hd (left h0 R st1))" "cache_ok M h0 R n (card (bs_elems (s_linearized st1))) (cached (s_cache st1))" for st1
        using Cons.prems(7)[of st1 "[]" "left h0 R st1"] that by simp
      have "found M h0 hd0 R cp st \<or> (\<exists>st3. resumed M h0 hd0 R n cp st st3 \<and>
          s_entry st3 = h_next (s_heap st) c \<and> dead M h0 R ?S (s_state st) c)"
        by (rule try_operation[OF N M Cons.prems(1,2) pre e Some Cons.prems(6)]) (rule child)
      then show ?thesis
      proof
        assume "\<exists>st3. resumed M h0 hd0 R n cp st st3 \<and> s_entry st3 = h_next (s_heap st) c \<and> dead M h0 R ?S (s_state st) c"
        then obtain st3 where st3: "resumed M h0 hd0 R n cp st st3" "s_entry st3 = Some (hd suf)" "dead M h0 R ?S (s_state st) c"
          using searching_next(2)[OF Cons.prems(1,2)] suf by auto
        then have eq: "bs_elems (s_linearized st3) = ?S" "s_state st3 = s_state st" by (simp_all add: resumed_def)
        have "found M h0 hd0 R cp st3 \<or> exhausted M h0 hd0 R n cp st3"
        proof (rule Cons.IH[of st3 "pre @ [c]"])
          show "left h0 R st3 = (pre @ [c]) @ suf" using Cons.prems(2) eq by simp
          show "\<forall>a\<in>set (pre @ [c]). h_match h0 a \<noteq> None \<and> dead M h0 R (bs_elems (s_linearized st3)) (s_state st3) a"
            using Cons.prems(5) st3(3) Some eq by auto
        qed (use st3 suf eq Cons.prems(7) in \<open>auto simp: resumed_def\<close>)
        then show ?thesis using found_resumed[OF st3(1)] exhausted_resumed[OF st3(1)] by blast
      qed (erule disjI1)
    qed
  qed simp
qed

end
