(* ===== verification/Porcupine_History.thy ===== *)
theory Porcupine_History
  imports Porcupine_Search
begin

text \<open>
  Linearizability of a history, and the list \<open>makeLinkedEntries\<close> builds from it. A
  linearization is an order of the operations the model accepts and in which no operation
  comes before one that had returned when it was called. The nodes are allocated from the
  back of the history, so that the node with address \<open>a\<close> is entry \<open>a\<close> of the reversed
  history and addresses fall along the list.
\<close>

section \<open>Linearizability\<close>

fun answered :: "'v entry list \<Rightarrow> bool" where
  "answered [] = True"
| "answered (e # es) =
     ((e_kind e = callEntry \<longrightarrow> (\<exists>r\<in>set es. e_kind r = returnEntry \<and> e_id r = e_id e)) \<and> answered es)"

definition wf_entries :: "'v entry list \<Rightarrow> bool" where
  "wf_entries es \<longleftrightarrow>
     distinct (map (\<lambda>e. (e_kind e, e_id e)) es) \<and> (\<forall>e\<in>set es. 0 \<le> e_id e \<and> nat (e_id e) < length es div 2) \<and>
     answered es \<and> (\<forall>r\<in>set es. \<exists>c\<in>set es. e_kind c = callEntry \<and> e_id c = e_id r)"

definition value_at :: "'v entry list \<Rightarrow> bool \<Rightarrow> int \<Rightarrow> 'v" where
  "value_at es k i = e_value (the (find (\<lambda>e. e_kind e = k \<and> e_id e = i) es))"

fun legal :: "('v, 's) Model \<Rightarrow> 'v entry list \<Rightarrow> 's \<Rightarrow> int list \<Rightarrow> bool" where
  "legal M es s [] = True"
| "legal M es s (i # is) =
     (case Step M s (value_at es callEntry i) (value_at es returnEntry i) of
        Inr (True, s') \<Rightarrow> legal M es s' is
      | _ \<Rightarrow> False)"

fun precedes :: "'v entry list \<Rightarrow> int \<Rightarrow> int \<Rightarrow> bool" where
  "precedes [] i j = False"
| "precedes (e # es) i j =
     ((e_kind e = returnEntry \<and> e_id e = i \<and> (\<exists>c\<in>set es. e_kind c = callEntry \<and> e_id c = j)) \<or> precedes es i j)"

definition linearization :: "('v, 's) Model \<Rightarrow> 'v entry list \<Rightarrow> int list \<Rightarrow> bool" where
  "linearization M es ids \<longleftrightarrow>
     distinct ids \<and> set ids = e_id ` set es \<and> sorted_wrt (\<lambda>i j. \<not> precedes es j i) ids \<and> legal M es (Init M) ids"

definition linearizable :: "('v, 's) Model \<Rightarrow> 'v entry list \<Rightarrow> bool" where
  "linearizable M es \<longleftrightarrow> (\<exists>ids. linearization M es ids)"

section \<open>The list built from a history\<close>

text \<open>Node \<open>a\<close> holds its entry; a call points to the return behind it, when there is one.\<close>

definition node_ok :: "'v entry list \<Rightarrow> 'v heap \<Rightarrow> nat \<Rightarrow> bool" where
  "node_ok rl h a \<longleftrightarrow> h_id h a = e_id (rl ! a) \<and> h_value h a = Some (e_value (rl ! a)) \<and>
     (e_kind (rl ! a) = returnEntry \<longrightarrow> h_match h a = None) \<and>
     (\<forall>b. h_match h a = Some b \<longrightarrow> b < a \<and> e_kind (rl ! b) = returnEntry \<and> e_id (rl ! b) = e_id (rl ! a)) \<and>
     (\<forall>b<a. e_kind (rl ! a) = callEntry \<longrightarrow> e_kind (rl ! b) = returnEntry \<longrightarrow> e_id (rl ! b) = e_id (rl ! a) \<longrightarrow> h_match h a \<noteq> None)"

definition returns_ok :: "'v entry list \<Rightarrow> (int \<rightharpoonup> nat) \<Rightarrow> bool" where
  "returns_ok rl mt \<longleftrightarrow>
     (\<forall>i b. mt i = Some b \<longrightarrow> b < length rl \<and> e_kind (rl ! b) = returnEntry \<and> e_id (rl ! b) = i) \<and>
     (\<forall>b<length rl. e_kind (rl ! b) = returnEntry \<longrightarrow> mt (e_id (rl ! b)) \<noteq> None)"

definition built :: "'v entry list \<Rightarrow> (int \<rightharpoonup> nat) \<Rightarrow> 'v heap \<Rightarrow> bool" where
  "built rl mt h \<longleftrightarrow> h_size h = length rl \<and> linked h (rev [0..<length rl]) \<and>
     (rl \<noteq> [] \<longrightarrow> h_prev h (length rl - 1) = None) \<and> (\<forall>a<length rl. node_ok rl h a) \<and> returns_ok rl mt"

abbreviation root_of :: "'v entry list \<Rightarrow> nat option" where
  "root_of rl \<equiv> (if rl = [] then None else Some (length rl - 1))"

text \<open>A new first node.\<close>

definition consed :: "'v option \<Rightarrow> nat option \<Rightarrow> int \<Rightarrow> nat option \<Rightarrow> 'v heap \<Rightarrow> 'v heap" where
  "consed v mt i root h = insertBefore (fst (alloc v mt i h)) root (snd (alloc v mt i h))"

lemma consed_fields [heap_simps]:
  "h_size (consed v mt i root h) = Suc (h_size h)" "h_value (consed v mt i root h) = (h_value h)(h_size h := v)"
  "h_match (consed v mt i root h) = (h_match h)(h_size h := mt)" "h_id (consed v mt i root h) = (h_id h)(h_size h := i)"
  by (simp_all add: consed_def alloc_def insertBefore_def Let_def split: option.splits)

lemma consed_linked:
  assumes "linked h xs" and "root = (if xs = [] then None else Some (hd xs))" and "xs \<noteq> [] \<longrightarrow> h_prev h (hd xs) = None"
    and "h_size h \<notin> set xs" and "distinct xs"
  shows "linked (consed v mt i root h) (h_size h # xs)" and "h_prev (consed v mt i root h) (h_size h) = None"
proof -
  have "linked (consed v mt i root h) (h_size h # xs) \<and> h_prev (consed v mt i root h) (h_size h) = None"
  proof (cases xs)
    case Nil
    then show ?thesis using assms by (simp add: consed_def alloc_def insertBefore_def)
  next
    case (Cons x ys)
    have "linked (consed v mt i root h) (x # ys) = linked h (x # ys)"
      using assms Cons by (intro linked_cong) (auto simp: consed_def alloc_def insertBefore_def)
    then show ?thesis using assms Cons by (auto simp: consed_def alloc_def insertBefore_def)
  qed
  then show "linked (consed v mt i root h) (h_size h # xs)" "h_prev (consed v mt i root h) (h_size h) = None" by auto
qed

lemma link_entries_consed:
  "link_entries (elem # es) mt root h =
     link_entries es (if e_kind elem = returnEntry then mt(e_id elem \<mapsto> h_size h) else mt) (Some (h_size h))
       (consed (Some (e_value elem)) (if e_kind elem = returnEntry then None else mt (e_id elem)) (e_id elem) root h)"
  by (simp add: consed_def alloc_def)

lemma node_ok_snoc:
  assumes "node_ok rl h a" and "a < length rl"
    and "h_id h' a = h_id h a" and "h_value h' a = h_value h a" and "h_match h' a = h_match h a"
  shows "node_ok (rl @ [e]) h' a"
  unfolding node_ok_def
proof (intro conjI allI impI)
  fix b assume "h_match h' a = Some b"
  then have "b < a" "e_kind (rl ! b) = returnEntry" "e_id (rl ! b) = e_id (rl ! a)" using assms(1,5) by (auto simp: node_ok_def)
  then show "b < a" "e_kind ((rl @ [e]) ! b) = returnEntry" "e_id ((rl @ [e]) ! b) = e_id ((rl @ [e]) ! a)"
    using assms(2) by (simp_all add: nth_append)
next
  fix b assume "b < a" "e_kind ((rl @ [e]) ! a) = callEntry" "e_kind ((rl @ [e]) ! b) = returnEntry"
    "e_id ((rl @ [e]) ! b) = e_id ((rl @ [e]) ! a)"
  then show "h_match h' a \<noteq> None" using assms by (simp add: node_ok_def nth_append)
qed (use assms in \<open>simp_all add: node_ok_def nth_append\<close>)

lemma node_ok_new:
  assumes r: "returns_ok rl mt" and "h_id h' (length rl) = e_id e" "h_value h' (length rl) = Some (e_value e)"
    "h_match h' (length rl) = (if e_kind e = returnEntry then None else mt (e_id e))"
  shows "node_ok (rl @ [e]) h' (length rl)"
  unfolding node_ok_def
proof (intro conjI allI impI)
  fix b assume "h_match h' (length rl) = Some b"
  then have "b < length rl" "e_kind (rl ! b) = returnEntry" "e_id (rl ! b) = e_id e"
    using assms by (auto simp: returns_ok_def split: if_splits)
  then show "b < length rl" "e_kind ((rl @ [e]) ! b) = returnEntry" "e_id ((rl @ [e]) ! b) = e_id ((rl @ [e]) ! length rl)"
    by (simp_all add: nth_append)
next
  fix b assume "b < length rl" "e_kind ((rl @ [e]) ! length rl) = callEntry" "e_kind ((rl @ [e]) ! b) = returnEntry"
    "e_id ((rl @ [e]) ! b) = e_id ((rl @ [e]) ! length rl)"
  then show "h_match h' (length rl) \<noteq> None" using assms by (auto simp: returns_ok_def nth_append)
qed (use assms in simp_all)

lemma returns_ok_snoc:
  assumes "returns_ok rl mt"
  shows "returns_ok (rl @ [e]) (if e_kind e = returnEntry then mt(e_id e \<mapsto> length rl) else mt)" (is "returns_ok _ ?mt")
  unfolding returns_ok_def
proof (intro conjI allI impI)
  fix i b assume m: "?mt i = Some b"
  have "b = length rl \<and> e_kind e = returnEntry \<and> i = e_id e \<or> b < length rl \<and> e_kind (rl ! b) = returnEntry \<and> e_id (rl ! b) = i"
    using m assms by (auto simp: returns_ok_def split: if_splits)
  then show "b < length (rl @ [e])" "e_kind ((rl @ [e]) ! b) = returnEntry" "e_id ((rl @ [e]) ! b) = i"
    by (auto simp: nth_append)
next
  fix b assume "b < length (rl @ [e])" "e_kind ((rl @ [e]) ! b) = returnEntry"
  then show "?mt (e_id ((rl @ [e]) ! b)) \<noteq> None"
    using assms by (cases "b < length rl") (auto simp: returns_ok_def nth_append)
qed

lemma built_step:
  assumes b: "built rl mt h"
  shows "built (rl @ [elem]) (if e_kind elem = returnEntry then mt(e_id elem \<mapsto> h_size h) else mt)
     (consed (Some (e_value elem)) (if e_kind elem = returnEntry then None else mt (e_id elem)) (e_id elem) (root_of rl) h)"
    (is "built ?rl ?mt ?h")
proof -
  have sz: "h_size h = length rl" and rt: "returns_ok rl mt" and nd: "\<And>a. a < length rl \<Longrightarrow> node_ok rl h a"
    using b by (simp_all add: built_def)
  have hd: "hd (rev [0..<length rl]) = length rl - 1" if "rl \<noteq> []" using that by (cases rl) auto
  have "linked ?h (h_size h # rev [0..<length rl]) \<and> h_prev ?h (h_size h) = None"
    using consed_linked[of h "rev [0..<length rl]" "root_of rl"] b sz hd by (auto simp: built_def)
  then have "linked ?h (rev [0..<length ?rl])" "h_prev ?h (length ?rl - 1) = None" using sz by simp_all
  moreover have "node_ok ?rl ?h a" if "a < length ?rl" for a
  proof (cases "a = length rl")
    case True
    then show ?thesis using node_ok_new[OF rt, of ?h elem] sz by (simp add: heap_simps)
  next
    case False
    then have "a < length rl" using that by simp
    then show ?thesis using node_ok_snoc[OF nd, of a ?h elem] sz False by (simp add: heap_simps)
  qed
  ultimately show ?thesis
    using returns_ok_snoc[OF rt, of elem] sz by (simp add: built_def heap_simps split: if_splits)
qed

lemma link_entries_built:
  "built rl mt h \<Longrightarrow> \<exists>mt' h'. link_entries es mt (root_of rl) h = (root_of (rl @ es), h') \<and> built (rl @ es) mt' h'"
proof (induction es arbitrary: rl mt h)
  case (Cons elem es)
  have "Some (h_size h) = root_of (rl @ [elem])" using Cons.prems by (simp add: built_def)
  then show ?case using Cons.IH[OF built_step[OF Cons.prems, of elem]] by (simp only: link_entries_consed append_Cons append_Nil append_assoc)
qed auto

lemma makeLinkedEntries_built:
  obtains mt h where "makeLinkedEntries es = (root_of es, h)" and "built (rev es) mt h"
proof -
  have "built [] Map.empty (empty_heap :: 'a heap)" by (simp add: built_def empty_heap_def returns_ok_def)
  from link_entries_built[OF this, of "rev es"] show thesis using that by (auto simp: makeLinkedEntries_def)
qed

section \<open>The contract of the list\<close>

text \<open>
  What the search needs to know of a history in the heap: \<open>L\<close> nodes in falling order of
  their addresses, every field as its entry says, and every call matched.
\<close>

definition holds_history :: "'v entry list \<Rightarrow> 'v heap \<Rightarrow> bool" where
  "holds_history es h \<longleftrightarrow> linked h (length es # rev [0..<length es]) \<and>
     (\<forall>a<length es. h_id h a = e_id (rev es ! a) \<and> h_value h a = Some (e_value (rev es ! a)) \<and>
        (if e_kind (rev es ! a) = returnEntry then h_match h a = None
         else \<exists>b<a. h_match h a = Some b \<and> e_kind (rev es ! b) = returnEntry \<and> e_id (rev es ! b) = e_id (rev es ! a)))"

lemma answered_nth:
  "answered es \<Longrightarrow> i < length es \<Longrightarrow> e_kind (es ! i) = callEntry
   \<Longrightarrow> \<exists>j. i < j \<and> j < length es \<and> e_kind (es ! j) = returnEntry \<and> e_id (es ! j) = e_id (es ! i)"
proof (induction es arbitrary: i)
  case (Cons e es)
  show ?case
  proof (cases i)
    case 0
    then obtain r where "r \<in> set es" "e_kind r = returnEntry" "e_id r = e_id e" using Cons.prems by auto
    then obtain j where "j < length es" "es ! j = r" by (auto simp: in_set_conv_nth)
    then show ?thesis using 0 \<open>e_kind r = returnEntry\<close> \<open>e_id r = e_id e\<close> by (intro exI[of _ "Suc j"]) simp
  next
    case (Suc k)
    then obtain j where "k < j" "j < length es" "e_kind (es ! j) = returnEntry" "e_id (es ! j) = e_id (es ! k)"
      using Cons.IH[of k] Cons.prems by auto
    then show ?thesis using Suc by (intro exI[of _ "Suc j"]) simp
  qed
qed simp

lemma answered_rev:
  assumes "answered es" and "a < length es" and "e_kind (rev es ! a) = callEntry"
  shows "\<exists>b<a. e_kind (rev es ! b) = returnEntry \<and> e_id (rev es ! b) = e_id (rev es ! a)"
proof -
  let ?i = "length es - 1 - a"
  obtain j where "?i < j" "j < length es" "e_kind (es ! j) = returnEntry" "e_id (es ! j) = e_id (es ! ?i)"
    using answered_nth[OF assms(1), of ?i] assms(2,3) by (force simp: rev_nth)
  then show ?thesis using assms(2) by (intro exI[of _ "length es - 1 - j"]) (auto simp: rev_nth)
qed

lemma start_holds_history:
  assumes "wf_entries es" and "built (rev es) mt h"
  shows "holds_history es (consed None None (-1) (root_of es) h)" and "h_size h = length es"
proof -
  let ?h = "consed None None (-1) (root_of es) h"
  show sz: "h_size h = length es" using assms(2) by (simp add: built_def)
  have hd: "hd (rev [0..<length es]) = length es - 1" if "es \<noteq> []" using that by (cases es) auto
  have l: "linked ?h (length es # rev [0..<length es])"
    using consed_linked(1)[of h "rev [0..<length es]" "root_of es"] assms(2) hd sz by (auto simp: built_def)
  have "h_id ?h a = e_id (rev es ! a) \<and> h_value ?h a = Some (e_value (rev es ! a)) \<and>
        (if e_kind (rev es ! a) = returnEntry then h_match ?h a = None
         else \<exists>b<a. h_match ?h a = Some b \<and> e_kind (rev es ! b) = returnEntry \<and> e_id (rev es ! b) = e_id (rev es ! a))"
    if a: "a < length es" for a
  proof -
    have n: "node_ok (rev es) h a" using assms(2) a by (simp add: built_def)
    have "h_match h a \<noteq> None" if "e_kind (rev es ! a) = callEntry"
      using answered_rev[OF _ a that] assms(1) n that by (auto simp: wf_entries_def node_ok_def)
    then show ?thesis using n sz a by (auto simp: node_ok_def heap_simps)
  qed
  then show "holds_history es ?h" using l unfolding holds_history_def by blast
qed

lemma wf_entries_unique:
  assumes "wf_entries es" and "a < length es" and "b < length es" and "e_kind (rev es ! a) = e_kind (rev es ! b)"
    and "e_id (rev es ! a) = e_id (rev es ! b)"
  shows "a = b"
proof -
  have "distinct (map (\<lambda>e. (e_kind e, e_id e)) (rev es))" using assms(1) by (simp add: wf_entries_def flip: rev_map)
  then show ?thesis using assms(2-) by (auto simp: distinct_conv_nth)
qed

lemma holds_historyD:
  assumes "holds_history es h" and "a < length es"
  shows "h_id h a = e_id (rev es ! a)" and "h_value h a = Some (e_value (rev es ! a))"
    and "h_match h a = None \<longleftrightarrow> e_kind (rev es ! a) = returnEntry"
    and "h_match h a = Some b \<Longrightarrow> b < a \<and> e_kind (rev es ! b) = returnEntry \<and> e_id (rev es ! b) = e_id (rev es ! a)"
proof -
  note d = conjunct2[OF assms(1)[unfolded holds_history_def], rule_format, OF assms(2)]
  show "h_id h a = e_id (rev es ! a)" "h_value h a = Some (e_value (rev es ! a))" using d by blast+
  show "h_match h a = None \<longleftrightarrow> e_kind (rev es ! a) = returnEntry"
    using d by (cases "e_kind (rev es ! a)") auto
  show "h_match h a = Some b \<Longrightarrow> b < a \<and> e_kind (rev es ! b) = returnEntry \<and> e_id (rev es ! b) = e_id (rev es ! a)"
    using d by (cases "e_kind (rev es ! a)") auto
qed

lemmas holds_history_kind = holds_historyD(3)

lemma holds_history_nodes_ok:
  assumes wf: "wf_entries es" and h: "holds_history es h"
  shows "nodes_ok h (length es) (rev [0..<length es]) (length es div 2)"
  unfolding nodes_ok_def
proof (intro conjI ballI impI allI)
  fix a b assume ab: "a \<in> set (rev [0..<length es])" "b \<in> set (rev [0..<length es])" "hid h a = hid h b"
    "(h_match h a = None) = (h_match h b = None)"
  then have lt: "a < length es" "b < length es" by auto
  have "rev es ! a \<in> set es" "rev es ! b \<in> set es" using lt by (metis length_rev nth_mem set_rev)+
  then have "0 \<le> e_id (rev es ! a)" "0 \<le> e_id (rev es ! b)" using wf by (auto simp: wf_entries_def)
  then have "e_id (rev es ! a) = e_id (rev es ! b)" using ab(3) lt holds_historyD(1)[OF h] by simp
  then show "a = b" using wf_entries_unique[OF wf lt] ab(4) holds_history_kind[OF h] lt by simp
next
  fix us c vs m assume r: "rev [0..<length es] = us @ c # vs" and m: "h_match h c = Some m"
  then have c: "c < length es" by (metis in_set_conv_decomp set_rev atLeastLessThan_iff set_upt)
  then have mm: "m < c" "e_kind (rev es ! m) = returnEntry" "e_id (rev es ! m) = e_id (rev es ! c)"
    using holds_historyD(4)[OF h c m] by simp_all
  have "sorted_wrt (>) (us @ c # vs)" unfolding r[symmetric] by (simp add: sorted_wrt_rev)
  then have "\<forall>u\<in>set us. c < u" by (auto simp: sorted_wrt_append)
  moreover have "m \<in> set (us @ c # vs)" unfolding r[symmetric] using mm c by simp
  ultimately show "m \<in> set vs" using mm by auto
  show "h_match h m = None" "hid h m = hid h c" using mm c holds_historyD(1,3)[OF h] by simp_all
next
  fix a assume "a \<in> set (rev [0..<length es])"
  then have a: "a < length es" by simp
  then have "rev es ! a \<in> set es" by (metis length_rev nth_mem set_rev)
  then show "0 \<le> h_id h a" "hid h a < length es div 2" using wf a holds_historyD(1)[OF h] by (auto simp: wf_entries_def)
qed simp

section \<open>What the search finds are the linearizations\<close>

lemma enabled_falling:
  assumes "sorted_wrt (>) as"
  shows "enabled h as c \<longleftrightarrow> c \<in> set as \<and> h_match h c \<noteq> None \<and> (\<forall>r\<in>set as. h_match h r = None \<longrightarrow> r < c)"
  using assms
proof (induction "as")
  case (Cons a as)
  then show ?case by (cases "h_match h a") (auto dest: less_asym)
qed simp

text \<open>The calls of the operations outside \<open>S\<close>.\<close>

definition calls_left :: "'v heap \<Rightarrow> nat \<Rightarrow> nat set \<Rightarrow> nat set" where
  "calls_left h L S = {c. c < L \<and> h_match h c \<noteq> None \<and> hid h c \<notin> S}"

text \<open>Every node that is left is a call or the return of a call that is left.\<close>

lemma rest_nodes:
  assumes wf: "wf_entries es" and h: "holds_history es h"
  shows "{a \<in> set (rest h (rev [0..<length es]) S). h_match h a \<noteq> None} = calls_left h (length es) S"
    and "{r \<in> set (rest h (rev [0..<length es]) S). h_match h r = None} = (\<lambda>c. the (h_match h c)) ` calls_left h (length es) S"
proof -
  show "{a \<in> set (rest h (rev [0..<length es]) S). h_match h a \<noteq> None} = calls_left h (length es) S"
    by (auto simp: rest_def calls_left_def)
  show "{r \<in> set (rest h (rev [0..<length es]) S). h_match h r = None} = (\<lambda>c. the (h_match h c)) ` calls_left h (length es) S"
  proof (intro equalityI subsetI)
    fix r assume "r \<in> {r \<in> set (rest h (rev [0..<length es]) S). h_match h r = None}"
    then have r: "r < length es" "hid h r \<notin> S" "h_match h r = None" by (auto simp: rest_def)
    have "rev es ! r \<in> set es" using r(1) by (metis length_rev nth_mem set_rev)
    then obtain ce where "ce \<in> set (rev es)" "e_kind ce = callEntry" "e_id ce = e_id (rev es ! r)"
      using wf unfolding wf_entries_def by (metis set_rev)
    then obtain c where c: "c < length es" "e_kind (rev es ! c) = callEntry" "e_id (rev es ! c) = e_id (rev es ! r)"
      by (metis in_set_conv_nth length_rev)
    then obtain b where b: "h_match h c = Some b" using holds_historyD(3)[OF h] by auto
    then have "b < length es" "e_kind (rev es ! b) = returnEntry" "e_id (rev es ! b) = e_id (rev es ! r)"
      using holds_historyD(4)[OF h c(1) b] c by auto
    then have "b = r" using wf_entries_unique[OF wf _ r(1)] holds_historyD(3)[OF h r(1)] r(3) by simp
    moreover have "c \<in> calls_left h (length es) S"
      using b c r holds_historyD(1)[OF h] by (simp add: calls_left_def)
    ultimately show "r \<in> (\<lambda>c. the (h_match h c)) ` calls_left h (length es) S" using b by force
  next
    fix r assume "r \<in> (\<lambda>c. the (h_match h c)) ` calls_left h (length es) S"
    then obtain c where c: "c < length es" "h_match h c = Some r" "hid h c \<notin> S" by (auto simp: calls_left_def)
    then have "r < c" "e_kind (rev es ! r) = returnEntry" "e_id (rev es ! r) = e_id (rev es ! c)" using holds_historyD(4)[OF h] by auto
    then show "r \<in> {r \<in> set (rest h (rev [0..<length es]) S). h_match h r = None}"
      using c holds_historyD(1,3)[OF h] by (simp add: rest_def)
  qed
qed

lemma calls_left_insert:
  assumes wf: "wf_entries es" and h: "holds_history es h" and c: "c \<in> calls_left h (length es) S"
  shows "calls_left h (length es) (insert (hid h c) S) = calls_left h (length es) S - {c}"
proof -
  have "d = c" if "d < length es" "h_match h d \<noteq> None" "hid h d = hid h c" for d
    using nodes_okD(5)[OF holds_history_nodes_ok[OF wf h], of d c] that c by (auto simp: calls_left_def)
  then show ?thesis by (auto simp: calls_left_def)
qed

fun accepted :: "('v, 's) Model \<Rightarrow> 'v heap \<Rightarrow> 's \<Rightarrow> nat list \<Rightarrow> bool" where
  "accepted M h s [] = True"
| "accepted M h s (c # cs) = (\<exists>s'. step_of M h s c = Inr (True, s') \<and> accepted M h s' cs)"

lemma linz_iff:
  assumes wf: "wf_entries es" and h: "holds_history es h"
  shows "linz M h (rev [0..<length es]) S s cs \<longleftrightarrow>
     distinct cs \<and> set cs = calls_left h (length es) S \<and> sorted_wrt (\<lambda>c d. the (h_match h d) < c) cs \<and> accepted M h s cs"
proof (induction cs arbitrary: S s)
  case Nil
  have "rest h (rev [0..<length es]) S = [] \<longleftrightarrow> calls_left h (length es) S = {}"
    using Nil_iff_parts[of "rest h (rev [0..<length es]) S" "\<lambda>a. h_match h a = None"]
    unfolding rest_nodes[OF wf h] by simp
  then show ?case by auto
next
  case (Cons c cs)
  let ?R = "rest h (rev [0..<length es]) S" and ?C = "calls_left h (length es) S"
  have "sorted_wrt (>) ?R" unfolding rest_def by (intro sorted_wrt_filter) (simp add: sorted_wrt_rev)
  from enabled_falling[OF this, of h c]
  have "enabled h ?R c \<longleftrightarrow> c \<in> ?C \<and> (\<forall>r\<in>{r \<in> set ?R. h_match h r = None}. r < c)"
    unfolding rest_nodes(1)[OF wf h, symmetric] by auto
  then have en: "enabled h ?R c \<longleftrightarrow> c \<in> ?C \<and> (\<forall>d\<in>?C. the (h_match h d) < c)"
    unfolding rest_nodes(2)[OF wf h] by auto
  have self: "the (h_match h c) < c" if "c \<in> ?C" using that holds_historyD(4)[OF h] by (auto simp: calls_left_def)
  have "linz M h (rev [0..<length es]) S s (c # cs) \<longleftrightarrow> c \<in> ?C \<and> (\<forall>d\<in>?C. the (h_match h d) < c) \<and>
      distinct cs \<and> set cs = ?C - {c} \<and> sorted_wrt (\<lambda>c d. the (h_match h d) < c) cs \<and> accepted M h s (c # cs)"
    using Cons.IH en calls_left_insert[OF wf h, of c S] by auto
  also have "\<dots> \<longleftrightarrow> distinct (c # cs) \<and> set (c # cs) = ?C \<and> sorted_wrt (\<lambda>c d. the (h_match h d) < c) (c # cs) \<and> accepted M h s (c # cs)"
  proof -
    have "c \<in> ?C \<and> (\<forall>d\<in>?C. the (h_match h d) < c) \<and> distinct cs \<and> set cs = ?C - {c} \<longleftrightarrow>
        distinct (c # cs) \<and> set (c # cs) = ?C \<and> (\<forall>d\<in>set cs. the (h_match h d) < c)"
    proof (cases "set (c # cs) = ?C")
      case True
      then have "?C = insert c (set cs)" "the (h_match h c) < c" using self by auto
      then show ?thesis by auto
    qed auto
    then show ?thesis unfolding sorted_wrt.simps by blast
  qed
  finally show ?case .
qed

lemma precedes_iff:
  "precedes es i j \<longleftrightarrow> (\<exists>p q. p < q \<and> q < length es \<and> e_kind (es ! p) = returnEntry \<and> e_id (es ! p) = i \<and>
     e_kind (es ! q) = callEntry \<and> e_id (es ! q) = j)"
proof (induction es)
  case (Cons e es)
  then show ?case by (subst ex_less_split) (auto simp: in_set_conv_nth intro: bexI[OF _ nth_mem])
qed simp

lemma precedes_nodes:
  assumes wf: "wf_entries es" and h: "holds_history es h"
    and c: "c \<in> calls_left h (length es) S" and d: "d \<in> calls_left h (length es) S"
  shows "\<not> precedes es (h_id h d) (h_id h c) \<longleftrightarrow> the (h_match h d) < c"
proof -
  let ?L = "length es"
  obtain r where r: "h_match h d = Some r" "d < ?L" "c < ?L" "h_match h c \<noteq> None" using c d by (auto simp: calls_left_def)
  have k: "r < d" "e_kind (rev es ! r) = returnEntry" "e_id (rev es ! r) = e_id (rev es ! d)"
    using holds_historyD(4)[OF h r(2,1)] by auto
  have kc: "e_kind (rev es ! c) = callEntry" using holds_historyD(3)[OF h r(3)] r(4) by simp
  have "precedes es (h_id h d) (h_id h c) \<longleftrightarrow> (\<exists>a b. b < a \<and> a < ?L \<and> e_kind (rev es ! a) = returnEntry \<and>
      e_id (rev es ! a) = h_id h d \<and> e_kind (rev es ! b) = callEntry \<and> e_id (rev es ! b) = h_id h c)" (is "_ \<longleftrightarrow> ?rhs")
  proof
    assume "precedes es (h_id h d) (h_id h c)"
    then obtain p q where "p < q" "q < ?L" "e_kind (es ! p) = returnEntry" "e_id (es ! p) = h_id h d"
      "e_kind (es ! q) = callEntry" "e_id (es ! q) = h_id h c" by (auto simp: precedes_iff)
    then show ?rhs by (intro exI[of _ "?L - 1 - p"] exI[of _ "?L - 1 - q"]) (auto simp: rev_nth)
  next
    assume ?rhs
    then obtain a b where "b < a" "a < ?L" "e_kind (rev es ! a) = returnEntry" "e_id (rev es ! a) = h_id h d"
      "e_kind (rev es ! b) = callEntry" "e_id (rev es ! b) = h_id h c" by blast
    then show "precedes es (h_id h d) (h_id h c)"
      unfolding precedes_iff by (intro exI[of _ "?L - 1 - a"] exI[of _ "?L - 1 - b"]) (auto simp: rev_nth)
  qed
  also have "\<dots> \<longleftrightarrow> c < r"
  proof
    assume ?rhs
    then obtain a b where ab: "b < a" "a < ?L" "e_kind (rev es ! a) = returnEntry" "e_id (rev es ! a) = h_id h d"
      "e_kind (rev es ! b) = callEntry" "e_id (rev es ! b) = h_id h c" by blast
    have "a = r" using wf_entries_unique[OF wf ab(2), of r] k r ab holds_historyD(1)[OF h r(2)] by simp
    moreover have "b = c" using wf_entries_unique[OF wf _ r(3), of b] kc ab holds_historyD(1)[OF h r(3)] by simp
    ultimately show "c < r" using ab by simp
  next
    assume "c < r"
    then show ?rhs using k kc r holds_historyD(1)[OF h] by (intro exI[of _ r] exI[of _ c]) simp
  qed
  also have "\<not> c < r \<longleftrightarrow> r < c" using k(2) kc by (metis linorder_neqE_nat not_less_iff_gr_or_eq)
  finally show ?thesis using r(1) by auto
qed

lemma value_at_entry:
  assumes wf: "wf_entries es" and f: "f \<in> set es"
  shows "value_at es (e_kind f) (e_id f) = e_value f"
proof -
  let ?P = "\<lambda>e. e_kind e = e_kind f \<and> e_id e = e_id f"
  have "find ?P es \<noteq> None" using f by (auto simp: find_None_iff)
  then obtain e where e: "find ?P es = Some e" by blast
  then have "e \<in> set es" "?P e" by (auto simp: find_Some_iff)
  moreover have "inj_on (\<lambda>e. (e_kind e, e_id e)) (set es)" using wf by (simp add: wf_entries_def distinct_map)
  ultimately have "e = f" using f by (auto dest: inj_onD)
  then show ?thesis using e by (simp add: value_at_def)
qed

lemma value_at_node:
  assumes "wf_entries es" and "a < length es"
  shows "value_at es (e_kind (rev es ! a)) (e_id (rev es ! a)) = e_value (rev es ! a)"
  using value_at_entry[OF assms(1)] assms(2) by (metis length_rev nth_mem set_rev)

lemma legal_accepted:
  assumes wf: "wf_entries es" and h: "holds_history es h"
  shows "set cs \<subseteq> calls_left h (length es) S \<Longrightarrow> legal M es s (map (h_id h) cs) \<longleftrightarrow> accepted M h s cs"
proof (induction cs arbitrary: s)
  case (Cons c cs)
  then obtain r where c: "c < length es" "h_match h c = Some r" by (auto simp: calls_left_def)
  note r = holds_historyD(4)[OF h c]
  have kc: "e_kind (rev es ! c) = callEntry" using holds_historyD(3)[OF h c(1)] c(2) by simp
  have "value_at es callEntry (h_id h c) = the (h_value h c)"
    using value_at_node[OF wf c(1)] holds_historyD(1,2)[OF h c(1)] kc by simp
  moreover have "value_at es returnEntry (h_id h c) = the (h_value h (the (h_match h c)))"
    using value_at_node[OF wf, of r] holds_historyD(1,2)[OF h] r c by simp
  ultimately have "legal M es s (map (h_id h) (c # cs)) \<longleftrightarrow>
      (case step_of M h s c of Inr (True, s') \<Rightarrow> legal M es s' (map (h_id h) cs) | _ \<Rightarrow> False)" by simp
  then show ?case using Cons.IH Cons.prems by (auto split: sum.splits prod.splits bool.splits)
qed simp

lemma ids_of_calls:
  assumes wf: "wf_entries es" and h: "holds_history es h"
  shows "inj_on (h_id h) (calls_left h (length es) {})" and "h_id h ` calls_left h (length es) {} = e_id ` set es"
proof -
  let ?C = "calls_left h (length es) {}"
  have C: "c \<in> ?C \<longleftrightarrow> c < length es \<and> e_kind (rev es ! c) = callEntry" for c
    using holds_historyD(3)[OF h, of c] by (auto simp: calls_left_def)
  show "inj_on (h_id h) ?C"
    using wf_entries_unique[OF wf] holds_historyD(1)[OF h] by (intro inj_onI) (simp add: C)
  show "h_id h ` ?C = e_id ` set es"
  proof (intro equalityI subsetI)
    fix i assume "i \<in> h_id h ` ?C"
    then obtain c where "c < length es" "i = e_id (rev es ! c)" using holds_historyD(1)[OF h] C by auto
    then show "i \<in> e_id ` set es" by (metis image_eqI length_rev nth_mem set_rev)
  next
    fix i assume "i \<in> e_id ` set es"
    then obtain r where "r \<in> set es" "i = e_id r" by blast
    moreover have "\<forall>r\<in>set es. \<exists>c\<in>set es. e_kind c = callEntry \<and> e_id c = e_id r" using wf unfolding wf_entries_def by blast
    ultimately obtain e where "e \<in> set (rev es)" "e_kind e = callEntry" "e_id e = i" by auto
    then obtain c where "c < length es" "e_kind (rev es ! c) = callEntry" "e_id (rev es ! c) = i"
      by (metis in_set_conv_nth length_rev)
    then show "i \<in> h_id h ` ?C" using C holds_historyD(1)[OF h] by (metis imageI)
  qed
qed

lemma linearization_nodes:
  assumes wf: "wf_entries es" and h: "holds_history es h" and cs: "set cs \<subseteq> calls_left h (length es) {}"
  shows "linearization M es (map (h_id h) cs) \<longleftrightarrow> linz M h (rev [0..<length es]) {} (Init M) cs"
proof -
  let ?C = "calls_left h (length es) {}"
  have d: "distinct (map (h_id h) cs) \<longleftrightarrow> distinct cs"
    using inj_on_subset[OF ids_of_calls(1)[OF wf h] cs] by (simp add: distinct_map)
  have e: "set (map (h_id h) cs) = e_id ` set es \<longleftrightarrow> set cs = ?C"
    using inj_on_image_eq_iff[OF ids_of_calls(1)[OF wf h] cs, of ?C] ids_of_calls(2)[OF wf h] by simp
  have w: "sorted_wrt (\<lambda>i j. \<not> precedes es j i) (map (h_id h) cs) \<longleftrightarrow> sorted_wrt (\<lambda>c d. the (h_match h d) < c) cs"
  proof -
    have "sorted_wrt (\<lambda>c d. \<not> precedes es (h_id h d) (h_id h c)) cs \<longleftrightarrow> sorted_wrt (\<lambda>c d. the (h_match h d) < c) cs"
    proof (rule iffI)
      assume "sorted_wrt (\<lambda>c d. \<not> precedes es (h_id h d) (h_id h c)) cs"
      then show "sorted_wrt (\<lambda>c d. the (h_match h d) < c) cs"
        using precedes_nodes[OF wf h] cs by (elim sorted_wrt_mono_rel[rotated]) blast
    next
      assume "sorted_wrt (\<lambda>c d. the (h_match h d) < c) cs"
      then show "sorted_wrt (\<lambda>c d. \<not> precedes es (h_id h d) (h_id h c)) cs"
        using precedes_nodes[OF wf h] cs by (elim sorted_wrt_mono_rel[rotated]) blast
    qed
    then show ?thesis by (simp add: sorted_wrt_map)
  qed
  show ?thesis unfolding linearization_def linz_iff[OF wf h] d e w legal_accepted[OF wf h cs] ..
qed

lemma linearization_iff:
  assumes wf: "wf_entries es" and h: "holds_history es h"
  shows "linearization M es ids \<longleftrightarrow> (\<exists>cs. linz M h (rev [0..<length es]) {} (Init M) cs \<and> ids = map (h_id h) cs)"
proof
  let ?C = "calls_left h (length es) {}"
  assume l: "linearization M es ids"
  let ?cs = "map (inv_into ?C (h_id h)) ids"
  have i: "set ids = h_id h ` ?C" using l ids_of_calls(2)[OF wf h] by (simp add: linearization_def)
  have "map (h_id h) ?cs = ids" using i by (auto simp: o_def f_inv_into_f intro!: map_idI)
  moreover have "set ?cs \<subseteq> ?C" using i by (auto intro: inv_into_into)
  ultimately show "\<exists>cs. linz M h (rev [0..<length es]) {} (Init M) cs \<and> ids = map (h_id h) cs"
    using linearization_nodes[OF wf h, of ?cs M] l by auto
next
  assume "\<exists>cs. linz M h (rev [0..<length es]) {} (Init M) cs \<and> ids = map (h_id h) cs"
  then obtain cs where cs: "linz M h (rev [0..<length es]) {} (Init M) cs" "ids = map (h_id h) cs" by blast
  then have "set cs \<subseteq> calls_left h (length es) {}" unfolding linz_iff[OF wf h] by simp
  from linearization_nodes[OF wf h this, of M] show "linearization M es ids" using cs by simp
qed

lemma linearizable_lin:
  assumes "wf_entries es" and "holds_history es h"
  shows "linearizable M es \<longleftrightarrow> lin M h (rev [0..<length es]) {} (Init M)"
  using linearization_iff[OF assms] unfolding linearizable_def lin_def by blast

end
