(* ===== verification/Porcupine_Check.thy ===== *)
theory Porcupine_Check
  imports Porcupine_History
begin

text \<open>
  \<open>checkSingle\<close> decides linearizability. The search relies on the list it is given through
  the locale \<open>history_in_heap\<close>; \<open>makeLinkedEntries\<close> provides it.
\<close>

text \<open>What is asked of the user's model on a history: \<open>Step\<close> does not panic, \<open>Equal\<close> is sound.\<close>

definition accepts_values :: "('v, 's) Model \<Rightarrow> 'v entry list \<Rightarrow> bool" where
  "accepts_values M es \<longleftrightarrow> (\<forall>c\<in>set es. \<forall>r\<in>set es. e_kind c = callEntry \<longrightarrow> e_kind r = returnEntry \<longrightarrow> e_id c = e_id r \<longrightarrow>
     (\<forall>s. \<exists>x. Step M s (e_value c) (e_value r) = Inr x))"

definition equal_sound :: "('v, 's) Model \<Rightarrow> bool" where
  "equal_sound M \<longleftrightarrow> (\<exists>eq. Equal M = Some eq \<and> (\<forall>s t. eq s t \<longrightarrow> s = t))"

definition start_search :: "('v, 's) Model \<Rightarrow> 'v entry list \<Rightarrow> 'v heap \<Rightarrow> ('v, 's) search" where
  "start_search M es h =
     \<lparr>s_heap = h, s_entry = root_of es, s_state = Init M, s_linearized = newBitset (length es div 2),
      s_cache = (\<lambda>_. []), s_calls = [], s_longest = replicate (length es div 2) None\<rparr>"

locale history_in_heap =
  fixes wf :: "'v entry list \<Rightarrow> bool" and start :: "'v entry list \<Rightarrow> 'v heap"
  assumes wf_entries: "wf es \<Longrightarrow> wf_entries es" and holds: "wf es \<Longrightarrow> holds_history es (start es)"
begin

lemma model_ok:
  assumes "wf es" and "accepts_values M es" and "equal_sound M"
  shows "model_ok M (start es) (rev [0..<length es])"
proof -
  have "\<exists>x. step_of M (start es) s c = Inr x" if c: "c < length es" "h_match (start es) c \<noteq> None" for c s
  proof -
    note D = holds_historyD[OF holds[OF assms(1)]]
    obtain r where r: "h_match (start es) c = Some r" using c by blast
    have "r < c" "e_kind (rev es ! r) = returnEntry" "e_id (rev es ! r) = e_id (rev es ! c)" using D(4)[OF c(1) r] by auto
    moreover have "rev es ! c \<in> set es" "rev es ! r \<in> set es" using c \<open>r < c\<close> by (metis length_rev less_trans nth_mem set_rev)+
    moreover have "e_kind (rev es ! c) = callEntry" using D(3)[OF c(1)] c(2) by simp
    ultimately have "\<exists>x. Step M s (e_value (rev es ! c)) (e_value (rev es ! r)) = Inr x"
      using assms(2)[unfolded accepts_values_def, rule_format, of "rev es ! c" "rev es ! r" s] by simp
    then show ?thesis using D(2)[of c] D(2)[of r] c r \<open>r < c\<close> by simp
  qed
  then show ?thesis using assms(3) by (simp add: model_ok_def equal_sound_def)
qed

lemma searching_start:
  assumes "wf es"
  shows "searching (start es) (length es) (rev [0..<length es]) (length es div 2) (start_search M es (start es))"
    and "left (start es) (rev [0..<length es]) (start_search M es (start es)) = rev [0..<length es]"
  using holds[OF assms] bs.new_wf[of "length es div 2"] bs.new_elems[of "length es div 2"]
  by (simp_all add: searching_def start_search_def same_nodes_def holds_history_def rest_def)

lemma search_found:
  assumes w: "wf es" and f: "found M (start es) (length es) (rev [0..<length es]) cp (start_search M es (start es))"
  shows "\<exists>j st'. (\<forall>k. search_loop (k + j) (\<lambda>_. False) M (length es) cp (start_search M es (start es)) = Some (Inr (True, st'))) \<and>
     linearization M es (map (\<lambda>(e, _). h_id (s_heap st') e) (s_calls st'))"
proof -
  obtain st' cs where st': "reaches M (length es) cp (start_search M es (start es)) st'" "h_next (s_heap st') (length es) = None"
    "same_nodes (s_heap st') (start es)" "map fst (s_calls st') = cs"
    "linz M (start es) (rev [0..<length es]) {} (Init M) cs"
    using f bs.new_elems[of "length es div 2"] by (auto simp: found_def start_search_def)
  obtain j where "\<forall>k. search_loop (k + j) (\<lambda>_. False) M (length es) cp (start_search M es (start es)) = Some (Inr (True, st'))"
    using st'(1,2) by (auto simp: reaches_def search_loop.simps)
  moreover have "map (\<lambda>(e, _). h_id (s_heap st') e) (s_calls st') = map (h_id (start es)) cs"
    using st'(3,4) by (auto simp: same_nodes_def)
  moreover have "linearization M es (map (h_id (start es)) cs)"
    using st'(5) linearization_iff[OF wf_entries[OF w] holds[OF w]] by blast
  ultimately show ?thesis by (intro exI[of _ j] exI[of _ st']) simp
qed

lemma search_exhausted:
  assumes w: "wf es" and e: "exhausted M (start es) (length es) (rev [0..<length es]) (length es div 2) cp (start_search M es (start es))"
  shows "\<exists>j st'. (\<forall>k. search_loop (k + j) (\<lambda>_. False) M (length es) cp (start_search M es (start es)) = Some (Inr (False, st'))) \<and>
     \<not> linearizable M es"
proof -
  let ?R = "rev [0..<length es]" and ?st = "start_search M es (start es)"
  obtain st' pre r suf where st': "resumed M (start es) (length es) ?R (length es div 2) cp ?st st'"
    "left (start es) ?R ?st = pre @ r # suf" "s_entry st' = Some r" "h_match (start es) r = None"
    "\<not> lin M (start es) ?R {} (Init M)"
    using e bs.new_elems[of "length es div 2"] by (auto simp: exhausted_def start_search_def)
  note q = st'(1)[unfolded resumed_def]
  have s: "searching (start es) (length es) ?R (length es div 2) st'" "left (start es) ?R st' = pre @ r # suf" "s_calls st' = []"
    using q st'(2) by (simp_all add: start_search_def)
  have stop: "search_step M (length es) cp False st' = Inr (Inl False)"
    using s(1,3) st'(3,4) by (simp add: search_step_def deref_def searching_def same_nodes_def)
  have "search_loop (Suc k) (\<lambda>_. False) M (length es) cp st' = Some (Inr (False, st'))" for k
    using stop searching_next(1)[OF s(1,2)] by (subst search_loop.simps) auto
  moreover obtain j where "\<forall>k. search_loop (k + j) (\<lambda>_. False) M (length es) cp ?st = search_loop k (\<lambda>_. False) M (length es) cp st'"
    using q by (auto simp: reaches_def)
  ultimately have "\<forall>k. search_loop (k + Suc j) (\<lambda>_. False) M (length es) cp ?st = Some (Inr (False, st'))"
    by (metis add_Suc_shift)
  then show ?thesis using st'(5) linearizable_lin[OF wf_entries[OF w] holds[OF w]] by blast
qed

lemma search_decides:
  assumes w: "wf es" and M: "accepts_values M es" "equal_sound M"
  shows "\<exists>j st'. (\<forall>k. search_loop (k + j) (\<lambda>_. False) M (length es) cp (start_search M es (start es)) = Some (Inr (linearizable M es, st'))) \<and>
     (linearizable M es \<longrightarrow> linearization M es (map (\<lambda>(e, _). h_id (s_heap st') e) (s_calls st')))"
proof -
  let ?R = "rev [0..<length es]" and ?st = "start_search M es (start es)"
  have "found M (start es) (length es) ?R cp ?st \<or> exhausted M (start es) (length es) ?R (length es div 2) cp ?st"
  proof (cases "es = []")
    case True
    have "found M (start es) (length es) ?R cp ?st"
      unfolding found_def using True holds[OF w]
      by (intro exI[of _ ?st] exI[of _ "[]"]) (auto simp: start_search_def same_nodes_def holds_history_def rest_def)
    then show ?thesis ..
  next
    case False
    have hd: "hd ?R = length es - 1" using False by (cases es) auto
    show ?thesis
      by (rule explore[OF holds_history_nodes_ok[OF wf_entries[OF w] holds[OF w]] model_ok[OF w M] searching_start(1)[OF w], where pre = "[]" and suf = ?R])
        (use False hd searching_start(2)[OF w] in \<open>auto simp: start_search_def cache_ok_def cached_def\<close>)
  qed
  then show ?thesis
  proof
    assume "found M (start es) (length es) ?R cp ?st"
    from search_found[OF w this] obtain j st' where
      st': "\<forall>k. search_loop (k + j) (\<lambda>_. False) M (length es) cp ?st = Some (Inr (True, st'))"
        "linearization M es (map (\<lambda>(e, _). h_id (s_heap st') e) (s_calls st'))" by blast
    moreover have "linearizable M es" using st'(2) unfolding linearizable_def by blast
    ultimately show ?thesis by (intro exI[of _ j] exI[of _ st']) simp
  next
    assume "exhausted M (start es) (length es) ?R (length es div 2) cp ?st"
    from search_exhausted[OF w this] show ?thesis by simp
  qed
qed

end

text \<open>\<open>makeLinkedEntries\<close> and the insertion of the head node build such a heap.\<close>

definition start_heap :: "'v entry list \<Rightarrow> 'v heap" where
  "start_heap es = consed None None (-1) (root_of es) (snd (makeLinkedEntries es))"

interpretation linked: history_in_heap wf_entries start_heap
proof
  fix es :: "'v entry list"
  assume w: "wf_entries es"
  obtain mt h where "makeLinkedEntries es = (root_of es, h)" "built (rev es) mt h" by (rule makeLinkedEntries_built)
  then show "holds_history es (start_heap es)" using start_holds_history(1)[OF w] by (simp add: start_heap_def)
qed

lemma checkSingle_search:
  assumes "wf_entries es"
  shows "checkSingle k kill M es cp =
    (case search_loop k kill M (length es) cp (start_search M es (start_heap es)) of
       None \<Rightarrow> None
     | Some (Inl p) \<Rightarrow> Some (Inl p)
     | Some (Inr (False, st)) \<Rightarrow> Some (Inr (False, s_longest st))
     | Some (Inr (True, st)) \<Rightarrow>
         Some (Inr (True, replicate (length es div 2) (Some (map (\<lambda>(e, _). h_id (s_heap st) e) (s_calls st))))))"
proof -
  obtain mt h where h: "makeLinkedEntries es = (root_of es, h)" "built (rev es) mt h" by (rule makeLinkedEntries_built)
  then have sz: "h_size h = length es" and l: "linked h (rev [0..<length es])" by (simp_all add: built_def)
  have len: "list_length (h_size h) (root_of es) h = Some (length es)"
  proof (cases es)
    case (Cons e ys)
    then have "linked h ((length es - 1) # rev [0..<length es - 1])" using l by simp
    from list_length_linked[OF this, of "length es"] show ?thesis using Cons sz by simp
  qed simp
  obtain h' where a: "alloc None None (-1) h = (length es, h')" using sz by (simp add: alloc_def)
  then have b: "insertBefore (length es) (root_of es) h' = start_heap es"
    using h(1) by (simp add: start_heap_def consed_def)
  show ?thesis
    unfolding checkSingle_def Let_def h(1) prod.case len option.case a b start_search_def ..
qed

end
