(* ===== verification/Porcupine_Ops.thy ===== *)
theory Porcupine_Ops
  imports Porcupine_Check "HOL-Library.Multiset"
begin

text \<open>
  From one partition to \<open>CheckOperations\<close> and \<open>CheckEvents\<close>: the collecting loop, histories
  given as operations with times, and histories given as events with arbitrary numbers.
\<close>

section \<open>Collecting the answers\<close>

lemma collect_order:
  assumes "order \<noteq> []" and "\<forall>i\<in>set order. \<exists>l. run i = Some (Inr (f i, l))" and "ok \<or> ci"
  shows "\<exists>c. collect run (cnt + length order) ci cnt ok (map Some order) = Some (Inr (ok \<and> (\<forall>i\<in>set order. f i), False, c))"
  using assms
proof (induction order arbitrary: cnt ok)
  case (Cons i order)
  obtain l where l: "run i = Some (Inr (f i, l))" using Cons.prems(2) by auto
  show ?case
  proof (cases "order = [] \<or> \<not> (ok \<and> f i) \<and> \<not> ci")
    case True
    then show ?thesis using l by (auto simp: Let_def)
  next
    case False
    then have ne: "order \<noteq> []" and go: "(ok \<and> f i) \<or> ci" by auto
    have "\<exists>c. collect run (Suc cnt + length order) ci (Suc cnt) (ok \<and> f i) (map Some order) =
        Some (Inr ((ok \<and> f i) \<and> (\<forall>i\<in>set order. f i), False, c))"
      using Cons.prems(2) by (intro Cons.IH[OF ne _ go]) simp
    then show ?thesis using l go ne by (auto simp: Let_def)
  qed
qed simp

lemma collect_timeout:
  assumes "\<forall>i\<in>set order. \<exists>l. run i = Some (Inr (f i, l))" and "cnt + length order < n"
  shows "\<exists>c t. collect run n ci cnt ok (map Some order @ None # later) = Some (Inr (ok \<and> (\<forall>i\<in>set order. f i), t, c)) \<and>
     (ok \<and> (\<forall>i\<in>set order. f i) \<longrightarrow> t)"
  using assms
proof (induction order arbitrary: cnt ok)
  case (Cons i order)
  obtain l where l: "run i = Some (Inr (f i, l))" using Cons.prems(1) by auto
  have "\<exists>c t. collect run n ci (Suc cnt) (ok \<and> f i) (map Some order @ None # later) =
      Some (Inr ((ok \<and> f i) \<and> (\<forall>i\<in>set order. f i), t, c)) \<and> ((ok \<and> f i) \<and> (\<forall>i\<in>set order. f i) \<longrightarrow> t)"
    using Cons.prems by (intro Cons.IH) simp_all
  then show ?case using l Cons.prems(2) by (auto simp: Let_def)
qed auto

lemma all_partials_total:
  "\<forall>i\<in>set is. \<exists>r. run i = Some (Inr r) \<Longrightarrow> \<exists>ps. all_partials run is = Some (Inr ps)"
  by (induction "is") fastforce+

text \<open>Enough iterations for every partition.\<close>

lemma runs_decide:
  assumes "\<forall>es\<in>set parts. wf_entries es \<and> accepts_values M es" and "equal_sound M"
  shows "\<exists>j. \<forall>k\<ge>j. \<forall>i<length parts. \<exists>l. checkSingle k (\<lambda>_. False) M (parts ! i) ci = Some (Inr (linearizable M (parts ! i), l))"
proof -
  have "\<exists>j. \<forall>k\<ge>j. \<exists>l. checkSingle k (\<lambda>_. False) M es ci = Some (Inr (linearizable M es, l))" if es: "es \<in> set parts" for es
  proof -
    have w: "wf_entries es" using assms(1) es by blast
    obtain j st' where j: "\<forall>k. search_loop (k + j) (\<lambda>_. False) M (length es) ci (start_search M es (start_heap es)) = Some (Inr (linearizable M es, st'))"
      using linked.search_decides[OF w, of M ci] assms es by blast
    have "\<exists>l. checkSingle k (\<lambda>_. False) M es ci = Some (Inr (linearizable M es, l))" if "k \<ge> j" for k
      using j[rule_format, of "k - j"] that checkSingle_search[OF w, of k "\<lambda>_. False" M ci] by (auto split: bool.split)
    then show ?thesis by blast
  qed
  then obtain J where J: "\<forall>es\<in>set parts. \<forall>k\<ge>J es. \<exists>l. checkSingle k (\<lambda>_. False) M es ci = Some (Inr (linearizable M es, l))"
    by metis
  have "J (parts ! i) \<le> k" if "i < length parts" "k \<ge> Max (J ` set parts)" for i k
    using that Max_ge[of "J ` set parts" "J (parts ! i)"] by (meson List.finite_set finite_imageI imageI le_trans nth_mem)
  then show ?thesis using J by (intro exI[of _ "Max (J ` set parts)"]) simp
qed

lemma checkParallel_decides:
  assumes parts: "\<forall>es\<in>set parts. wf_entries es \<and> accepts_values M es" and M: "equal_sound M"
    and order: "set order = {..<length parts}" "distinct order" and ne: "parts \<noteq> []"
  shows "\<exists>j. \<forall>k\<ge>j. \<exists>info. checkParallel k (map Some order) kills M parts False =
     Some (Inr (if \<forall>es\<in>set parts. linearizable M es then Ok else Illegal, info))"
proof -
  obtain j where j: "\<And>k i. k \<ge> j \<Longrightarrow> i < length parts \<Longrightarrow>
      \<exists>l. checkSingle k (\<lambda>_. False) M (parts ! i) False = Some (Inr (linearizable M (parts ! i), l))"
    using runs_decide[OF parts M] by blast
  have len: "length order = length parts" using order by (metis card_lessThan distinct_card)
  have all: "(\<forall>i\<in>set order. linearizable M (parts ! i)) \<longleftrightarrow> (\<forall>es\<in>set parts. linearizable M es)"
    using order(1) by (auto simp: all_set_conv_all_nth)
  have "\<exists>info. checkParallel k (map Some order) kills M parts False =
      Some (Inr (if \<forall>es\<in>set parts. linearizable M es then Ok else Illegal, info))" if k: "k \<ge> j" for k
  proof -
    have "\<forall>i\<in>set order. \<exists>l. checkSingle k (\<lambda>_. False) M (parts ! i) False = Some (Inr (linearizable M (parts ! i), l))"
      using j[OF k] order(1) by auto
    moreover have "order \<noteq> []" using len ne by auto
    ultimately obtain c where
      "collect (\<lambda>i. checkSingle k (\<lambda>_. False) M (parts ! i) False) (length parts) False 0 True (map Some order) =
         Some (Inr (\<forall>es\<in>set parts. linearizable M es, False, c))"
      using collect_order[of order "\<lambda>i. checkSingle k (\<lambda>_. False) M (parts ! i) False"
          "\<lambda>i. linearizable M (parts ! i)" True False 0, unfolded all] len by auto
    then show ?thesis by (auto simp: checkParallel_def check_result_def)
  qed
  then show ?thesis by blast
qed

lemma checkParallel_timeout:
  assumes parts: "\<forall>es\<in>set parts. wf_entries es \<and> accepts_values M es" and M: "equal_sound M"
    and order: "set order \<subseteq> {..<length parts}" "length order < length parts"
  shows "\<exists>j. \<forall>k\<ge>j. \<exists>info. checkParallel k (map Some order @ [None]) kills M parts False =
     Some (Inr (if \<forall>i\<in>set order. linearizable M (parts ! i) then Unknown else Illegal, info))"
proof -
  obtain j where j: "\<And>k i. k \<ge> j \<Longrightarrow> i < length parts \<Longrightarrow>
      \<exists>l. checkSingle k (\<lambda>_. False) M (parts ! i) False = Some (Inr (linearizable M (parts ! i), l))"
    using runs_decide[OF parts M] by blast
  have "\<exists>info. checkParallel k (map Some order @ [None]) kills M parts False =
      Some (Inr (if \<forall>i\<in>set order. linearizable M (parts ! i) then Unknown else Illegal, info))" if k: "k \<ge> j" for k
  proof -
    have "\<forall>i\<in>set order. \<exists>l. checkSingle k (\<lambda>_. False) M (parts ! i) False = Some (Inr (linearizable M (parts ! i), l))"
      using j[OF k] order(1) by auto
    from collect_timeout[OF this, of 0 "length parts" False True "[]"] order(2) show ?thesis
      by (auto simp: checkParallel_def check_result_def)
  qed
  then show ?thesis by blast
qed

section \<open>Histories of operations\<close>

definition sorts_by_time :: "('v entry list \<Rightarrow> 'v entry list) \<Rightarrow> bool" where
  "sorts_by_time srt \<longleftrightarrow> (\<forall>es. mset (srt es) = mset es \<and> sorted (map e_time (srt es)))"

definition times_ok :: "'v Operation list \<Rightarrow> bool" where
  "times_ok ops \<longleftrightarrow> distinct (map op_Call ops @ map op_Return ops) \<and> (\<forall>p\<in>set ops. op_Call p < op_Return p)"

fun ops_legal :: "('v, 's) Model \<Rightarrow> 'v Operation list \<Rightarrow> 's \<Rightarrow> nat list \<Rightarrow> bool" where
  "ops_legal M ops s [] = True"
| "ops_legal M ops s (i # is) =
     (case Step M s (op_Input (ops ! i)) (op_Output (ops ! i)) of
        Inr (True, s') \<Rightarrow> ops_legal M ops s' is
      | _ \<Rightarrow> False)"

text \<open>An order of the operations that the model accepts and that respects their times.\<close>

definition ops_linearizable :: "('v, 's) Model \<Rightarrow> 'v Operation list \<Rightarrow> bool" where
  "ops_linearizable M ops \<longleftrightarrow> (\<exists>order. distinct order \<and> set order = {..<length ops} \<and>
     sorted_wrt (\<lambda>i j. \<not> op_Return (ops ! j) < op_Call (ops ! i)) order \<and> ops_legal M ops (Init M) order)"

definition call_entry :: "int \<Rightarrow> 'v Operation \<Rightarrow> 'v entry" where
  "call_entry i p = \<lparr>e_kind = callEntry, e_value = op_Input p, e_id = i, e_time = op_Call p, e_clientId = op_ClientId p\<rparr>"

definition return_entry :: "int \<Rightarrow> 'v Operation \<Rightarrow> 'v entry" where
  "return_entry i p = \<lparr>e_kind = returnEntry, e_value = op_Output p, e_id = i, e_time = op_Return p, e_clientId = op_ClientId p\<rparr>"

lemma entry_fields [simp]:
  "e_kind (call_entry i p) = callEntry" "e_value (call_entry i p) = op_Input p" "e_id (call_entry i p) = i" "e_time (call_entry i p) = op_Call p"
  "e_kind (return_entry i p) = returnEntry" "e_value (return_entry i p) = op_Output p" "e_id (return_entry i p) = i"
  "e_time (return_entry i p) = op_Return p"
  by (simp_all add: call_entry_def return_entry_def)

lemma entries_from_simp: "entries_from n (p # ps) = call_entry n p # return_entry n p # entries_from (n + 1) ps"
  by (simp add: call_entry_def return_entry_def)

lemma set_entries_from:
  "set (entries_from n ops) = (\<Union>i<length ops. {call_entry (n + int i) (ops ! i), return_entry (n + int i) (ops ! i)})"
proof (induction ops arbitrary: n)
  case (Cons p ps)
  have "(\<Union>i<length (p # ps). {call_entry (n + int i) ((p # ps) ! i), return_entry (n + int i) ((p # ps) ! i)}) =
      {call_entry n p, return_entry n p} \<union> (\<Union>i<length ps. {call_entry (n + 1 + int i) (ps ! i), return_entry (n + 1 + int i) (ps ! i)})"
    unfolding length_Cons lessThan_Suc_eq_insert_0 by (simp add: add.assoc)
  then show ?case using Cons.IH[of "n + 1"] unfolding entries_from_simp by simp
qed simp

lemma length_entries_from [simp]: "length (entries_from n ops) = 2 * length ops"
  by (induction n ops rule: entries_from.induct) auto

lemma distinct_entries_from: "distinct (map (\<lambda>e. (e_kind e, e_id e)) (entries_from n ops))"
proof (induction ops arbitrary: n)
  case (Cons p ps)
  have "e_id e > n" if "e \<in> set (entries_from (n + 1) ps)" for e using that by (auto simp: set_entries_from)
  then show ?case using Cons.IH[of "n + 1"] unfolding entries_from_simp by fastforce
qed simp

lemma times_entries_from: "mset (map e_time (entries_from n ops)) = mset (map op_Call ops @ map op_Return ops)"
  by (induction n ops rule: entries_from.induct) simp_all

lemma answered_by_time:
  assumes "sorted_wrt (<) (map e_time es)"
    and "\<forall>c\<in>set es. e_kind c = callEntry \<longrightarrow> (\<exists>r\<in>set es. e_kind r = returnEntry \<and> e_id r = e_id c \<and> e_time c < e_time r)"
  shows "answered es"
  using assms
proof (induction es)
  case (Cons e es)
  have "\<forall>c\<in>set es. e_kind c = callEntry \<longrightarrow> (\<exists>r\<in>set es. e_kind r = returnEntry \<and> e_id r = e_id c \<and> e_time c < e_time r)"
    using Cons.prems by (metis (no_types, lifting) image_eqI list.set_intros(2) list.set_map list.simps(9) less_asym set_ConsD sorted_wrt.simps(2))
  then have "answered es" using Cons by simp
  moreover have "\<exists>r\<in>set es. e_kind r = returnEntry \<and> e_id r = e_id e" if "e_kind e = callEntry"
    using Cons.prems(2) that by auto
  ultimately show ?case by simp
qed simp

lemma precedes_by_time:
  assumes "sorted_wrt (<) (map e_time es)"
  shows "precedes es i j \<longleftrightarrow> (\<exists>r\<in>set es. \<exists>c\<in>set es. e_kind r = returnEntry \<and> e_id r = i \<and> e_kind c = callEntry \<and> e_id c = j \<and> e_time r < e_time c)"
  using assms
proof (induction es)
  case (Cons e es)
  then have lt: "\<forall>f\<in>set es. e_time e < e_time f" by auto
  have "(\<exists>r\<in>set (e # es). \<exists>c\<in>set (e # es). e_kind r = returnEntry \<and> e_id r = i \<and> e_kind c = callEntry \<and> e_id c = j \<and> e_time r < e_time c) \<longleftrightarrow>
      (e_kind e = returnEntry \<and> e_id e = i \<and> (\<exists>c\<in>set es. e_kind c = callEntry \<and> e_id c = j)) \<or>
      (\<exists>r\<in>set es. \<exists>c\<in>set es. e_kind r = returnEntry \<and> e_id r = i \<and> e_kind c = callEntry \<and> e_id c = j \<and> e_time r < e_time c)"
    using lt by (auto dest: less_asym)
  then show ?case using Cons by simp
qed simp

lemma makeEntries_facts:
  assumes srt: "sorts_by_time srt" and times: "times_ok ops"
  shows "set (makeEntries srt ops) = (\<Union>i<length ops. {call_entry (int i) (ops ! i), return_entry (int i) (ops ! i)})"
    and "length (makeEntries srt ops) = 2 * length ops"
    and "distinct (map (\<lambda>e. (e_kind e, e_id e)) (makeEntries srt ops))"
    and "sorted_wrt (<) (map e_time (makeEntries srt ops))"
proof -
  let ?es = "makeEntries srt ops"
  have ms: "mset ?es = mset (entries_from 0 ops)" and so: "sorted (map e_time ?es)"
    using srt by (simp_all add: sorts_by_time_def makeEntries_def)
  show "set ?es = (\<Union>i<length ops. {call_entry (int i) (ops ! i), return_entry (int i) (ops ! i)})"
    using mset_eq_setD[OF ms] by (simp add: set_entries_from)
  show "length ?es = 2 * length ops" using mset_eq_length[OF ms] by simp
  have "mset (map (\<lambda>e. (e_kind e, e_id e)) ?es) = mset (map (\<lambda>e. (e_kind e, e_id e)) (entries_from 0 ops))" using ms by simp
  from mset_eq_imp_distinct_iff[OF this] show "distinct (map (\<lambda>e. (e_kind e, e_id e)) ?es)" by (simp add: distinct_entries_from)
  have "mset (map e_time ?es) = mset (map op_Call ops @ map op_Return ops)"
    using ms times_entries_from[of 0 ops] by simp
  from mset_eq_imp_distinct_iff[OF this] have "distinct (map e_time ?es)" using times by (simp add: times_ok_def)
  then show "sorted_wrt (<) (map e_time ?es)" using so by (simp add: strict_sorted_iff)
qed

lemma makeEntries_wf:
  assumes "sorts_by_time srt" and "times_ok ops"
  shows "wf_entries (makeEntries srt ops)"
proof -
  note F = makeEntries_facts[OF assms]
  have "\<exists>r\<in>set (makeEntries srt ops). e_kind r = returnEntry \<and> e_id r = e_id c \<and> e_time c < e_time r"
    if c: "c \<in> set (makeEntries srt ops)" "e_kind c = callEntry" for c
  proof -
    obtain i where i: "i < length ops" "c = call_entry (int i) (ops ! i)" using c by (auto simp: F(1))
    then have "op_Call (ops ! i) < op_Return (ops ! i)" using assms(2) by (simp add: times_ok_def)
    then show ?thesis using i by (intro bexI[of _ "return_entry (int i) (ops ! i)"]) (auto simp: F(1))
  qed
  then have "answered (makeEntries srt ops)" by (intro answered_by_time[OF F(4)]) blast
  moreover have "\<exists>c\<in>set (makeEntries srt ops). e_kind c = callEntry \<and> e_id c = e_id r" if "r \<in> set (makeEntries srt ops)" for r
    using that by (fastforce simp: F(1))
  moreover have "0 \<le> e_id e \<and> nat (e_id e) < length ops" if "e \<in> set (makeEntries srt ops)" for e
    using that by (auto simp: F(1))
  ultimately show ?thesis using F(2,3) by (simp add: wf_entries_def)
qed

lemma makeEntries_values:
  assumes "sorts_by_time srt" and "times_ok ops" and "i < length ops"
  shows "value_at (makeEntries srt ops) callEntry (int i) = op_Input (ops ! i)"
    and "value_at (makeEntries srt ops) returnEntry (int i) = op_Output (ops ! i)"
  using value_at_entry[OF makeEntries_wf[OF assms(1,2)], of "call_entry (int i) (ops ! i)"]
    value_at_entry[OF makeEntries_wf[OF assms(1,2)], of "return_entry (int i) (ops ! i)"] assms(3)
  by (auto simp: makeEntries_facts(1)[OF assms(1,2)])

lemma makeEntries_legal:
  assumes "sorts_by_time srt" and "times_ok ops"
  shows "set order \<subseteq> {..<length ops} \<Longrightarrow> legal M (makeEntries srt ops) s (map int order) \<longleftrightarrow> ops_legal M ops s order"
proof (induction order arbitrary: s)
  case (Cons i order)
  then show ?case using makeEntries_values[OF assms, of i] by (auto split: sum.split prod.split bool.split)
qed simp

lemma makeEntries_precedes:
  assumes "sorts_by_time srt" and "times_ok ops" and "i < length ops" and "j < length ops"
  shows "precedes (makeEntries srt ops) (int j) (int i) \<longleftrightarrow> op_Return (ops ! j) < op_Call (ops ! i)"
proof -
  note F = makeEntries_facts[OF assms(1,2)]
  have r: "r \<in> set (makeEntries srt ops) \<and> e_kind r = returnEntry \<and> e_id r = int j \<longleftrightarrow> r = return_entry (int j) (ops ! j)" for r
    using assms(4) by (auto simp: F(1))
  have c: "c \<in> set (makeEntries srt ops) \<and> e_kind c = callEntry \<and> e_id c = int i \<longleftrightarrow> c = call_entry (int i) (ops ! i)" for c
    using assms(3) by (auto simp: F(1))
  have "precedes (makeEntries srt ops) (int j) (int i) \<longleftrightarrow>
      (\<exists>r c. (r \<in> set (makeEntries srt ops) \<and> e_kind r = returnEntry \<and> e_id r = int j) \<and>
        (c \<in> set (makeEntries srt ops) \<and> e_kind c = callEntry \<and> e_id c = int i) \<and> e_time r < e_time c)"
    unfolding precedes_by_time[OF F(4)] by blast
  then show ?thesis unfolding r c by simp
qed

lemma makeEntries_linearizable:
  assumes "sorts_by_time srt" and "times_ok ops"
  shows "linearizable M (makeEntries srt ops) \<longleftrightarrow> ops_linearizable M ops"
proof -
  note F = makeEntries_facts[OF assms]
  have ids: "e_id ` set (makeEntries srt ops) = int ` {..<length ops}" by (force simp: F(1))
  have iff: "linearization M (makeEntries srt ops) (map int order) \<longleftrightarrow> distinct order \<and> set order = {..<length ops} \<and>
      sorted_wrt (\<lambda>i j. \<not> op_Return (ops ! j) < op_Call (ops ! i)) order \<and> ops_legal M ops (Init M) order" for order
  proof (cases "set order = {..<length ops}")
    case True
    have "sorted_wrt (\<lambda>i j. \<not> precedes (makeEntries srt ops) (int j) (int i)) order \<longleftrightarrow>
        sorted_wrt (\<lambda>i j. \<not> op_Return (ops ! j) < op_Call (ops ! i)) order"
      using makeEntries_precedes[OF assms] True by (intro iffI; elim sorted_wrt_mono_rel[rotated]) auto
    then show ?thesis unfolding linearization_def ids sorted_wrt_map
      using True makeEntries_legal[OF assms, of order M] by (auto simp: distinct_map)
  next
    case False
    then have "int ` set order \<noteq> int ` {..<length ops}" by (simp add: inj_image_eq_iff)
    then show ?thesis using False ids by (simp add: linearization_def)
  qed
  have "\<exists>order. ids = map int order" if "linearization M (makeEntries srt ops) ids" for ids
  proof -
    have "set ids = int ` {..<length ops}" using that ids by (simp add: linearization_def)
    then have "map int (map nat ids) = ids" by (auto intro!: map_idI)
    then show ?thesis by metis
  qed
  then show ?thesis unfolding linearizable_def ops_linearizable_def iff[symmetric] by blast
qed

lemma makeEntries_accepts:
  assumes "sorts_by_time srt" and "times_ok ops" and "\<forall>p\<in>set ops. \<forall>s. \<exists>x. Step M s (op_Input p) (op_Output p) = Inr x"
  shows "accepts_values M (makeEntries srt ops)"
proof -
  have "\<exists>x. Step M s (e_value c) (e_value r) = Inr x"
    if cr: "c \<in> set (makeEntries srt ops)" "r \<in> set (makeEntries srt ops)" "e_kind c = callEntry" "e_kind r = returnEntry" "e_id c = e_id r" for c r s
  proof -
    obtain i where "i < length ops" "c = call_entry (int i) (ops ! i)" "r = return_entry (int i) (ops ! i)"
      using cr unfolding makeEntries_facts(1)[OF assms(1,2)] by auto
    then show ?thesis using assms(3) by simp
  qed
  then show ?thesis unfolding accepts_values_def by blast
qed

end
