(* ===== verification/Porcupine_Events.thy ===== *)
theory Porcupine_Events
  imports Porcupine_Ops
begin

text \<open>
  Histories given as events: \<open>renumber\<close> replaces the events' numbers by \<open>0, 1, \<dots>\<close> in the
  order of their first appearance. That is an injective relabelling, which changes nothing
  about linearizability.
\<close>

section \<open>Relabelling\<close>

abbreviation relabel :: "(int \<Rightarrow> int) \<Rightarrow> 'v entry \<Rightarrow> 'v entry" where
  "relabel f e \<equiv> e\<lparr>e_id := f (e_id e)\<rparr>"

abbreviation ids_of :: "'v entry list \<Rightarrow> int set" where
  "ids_of es \<equiv> e_id ` set es"

lemma relabel_precedes:
  assumes "inj_on f I" and "ids_of es \<subseteq> I" and "i \<in> I" and "j \<in> I"
  shows "precedes (map (relabel f) es) (f i) (f j) \<longleftrightarrow> precedes es i j"
  using assms(2)
proof (induction es)
  case (Cons e es)
  have "f (e_id e) = f i \<longleftrightarrow> e_id e = i" using assms Cons.prems by (auto dest: inj_onD)
  moreover have "(\<exists>c\<in>set es. e_kind c = callEntry \<and> f (e_id c) = f j) \<longleftrightarrow> (\<exists>c\<in>set es. e_kind c = callEntry \<and> e_id c = j)"
  proof (intro bex_cong refl conj_cong)
    fix c assume "c \<in> set es"
    then show "f (e_id c) = f j \<longleftrightarrow> e_id c = j" using assms Cons.prems by (auto dest: inj_onD)
  qed
  ultimately show ?case using Cons by simp
qed simp

lemma relabel_value:
  assumes "inj_on f I" and "ids_of es \<subseteq> I" and "i \<in> I" and "\<exists>e\<in>set es. e_kind e = k \<and> e_id e = i"
  shows "value_at (map (relabel f) es) k (f i) = value_at es k i"
proof -
  have "find (\<lambda>e. e_kind e = k \<and> e_id e = f i) (map (relabel f) es) = map_option (relabel f) (find (\<lambda>e. e_kind e = k \<and> e_id e = i) es)"
    using assms(2)
  proof (induction es)
    case (Cons e es)
    have "f (e_id e) = f i \<longleftrightarrow> e_id e = i" using assms(1,3) Cons.prems by (auto dest: inj_onD)
    then show ?case using Cons by simp
  qed simp
  moreover have "find (\<lambda>e. e_kind e = k \<and> e_id e = i) es \<noteq> None" using assms(4) by (auto simp: find_None_iff)
  ultimately show ?thesis by (auto simp: value_at_def)
qed

text \<open>Every operation of the history has its call and its return.\<close>

definition complete :: "'v entry list \<Rightarrow> bool" where
  "complete es \<longleftrightarrow> (\<forall>e\<in>set es. \<forall>k. \<exists>f\<in>set es. e_kind f = k \<and> e_id f = e_id e)"

lemma relabel_legal:
  assumes "inj_on f (ids_of es)" and "complete es"
  shows "set ids \<subseteq> ids_of es \<Longrightarrow> legal M (map (relabel f) es) s (map f ids) \<longleftrightarrow> legal M es s ids"
proof (induction ids arbitrary: s)
  case (Cons i ids)
  then have i: "i \<in> ids_of es" and "\<exists>e\<in>set es. e_kind e = k \<and> e_id e = i" for k using assms(2) by (fastforce simp: complete_def)+
  then have "value_at (map (relabel f) es) k (f i) = value_at es k i" for k using relabel_value[OF assms(1) order_refl] by blast
  then show ?case using Cons by (auto split: sum.split prod.split bool.split)
qed simp

lemma relabel_linearizable:
  assumes inj: "inj_on f (ids_of es)" and "complete es"
  shows "linearizable M (map (relabel f) es) \<longleftrightarrow> linearizable M es"
proof -
  have ids: "ids_of (map (relabel f) es) = f ` ids_of es" by force
  have iff: "linearization M (map (relabel f) es) (map f ids) \<longleftrightarrow> linearization M es ids" if s: "set ids \<subseteq> ids_of es" for ids
  proof -
    have "distinct (map f ids) \<longleftrightarrow> distinct ids" using inj_on_subset[OF inj s] by (simp add: distinct_map)
    moreover have "set (map f ids) = f ` ids_of es \<longleftrightarrow> set ids = ids_of es"
      using inj_on_image_eq_iff[OF inj s order_refl] by simp
    moreover have "sorted_wrt (\<lambda>i j. \<not> precedes (map (relabel f) es) (f j) (f i)) ids \<longleftrightarrow> sorted_wrt (\<lambda>i j. \<not> precedes es j i) ids"
    proof -
      have "precedes (map (relabel f) es) (f j) (f i) \<longleftrightarrow> precedes es j i" if "i \<in> set ids" "j \<in> set ids" for i j
        by (rule relabel_precedes[OF inj order_refl]) (use s that in auto)
      then show ?thesis by (intro iffI; elim sorted_wrt_mono_rel[rotated]; blast)
    qed
    ultimately show ?thesis unfolding linearization_def ids sorted_wrt_map relabel_legal[OF assms s] by simp
  qed
  show ?thesis
  proof
    assume "linearizable M (map (relabel f) es)"
    then obtain ids' where l: "linearization M (map (relabel f) es) ids'" by (auto simp: linearizable_def)
    let ?ids = "map (inv_into (ids_of es) f) ids'"
    have s: "set ids' = f ` ids_of es" using l unfolding linearization_def ids by simp
    then have "map f ?ids = ids'" by (auto simp: o_def f_inv_into_f intro!: map_idI)
    moreover have "set ?ids \<subseteq> ids_of es" using s inv_into_into[of _ f "ids_of es"] by auto
    ultimately show "linearizable M es" using iff[of ?ids] l by (auto simp: linearizable_def)
  next
    assume "linearizable M es"
    then obtain ids' where l: "linearization M es ids'" unfolding linearizable_def by blast
    then have "set ids' \<subseteq> ids_of es" by (simp add: linearization_def)
    then show "linearizable M (map (relabel f) es)" using iff l unfolding linearizable_def by blast
  qed
qed

section \<open>Renumbering\<close>

lemma renumber_from_relabels:
  assumes "inj_on m (dom m)" and "ran m = {0..<nid}" and "0 \<le> nid"
  shows "\<exists>m'. m \<subseteq>\<^sub>m m' \<and> dom m' = dom m \<union> ev_Id ` set es \<and> inj_on m' (dom m') \<and>
     ran m' = {0..<nid + int (card (ev_Id ` set es - dom m))} \<and>
     renumber_from m nid es = map (\<lambda>v. v\<lparr>ev_Id := the (m' (ev_Id v))\<rparr>) es"
  using assms
proof (induction es arbitrary: m nid)
  case Nil
  then show ?case by (intro exI[of _ m]) auto
next
  case (Cons v es)
  show ?case
  proof (cases "m (ev_Id v)")
    case (Some r)
    from Cons.IH[OF Cons.prems] obtain m' where m': "m \<subseteq>\<^sub>m m'" "dom m' = dom m \<union> ev_Id ` set es" "inj_on m' (dom m')"
      "ran m' = {0..<nid + int (card (ev_Id ` set es - dom m))}" "renumber_from m nid es = map (\<lambda>v. v\<lparr>ev_Id := the (m' (ev_Id v))\<rparr>) es" by blast
    have "m' (ev_Id v) = Some r" using m'(1) Some by (auto simp: map_le_def dom_def)
    then show ?thesis using m' Some by (intro exI[of _ m']) (auto simp: insert_Diff_if)
  next
    case None
    let ?m = "m(ev_Id v \<mapsto> nid)"
    have a: "inj_on ?m (dom ?m)"
    proof (rule inj_onI)
      fix x y assume xy: "x \<in> dom ?m" "y \<in> dom ?m" "?m x = ?m y"
      have "m z \<noteq> Some nid" for z using Cons.prems(2) by (auto simp: ran_def set_eq_iff)
      then show "x = y" using xy Cons.prems(1) by (auto simp: inj_on_def split: if_splits)
    qed
    have b: "ran ?m = {0..<nid + 1}" "0 \<le> nid + 1" using None Cons.prems(2,3) by auto
    from Cons.IH[OF a b] obtain m' where m': "?m \<subseteq>\<^sub>m m'" "dom m' = dom ?m \<union> ev_Id ` set es" "inj_on m' (dom m')"
      "ran m' = {0..<nid + 1 + int (card (ev_Id ` set es - dom ?m))}" "renumber_from ?m (nid + 1) es = map (\<lambda>v. v\<lparr>ev_Id := the (m' (ev_Id v))\<rparr>) es"
      by blast
    have v: "m' (ev_Id v) = Some nid" using m'(1) by (auto simp: map_le_def)
    have le: "m \<subseteq>\<^sub>m m'" using m'(1) None by (auto simp: map_le_def dom_def split: if_splits)
    have "ev_Id ` set (v # es) - dom m = insert (ev_Id v) (ev_Id ` set es - dom ?m)" using None by auto
    moreover have "card (insert (ev_Id v) (ev_Id ` set es - dom ?m)) = Suc (card (ev_Id ` set es - dom ?m))" by simp
    ultimately show ?thesis using m' v None le by (intro exI[of _ m']) (auto simp: algebra_simps)
  qed
qed

lemma renumber_relabels:
  obtains f where "inj_on f (ev_Id ` set evs)" and "f ` ev_Id ` set evs = {0..<int (card (ev_Id ` set evs))}"
    and "renumber evs = map (\<lambda>v. v\<lparr>ev_Id := f (ev_Id v)\<rparr>) evs"
proof -
  obtain m where m: "dom m = ev_Id ` set evs" "inj_on m (dom m)" "ran m = {0..<int (card (ev_Id ` set evs))}"
    "renumber evs = map (\<lambda>v. v\<lparr>ev_Id := the (m (ev_Id v))\<rparr>) evs"
    using renumber_from_relabels[of Map.empty 0 evs] by (auto simp: renumber_def)
  have "inj_on (the \<circ> m) (dom m)" using m(2) by (auto simp: inj_on_def dom_def)
  moreover have "(the \<circ> m) ` dom m = ran m" by (force simp: ran_def dom_def image_def)
  ultimately show thesis using that[of "the \<circ> m"] m by simp
qed

section \<open>From events to entries\<close>

definition events_ok :: "'v Event list \<Rightarrow> bool" where
  "events_ok evs \<longleftrightarrow> distinct (map (\<lambda>v. (ev_Kind v, ev_Id v)) evs) \<and> answered (convertEntries evs) \<and> complete (convertEntries evs)"

lemma convert_from_map:
  "convert_from i (map (\<lambda>v. v\<lparr>ev_Id := f (ev_Id v)\<rparr>) evs) = map (relabel f) (convert_from i evs)"
  by (induction i evs rule: convert_from.induct) simp_all

lemma convert_from_ids: "map (\<lambda>e. (e_kind e, e_id e)) (convert_from i evs) = map (\<lambda>v. (ev_Kind v, ev_Id v)) evs"
  by (induction i evs rule: convert_from.induct) simp_all

lemma convert_from_length [simp]: "length (convert_from i evs) = length evs"
  by (induction i evs rule: convert_from.induct) simp_all

lemma convertEntries_ids: "ids_of (convertEntries evs) = ev_Id ` set evs"
proof -
  have "snd ` set (map (\<lambda>e. (e_kind e, e_id e)) (convertEntries evs)) = snd ` set (map (\<lambda>v. (ev_Kind v, ev_Id v)) evs)"
    by (simp only: convertEntries_def convert_from_ids)
  then show ?thesis by (simp add: image_image)
qed

lemma answered_relabel: "inj_on f (ids_of es) \<Longrightarrow> answered es \<Longrightarrow> answered (map (relabel f) es)"
  by (induction es) auto

text \<open>With one call and one return for every number, there are half as many numbers as events.\<close>

lemma two_per_id:
  assumes "distinct (map (\<lambda>e. (e_kind e, e_id e)) es)" and "complete es"
  shows "length es = 2 * card (ids_of es)"
proof -
  have "set (map (\<lambda>e. (e_kind e, e_id e)) es) = UNIV \<times> ids_of es"
  proof (intro equalityI subsetI)
    fix x :: "bool \<times> int" assume "x \<in> UNIV \<times> ids_of es"
    then obtain e where "e \<in> set es" "snd x = e_id e" by auto
    then obtain f where "f \<in> set es" "e_kind f = fst x" "e_id f = snd x" using assms(2) unfolding complete_def by metis
    then have "x = (e_kind f, e_id f)" by simp
    then show "x \<in> set (map (\<lambda>e. (e_kind e, e_id e)) es)" using \<open>f \<in> set es\<close> by auto
  qed auto
  then have "card (set (map (\<lambda>e. (e_kind e, e_id e)) es)) = 2 * card (ids_of es)"
    by (simp add: card_cartesian_product)
  then show ?thesis using distinct_card[OF assms(1)] by simp
qed

lemma renumber_entries:
  assumes "events_ok evs"
  shows "wf_entries (convertEntries (renumber evs))"
    and "linearizable M (convertEntries (renumber evs)) \<longleftrightarrow> linearizable M (convertEntries evs)"
    and "accepts_values M (convertEntries evs) \<Longrightarrow> accepts_values M (convertEntries (renumber evs))"
proof -
  let ?es = "convertEntries evs"
  obtain f where f: "inj_on f (ids_of ?es)" "f ` ids_of ?es = {0..<int (card (ids_of ?es))}"
    and r: "renumber evs = map (\<lambda>v. v\<lparr>ev_Id := f (ev_Id v)\<rparr>) evs"
    using renumber_relabels[of evs] unfolding convertEntries_ids by blast
  have es: "convertEntries (renumber evs) = map (relabel f) ?es" unfolding r convertEntries_def convert_from_map ..
  have c: "complete ?es" and a: "answered ?es" and d: "distinct (map (\<lambda>e. (e_kind e, e_id e)) ?es)"
    using assms by (simp_all add: events_ok_def convertEntries_def convert_from_ids)
  show "linearizable M (convertEntries (renumber evs)) \<longleftrightarrow> linearizable M ?es"
    unfolding es by (rule relabel_linearizable[OF f(1) c])
  have "distinct (map (\<lambda>e. (e_kind e, e_id e)) (map (relabel f) ?es))"
    using d f(1) by (auto simp: distinct_map inj_on_def)
  moreover have "0 \<le> e_id e \<and> nat (e_id e) < length (map (relabel f) ?es) div 2" if e: "e \<in> set (map (relabel f) ?es)" for e
  proof -
    have "e_id e \<in> f ` ids_of ?es" using e by auto
    then show ?thesis unfolding f(2) using two_per_id[OF d c] by auto
  qed
  moreover have "\<exists>c\<in>set (map (relabel f) ?es). e_kind c = callEntry \<and> e_id c = e_id r" if r: "r \<in> set (map (relabel f) ?es)" for r
  proof -
    obtain e where "e \<in> set ?es" "r = relabel f e" using r by auto
    moreover obtain g where "g \<in> set ?es" "e_kind g = callEntry" "e_id g = e_id e"
      using c \<open>e \<in> set ?es\<close> unfolding complete_def by blast
    moreover have "relabel f g \<in> set (map (relabel f) ?es)" using \<open>g \<in> set ?es\<close> unfolding set_map by (rule imageI)
    ultimately show ?thesis by (intro bexI[of _ "relabel f g"]) simp_all
  qed
  ultimately show "wf_entries (convertEntries (renumber evs))"
    unfolding es wf_entries_def using answered_relabel[OF f(1) a] by blast
  show "accepts_values M (convertEntries (renumber evs))" if "accepts_values M ?es"
    unfolding es accepts_values_def
  proof (intro ballI impI allI)
    fix c r s
    assume "c \<in> set (map (relabel f) ?es)" "r \<in> set (map (relabel f) ?es)" "e_kind c = callEntry" "e_kind r = returnEntry" "e_id c = e_id r"
    then obtain c' r' where cr: "c' \<in> set ?es" "r' \<in> set ?es" "c = relabel f c'" "r = relabel f r'" "f (e_id c') = f (e_id r')"
      "e_kind c' = callEntry" "e_kind r' = returnEntry" by auto
    then have "e_id c' = e_id r'" using f(1) by (simp add: inj_on_def)
    then show "\<exists>x. Step M s (e_value c) (e_value r) = Inr x" using that cr unfolding accepts_values_def by auto
  qed
qed

end
