(* ===== verification/KvModel.thy ===== *)
theory KvModel
  imports Porcupine_Events "HOL-Library.AList" "HOL-Library.List_Lexorder" "HOL-Library.Char_ord"
begin

text \<open>
  \<open>src/src/models/kv.go\<close>: the key/value specification given to the checker. The operands,
  of type \<open>interface{}\<close> in Go, are the datatype \<open>kv_value\<close>, and the type assertions panic
  on the wrong constructor.
\<close>

record KvInput =
  kvi_Op :: int
  kvi_Key :: string
  kvi_Value :: string

record KvOutput =
  kvo_Value :: string

datatype kv_value = InVal KvInput | OutVal KvOutput

fun kv_key :: "kv_value \<Rightarrow> string go" where
  "kv_key (InVal inp) = Inr (kvi_Key inp)"
| "kv_key (OutVal out) = Inl TypeAssertion"

text \<open>Lines 18-34: group by key, keys in order.\<close>

fun kv_group :: "kv_value Operation list \<Rightarrow> (string \<times> kv_value Operation list) list \<Rightarrow> (string \<times> kv_value Operation list) list go" where
  "kv_group [] m = Inr m"
| "kv_group (v # vs) m =
     go_bind (kv_key (op_Input v)) (\<lambda>key.
       kv_group vs (AList.update key ((case map_of m key of None \<Rightarrow> [] | Some ops \<Rightarrow> ops) @ [v]) m))"

definition kv_Partition :: "kv_value Operation list \<Rightarrow> kv_value Operation list list go" where
  "kv_Partition history =
     go_bind (kv_group history []) (\<lambda>m.
       let keys = sort (map fst m)
       in Inr (map (\<lambda>k. the (map_of m k)) keys))"

definition kv_Step :: "string \<Rightarrow> kv_value \<Rightarrow> kv_value \<Rightarrow> (bool \<times> string) go" where
  "kv_Step st input output =
     (case input of
        OutVal _ \<Rightarrow> Inl TypeAssertion
      | InVal inp \<Rightarrow>
          (case output of
             InVal _ \<Rightarrow> Inl TypeAssertion
           | OutVal out \<Rightarrow>
               if kvi_Op inp = 0 then Inr (kvo_Value out = st, st)
               else if kvi_Op inp = 1 then Inr (True, kvi_Value inp)
               else Inr (True, st @ kvi_Value inp)))"

definition KvModel :: "(kv_value, string) Model" where
  "KvModel = \<lparr>Partition = Some kv_Partition, PartitionEvent = None, Init = '''', Step = kv_Step, Equal = None\<rparr>"

text \<open>Lines 55-68: the description shown in visualizations; \<open>q\<close> is the quote character.\<close>

definition kv_DescribeOperation :: "kv_value \<Rightarrow> kv_value \<Rightarrow> string go" where
  "kv_DescribeOperation input output =
     (let q = [CHR 0x27] in
      case (input, output) of
        (InVal inp, OutVal out) \<Rightarrow>
          Inr (if kvi_Op inp = 0 then ''get('' @ q @ kvi_Key inp @ q @ '') -> '' @ q @ kvo_Value out @ q
               else if kvi_Op inp = 1 then ''put('' @ q @ kvi_Key inp @ q @ '', '' @ q @ kvi_Value inp @ q @ '')''
               else if kvi_Op inp = 2 then ''append('' @ q @ kvi_Key inp @ q @ '', '' @ q @ kvi_Value inp @ q @ '')''
               else ''<invalid>'')
      | _ \<Rightarrow> Inl TypeAssertion)"

section \<open>Partitions\<close>

abbreviation on_key :: "string \<Rightarrow> kv_value Operation \<Rightarrow> bool" where
  "on_key k v \<equiv> kv_key (op_Input v) = Inr k"

definition is_kv :: "kv_value Operation \<Rightarrow> bool" where
  "is_kv v \<longleftrightarrow> (\<exists>inp out. op_Input v = InVal inp \<and> op_Output v = OutVal out)"

definition kv_keys :: "kv_value Operation list \<Rightarrow> string set" where
  "kv_keys history = {k. \<exists>v\<in>set history. on_key k v}"

lemma kv_group_groups:
  assumes "\<forall>v\<in>set vs. is_kv v" and "distinct (map fst m)"
  shows "\<exists>m'. kv_group vs m = Inr m' \<and> distinct (map fst m') \<and> set (map fst m') = set (map fst m) \<union> kv_keys vs \<and>
     (\<forall>k\<in>set (map fst m'). map_of m' k = Some ((case map_of m k of None \<Rightarrow> [] | Some ops \<Rightarrow> ops) @ filter (on_key k) vs))"
  using assms
proof (induction vs arbitrary: m)
  case Nil
  then show ?case by (auto simp: kv_keys_def map_of_eq_Some_iff split: option.split)
next
  case (Cons v vs)
  obtain inp where inp: "op_Input v = InVal inp" using Cons.prems(1) by (auto simp: is_kv_def)
  let ?k = "kvi_Key inp"
  let ?m = "AList.update ?k ((case map_of m ?k of None \<Rightarrow> [] | Some ops \<Rightarrow> ops) @ [v]) m"
  have d: "distinct (map fst ?m)" and s: "set (map fst ?m) = insert ?k (set (map fst m))"
    using Cons.prems(2) by (auto simp: distinct_update update_keys)
  have "\<forall>v\<in>set vs. is_kv v" using Cons.prems(1) by simp
  from Cons.IH[OF this d] obtain m' where m': "kv_group vs ?m = Inr m'" "distinct (map fst m')" "set (map fst m') = set (map fst ?m) \<union> kv_keys vs"
    "\<forall>k\<in>set (map fst m'). map_of m' k = Some ((case map_of ?m k of None \<Rightarrow> [] | Some ops \<Rightarrow> ops) @ filter (on_key k) vs)"
    by blast
  have "kv_keys (v # vs) = insert ?k (kv_keys vs)" using inp by (auto simp: kv_keys_def)
  moreover have "(case map_of ?m k of None \<Rightarrow> [] | Some ops \<Rightarrow> ops) @ filter (on_key k) vs =
      (case map_of m k of None \<Rightarrow> [] | Some ops \<Rightarrow> ops) @ filter (on_key k) (v # vs)" for k
    using inp by (simp add: update_conv')
  ultimately show ?case using m' s inp by (intro exI[of _ m']) auto
qed

lemma kv_Partition_eq:
  assumes "\<forall>v\<in>set history. is_kv v"
  shows "kv_Partition history = Inr (map (\<lambda>k. filter (on_key k) history) (sorted_list_of_set (kv_keys history)))"
proof -
  obtain m where m: "kv_group history [] = Inr m" "distinct (map fst m)" "set (map fst m) = kv_keys history"
    "\<forall>k\<in>set (map fst m). map_of m k = Some (filter (on_key k) history)"
    using kv_group_groups[OF assms, of "[]"]
    by (simp only: map_of.simps option.case append_Nil list.map list.set distinct.simps Un_empty_left simp_thms) blast
  have "sort (map fst m) = sorted_list_of_set (kv_keys history)"
    using m(2,3) by (metis distinct_remdups_id sorted_list_of_set_sort_remdups)
  moreover have "finite (kv_keys history)" using m(3) by (metis List.finite_set)
  ultimately show ?thesis using m(1,3,4) by (auto simp: kv_Partition_def)
qed

lemma kv_Partition_panics:
  assumes "v \<in> set history" and "op_Input v = OutVal out"
  shows "kv_Partition history = Inl TypeAssertion"
proof -
  have "kv_group vs m = Inl TypeAssertion" if "v \<in> set vs" for vs m
    using that assms(2)
  proof (induction vs arbitrary: m)
    case (Cons w vs)
    then show ?case by (cases "op_Input w") auto
  qed simp
  then show ?thesis using assms(1) by (simp add: kv_Partition_def)
qed

section \<open>What a key/value history means\<close>

text \<open>
  The meaning of a history of gets, puts and appends on one key, by itself: the value of the
  key after some operations is what the last put among them wrote, or nothing without a put,
  followed by what the appends after it wrote; a history is explained by an order of its
  operations that respects their times and in which every get returns the value of the key
  after the operations before it.
\<close>

fun kv_in :: "kv_value Operation \<Rightarrow> KvInput" where
  "kv_in v = (case op_Input v of InVal inp \<Rightarrow> inp | OutVal _ \<Rightarrow> \<lparr>kvi_Op = 0, kvi_Key = '''', kvi_Value = ''''\<rparr>)"

fun kv_out :: "kv_value Operation \<Rightarrow> string" where
  "kv_out v = (case op_Output v of OutVal out \<Rightarrow> kvo_Value out | InVal _ \<Rightarrow> '''')"

abbreviation is_get :: "kv_value Operation \<Rightarrow> bool" where
  "is_get v \<equiv> kvi_Op (kv_in v) = 0"

abbreviation is_put :: "kv_value Operation \<Rightarrow> bool" where
  "is_put v \<equiv> kvi_Op (kv_in v) = 1"

definition written :: "kv_value Operation list \<Rightarrow> string" where
  "written vs =
     (let late = takeWhile (\<lambda>v. \<not> is_put v) (rev vs);
          base = (case find is_put (rev vs) of None \<Rightarrow> '''' | Some v \<Rightarrow> kvi_Value (kv_in v))
      in base @ concat (map (\<lambda>v. kvi_Value (kv_in v)) (filter (\<lambda>v. \<not> is_get v) (rev late))))"

definition kv_explained :: "kv_value Operation list \<Rightarrow> bool" where
  "kv_explained ops \<longleftrightarrow> (\<exists>order. distinct order \<and> set order = {..<length ops} \<and>
     sorted_wrt (\<lambda>i j. \<not> op_Return (ops ! j) < op_Call (ops ! i)) order \<and>
     (\<forall>m<length order. is_get (ops ! (order ! m)) \<longrightarrow> kv_out (ops ! (order ! m)) = written (map ((!) ops) (take m order))))"

definition kv_effect :: "string \<Rightarrow> kv_value Operation \<Rightarrow> string" where
  "kv_effect st v = (if is_get v then st else if is_put v then kvi_Value (kv_in v) else st @ kvi_Value (kv_in v))"

lemma written_foldl: "written vs = foldl kv_effect '''' vs"
proof (induction vs rule: rev_induct)
  case (snoc v vs)
  then show ?case by (auto simp: written_def kv_effect_def Let_def simp del: kv_in.simps)
qed (simp add: written_def)

lemma all_less_Suc_split: "(\<forall>m<Suc n. P m) \<longleftrightarrow> P 0 \<and> (\<forall>m<n. P (Suc m))"
  by (auto simp: less_Suc_eq_0_disj)

lemma kv_legal:
  assumes "\<forall>v\<in>set ops. is_kv v" and "set order \<subseteq> {..<length ops}"
  shows "ops_legal KvModel ops st order \<longleftrightarrow>
     (\<forall>m<length order. is_get (ops ! (order ! m)) \<longrightarrow>
        kv_out (ops ! (order ! m)) = foldl kv_effect st (map ((!) ops) (take m order)))"
  using assms(2)
proof (induction order arbitrary: st)
  case (Cons i order)
  have "is_kv (ops ! i)" using assms(1) Cons.prems by simp
  then obtain inp out where v: "op_Input (ops ! i) = InVal inp" "op_Output (ops ! i) = OutVal out" by (auto simp: is_kv_def)
  have "Step KvModel st (op_Input (ops ! i)) (op_Output (ops ! i)) = Inr (is_get (ops ! i) \<longrightarrow> kv_out (ops ! i) = st, kv_effect st (ops ! i))"
    by (simp add: KvModel_def kv_Step_def kv_effect_def v)
  then have "ops_legal KvModel ops st (i # order) \<longleftrightarrow>
      (is_get (ops ! i) \<longrightarrow> kv_out (ops ! i) = st) \<and> ops_legal KvModel ops (kv_effect st (ops ! i)) order"
    by (simp del: kv_in.simps kv_out.simps split: bool.split)
  then show ?case using Cons by (simp add: all_less_Suc_split del: kv_in.simps kv_out.simps)
qed simp

lemma kv_linearizable:
  assumes "\<forall>v\<in>set ops. is_kv v"
  shows "ops_linearizable KvModel ops \<longleftrightarrow> kv_explained ops"
proof -
  have "ops_legal KvModel ops (Init KvModel) order \<longleftrightarrow>
     (\<forall>m<length order. is_get (ops ! (order ! m)) \<longrightarrow> kv_out (ops ! (order ! m)) = written (map ((!) ops) (take m order)))"
    if "set order = {..<length ops}" for order
    using kv_legal[OF assms, of order "''''"] that unfolding written_foldl by (simp add: KvModel_def)
  then show ?thesis unfolding ops_linearizable_def kv_explained_def by blast
qed

end
