(* ===== verification/Checker_Theorems.thy ===== *)
theory Checker_Theorems
  imports KvModel
begin

text \<open>
  The properties of the linearizability checker. The sample history of the witnesses has
  two operations on key \<open>x\<close> that overlap: a put and a get that sees it.
\<close>

section \<open>Sample history\<close>

definition sample_put :: "kv_value Operation" where
  "sample_put = \<lparr>op_ClientId = 0, op_Input = InVal \<lparr>kvi_Op = 1, kvi_Key = ''x'', kvi_Value = ''v''\<rparr>, op_Call = 1,
                 op_Output = OutVal \<lparr>kvo_Value = ''''\<rparr>, op_Return = 5\<rparr>"

definition sample_get :: "kv_value Operation" where
  "sample_get = \<lparr>op_ClientId = 1, op_Input = InVal \<lparr>kvi_Op = 0, kvi_Key = ''x'', kvi_Value = ''''\<rparr>, op_Call = 2,
                 op_Output = OutVal \<lparr>kvo_Value = ''v''\<rparr>, op_Return = 3\<rparr>"

abbreviation sample_history :: "kv_value Operation list" where
  "sample_history \<equiv> [sample_put, sample_get]"

lemma sample_kv: "\<forall>v\<in>set sample_history. is_kv v"
  by (simp add: sample_put_def sample_get_def is_kv_def)

lemma sample_times: "times_ok sample_history"
  by (simp add: times_ok_def sample_put_def sample_get_def)

lemma sample_keys: "kv_keys sample_history = {''x''}"
  by (auto simp: kv_keys_def sample_put_def sample_get_def)

lemma sort_by_time: "sorts_by_time (sort_key e_time)"
  by (simp add: sorts_by_time_def)

lemma kv_Step_total:
  assumes "is_kv q"
  shows "\<exists>x. Step KvModel s (op_Input q) (op_Output q) = Inr x"
  using assms by (auto simp: is_kv_def KvModel_def kv_Step_def)

lemma kv_accepts:
  assumes "sorts_by_time srt" and "times_ok ops" and "\<forall>q\<in>set ops. is_kv q"
  shows "accepts_values KvModel (makeEntries srt ops)"
  by (rule makeEntries_accepts[OF assms(1,2)]) (use kv_Step_total assms(3) in blast)

lemma fillDefault_fields [simp]:
  "Step (fillDefault M) = Step M" "Init (fillDefault M) = Init M"
  "Partition (fillDefault M) = Some (case Partition M of None \<Rightarrow> NoPartition | Some p \<Rightarrow> p)"
  "PartitionEvent (fillDefault M) = Some (case PartitionEvent M of None \<Rightarrow> NoPartitionEvent | Some p \<Rightarrow> p)"
  "Equal (fillDefault M) = Some (case Equal M of None \<Rightarrow> ShallowEqual | Some e \<Rightarrow> e)"
  by (auto simp: fillDefault_def Let_def split: option.splits)

lemma fillDefault_linearizable [simp]:
  "ops_linearizable (fillDefault M) p \<longleftrightarrow> ops_linearizable M p" "linearizable (fillDefault M) es \<longleftrightarrow> linearizable M es"
  "accepts_values (fillDefault M) es \<longleftrightarrow> accepts_values M es"
proof -
  have "ops_legal (fillDefault M) p s i \<longleftrightarrow> ops_legal M p s i" for s i
    by (induction M p s i rule: ops_legal.induct) (auto split: sum.split prod.split bool.split)
  then show "ops_linearizable (fillDefault M) p \<longleftrightarrow> ops_linearizable M p" by (simp add: ops_linearizable_def)
  have "legal (fillDefault M) es s i \<longleftrightarrow> legal M es s i" for s i
    by (induction M es s i rule: legal.induct) (auto split: sum.split prod.split bool.split)
  then show "linearizable (fillDefault M) es \<longleftrightarrow> linearizable M es" by (simp add: linearizable_def linearization_def)
  show "accepts_values (fillDefault M) es \<longleftrightarrow> accepts_values M es" by (simp add: accepts_values_def)
qed

lemma equal_sound_default: "Equal M = None \<Longrightarrow> equal_sound (fillDefault M)"
  by (simp add: equal_sound_def ShallowEqual_def)

lemma times_ok_filter: "times_ok ops \<Longrightarrow> times_ok (filter P ops)"
  by (induction ops) (auto simp: times_ok_def)

section \<open>One partition\<close>

text \<open>
  C27. \<open>checkSingle\<close> decides linearizability: on every history in which each operation has a
  call and a later return, with a model that does not panic on it and an \<open>Equal\<close> that only
  identifies equal states, the search ends, without a panic, with the right answer; and
  when it is yes, the sequence it reports for every operation is a linearization.
\<close>

theorem check_single_decides:
  assumes "wf_entries es" and "accepts_values M es" and "equal_sound M"
  shows "\<exists>j. \<forall>k\<ge>j. \<exists>longest. checkSingle k (\<lambda>_. False) M es cp = Some (Inr (linearizable M es, longest)) \<and>
     (linearizable M es \<longrightarrow> (\<exists>ids. linearization M es ids \<and> longest = replicate (length es div 2) (Some ids)))"
proof -
  obtain j st' where j: "\<forall>k. search_loop (k + j) (\<lambda>_. False) M (length es) cp (start_search M es (start_heap es)) = Some (Inr (linearizable M es, st'))"
    and l: "linearizable M es \<longrightarrow> linearization M es (map (\<lambda>(e, _). h_id (s_heap st') e) (s_calls st'))"
    using linked.search_decides[OF assms, of cp] by blast
  have "\<exists>longest. checkSingle k (\<lambda>_. False) M es cp = Some (Inr (linearizable M es, longest)) \<and>
     (linearizable M es \<longrightarrow> (\<exists>ids. linearization M es ids \<and> longest = replicate (length es div 2) (Some ids)))" if "k \<ge> j" for k
    using j[rule_format, of "k - j"] that l checkSingle_search[OF assms(1), of k "\<lambda>_. False" M cp]
    by (cases "linearizable M es") auto
  then show ?thesis by blast
qed

theorem check_single_decides_witness:
  "let es = makeEntries (sort_key e_time) sample_history; M = fillDefault KvModel in
   wf_entries es \<and> (\<exists>j. \<forall>k\<ge>j. \<exists>longest. checkSingle k (\<lambda>_. False) M es True = Some (Inr (linearizable M es, longest)))"
proof -
  note w = makeEntries_wf[OF sort_by_time sample_times]
  have "accepts_values (fillDefault KvModel) (makeEntries (sort_key e_time) sample_history)"
    using kv_accepts[OF sort_by_time sample_times sample_kv] by simp
  moreover have "equal_sound (fillDefault KvModel)" by (rule equal_sound_default) (simp add: KvModel_def)
  ultimately show ?thesis using check_single_decides[OF w, of "fillDefault KvModel" True] w unfolding Let_def by blast
qed

text \<open>
  C33. The bit operations implement sets of positions: within the size of the bitset setting,
  clearing and testing a position do not panic and change or test that element alone, the
  count is the number of elements, and comparing the words compares the sets.
\<close>

theorem bitset_refines_sets:
  assumes "bs_wf n b" and "bs_wf n b'" and "i < n"
  shows "(\<exists>b1. bs_set i b = Inr b1 \<and> bs_wf n b1 \<and> bs_elems b1 = insert i (bs_elems b)) \<and>
     (\<exists>b2. bs_clear i b = Inr b2 \<and> bs_wf n b2 \<and> bs_elems b2 = bs_elems b - {i}) \<and>
     bs_get i b = Inr (i \<in> bs_elems b) \<and> popcnt b = card (bs_elems b) \<and> (bs_equals b b' \<longleftrightarrow> bs_elems b = bs_elems b')"
  using bs.ins_ok[OF assms(1,3)] bs.del_ok[OF assms(1,3)] bs.mem_ok[OF assms(1,3)] bs.eq_iff[OF assms(1,2)] popcnt_card by blast

theorem bitset_refines_sets_witness:
  "bs_wf 70 (newBitset 70) \<and> bs_get 65 (newBitset 70) = Inr False \<and>
   (\<exists>b1. bs_set 65 (newBitset 70) = Inr b1 \<and> bs_wf 70 b1 \<and> bs_elems b1 = {65})"
  using bitset_refines_sets[OF bs.new_wf bs.new_wf, of 65 70] bs.new_wf[of 70] bs.new_elems[of 70] by auto

section \<open>Whole histories\<close>

lemma check_operations_aux:
  assumes srt: "sorts_by_time srt" and parts: "the (Partition (fillDefault M)) history = Inr parts" "parts \<noteq> []"
    and ops: "\<forall>p\<in>set parts. times_ok p \<and> (\<forall>q\<in>set p. \<forall>s. \<exists>x. Step M s (op_Input q) (op_Output q) = Inr x)"
    and eq: "equal_sound (fillDefault M)" and order: "distinct order" "set order = {..<length parts}"
  shows "\<exists>j. \<forall>k\<ge>j. CheckOperations k order srt M history = Some (Inr (\<forall>p\<in>set parts. ops_linearizable M p))"
proof -
  let ?M = "fillDefault M" and ?es = "map (makeEntries srt) parts"
  have "\<forall>es\<in>set ?es. wf_entries es \<and> accepts_values ?M es"
    using ops makeEntries_wf[OF srt] makeEntries_accepts[OF srt, of _ M] by auto
  from checkParallel_decides[OF this eq, of order "\<lambda>_ _. False"] order parts(2)
  obtain j where j: "\<forall>k\<ge>j. \<exists>info. checkParallel k (map Some order) (\<lambda>_ _. False) ?M ?es False =
      Some (Inr (if \<forall>es\<in>set ?es. linearizable ?M es then Ok else Illegal, info))" by auto
  have "linearizable ?M (makeEntries srt p) \<longleftrightarrow> ops_linearizable M p" if "p \<in> set parts" for p
    using makeEntries_linearizable[OF srt, of p ?M] ops that by simp
  then have "(\<forall>es\<in>set ?es. linearizable ?M es) \<longleftrightarrow> (\<forall>p\<in>set parts. ops_linearizable M p)" by auto
  then have "CheckOperations k order srt M history = Some (Inr (\<forall>p\<in>set parts. ops_linearizable M p))" if "k \<ge> j" for k
    using j[rule_format, OF that] parts(1) by (auto simp: CheckOperations_def checkOperations_def Let_def)
  then show ?thesis by blast
qed

text \<open>
  C28. \<open>CheckOperations\<close> decides whether every partition of the history is linearizable, in
  whichever order the goroutines of the partitions report: for histories of operations with
  distinct times that return after their call, whatever sorting algorithm the library uses.
\<close>

theorem check_operations_decides:
  assumes srt: "sorts_by_time srt" and parts: "the (Partition (fillDefault M)) history = Inr parts" "parts \<noteq> []"
    and ops: "\<forall>p\<in>set parts. times_ok p \<and> (\<forall>q\<in>set p. \<forall>s. \<exists>x. Step M s (op_Input q) (op_Output q) = Inr x)"
    and eq: "equal_sound (fillDefault M)" and order: "distinct order" "set order = {..<length parts}"
  shows "\<exists>j. \<forall>k\<ge>j. CheckOperations k order srt M history = Some (Inr (\<forall>p\<in>set parts. ops_linearizable M p))"
  by (rule check_operations_aux[OF assms])

theorem check_operations_decides_witness:
  "\<exists>j. \<forall>k\<ge>j. CheckOperations k [0] (sort_key e_time) (KvModel\<lparr>Partition := None\<rparr>) sample_history =
     Some (Inr (ops_linearizable (KvModel\<lparr>Partition := None\<rparr>) sample_history))"
proof -
  have "the (Partition (fillDefault (KvModel\<lparr>Partition := None\<rparr>))) sample_history = Inr [sample_history]"
    by (simp add: NoPartition_def)
  from check_operations_decides[OF sort_by_time this, of "[0]"] show ?thesis
    using sample_times kv_Step_total sample_kv equal_sound_default[of "KvModel\<lparr>Partition := None\<rparr>"]
    by (auto simp: KvModel_def)
qed

text \<open>
  C29. The check of the key/value tests: on a non-empty history of gets, puts and appends
  with distinct times \<open>CheckOperations\<close> with \<open>KvModel\<close> returns, for any order in which the
  partitions report, and says yes exactly when, for every key, the operations on that key can
  be ordered, respecting their times, so that every get returns what the last put before it
  wrote, or the empty string without one, followed by what the appends between them wrote.
\<close>

theorem check_kv_history:
  assumes "sorts_by_time srt" and "history \<noteq> []" and "\<forall>v\<in>set history. is_kv v" and "times_ok history"
    and "distinct order" and "set order = {..<card (kv_keys history)}"
  shows "\<exists>j. \<forall>k\<ge>j. CheckOperations k order srt KvModel history =
     Some (Inr (\<forall>key. kv_explained (filter (on_key key) history)))"
proof -
  let ?keys = "sorted_list_of_set (kv_keys history)"
  let ?parts = "map (\<lambda>key. filter (on_key key) history) ?keys"
  have K: "kv_keys history = (\<lambda>v. projr (kv_key (op_Input v))) ` set history"
    using assms(3) by (force simp: kv_keys_def is_kv_def)
  then have fin: "finite (kv_keys history)" and ne: "kv_keys history \<noteq> {}" using assms(2) by simp_all
  have part: "the (Partition (fillDefault KvModel)) history = Inr ?parts"
    using kv_Partition_eq[OF assms(3)] by (simp add: KvModel_def)
  have lin: "ops_linearizable KvModel (filter (on_key key) history) \<longleftrightarrow> kv_explained (filter (on_key key) history)" for key
    using assms(3) by (intro kv_linearizable) simp
  have "kv_explained (filter (on_key key) history)" if "key \<notin> kv_keys history" for key
  proof -
    have "filter (on_key key) history = []" using that by (auto simp: kv_keys_def filter_empty_conv)
    then show ?thesis by (simp add: kv_explained_def)
  qed
  then have iff: "(\<forall>p\<in>set ?parts. ops_linearizable KvModel p) \<longleftrightarrow> (\<forall>key. kv_explained (filter (on_key key) history))"
    using fin by (simp add: lin) blast
  have ops: "\<forall>p\<in>set ?parts. times_ok p \<and> (\<forall>q\<in>set p. \<forall>s. \<exists>x. Step KvModel s (op_Input q) (op_Output q) = Inr x)"
    using times_ok_filter[OF assms(4)] kv_Step_total assms(3) by (auto simp del: split_paired_Ex)
  have eq: "equal_sound (fillDefault KvModel)" by (rule equal_sound_default) (simp add: KvModel_def)
  have ps: "?parts \<noteq> []" "length ?parts = card (kv_keys history)" using fin ne by simp_all
  have "set order = {..<length ?parts}" using assms(6) ps(2) by simp
  from check_operations_aux[OF assms(1) part ps(1) ops eq assms(5) this] show ?thesis unfolding iff .
qed

lemma sample_explained: "kv_explained (filter (on_key key) sample_history)"
proof (cases "key = ''x''")
  case True
  have "\<forall>m<2. is_get (sample_history ! m) \<longrightarrow> kv_out (sample_history ! m) = written (map ((!) sample_history) (take m [0, 1]))"
    by (simp add: less_Suc_eq numeral_2_eq_2 sample_put_def sample_get_def written_def)
  then have "kv_explained sample_history" unfolding kv_explained_def
    by (intro exI[of _ "[0, 1]"]) (auto simp: less_Suc_eq numeral_2_eq_2 sample_put_def sample_get_def)
  then show ?thesis using True by (simp add: sample_put_def sample_get_def)
next
  case False
  then show ?thesis by (simp add: sample_put_def sample_get_def kv_explained_def)
qed

theorem check_kv_history_witness:
  "sorts_by_time (sort_key e_time :: kv_value entry list \<Rightarrow> _) \<and>
   (\<exists>j. \<forall>k\<ge>j. CheckOperations k [0] (sort_key e_time) KvModel sample_history = Some (Inr True))"
proof -
  have "sample_history \<noteq> []" "distinct [0 :: nat]" "set [0] = {..<card (kv_keys sample_history)}" by (auto simp: sample_keys)
  note check_kv_history[OF sort_by_time this(1) sample_kv sample_times this(2,3)]
  moreover have "(\<forall>key. kv_explained (filter (on_key key) sample_history)) = True" using sample_explained by blast
  ultimately show ?thesis using sort_by_time by simp
qed

text \<open>
  \<open>checkParallel\<close> waits for one answer even when there is no partition: on an empty
  key/value history no goroutine is started, no answer ever arrives and \<open>CheckOperations\<close>
  does not return.
\<close>

lemma check_empty_history_hangs:
  "CheckOperations k [] srt KvModel [] = None"
  by (simp add: CheckOperations_def checkOperations_def Let_def KvModel_def kv_Partition_def checkParallel_def)

text \<open>
  C31. A timeout never turns into a wrong answer: when the timeout fires after some of the
  partitions have reported, the result is \<open>Illegal\<close> if one of those is not linearizable and
  \<open>Unknown\<close> otherwise, never \<open>Ok\<close>. (The comments in \<open>porcupine.go\<close> and \<open>checker.go\<close> say that
  a false positive is possible then; with the answer \<open>Unknown\<close> it is not.)
\<close>

theorem check_timeout_sound:
  assumes srt: "sorts_by_time srt" and parts: "the (Partition (fillDefault M)) history = Inr parts"
    and ops: "\<forall>p\<in>set parts. times_ok p \<and> (\<forall>q\<in>set p. \<forall>s. \<exists>x. Step M s (op_Input q) (op_Output q) = Inr x)"
    and eq: "equal_sound (fillDefault M)" and order: "set order \<subseteq> {..<length parts}" "length order < length parts"
  shows "\<exists>j. \<forall>k\<ge>j. CheckOperationsTimeout k (map Some order @ [None]) kills srt M history =
     Some (Inr (if \<forall>i\<in>set order. ops_linearizable M (parts ! i) then Unknown else Illegal))"
proof -
  let ?M = "fillDefault M" and ?es = "map (makeEntries srt) parts"
  have "\<forall>es\<in>set ?es. wf_entries es \<and> accepts_values ?M es"
    using ops makeEntries_wf[OF srt] makeEntries_accepts[OF srt, of _ M] by auto
  from checkParallel_timeout[OF this eq, of order kills] order
  obtain j where j: "\<forall>k\<ge>j. \<exists>info. checkParallel k (map Some order @ [None]) kills ?M ?es False =
      Some (Inr (if \<forall>i\<in>set order. linearizable ?M (?es ! i) then Unknown else Illegal, info))" by auto
  have "linearizable ?M (?es ! i) \<longleftrightarrow> ops_linearizable M (parts ! i)" if i: "i \<in> set order" for i
  proof -
    have "i < length parts" using i order(1) by auto
    then show ?thesis using makeEntries_linearizable[OF srt, of "parts ! i" ?M] ops by simp
  qed
  then have "(\<forall>i\<in>set order. linearizable ?M (?es ! i)) \<longleftrightarrow> (\<forall>i\<in>set order. ops_linearizable M (parts ! i))" by blast
  then have "CheckOperationsTimeout k (map Some order @ [None]) kills srt M history =
      Some (Inr (if \<forall>i\<in>set order. ops_linearizable M (parts ! i) then Unknown else Illegal))" if "k \<ge> j" for k
    using j[rule_format, OF that] parts by (auto simp: CheckOperationsTimeout_def checkOperations_def Let_def)
  then show ?thesis by blast
qed

theorem check_timeout_sound_witness:
  "\<exists>j. \<forall>k\<ge>j. CheckOperationsTimeout k [None] (\<lambda>_ _. True) (sort_key e_time) (KvModel\<lparr>Partition := None\<rparr>) sample_history =
     Some (Inr Unknown)"
proof -
  have "the (Partition (fillDefault (KvModel\<lparr>Partition := None\<rparr>))) sample_history = Inr [sample_history]"
    by (simp add: NoPartition_def)
  from check_timeout_sound[OF sort_by_time this, of "[]" "\<lambda>_ _. True"] show ?thesis
    using sample_times kv_Step_total sample_kv equal_sound_default[of "KvModel\<lparr>Partition := None\<rparr>"]
    by (auto simp: KvModel_def)
qed

text \<open>
  C30. \<open>CheckEvents\<close> decides linearizability of histories given as events with arbitrary
  numbers: renumbering them \<open>0, 1, \<dots>\<close> in the order of their first appearance, which the
  search needs for its bitsets, does not change the answer.
\<close>

theorem check_events_decides:
  assumes parts: "the (PartitionEvent (fillDefault M)) history = Inr parts" "parts \<noteq> []"
    and evs: "\<forall>p\<in>set parts. events_ok p \<and> accepts_values M (convertEntries p)"
    and eq: "equal_sound (fillDefault M)" and order: "distinct order" "set order = {..<length parts}"
  shows "\<exists>j. \<forall>k\<ge>j. CheckEvents k order M history = Some (Inr (\<forall>p\<in>set parts. linearizable M (convertEntries p)))"
proof -
  let ?M = "fillDefault M" and ?es = "map (\<lambda>p. convertEntries (renumber p)) parts"
  have "\<forall>es\<in>set ?es. wf_entries es \<and> accepts_values ?M es" using evs renumber_entries(1,3) by auto
  from checkParallel_decides[OF this eq, of order "\<lambda>_ _. False"] order parts(2)
  obtain j where j: "\<forall>k\<ge>j. \<exists>info. checkParallel k (map Some order) (\<lambda>_ _. False) ?M ?es False =
      Some (Inr (if \<forall>es\<in>set ?es. linearizable ?M es then Ok else Illegal, info))" by auto
  have "(\<forall>es\<in>set ?es. linearizable ?M es) \<longleftrightarrow> (\<forall>p\<in>set parts. linearizable M (convertEntries p))"
    using evs renumber_entries(2) by auto
  then have "CheckEvents k order M history = Some (Inr (\<forall>p\<in>set parts. linearizable M (convertEntries p)))" if "k \<ge> j" for k
    using j[rule_format, OF that] parts(1) by (auto simp: CheckEvents_def checkEvents_def Let_def)
  then show ?thesis by blast
qed

definition sample_events :: "kv_value Event list" where
  "sample_events = [\<lparr>ev_ClientId = 0, ev_Kind = CallEvent, ev_Value = op_Input sample_put, ev_Id = 7\<rparr>,
                    \<lparr>ev_ClientId = 0, ev_Kind = ReturnEvent, ev_Value = op_Output sample_put, ev_Id = 7\<rparr>]"

theorem check_events_decides_witness:
  "events_ok sample_events \<and>
   (\<exists>j. \<forall>k\<ge>j. CheckEvents k [0] KvModel sample_events = Some (Inr (linearizable KvModel (convertEntries sample_events))))"
proof -
  have p: "the (PartitionEvent (fillDefault KvModel)) sample_events = Inr [sample_events]"
    by (simp add: KvModel_def NoPartitionEvent_def)
  have e: "events_ok sample_events"
    by (auto simp: events_ok_def sample_events_def convertEntries_def complete_def)
  have a: "accepts_values KvModel (convertEntries sample_events)"
    using kv_Step_total[of sample_put] sample_kv by (auto simp: accepts_values_def sample_events_def convertEntries_def)
  have "equal_sound (fillDefault KvModel)" by (rule equal_sound_default) (simp add: KvModel_def)
  from check_events_decides[OF p _ _ this, of "[0]"] e a show ?thesis by auto
qed

end
