(* ===== verification/Visualization.thy ===== *)
theory Visualization
  imports Checker_Theorems
begin

text \<open>
  \<open>src/src/porcupine/visualization.go\<close>, lines 11-87: the data behind the page that shows a
  check. \<open>descOp\<close> and \<open>descState\<close> are \<open>DescribeOperation\<close> and \<open>DescribeState\<close> as \<open>fillDefault\<close> leaves them,
  \<open>nil\<close> the value of an interface that holds nothing, and \<open>sort_Slice\<close> the library's unstable
  sort by falling length. The rest of that file is the page itself, and writing it to a
  file. Every partial linearization that \<open>checkSingle\<close> notes is a run of the model, so that
  the panic of line 69 cannot happen.
\<close>

section \<open>The code\<close>

record historyElement =
  he_ClientId :: int
  he_Start :: int
  he_End :: int
  he_Description :: string

definition historyElement0 :: historyElement where
  "historyElement0 = \<lparr>he_ClientId = 0, he_Start = 0, he_End = 0, he_Description = ''''\<rparr>"

record linearizationStep =
  ls_Index :: int
  ls_StateDescription :: string

record partitionVisualizationData =
  pv_History :: "historyElement list"
  pv_PartialLinearizations :: "linearizationStep list list"
  pv_Largest :: "int \<rightharpoonup> nat"

text \<open>A read of a map that may not have the key.\<close>

definition at_key :: "'v \<Rightarrow> (int \<rightharpoonup> 'v) \<Rightarrow> int \<Rightarrow> 'v" where
  "at_key z m i = (case m i of None \<Rightarrow> z | Some v \<Rightarrow> v)"

text \<open>Lines 42-53, the body of the first loop.\<close>

definition vis_entry ::
  "('v \<Rightarrow> 'v \<Rightarrow> string go) \<Rightarrow> 'v \<Rightarrow> 'v entry \<Rightarrow> historyElement list \<times> (int \<rightharpoonup> 'v) \<times> (int \<rightharpoonup> 'v) \<Rightarrow>
   (historyElement list \<times> (int \<rightharpoonup> 'v) \<times> (int \<rightharpoonup> 'v)) go" where
  "vis_entry descOp nil elem = (\<lambda>(history, callValue, returnValue).
     go_bind (go_index history (e_id elem)) (\<lambda>he.
       if e_kind elem = callEntry then
         go_bind (go_set history (e_id elem) (he\<lparr>he_ClientId := e_clientId elem, he_Start := e_time elem\<rparr>)) (\<lambda>history.
           Inr (history, callValue(e_id elem \<mapsto> e_value elem), returnValue))
       else
         go_bind (descOp (at_key nil callValue (e_id elem)) (e_value elem)) (\<lambda>d.
         go_bind (go_set history (e_id elem) (he\<lparr>he_End := e_time elem, he_Description := d\<rparr>)) (\<lambda>history.
           Inr (history, callValue, returnValue(e_id elem \<mapsto> e_value elem))))))"

text \<open>Lines 65-78, the body of the loop over the \<open>i\<close>-th partial linearization, of length \<open>len\<close>.\<close>

definition vis_step ::
  "('v, 's) Model \<Rightarrow> ('s \<Rightarrow> string go) \<Rightarrow> ('v \<times> (int \<rightharpoonup> 'v) \<times> (int \<rightharpoonup> 'v)) \<Rightarrow> nat \<Rightarrow> nat \<Rightarrow> int \<Rightarrow>
   's \<times> linearizationStep list \<times> (int \<rightharpoonup> nat) \<times> (int \<rightharpoonup> nat) \<Rightarrow> ('s \<times> linearizationStep list \<times> (int \<rightharpoonup> nat) \<times> (int \<rightharpoonup> nat)) go" where
  "vis_step model descState = (\<lambda>(nil, callValue, returnValue) i len histId (state, linearization, largestSize, largestIndex).
     go_bind (Step model state (at_key nil callValue histId) (at_key nil returnValue histId)) (\<lambda>(ok, state).
       if ok \<noteq> True then Inl (Fatal ''valid partial linearization returned non-ok result from model step'')
       else go_bind (descState state) (\<lambda>stateDesc.
         let linearization = linearization @ [\<lparr>ls_Index = histId, ls_StateDescription = stateDesc\<rparr>]
         in Inr (if at_key 0 largestSize histId < len
                 then (state, linearization, largestSize(histId \<mapsto> len), largestIndex(histId \<mapsto> i))
                 else (state, linearization, largestSize, largestIndex)))))"

text \<open>Lines 62-80 for one partial linearization.\<close>

definition vis_partial ::
  "('v, 's) Model \<Rightarrow> ('s \<Rightarrow> string go) \<Rightarrow> ('v \<times> (int \<rightharpoonup> 'v) \<times> (int \<rightharpoonup> 'v)) \<Rightarrow> nat \<times> int list \<Rightarrow>
   linearizationStep list list \<times> (int \<rightharpoonup> nat) \<times> (int \<rightharpoonup> nat) \<Rightarrow> (linearizationStep list list \<times> (int \<rightharpoonup> nat) \<times> (int \<rightharpoonup> nat)) go" where
  "vis_partial model descState values = (\<lambda>(i, partial) (linearizations, largestSize, largestIndex).
     go_bind (go_each (vis_step model descState values i (length partial)) partial (Init model, [], largestSize, largestIndex))
       (\<lambda>(_, linearization, largestSize, largestIndex). Inr (linearizations @ [linearization], largestSize, largestIndex)))"

text \<open>Lines 37-86 for one partition.\<close>

definition vis_partition ::
  "(int list list \<Rightarrow> int list list) \<Rightarrow> ('v \<Rightarrow> 'v \<Rightarrow> string go) \<Rightarrow> ('s \<Rightarrow> string go) \<Rightarrow> 'v \<Rightarrow> ('v, 's) Model \<Rightarrow> 'v entry list \<Rightarrow>
   int list list \<Rightarrow> partitionVisualizationData go" where
  "vis_partition sort_Slice descOp descState nil model entries partials =
     go_bind (go_each (vis_entry descOp nil) entries (replicate (length entries div 2) historyElement0, Map.empty, Map.empty))
       (\<lambda>(history, callValue, returnValue).
     let partials = sort_Slice partials in
     go_bind (go_each (vis_partial model descState (nil, callValue, returnValue)) (zip [0..<length partials] partials) ([], Map.empty, Map.empty))
       (\<lambda>(linearizations, _, largestIndex).
     Inr \<lparr>pv_History = history, pv_PartialLinearizations = linearizations, pv_Largest = largestIndex\<rparr>))"

text \<open>
  All partitions. In Go \<open>sort.Slice\<close> also leaves \<open>info.partialLinearizations[partition]\<close>
  sorted, which nothing reads afterwards; here \<open>info\<close> is not returned.
\<close>

definition computeVisualizationData ::
  "(int list list \<Rightarrow> int list list) \<Rightarrow> ('v \<Rightarrow> 'v \<Rightarrow> string go) \<Rightarrow> ('s \<Rightarrow> string go) \<Rightarrow> 'v \<Rightarrow> ('v, 's) Model \<Rightarrow> 'v linearizationInfo \<Rightarrow>
   partitionVisualizationData list go" where
  "computeVisualizationData sort_Slice descOp descState nil model info =
     (let model = fillDefault model in
      go_each (\<lambda>partition data.
        go_bind (go_index (li_history info) (int partition)) (\<lambda>entries.
        go_bind (go_index (li_partialLinearizations info) (int partition)) (\<lambda>partials.
        go_bind (vis_partition sort_Slice descOp descState nil model entries partials) (\<lambda>d. Inr (data @ [d])))))
        [0..<length (li_history info)] [])"

section \<open>The partial linearizations of the search\<close>

text \<open>The calls on the stack of the search lead from one state to another.\<close>

fun path :: "('v, 's) Model \<Rightarrow> 'v heap \<Rightarrow> 's \<Rightarrow> (nat \<times> 's) list \<Rightarrow> 's \<Rightarrow> bool" where
  "path M h s [] t \<longleftrightarrow> s = t"
| "path M h s ((c, u) # cs) t \<longleftrightarrow> u = s \<and> h_match h c \<noteq> None \<and> (\<exists>s'. step_of M h s c = Inr (True, s') \<and> path M h s' cs t)"

lemma path_snoc: "path M h s (cs @ [(c, u)]) t \<longleftrightarrow> path M h s cs u \<and> h_match h c \<noteq> None \<and> step_of M h u c = Inr (True, t)"
  by (induction cs arbitrary: s) auto

definition run_of :: "('v, 's) Model \<Rightarrow> 'v heap \<Rightarrow> int list \<Rightarrow> bool" where
  "run_of M h ids \<longleftrightarrow> (\<exists>cs t. ids = map (\<lambda>(c, _). h_id h c) cs \<and> path M h (Init M) cs t)"

definition noting :: "('v, 's) Model \<Rightarrow> 'v heap \<Rightarrow> ('v, 's) search \<Rightarrow> bool" where
  "noting M h st \<longleftrightarrow> same_nodes (s_heap st) h \<and> path M h (Init M) (s_calls st) (s_state st) \<and>
     (\<forall>ids. Some ids \<in> set (s_longest st) \<longrightarrow> run_of M h ids)"

lemma lift_same: "lift e h = Inr h' \<Longrightarrow> same_nodes h' h"
  by (auto simp: lift_def set_next_def set_prev_def same_nodes_def go_simps split: if_splits)

lemma unlift_same: "unlift e h = Inr h' \<Longrightarrow> same_nodes h' h"
  by (auto simp: unlift_def set_next_def set_prev_def same_nodes_def go_simps split: if_splits)

lemma same_nodes_trans: "same_nodes a b \<Longrightarrow> same_nodes b c \<Longrightarrow> same_nodes a c"
  by (simp add: same_nodes_def)

lemma note_longest_set: "note_longest seq is l = Inr l' \<Longrightarrow> set l' \<subseteq> insert (Some seq) (set l)"
proof (induction seq "is" l rule: note_longest.induct)
  case (2 seq i ids l)
  then show ?case using set_update_subset_insert[of l "nat i" "Some seq"]
    by (auto simp: go_simps split: if_splits)
qed auto

lemma search_step_noting:
  assumes n: "noting M h st" and s: "search_step M hd0 cp kill st = Inr (Inr st')"
  shows "noting M h st'"
proof -
  have sn: "same_nodes (s_heap st) h" and p: "path M h (Init M) (s_calls st) (s_state st)"
    and l: "\<And>ids. Some ids \<in> set (s_longest st) \<Longrightarrow> run_of M h ids" using n by (auto simp: noting_def)
  obtain entry where nk: "\<not> kill" and e: "deref (s_entry st) = Inr entry" using s by (auto simp: search_step_def go_simps split: if_splits)
  show ?thesis
  proof (cases "h_match (s_heap st) entry")
    case (Some m)
    obtain ok s' where st: "Step M (s_state st) (the (h_value (s_heap st) entry)) (the (h_value (s_heap st) m)) = Inr (ok, s')"
      using s nk e Some by (auto simp: search_step_def go_simps Let_def)
    then have so: "step_of M h (s_state st) entry = Inr (ok, s')" "h_match h entry \<noteq> None" using sn Some by (auto simp: same_nodes_def)
    have "(\<exists>b x h'. lift entry (s_heap st) = Inr h' \<and> ok \<and> s_heap st' = h' \<and> s_calls st' = s_calls st @ [(entry, s_state st)] \<and>
        s_state st' = s' \<and> s_longest st' = s_longest st) \<or>
      (s_heap st' = s_heap st \<and> s_calls st' = s_calls st \<and> s_state st' = s_state st \<and> s_longest st' = s_longest st)"
      using s nk e Some st by (auto simp: search_step_def go_simps Let_def split: if_splits)
    then show ?thesis
      using sn p l so lift_same same_nodes_trans by (fastforce simp: noting_def path_snoc)
  next
    case None
    let ?ids = "map (\<lambda>(e, _). h_id (s_heap st) e) (s_calls st)"
    have ne: "s_calls st \<noteq> []" using s nk e None by (auto simp: search_step_def split: if_splits)
    then obtain cs top u where c: "s_calls st = cs @ [(top, u)]" by (metis rev_exhaust surj_pair)
    have "\<exists>longest lz h'. (if cp then note_longest ?ids ?ids (s_longest st) else Inr (s_longest st)) = Inr longest \<and> unlift top (s_heap st) = Inr h' \<and>
        st' = st\<lparr>s_longest := longest, s_state := u, s_linearized := lz, s_calls := cs, s_heap := h', s_entry := h_next h' top\<rparr>"
      using s nk e None unfolding search_step_def by (cases cp) (auto simp: go_simps Let_def c)
    then obtain longest h' where q: "(if cp then note_longest ?ids ?ids (s_longest st) else Inr (s_longest st)) = Inr longest" "unlift top (s_heap st) = Inr h'"
      and st': "s_longest st' = longest" "s_state st' = u" "s_calls st' = cs" "s_heap st' = h'" by auto
    have "run_of M h ?ids" using p sn unfolding run_of_def same_nodes_def by (intro exI[of _ "s_calls st"] exI[of _ "s_state st"]) auto
    moreover have "set longest \<subseteq> insert (Some ?ids) (set (s_longest st))" using q(1) note_longest_set[of ?ids ?ids "s_longest st" longest] by (auto split: if_splits)
    ultimately have "run_of M h ids" if "Some ids \<in> set longest" for ids using that l by auto
    moreover have "same_nodes h' h" using same_nodes_trans[OF unlift_same[OF q(2)] sn] .
    moreover have "path M h (Init M) cs u" using p by (simp add: c path_snoc)
    ultimately show ?thesis by (simp add: noting_def st')
  qed
qed

lemma search_loop_noting:
  "search_loop k kill M hd0 cp st = Some (Inr (b, st')) \<Longrightarrow> noting M h st \<Longrightarrow> noting M h st'"
proof (induction k arbitrary: st)
  case 0
  then show ?case by (subst (asm) search_loop.simps) (auto split: if_splits)
next
  case (Suc k)
  show ?case
  proof (cases "h_next (s_heap st) hd0 = None")
    case True
    then show ?thesis using Suc.prems by (subst (asm) search_loop.simps) auto
  next
    case False
    then consider r where "search_step M hd0 cp (kill k) st = Inr (Inl r)" "st' = st"
      | st1 where "search_step M hd0 cp (kill k) st = Inr (Inr st1)" "search_loop k kill M hd0 cp st1 = Some (Inr (b, st'))"
      using Suc.prems(1) by (subst (asm) search_loop.simps) (auto split: sum.splits)
    then show ?thesis using Suc.IH Suc.prems(2) search_step_noting by cases blast+
  qed
qed

text \<open>No node past the history is a call.\<close>

lemma link_entries_match:
  "\<forall>a\<ge>h_size h. h_match h a = None \<Longrightarrow> link_entries es mt root h = (r, h') \<Longrightarrow> \<forall>a\<ge>h_size h'. h_match h' a = None"
proof (induction es arbitrary: mt root h)
  case (Cons elem es)
  show ?case by (rule Cons.IH[OF _ Cons.prems(2)[unfolded link_entries_consed]]) (use Cons.prems(1) in \<open>auto simp: heap_simps\<close>)
qed auto

lemma start_heap_match: "length es \<le> a \<Longrightarrow> h_match (start_heap es) a = None"
proof -
  assume a: "length es \<le> a"
  obtain mt h where h: "makeLinkedEntries es = (root_of es, h)" "built (rev es) mt h" by (rule makeLinkedEntries_built)
  have "\<forall>a\<ge>h_size h. h_match h a = None"
    using link_entries_match[of empty_heap "rev es"] h(1) by (simp add: makeLinkedEntries_def empty_heap_def)
  moreover have "h_size h = length es" using h(2) by (simp add: built_def)
  ultimately show ?thesis using a by (simp add: start_heap_def h(1) heap_simps)
qed

lemma path_accepted: "path M h s cs t \<Longrightarrow> accepted M h s (map fst cs) \<and> (\<forall>c\<in>set (map fst cs). h_match h c \<noteq> None)"
  by (induction M h s cs t rule: path.induct) auto

lemma run_of_legal:
  assumes w: "wf_entries es" and r: "run_of M (start_heap es) ids"
  shows "legal M es (Init M) ids \<and> set ids \<subseteq> e_id ` set es"
proof -
  let ?h = "start_heap es"
  have h: "holds_history es ?h" using linked.holds[OF w] .
  obtain cs t where cs: "ids = map (\<lambda>(c, _). h_id ?h c) cs" "path M ?h (Init M) cs t" using r by (auto simp: run_of_def)
  have C: "set (map fst cs) \<subseteq> calls_left ?h (length es) {}"
    using path_accepted[OF cs(2)] start_heap_match[of es] unfolding calls_left_def by (fastforce simp: not_less[symmetric])
  have ids: "ids = map (h_id ?h) (map fst cs)" using cs(1) by (auto simp: case_prod_beta)
  have "legal M es (Init M) ids" unfolding ids using conjunct1[OF path_accepted[OF cs(2)]] by (rule iffD2[OF legal_accepted[OF w h C]])
  moreover have "set ids \<subseteq> e_id ` set es" using C ids_of_calls(2)[OF w h] unfolding ids by (auto simp: image_iff)
  ultimately show ?thesis ..
qed

text \<open>Every partial linearization of a run is a run of the model, whenever the run is stopped.\<close>

lemma checkSingle_partials:
  assumes w: "wf_entries es" and c: "checkSingle k kill M es cp = Some (Inr (b, longest))" and i: "Some ids \<in> set longest"
  shows "legal M es (Init M) ids \<and> set ids \<subseteq> e_id ` set es"
proof -
  let ?h = "start_heap es"
  have "noting M ?h (start_search M es ?h)" by (auto simp: noting_def same_nodes_def start_search_def)
  then obtain st where st: "noting M ?h st" "longest = (if b then replicate (length es div 2) (Some (map (\<lambda>(e, _). h_id (s_heap st) e) (s_calls st))) else s_longest st)"
    using c search_loop_noting[of k kill M "length es" cp "start_search M es ?h"] unfolding checkSingle_search[OF w]
    by (auto split: option.splits sum.splits prod.splits bool.splits)
  have "run_of M ?h (map (\<lambda>(e, _). h_id (s_heap st) e) (s_calls st))"
    using st(1) unfolding run_of_def noting_def same_nodes_def by (intro exI[of _ "s_calls st"] exI[of _ "s_state st"]) auto
  then have "run_of M ?h ids" using st i by (auto simp: noting_def split: if_splits)
  then show ?thesis by (rule run_of_legal[OF w])
qed

lemma all_partials_sound:
  assumes "all_partials run is = Some (Inr ps)"
  shows "length ps = length is \<and> (\<forall>j<length is. \<exists>b longest. run (is ! j) = Some (Inr (b, longest)) \<and> ps ! j = partials_of longest)"
  using assms
proof (induction "is" arbitrary: ps)
  case (Cons i "is")
  then obtain b longest z where z: "run i = Some (Inr (b, longest))" "all_partials run is = Some z" "map_sum id ((#) (partials_of longest)) z = Inr ps"
    by (auto split: option.splits sum.splits prod.splits)
  then obtain ps' where r: "run i = Some (Inr (b, longest))" "all_partials run is = Some (Inr ps')" "ps = partials_of longest # ps'"
    by (cases z) auto
  show ?case using Cons.IH[OF r(2)] r by (auto simp: nth_Cons split: nat.split)
qed auto

lemma checkParallel_partials:
  assumes w: "\<forall>es\<in>set parts. wf_entries es" and c: "checkParallel k arrivals kills M parts True = Some (Inr (res, info))"
  shows "li_history info = parts \<and> length (li_partialLinearizations info) = length parts \<and>
     (\<forall>p<length parts. \<forall>ids\<in>set (li_partialLinearizations info ! p). legal M (parts ! p) (Init M) ids \<and> set ids \<subseteq> e_id ` set (parts ! p))"
proof -
  let ?run = "\<lambda>count i. if Some i \<in> set (take count arrivals) then checkSingle k (\<lambda>_. False) M (parts ! i) True else checkSingle k (kills i) M (parts ! i) True"
  obtain count ps where ps: "all_partials (?run count) [0..<length parts] = Some (Inr ps)" and info: "info = \<lparr>li_history = parts, li_partialLinearizations = ps\<rparr>"
    using c unfolding checkParallel_def Let_def by (auto split: option.splits sum.splits prod.splits)
  define run where "run = ?run count"
  have run: "\<exists>kill. run i = checkSingle k kill M (parts ! i) True" for i by (auto simp: run_def)
  note ps = ps[folded run_def]
  note s = all_partials_sound[OF ps]
  have "legal M (parts ! p) (Init M) ids \<and> set ids \<subseteq> e_id ` set (parts ! p)" if p: "p < length parts" "ids \<in> set (ps ! p)" for p ids
  proof -
    obtain b longest where l: "run p = Some (Inr (b, longest))" "ps ! p = partials_of longest" using s p(1) by auto
    obtain kill where "checkSingle k kill M (parts ! p) True = Some (Inr (b, longest))" using run[of p] l(1) by auto
    moreover have "Some ids \<in> set longest" using p(2) l(2) by (auto simp: partials_of_def map_filter_def)
    ultimately show ?thesis using checkSingle_partials w p(1) nth_mem by blast
  qed
  then show ?thesis using s info by simp
qed


section \<open>The history shown\<close>

text \<open>The model can describe the operations of the history.\<close>

definition describes :: "('v \<Rightarrow> 'v \<Rightarrow> string go) \<Rightarrow> 'v entry list \<Rightarrow> bool" where
  "describes descOp es \<longleftrightarrow> (\<forall>c\<in>set es. \<forall>r\<in>set es. e_kind c = callEntry \<longrightarrow> e_kind r = returnEntry \<longrightarrow> e_id c = e_id r \<longrightarrow>
     (\<exists>d. descOp (e_value c) (e_value r) = Inr d))"

text \<open>What the page shows of one entry.\<close>

definition shows_entry :: "('v \<Rightarrow> 'v \<Rightarrow> string go) \<Rightarrow> 'v entry list \<Rightarrow> historyElement list \<Rightarrow> 'v entry \<Rightarrow> bool" where
  "shows_entry descOp es history e \<longleftrightarrow> (let he = history ! nat (e_id e) in
     if e_kind e = callEntry then he_ClientId he = e_clientId e \<and> he_Start he = e_time e
     else he_End he = e_time e \<and> descOp (value_at es callEntry (e_id e)) (e_value e) = Inr (he_Description he))"

definition seen :: "('v \<Rightarrow> 'v \<Rightarrow> string go) \<Rightarrow> 'v entry list \<Rightarrow> 'v entry set \<Rightarrow> historyElement list \<times> (int \<rightharpoonup> 'v) \<times> (int \<rightharpoonup> 'v) \<Rightarrow> bool" where
  "seen descOp es X = (\<lambda>(history, cv, rv). length history = length es div 2 \<and> (\<forall>e\<in>X. shows_entry descOp es history e \<and>
     (if e_kind e = callEntry then cv else rv) (e_id e) = Some (e_value e)))"

lemma answered_append: "answered (xs @ ys) \<Longrightarrow> answered ys"
  by (induction xs) auto

lemma answered_in: "answered es \<Longrightarrow> c \<in> set es \<Longrightarrow> e_kind c = callEntry \<Longrightarrow> \<exists>r\<in>set es. e_kind r = returnEntry \<and> e_id r = e_id c"
  by (induction es) auto

lemma call_before_return:
  assumes w: "wf_entries (pre @ r # suf)" and r: "e_kind r = returnEntry"
  shows "\<exists>c\<in>set pre. e_kind c = callEntry \<and> e_id c = e_id r"
proof -
  obtain c where c: "c \<in> set (pre @ r # suf)" "e_kind c = callEntry" "e_id c = e_id r" using w by (auto simp: wf_entries_def)
  have "c \<notin> set suf"
  proof
    assume "c \<in> set suf"
    moreover have "answered suf" using w answered_append[of "pre @ [r]" suf] by (simp add: wf_entries_def)
    ultimately obtain r' where "r' \<in> set suf" "e_kind r' = returnEntry" "e_id r' = e_id r" using answered_in c by metis
    then show False using w r by (auto simp: wf_entries_def image_iff)
  qed
  then show ?thesis using c r by auto
qed

lemma seen_update:
  assumes w: "wf_entries (pre @ e # suf)" and s: "seen descOp es (set pre) (history, cv, rv)"
    and sh: "shows_entry descOp es (history[nat (e_id e) := he]) e"
    and other: "\<And>f. f \<in> set pre \<Longrightarrow> e_id f = e_id e \<Longrightarrow> e_kind f \<noteq> e_kind e \<Longrightarrow> shows_entry descOp es (history[nat (e_id e) := he]) f"
    and m: "cv' = (if e_kind e = callEntry then cv(e_id e \<mapsto> e_value e) else cv)" "rv' = (if e_kind e = callEntry then rv else rv(e_id e \<mapsto> e_value e))"
  shows "seen descOp es (set (pre @ [e])) (history[nat (e_id e) := he], cv', rv')"
proof -
  define Q where "Q f \<longleftrightarrow> shows_entry descOp es (history[nat (e_id e) := he]) f \<and> (if e_kind f = callEntry then cv' else rv') (e_id f) = Some (e_value f)" for f
  have "Q f" if f: "f \<in> set pre" for f
  proof (cases "e_id f = e_id e")
    case True
    have k: "e_kind f \<noteq> e_kind e" using w f True by (auto simp: wf_entries_def)
    then show ?thesis using other[OF f True] s f m by (auto simp: seen_def Q_def)
  next
    case False
    have "0 \<le> e_id f" "0 \<le> e_id e" using w f by (auto simp: wf_entries_def)
    then have "nat (e_id f) \<noteq> nat (e_id e)" using False by simp
    then show ?thesis using s f False m by (auto simp: seen_def shows_entry_def Q_def)
  qed
  moreover have "Q e" using sh m by (simp add: Q_def)
  moreover have "length (history[nat (e_id e) := he]) = length es div 2" using s by (simp add: seen_def)
  ultimately show ?thesis unfolding seen_def prod.case Q_def[symmetric] by auto
qed

lemma vis_entry_sees:
  assumes w: "wf_entries es" and d: "describes descOp es" and es: "es = pre @ e # suf" and s: "seen descOp es (set pre) st"
  shows "\<exists>st'. vis_entry descOp nil e st = Inr st' \<and> seen descOp es (set (pre @ [e])) st'"
proof -
  obtain history cv rv where st: "st = (history, cv, rv)" by (cases st)
  let ?i = "e_id e"
  have i: "0 \<le> ?i" "nat ?i < length history" using w s by (auto simp: es wf_entries_def seen_def st)
  then have ix: "go_index history ?i = Inr (history ! nat ?i)" "go_set history ?i he = Inr (history[nat ?i := he])" for he
    by (auto simp: go_index_def go_set_def go_len_def)
  note up = seen_update[OF w[unfolded es] s[unfolded st]]
  have old: "shows_entry descOp es history f" if "f \<in> set pre" for f using s that by (auto simp: seen_def st)
  show ?thesis
  proof (cases "e_kind e = callEntry")
    case True
    let ?he = "(history ! nat ?i)\<lparr>he_ClientId := e_clientId e, he_Start := e_time e\<rparr>"
    have "shows_entry descOp es (history[nat ?i := ?he]) f" if "f \<in> set pre" "e_id f = ?i" "e_kind f \<noteq> e_kind e" for f
      using old[OF that(1)] that True i by (auto simp: shows_entry_def Let_def)
    then have "seen descOp es (set (pre @ [e])) (history[nat ?i := ?he], cv(?i \<mapsto> e_value e), rv)"
      by (intro up) (use True i in \<open>auto simp: shows_entry_def Let_def\<close>)
    then show ?thesis using True by (auto simp: st vis_entry_def ix)
  next
    case False
    then have k: "e_kind e = returnEntry" by auto
    obtain c where c: "c \<in> set pre" "e_kind c = callEntry" "e_id c = ?i" using call_before_return[OF w[unfolded es] k] by blast
    have cv: "cv ?i = Some (e_value c)" using s c by (auto simp: seen_def st)
    have "e \<in> set es" "c \<in> set es" using c(1) by (auto simp: es)
    then obtain t where t: "descOp (e_value c) (e_value e) = Inr t" using d c k unfolding describes_def by metis
    have va: "value_at es callEntry ?i = e_value c" using value_at_entry[OF w \<open>c \<in> set es\<close>] c by simp
    let ?he = "(history ! nat ?i)\<lparr>he_End := e_time e, he_Description := t\<rparr>"
    have "shows_entry descOp es (history[nat ?i := ?he]) f" if "f \<in> set pre" "e_id f = ?i" "e_kind f \<noteq> e_kind e" for f
      using old[OF that(1)] that k i by (auto simp: shows_entry_def Let_def)
    then have "seen descOp es (set (pre @ [e])) (history[nat ?i := ?he], cv, rv(?i \<mapsto> e_value e))"
      by (intro up) (use k i t va in \<open>auto simp: shows_entry_def Let_def\<close>)
    then show ?thesis using k t cv by (auto simp: st vis_entry_def ix at_key_def)
  qed
qed

lemma vis_entries_see:
  assumes w: "wf_entries es" and d: "describes descOp es"
  shows "es = pre @ suf \<Longrightarrow> seen descOp es (set pre) st \<Longrightarrow> \<exists>st'. go_each (vis_entry descOp nil) suf st = Inr st' \<and> seen descOp es (set es) st'"
proof (induction suf arbitrary: pre st)
  case (Cons e suf)
  obtain st1 where "vis_entry descOp nil e st = Inr st1" "seen descOp es (set (pre @ [e])) st1"
    using vis_entry_sees[OF w d Cons.prems] by blast
  then show ?case using Cons.IH[of "pre @ [e]" st1] Cons.prems(1) by simp
qed auto


section \<open>The partial linearizations shown\<close>

fun run_states :: "('v, 's) Model \<Rightarrow> 'v entry list \<Rightarrow> 's \<Rightarrow> int list \<Rightarrow> 's list" where
  "run_states M es s [] = []"
| "run_states M es s (i # is) =
     (let s' = snd (projr (Step M s (value_at es callEntry i) (value_at es returnEntry i))) in s' # run_states M es s' is)"

text \<open>A sequence of steps shows the run of the model along \<open>ids\<close>.\<close>

definition shows_run :: "('v, 's) Model \<Rightarrow> ('s \<Rightarrow> string go) \<Rightarrow> 'v entry list \<Rightarrow> 's \<Rightarrow> int list \<Rightarrow> linearizationStep list \<Rightarrow> bool" where
  "shows_run M descState es s ids steps \<longleftrightarrow>
     map ls_Index steps = ids \<and> map (\<lambda>x. Inr (ls_StateDescription x)) steps = map descState (run_states M es s ids)"

lemma vis_steps_run:
  assumes D: "\<forall>s. \<exists>d. descState s = Inr d"
  shows "legal M es s ids \<Longrightarrow> \<forall>i\<in>set ids. cv i = Some (value_at es callEntry i) \<and> rv i = Some (value_at es returnEntry i) \<Longrightarrow>
     \<exists>s' steps. go_each (vis_step M descState (nil, cv, rv) n len) ids (s, sofar, ls, li) =
         Inr (s', sofar @ steps, (\<lambda>h. if h \<in> set ids \<and> at_key 0 ls h < len then Some len else ls h),
              (\<lambda>h. if h \<in> set ids \<and> at_key 0 ls h < len then Some n else li h)) \<and> shows_run M descState es s ids steps"
proof (induction ids arbitrary: s sofar ls li)
  case (Cons i ids)
  obtain s1 where s1: "Step M s (value_at es callEntry i) (value_at es returnEntry i) = Inr (True, s1)" "legal M es s1 ids"
    using Cons.prems(1) by (auto split: sum.splits prod.splits bool.splits)
  obtain d where d: "descState s1 = Inr d" using D by blast
  let ?st = "\<lparr>ls_Index = i, ls_StateDescription = d\<rparr>"
  let ?ls = "if at_key 0 ls i < len then ls(i \<mapsto> len) else ls" and ?li = "if at_key 0 ls i < len then li(i \<mapsto> n) else li"
  have step: "vis_step M descState (nil, cv, rv) n len i (s, sofar, ls, li) = Inr (s1, sofar @ [?st], ?ls, ?li)"
    using s1(1) d Cons.prems(2) by (simp add: vis_step_def at_key_def)
  obtain s' steps where IH: "go_each (vis_step M descState (nil, cv, rv) n len) ids (s1, sofar @ [?st], ?ls, ?li) =
      Inr (s', (sofar @ [?st]) @ steps, (\<lambda>h. if h \<in> set ids \<and> at_key 0 ?ls h < len then Some len else ?ls h),
           (\<lambda>h. if h \<in> set ids \<and> at_key 0 ?ls h < len then Some n else ?li h))" "shows_run M descState es s1 ids steps"
    using Cons.IH[OF s1(2), of "sofar @ [?st]" ?ls ?li] Cons.prems(2) by auto
  have "(\<lambda>h. if h \<in> set ids \<and> at_key 0 ?ls h < len then Some len else ?ls h) = (\<lambda>h. if h \<in> set (i # ids) \<and> at_key 0 ls h < len then Some len else ls h)"
    "(\<lambda>h. if h \<in> set ids \<and> at_key 0 ?ls h < len then Some n else ?li h) = (\<lambda>h. if h \<in> set (i # ids) \<and> at_key 0 ls h < len then Some n else li h)"
    by (auto simp: fun_eq_iff at_key_def)
  moreover have "shows_run M descState es s (i # ids) (?st # steps)" using IH(2) s1(1) d by (simp add: shows_run_def)
  ultimately show ?case using step IH(1) by (intro exI[of _ s'] exI[of _ "?st # steps"]) simp
qed (simp add: shows_run_def)

text \<open>\<open>largestIndex\<close> leads from an operation to a longest of the sequences that contain it.\<close>

definition leads_to_largest :: "int list list \<Rightarrow> (int \<rightharpoonup> nat) \<Rightarrow> bool" where
  "leads_to_largest ps li \<longleftrightarrow> (\<forall>h. case li h of
     None \<Rightarrow> \<forall>p\<in>set ps. h \<notin> set p
   | Some l \<Rightarrow> l < length ps \<and> h \<in> set (ps ! l) \<and> (\<forall>p\<in>set ps. h \<in> set p \<longrightarrow> length p \<le> length (ps ! l)))"

definition sizes_ok :: "int list list \<Rightarrow> (int \<rightharpoonup> nat) \<Rightarrow> (int \<rightharpoonup> nat) \<Rightarrow> bool" where
  "sizes_ok ps ls li \<longleftrightarrow> (\<forall>h. ls h = map_option (\<lambda>l. length (ps ! l)) (li h))"

lemma largest_snoc:
  assumes "leads_to_largest ps li" and "sizes_ok ps ls li"
    and ls': "ls' = (\<lambda>h. if h \<in> set p \<and> at_key 0 ls h < length p then Some (length p) else ls h)"
    and li': "li' = (\<lambda>h. if h \<in> set p \<and> at_key 0 ls h < length p then Some (length ps) else li h)"
  shows "leads_to_largest (ps @ [p]) li' \<and> sizes_ok (ps @ [p]) ls' li'"
proof (intro conjI)
  have ls: "ls h = map_option (\<lambda>l. length (ps ! l)) (li h)" for h using assms(2) by (simp add: sizes_ok_def)
  have li: "case li h of None \<Rightarrow> \<forall>p\<in>set ps. h \<notin> set p
     | Some l \<Rightarrow> l < length ps \<and> h \<in> set (ps ! l) \<and> (\<forall>p\<in>set ps. h \<in> set p \<longrightarrow> length p \<le> length (ps ! l))" for h
    using assms(1) by (simp add: leads_to_largest_def)
  have ne: "h \<in> set p \<Longrightarrow> 0 < length p" for h by (cases p) auto
  show "sizes_ok (ps @ [p]) ls' li'"
    unfolding sizes_ok_def
  proof
    fix h
    show "ls' h = map_option (\<lambda>l. length ((ps @ [p]) ! l)) (li' h)" using li[of h] ls[of h] by (cases "li h") (auto simp: ls' li' nth_append)
  qed
  show "leads_to_largest (ps @ [p]) li'"
    unfolding leads_to_largest_def
  proof
    fix h
    show "case li' h of None \<Rightarrow> \<forall>q\<in>set (ps @ [p]). h \<notin> set q
       | Some l \<Rightarrow> l < length (ps @ [p]) \<and> h \<in> set ((ps @ [p]) ! l) \<and> (\<forall>q\<in>set (ps @ [p]). h \<in> set q \<longrightarrow> length q \<le> length ((ps @ [p]) ! l))"
      using li[of h] ls[of h] ne[of h] by (cases "li h") (auto simp: li' at_key_def nth_append not_less intro: order_trans less_imp_le)
  qed
qed

lemma vis_partials_run:
  assumes D: "\<forall>s. \<exists>d. descState s = Inr d"
    and L: "\<forall>ids\<in>set ps. legal M es (Init M) ids \<and> (\<forall>i\<in>set ids. cv i = Some (value_at es callEntry i) \<and> rv i = Some (value_at es returnEntry i))"
  shows "ps = pre @ qs \<Longrightarrow> leads_to_largest pre li \<Longrightarrow> sizes_ok pre ls li \<Longrightarrow>
     list_all2 (shows_run M descState es (Init M)) pre lins \<Longrightarrow>
     \<exists>lins' ls' li'. go_each (vis_partial M descState (nil, cv, rv)) (zip [length pre..<length ps] qs) (lins, ls, li) = Inr (lins', ls', li') \<and>
       leads_to_largest ps li' \<and> list_all2 (shows_run M descState es (Init M)) ps lins'"
proof (induction qs arbitrary: pre lins ls li)
  case (Cons p qs)
  have lt: "length pre < length ps" using Cons.prems(1) by simp
  let ?ls = "\<lambda>h. if h \<in> set p \<and> at_key 0 ls h < length p then Some (length p) else ls h"
  let ?li = "\<lambda>h. if h \<in> set p \<and> at_key 0 ls h < length p then Some (length pre) else li h"
  have p: "legal M es (Init M) p" "\<forall>i\<in>set p. cv i = Some (value_at es callEntry i) \<and> rv i = Some (value_at es returnEntry i)"
    using L Cons.prems(1) by auto
  obtain steps where st: "vis_partial M descState (nil, cv, rv) (length pre, p) (lins, ls, li) = Inr (lins @ [steps], ?ls, ?li)"
    "shows_run M descState es (Init M) p steps"
    using vis_steps_run[OF D p, where n = "length pre" and sofar = "[]" and ls = ls and li = li and nil = nil and len = "length p"] by (auto simp: vis_partial_def)
  have lg: "leads_to_largest (pre @ [p]) ?li" "sizes_ok (pre @ [p]) ?ls ?li" using largest_snoc[OF Cons.prems(2,3) refl refl] by simp_all
  have "list_all2 (shows_run M descState es (Init M)) (pre @ [p]) (lins @ [steps])" using Cons.prems(4) st(2) by (simp add: list_all2_appendI)
  moreover have "ps = (pre @ [p]) @ qs" using Cons.prems(1) by simp
  moreover have z: "zip [length pre..<length ps] (p # qs) = (length pre, p) # zip [length (pre @ [p])..<length ps] qs"
    unfolding upt_conv_Cons[OF lt] by simp
  ultimately show ?case using Cons.IH[of "pre @ [p]", OF _ lg] unfolding z by (simp add: st(1))
qed auto


section \<open>The page\<close>

text \<open>What the library's sort does.\<close>

definition sorts_by_length :: "(int list list \<Rightarrow> int list list) \<Rightarrow> bool" where
  "sorts_by_length srt \<longleftrightarrow> (\<forall>ps. mset (srt ps) = mset ps \<and> sorted_wrt (\<lambda>p q. length p \<ge> length q) (srt ps))"

text \<open>
  The data of a partition: every operation with its client, its times and its description;
  the partial linearizations, longest first, each with the states of the model along it;
  and for every operation a longest one that contains it.
\<close>

definition shows_partition ::
  "('v, 's) Model \<Rightarrow> ('v \<Rightarrow> 'v \<Rightarrow> string go) \<Rightarrow> ('s \<Rightarrow> string go) \<Rightarrow> 'v entry list \<Rightarrow> int list list \<Rightarrow> partitionVisualizationData \<Rightarrow> bool" where
  "shows_partition M descOp descState es partials d \<longleftrightarrow>
     length (pv_History d) = length es div 2 \<and> (\<forall>e\<in>set es. shows_entry descOp es (pv_History d) e) \<and>
     (\<exists>ps. mset ps = mset partials \<and> sorted_wrt (\<lambda>p q. length p \<ge> length q) ps \<and>
        list_all2 (shows_run M descState es (Init M)) ps (pv_PartialLinearizations d) \<and> leads_to_largest ps (pv_Largest d))"

lemma vis_partition_shows:
  assumes w: "wf_entries es" and d: "describes descOp es" and D: "\<forall>s. \<exists>d. descState s = Inr d" and srt: "sorts_by_length srt"
    and L: "\<forall>ids\<in>set partials. legal M es (Init M) ids \<and> set ids \<subseteq> e_id ` set es"
  shows "\<exists>d. vis_partition srt descOp descState nil M es partials = Inr d \<and> shows_partition M descOp descState es partials d"
proof -
  have "seen descOp es (set []) (replicate (length es div 2) historyElement0, Map.empty, Map.empty)" by (simp add: seen_def)
  from vis_entries_see[OF w d _ this, of es nil] obtain history cv rv where
    h: "go_each (vis_entry descOp nil) es (replicate (length es div 2) historyElement0, Map.empty, Map.empty) = Inr (history, cv, rv)"
    and s: "seen descOp es (set es) (history, cv, rv)" by auto
  let ?ps = "srt partials"
  have ps: "mset ?ps = mset partials" "sorted_wrt (\<lambda>p q. length p \<ge> length q) ?ps" using srt by (simp_all add: sorts_by_length_def)
  have vals: "cv i = Some (value_at es callEntry i) \<and> rv i = Some (value_at es returnEntry i)" if i: "i \<in> e_id ` set es" for i
  proof -
    obtain c where c: "c \<in> set es" "e_kind c = callEntry" "e_id c = i" using i w by (auto simp: wf_entries_def)
    then obtain r where r: "r \<in> set es" "e_kind r = returnEntry" "e_id r = i" using answered_in[of es c] w by (auto simp: wf_entries_def)
    show ?thesis using s c r value_at_entry[OF w c(1)] value_at_entry[OF w r(1)] by (auto simp: seen_def)
  qed
  then have "\<forall>ids\<in>set ?ps. legal M es (Init M) ids \<and> (\<forall>i\<in>set ids. cv i = Some (value_at es callEntry i) \<and> rv i = Some (value_at es returnEntry i))"
    using L mset_eq_setD[OF ps(1)] by blast
  from vis_partials_run[OF D this, of "[]" ?ps Map.empty Map.empty "[]" nil] obtain lins ls li where
    p: "go_each (vis_partial M descState (nil, cv, rv)) (zip [0..<length ?ps] ?ps) ([], Map.empty, Map.empty) = Inr (lins, ls, li)"
      "leads_to_largest ?ps li" "list_all2 (shows_run M descState es (Init M)) ?ps lins"
    by (auto simp: leads_to_largest_def sizes_ok_def)
  let ?d = "\<lparr>pv_History = history, pv_PartialLinearizations = lins, pv_Largest = li\<rparr>"
  have "shows_partition M descOp descState es partials ?d"
    unfolding shows_partition_def using s p(2,3) ps by (auto simp: seen_def)
  then show ?thesis using h p(1) by (simp add: vis_partition_def)
qed

lemma go_each_collects:
  "\<forall>x\<in>set xs. \<exists>d. g x = Inr d \<and> P x d \<Longrightarrow>
   \<exists>ds. go_each (\<lambda>x data. go_bind (g x) (\<lambda>d. Inr (data @ [d]))) xs acc = Inr (acc @ ds) \<and> list_all2 P xs ds"
proof (induction xs arbitrary: acc)
  case (Cons x xs)
  obtain d where d: "g x = Inr d" "P x d" using Cons.prems by auto
  obtain ds where "go_each (\<lambda>x data. go_bind (g x) (\<lambda>d. Inr (data @ [d]))) xs (acc @ [d]) = Inr ((acc @ [d]) @ ds)" "list_all2 P xs ds"
    using Cons.IH[of "acc @ [d]"] Cons.prems by auto
  then show ?case using d by (intro exI[of _ "d # ds"]) simp
qed simp

lemma go_bind_assoc: "go_bind (go_bind m f) g = go_bind m (\<lambda>x. go_bind (f x) g)"
  by (cases m) auto

lemma fillDefault_legal [simp]: "legal (fillDefault M) es s ids = legal M es s ids"
  by (induction M es s ids rule: legal.induct) (auto split: sum.split prod.split bool.split)

lemma fillDefault_runs [simp]: "run_states (fillDefault M) es s ids = run_states M es s ids"
  by (induction M es s ids rule: run_states.induct) auto

lemma fillDefault_shows [simp]: "shows_partition (fillDefault M) = shows_partition M"
proof -
  have "shows_run (fillDefault M) = shows_run M" by (simp add: shows_run_def fun_eq_iff)
  then show ?thesis by (intro ext) (simp add: shows_partition_def)
qed

lemma makeEntries_describes:
  assumes "sorts_by_time srt" and "times_ok ops" and "\<forall>q\<in>set ops. \<exists>d. descOp (op_Input q) (op_Output q) = Inr d"
  shows "describes descOp (makeEntries srt ops)"
proof -
  have "\<exists>d. descOp (e_value c) (e_value r) = Inr d"
    if cr: "c \<in> set (makeEntries srt ops)" "r \<in> set (makeEntries srt ops)" "e_kind c = callEntry" "e_kind r = returnEntry" "e_id c = e_id r" for c r
  proof -
    obtain i where "i < length ops" "c = call_entry (int i) (ops ! i)" "r = return_entry (int i) (ops ! i)"
      using cr unfolding makeEntries_facts(1)[OF assms(1,2)] by auto
    then show ?thesis using assms(3) by simp
  qed
  then show ?thesis unfolding describes_def by blast
qed


lemma compute_shows:
  assumes c: "checkParallel k arrivals kills (fillDefault M) parts True = Some (Inr (res, info))"
    and w: "\<forall>es\<in>set parts. wf_entries es \<and> describes descOp es" and D: "\<forall>s. \<exists>d. descState s = Inr d" and srt: "sorts_by_length srt"
  shows "\<exists>data. computeVisualizationData srt descOp descState nil M info = Inr data \<and> length data = length parts \<and>
     (\<forall>p<length parts. shows_partition M descOp descState (parts ! p) (li_partialLinearizations info ! p) (data ! p))"
proof -
  have "\<forall>es\<in>set parts. wf_entries es" using w by blast
  note P = checkParallel_partials[OF this c]
  let ?H = "li_history info" and ?L = "li_partialLinearizations info"
  define g where "g p = go_bind (go_index ?H (int p)) (\<lambda>entries. go_bind (go_index ?L (int p)) (\<lambda>partials.
      vis_partition srt descOp descState nil (fillDefault M) entries partials))" for p
  have "\<exists>d. g p = Inr d \<and> shows_partition M descOp descState (parts ! p) (?L ! p) d" if "p \<in> set [0..<length parts]" for p
  proof -
    have p: "p < length parts" using that by simp
    then have "wf_entries (parts ! p)" "describes descOp (parts ! p)" using w by auto
    from vis_partition_shows[OF this D srt, of "?L ! p" "fillDefault M" nil] P p show ?thesis
      by (simp add: g_def go_index_def go_len_def)
  qed
  then have "\<forall>p\<in>set [0..<length parts]. \<exists>d. g p = Inr d \<and> shows_partition M descOp descState (parts ! p) (?L ! p) d" by blast
  from go_each_collects[OF this, where acc = "[]"] obtain data where
    d: "go_each (\<lambda>x data. go_bind (g x) (\<lambda>d. Inr (data @ [d]))) [0..<length parts] [] = Inr data"
      "list_all2 (\<lambda>p. shows_partition M descOp descState (parts ! p) (?L ! p)) [0..<length parts] data" by auto
  have "computeVisualizationData srt descOp descState nil M info = Inr data"
    using d(1) P unfolding computeVisualizationData_def Let_def g_def go_bind_assoc by simp
  moreover have "length data = length parts" using list_all2_lengthD[OF d(2)] by simp
  moreover have "\<forall>p<length parts. shows_partition M descOp descState (parts ! p) (?L ! p) (data ! p)"
    using list_all2_nthD[OF d(2)] by simp
  ultimately show ?thesis by blast
qed

text \<open>
  C32. Whatever \<open>CheckOperationsVerbose\<close> answers, and whenever the timeout stops it,
  \<open>computeVisualizationData\<close> does not panic on the information it returns: every partial
  linearization is accepted by the model step by step. The page then shows, for every
  partition, each operation with its client, times and description, the partial
  linearizations from the longest with the states along them, and for each operation a
  longest one that contains it.
\<close>

theorem visualization_shows_check:
  assumes c: "CheckOperationsVerbose k arrivals kills sort_Sort M history = Some (Inr (res, info))"
    and srt: "sorts_by_time sort_Sort" "sorts_by_length sort_Slice" and parts: "the (Partition (fillDefault M)) history = Inr parts"
    and ops: "\<forall>p\<in>set parts. times_ok p \<and> (\<forall>q\<in>set p. \<exists>d. descOp (op_Input q) (op_Output q) = Inr d)"
    and D: "\<forall>s. \<exists>d. descState s = Inr d"
  shows "\<exists>data. computeVisualizationData sort_Slice descOp descState nil M info = Inr data \<and> length data = length parts \<and>
     (\<forall>p<length parts. shows_partition M descOp descState (makeEntries sort_Sort (parts ! p)) (li_partialLinearizations info ! p) (data ! p))"
proof -
  let ?es = "map (makeEntries sort_Sort) parts"
  have "checkParallel k arrivals kills (fillDefault M) ?es True = Some (Inr (res, info))"
    using c parts by (simp add: CheckOperationsVerbose_def checkOperations_def Let_def)
  moreover have "\<forall>es\<in>set ?es. wf_entries es \<and> describes descOp es"
    using ops makeEntries_wf[OF srt(1)] makeEntries_describes[OF srt(1), of _ descOp] by auto
  ultimately have "\<exists>data. computeVisualizationData sort_Slice descOp descState nil M info = Inr data \<and> length data = length ?es \<and>
     (\<forall>p<length ?es. shows_partition M descOp descState (?es ! p) (li_partialLinearizations info ! p) (data ! p))"
    by (rule compute_shows[OF _ _ D srt(2)])
  then show ?thesis by simp
qed

lemma sort_by_length: "sorts_by_length (sort_key (\<lambda>p. - int (length p)))"
proof -
  have "sorted_wrt (\<lambda>p q. length p \<ge> length q) xs" if "sorted (map (\<lambda>p. - int (length p)) xs)" for xs :: "int list list"
    using that by (induction xs) auto
  then show ?thesis by (simp add: sorts_by_length_def)
qed

theorem visualization_shows_check_witness:
  "\<exists>k res info data. CheckOperationsVerbose k [Some 0] (\<lambda>_ _. False) (sort_key e_time) (KvModel\<lparr>Partition := None\<rparr>) sample_history = Some (Inr (res, info)) \<and>
     computeVisualizationData (sort_key (\<lambda>p. - int (length p))) kv_DescribeOperation Inr (InVal \<lparr>kvi_Op = 0, kvi_Key = '''', kvi_Value = ''''\<rparr>)
       (KvModel\<lparr>Partition := None\<rparr>) info = Inr data \<and> length data = 1 \<and>
     shows_partition (KvModel\<lparr>Partition := None\<rparr>) kv_DescribeOperation Inr (makeEntries (sort_key e_time) sample_history)
       (li_partialLinearizations info ! 0) (data ! 0)"
proof -
  let ?M = "KvModel\<lparr>Partition := None\<rparr>"
  have part: "the (Partition (fillDefault ?M)) sample_history = Inr [sample_history]" by (simp add: NoPartition_def)
  have "\<forall>es\<in>set [makeEntries (sort_key e_time) sample_history]. wf_entries es \<and> accepts_values (fillDefault ?M) es"
    using makeEntries_wf[OF sort_by_time sample_times] kv_accepts[OF sort_by_time sample_times sample_kv] by (simp add: accepts_values_def KvModel_def)
  from runs_decide[OF this, of True] equal_sound_default[of ?M] obtain k b l where
    "checkSingle k (\<lambda>_. False) (fillDefault ?M) (makeEntries (sort_key e_time) sample_history) True = Some (Inr (b, l))"
    by (auto simp: KvModel_def)
  then obtain res info where
    "checkParallel k [Some 0] (\<lambda>_ _. False) (fillDefault ?M) [makeEntries (sort_key e_time) sample_history] True = Some (Inr (res, info))"
    by (simp add: checkParallel_def Let_def)
  then have c: "CheckOperationsVerbose k [Some 0] (\<lambda>_ _. False) (sort_key e_time) ?M sample_history = Some (Inr (res, info))"
    using part by (simp add: CheckOperationsVerbose_def checkOperations_def Let_def)
  have "\<forall>p\<in>set [sample_history]. times_ok p \<and> (\<forall>q\<in>set p. \<exists>d. kv_DescribeOperation (op_Input q) (op_Output q) = Inr d)"
    using sample_times by (simp add: kv_DescribeOperation_def sample_put_def sample_get_def)
  from visualization_shows_check[OF c sort_by_time sort_by_length part this, of Inr "InVal \<lparr>kvi_Op = 0, kvi_Key = '''', kvi_Value = ''''\<rparr>"] c
  show ?thesis by auto
qed

end
