(* ===== verification/Labrpc_Theorems.thy ===== *)
theory Labrpc_Theorems
  imports Labrpc
begin

text \<open>
  The properties of the simulated network. The sample run of the witnesses has one client
  end, one server with an echo service, and a tester that removes the server while a call
  is waiting for it.
\<close>

section \<open>Sample run\<close>

definition sample_codec :: "(string, string) codec" where
  "sample_codec = \<lparr>encode_args = id, decode_args = id, encode_reply = id, decode_reply = (\<lambda>s _. Some s)\<rparr>"

definition sample_method :: "(int, string, string) Method" where
  "sample_method = \<lparr>m_name = ''Echo'', m_exported = True, m_numIn = 3, m_replyPtr = True, m_numOut = 0, m_func = (\<lambda>n a. (n + 1, a))\<rparr>"

definition sample_server :: "(int, string, string) Server" where
  "sample_server = AddService (MakeService ''Svc'' 0 [sample_method]) MakeServer"

definition sample_net :: "(string, string, int, string, string) Network" where
  "sample_net = Enable ''e'' True (Connect ''e'' ''s'' (AddServer ''s'' 0
     (MakeNetwork\<lparr>n_ends := {''e''}, n_enabled := (\<lambda>_. False)(''e'' := False), n_connections := (\<lambda>_. None)(''e'' := None),
        n_srv := (\<lambda>_. MakeServer)(0 := sample_server)\<rparr>)))"

definition sample_call :: "(string, string) call" where
  "sample_call = new_call (Call_request sample_codec ''e'' ''Svc.Echo'' ''hi'')"

definition waiting_sys :: "(string, string, int, string, string) rpc_sys" where
  "waiting_sys =
     (let (c, rn) = net_receive sample_call sample_net
      in \<lparr>y_net = DeleteServer ''s'' rn, y_calls = [proc_start False (proc_lookup rn c)]\<rparr>)"

lemma sample_net_reach: "nreach sample_codec \<lparr>y_net = sample_net, y_calls = []\<rparr>"
proof -
  let ?n1 = "MakeNetwork\<lparr>n_ends := {''e''}, n_enabled := (\<lambda>_. False)(''e'' := False), n_connections := (\<lambda>_. None)(''e'' := None)\<rparr>
    :: (string, string, int, string, string) Network"
  have "MakeEnd ''e'' MakeNetwork = Inr ?n1" by (simp add: MakeEnd_def MakeNetwork_def)
  from nreach.more[OF nreach.init nstep.tester, OF admin.intros(4)[of "''e''"]] this
  have "nreach sample_codec \<lparr>y_net = ?n1, y_calls = []\<rparr>" by simp
  from nreach.more[OF this nstep.tester, OF admin.intros(10)[of _ 0 _ sample_server]]
  have "nreach sample_codec \<lparr>y_net = ?n1\<lparr>n_srv := (\<lambda>_. MakeServer)(0 := sample_server)\<rparr>, y_calls = []\<rparr>"
    by (simp add: MakeNetwork_def)
  from nreach.more[OF this nstep.tester, OF admin.intros(5)[of _ 0 _ "''s''"]]
  have "nreach sample_codec \<lparr>y_net = AddServer ''s'' 0 (?n1\<lparr>n_srv := (\<lambda>_. MakeServer)(0 := sample_server)\<rparr>), y_calls = []\<rparr>" by simp
  from nreach.more[OF this nstep.tester, OF admin.intros(7)[of _ _ "''e''" "''s''"]]
  have "nreach sample_codec \<lparr>y_net = Connect ''e'' ''s'' (AddServer ''s'' 0 (?n1\<lparr>n_srv := (\<lambda>_. MakeServer)(0 := sample_server)\<rparr>)), y_calls = []\<rparr>" by simp
  from nreach.more[OF this nstep.tester, OF admin.intros(8)[of _ _ "''e''" True]]
  show ?thesis by (simp add: sample_net_def)
qed

lemma nreach_step:
  "nreach cd \<lparr>y_net = rn, y_calls = [c]\<rparr> \<Longrightarrow> call_step cd c rn c' rn' \<Longrightarrow> nreach cd \<lparr>y_net = rn', y_calls = [c']\<rparr>"
  using nreach.more[of cd "\<lparr>y_net = rn, y_calls = [c]\<rparr>"] nstep.step[of 0 "\<lparr>y_net = rn, y_calls = [c]\<rparr>" cd c' rn'] by force

lemma nsteps_step:
  "nsteps cd ok y \<lparr>y_net = rn, y_calls = [c]\<rparr> \<Longrightarrow> call_step cd c rn c' rn' \<Longrightarrow> nsteps cd ok y \<lparr>y_net = rn', y_calls = [c']\<rparr>"
  using nsteps.go[of cd ok y "\<lparr>y_net = rn, y_calls = [c]\<rparr>"] nstep.step[of 0 "\<lparr>y_net = rn, y_calls = [c]\<rparr>" cd c' rn'] by force

lemma waiting_reach: "nreach sample_codec waiting_sys"
proof -
  obtain c rn where cr: "net_receive sample_call sample_net = (c, rn)" by fastforce
  have "nreach sample_codec \<lparr>y_net = sample_net, y_calls = [sample_call]\<rparr>"
    using nreach.more[OF sample_net_reach nstep.call[of _ _ _ "''e''" "''Svc.Echo''" "''hi''"]] by (simp add: sample_call_def)
  from nreach_step[OF this call_step.receive[OF _ cr]]
  have "nreach sample_codec \<lparr>y_net = rn, y_calls = [c]\<rparr>" by (simp add: sample_call_def new_call_def)
  moreover have "c_phase c = Taken" using cr by (auto simp: net_receive_def)
  ultimately have "nreach sample_codec \<lparr>y_net = rn, y_calls = [proc_start False (proc_lookup rn c)]\<rparr>"
    by (blast intro: nreach_step call_step.lookup call_step.start)
  from nreach.more[OF this nstep.tester, OF admin.intros(6)[of _ _ "''s''"]]
  show ?thesis using cr by (simp add: waiting_sys_def)
qed

lemmas sample_defs = waiting_sys_def sample_net_def sample_call_def new_call_def Call_request_def sample_codec_def net_receive_def
  MakeNetwork_def AddServer_def Connect_def Enable_def DeleteServer_def proc_lookup_def readEndnameInfo_def proc_start_def

lemma waiting_shape:
  "y_calls waiting_sys =
     [\<lparr>c_req = c_req sample_call, c_phase = Waiting ''s'' 0 True False, c_running = Some 0, c_ech = None, c_execs = []\<rparr>]"
  "removed 0 (y_net waiting_sys)" "n_srv (y_net waiting_sys) 0 = sample_server"
  by (simp_all add: sample_defs removed_def Let_def)

section \<open>The contract of a call\<close>

text \<open>
  C34. An RPC is executed at most once, whatever the network loses, delays and reorders and
  whatever the tester does to it; and when \<open>Call\<close> gets a reply, the handler was executed,
  exactly once, and the reply is the one it gave.
\<close>

theorem rpc_at_most_once:
  assumes "nreach cd y" and "c \<in> set (y_calls y)"
  shows "length (c_execs c) \<le> 1 \<and> (\<forall>r. c_phase c = Returned r \<longrightarrow> rp_ok r \<longrightarrow> (\<exists>sv. c_execs c = [(sv, r)]))"
proof -
  have "call_ok c" using nreach_calls_ok[OF assms(1)] assms(2) by blast
  then show ?thesis using call_ok_execs by blast
qed

theorem rpc_at_most_once_witness:
  "nreach sample_codec waiting_sys \<and> length (c_execs (hd (y_calls waiting_sys))) \<le> 1"
proof -
  have "hd (y_calls waiting_sys) \<in> set (y_calls waiting_sys)" by (simp add: waiting_shape)
  from rpc_at_most_once[OF waiting_reach this] show ?thesis using waiting_reach by blast
qed

text \<open>
  C35. A server that has been removed stays silent: once \<open>DeleteServer\<close> has removed it, no
  call that has not got its answer yet will get a reply from it, even if its handler still
  runs, as long as the same server is not registered again. This is what lets the tester
  replace a crashed server's persister.
\<close>

theorem removed_server_silent:
  assumes "nreach cd y" and "removed sv (y_net y)" and "i < length (y_calls y)"
    and "\<forall>r b. c_phase (y_calls y ! i) \<noteq> Answer r b \<and> c_phase (y_calls y ! i) \<noteq> Returned r"
    and "nsteps cd (\<lambda>rs. rs \<noteq> sv) y y'"
  shows "\<forall>r. c_phase (y_calls y' ! i) = Returned r \<longrightarrow> rp_ok r \<longrightarrow> (\<exists>s. s \<noteq> sv \<and> c_execs (y_calls y' ! i) = [(s, r)])"
proof (intro allI impI)
  fix r assume r: "c_phase (y_calls y' ! i) = Returned r" "rp_ok r"
  have "no_answer_from sv (y_calls y ! i)" using assms(4) by (auto simp: no_answer_from_def split: phase.split)
  then have "silent sv i y" using assms(2,3) nreach_calls_ok[OF assms(1)] by (simp add: silent_def)
  then have s: "silent sv i y'" using nsteps_silent[OF assms(5)] by simp
  then have "call_ok (y_calls y' ! i)" by (simp add: silent_def)
  then obtain s where "c_execs (y_calls y' ! i) = [(s, r)]" using call_ok_execs(2) r by blast
  moreover have "fst ` set (c_execs (y_calls y' ! i)) \<subseteq> - {sv}" using s r by (simp add: silent_def no_answer_from_def)
  ultimately show "\<exists>s. s \<noteq> sv \<and> c_execs (y_calls y' ! i) = [(s, r)]" by auto
qed

theorem removed_server_silent_witness:
  "\<exists>y'. nsteps sample_codec (\<lambda>rs. rs \<noteq> 0) waiting_sys y' \<and> c_execs (y_calls y' ! 0) \<noteq> [] \<and>
     (\<forall>r. c_phase (y_calls y' ! 0) = Returned r \<longrightarrow> rp_ok r \<longrightarrow> (\<exists>s. s \<noteq> 0 \<and> c_execs (y_calls y' ! 0) = [(s, r)]))"
proof -
  let ?c = "hd (y_calls waiting_sys)" and ?rn = "y_net waiting_sys"
  obtain server r where d: "sv_dispatch sample_codec (c_req sample_call) sample_server = Inr (server, r)"
    by (simp add: sv_dispatch_def svc_dispatch_def sample_server_def AddService_def MakeService_def MakeServer_def sample_method_def
        sample_call_def new_call_def Call_request_def sample_codec_def go_prefix_def go_slice_def go_len_def Let_def)
  let ?c' = "?c\<lparr>c_running := None, c_ech := Some r, c_execs := [(0, r)]\<rparr>" and ?rn' = "?rn\<lparr>n_srv := (n_srv ?rn)(0 := server)\<rparr>"
  have "run_handler sample_codec ?c ?rn = Inr (?c', ?rn')"
    using d by (simp add: run_handler_def waiting_shape)
  moreover have w: "waiting_sys = \<lparr>y_net = ?rn, y_calls = [?c]\<rparr>" using waiting_shape(1) by simp
  ultimately have st: "nsteps sample_codec (\<lambda>rs. rs \<noteq> 0) waiting_sys \<lparr>y_net = ?rn', y_calls = [?c']\<rparr>"
    by (metis nsteps.stay nsteps_step call_step.handler)
  have "\<forall>r b. c_phase (y_calls waiting_sys ! 0) \<noteq> Answer r b \<and> c_phase (y_calls waiting_sys ! 0) \<noteq> Returned r" "0 < length (y_calls waiting_sys)"
    by (simp_all add: waiting_shape)
  from removed_server_silent[OF waiting_reach waiting_shape(2) this(2,1) st]
  show ?thesis using st by (intro exI[of _ "\<lparr>y_net = ?rn', y_calls = [?c']\<rparr>"]) simp
qed

lemma last_dot_append: "CHR ''.'' \<notin> set ys \<Longrightarrow> last_dot (xs @ CHR ''.'' # ys) = int (length xs)"
proof -
  assume "CHR ''.'' \<notin> set ys"
  then have "last_dot ys = -1" by (induction ys) (auto simp: Let_def)
  then show ?thesis by (induction xs) (auto simp: Let_def)
qed

text \<open>
  A dispatched call is a call of the method: with an encoding that is decoded again, the
  request for method \<open>m\<close> of service \<open>s\<close> applies that method to the receiver and the
  caller's arguments, once, and the caller's variable then holds the method's result.
\<close>

lemma dispatch_roundtrip:
  assumes "\<forall>a. decode_args cd (encode_args cd a) = a" and "\<forall>r r0. decode_reply cd (encode_reply cd r) r0 = Some r"
    and "sv_services rs svc = Some s" and "svc_methods s meth = Some m" and "CHR ''.'' \<notin> set meth"
  shows "\<exists>rs' rep. sv_dispatch cd (Call_request cd e (svc @ ''.'' @ meth) a) rs = Inr (rs', rep) \<and>
     Call_return cd rep r0 = Inr (True, snd (m_func m (svc_rcvr s) a)) \<and>
     map_option svc_rcvr (sv_services rs' svc) = Some (fst (m_func m (svc_rcvr s) a)) \<and> sv_count rs' = sv_count rs + 1"
proof -
  let ?meth = "svc @ CHR ''.'' # meth"
  have "go_prefix ?meth (int (length svc)) = Inr svc" "go_slice ?meth (int (length svc) + 1) (go_len ?meth) = Inr meth"
    by (simp_all add: go_prefix_def go_slice_def go_len_def nat_add_distrib)
  moreover obtain o' r where f: "m_func m (svc_rcvr s) a = (o', r)" by fastforce
  ultimately have "sv_dispatch cd (Call_request cd e (svc @ ''.'' @ meth) a) rs =
      Inr (rs\<lparr>sv_count := sv_count rs + 1, sv_services := (sv_services rs)(svc \<mapsto> s\<lparr>svc_rcvr := o'\<rparr>)\<rparr>, \<lparr>rp_ok = True, rp_reply = encode_reply cd r\<rparr>)"
    using assms(1,3,4) last_dot_append[OF assms(5), of svc] by (simp add: sv_dispatch_def svc_dispatch_def Call_request_def Let_def)
  moreover have "Call_return cd \<lparr>rp_ok = True, rp_reply = encode_reply cd r\<rparr> r0 = Inr (True, r)"
    using assms(2) by (simp add: Call_return_def)
  ultimately show ?thesis using f by simp
qed

end
