(* ===== verification/Labgob.thy ===== *)
theory Labgob
  imports Prelude
begin

text \<open>
  \<open>src/src/labgob/labgob.go\<close>: the checks the RPC layer makes before it calls \<open>encoding/gob\<close>.
  A \<open>reflect.Type\<close> is a value of the type parameter \<open>'t\<close>, described by a function to
  \<open>tdesc\<close>; types may be recursive, which \<open>checkType\<close> notices by the table of the types it has
  seen, so it gets fuel. \<open>unicode.IsUpper\<close> of a name's first rune is the parameter \<open>up\<close>;
  the same test decides which fields are exported. The package's variables are the record
  \<open>labgob\<close>; \<open>encoding/gob\<close> is a parameter of the encoder and the decoder.
\<close>

section \<open>Types\<close>

datatype 't tdesc =
    StructOf "(string \<times> 't) list"
  | SliceOf 't
  | ArrayOf 't
  | PtrTo 't
  | MapOf 't 't
  | Plain

fun parts :: "'t tdesc \<Rightarrow> 't list" where
  "parts (StructOf fs) = map snd fs"
| "parts (SliceOf t) = [t]"
| "parts (ArrayOf t) = [t]"
| "parts (PtrTo t) = [t]"
| "parts (MapOf el ky) = [el, ky]"
| "parts Plain = []"

datatype 't warning = LowerCase string 't | NonDefault string

record 't labgob =
  lg_errorCount :: int
  lg_checked :: "'t set"
  lg_printed :: "'t warning list"

text \<open>The loop over the fields; \<open>None\<close> when the fuel is used up.\<close>

fun fold_option :: "('a \<Rightarrow> 's \<Rightarrow> 's option) \<Rightarrow> 'a list \<Rightarrow> 's \<Rightarrow> 's option" where
  "fold_option f [] s = Some s"
| "fold_option f (x # xs) s = (case f x s of None \<Rightarrow> None | Some s' \<Rightarrow> fold_option f xs s')"

definition check_name :: "(string \<Rightarrow> bool) \<Rightarrow> 't \<Rightarrow> string \<Rightarrow> 't labgob \<Rightarrow> 't labgob" where
  "check_name up t name st =
     (if up name = False then st\<lparr>lg_printed := lg_printed st @ [LowerCase name t], lg_errorCount := lg_errorCount st + 1\<rparr> else st)"

primrec checkType :: "(string \<Rightarrow> bool) \<Rightarrow> ('t \<Rightarrow> 't tdesc) \<Rightarrow> nat \<Rightarrow> 't \<Rightarrow> 't labgob \<Rightarrow> 't labgob option" where
  "checkType up kind 0 t st = None"
| "checkType up kind (Suc n) t st =
     (if t \<in> lg_checked st then Some st
      else let st = st\<lparr>lg_checked := insert t (lg_checked st)\<rparr> in
       (case kind t of
          StructOf fs \<Rightarrow> fold_option (\<lambda>(name, ft) st. checkType up kind n ft (check_name up t name st)) fs st
        | SliceOf el \<Rightarrow> checkType up kind n el st
        | ArrayOf el \<Rightarrow> checkType up kind n el st
        | PtrTo el \<Rightarrow> checkType up kind n el st
        | MapOf el ky \<Rightarrow> (case checkType up kind n el st of None \<Rightarrow> None | Some st \<Rightarrow> checkType up kind n ky st)
        | Plain \<Rightarrow> Some st))"

section \<open>Values\<close>

text \<open>
  What \<open>checkDefault1\<close> can see of a value. A float is its bit pattern: both zeros equal the
  zero value. A field has its name and whether it is embedded.
\<close>

datatype basic = BoolV bool | IntV int | FloatV "64 word" | StringV string

datatype rvalue =
    StructV "(string \<times> bool \<times> rvalue) list"
  | PtrV "rvalue option"
  | BasicV string basic
  | OtherV

fun is_zero :: "basic \<Rightarrow> bool" where
  "is_zero (BoolV b) = (b = False)"
| "is_zero (IntV i) = (i = 0)"
| "is_zero (FloatV w) = (push_bit 1 w = 0)"
| "is_zero (StringV s) = (s = '''')"

text \<open>
  How \<open>reflect\<close> has reached a value: through exported fields only, through an embedded field
  that is not exported, through another one that is not. The last is inherited by the fields
  of the value; \<open>Interface\<close> panics on the last two.
\<close>

datatype access = Exported | EmbedRO | StickyRO

definition field_access :: "(string \<Rightarrow> bool) \<Rightarrow> access \<Rightarrow> string \<Rightarrow> bool \<Rightarrow> access" where
  "field_access up a name embedded =
     (if a = StickyRO then StickyRO else if up name then Exported else if embedded then EmbedRO else StickyRO)"

definition check_leaf :: "access \<Rightarrow> string \<Rightarrow> basic \<Rightarrow> string \<Rightarrow> 't labgob \<Rightarrow> 't labgob go" where
  "check_leaf a tname b name st =
     (if a \<noteq> Exported then Inl (Fatal ''reflect.Value.Interface: cannot return value obtained from unexported field or method'')
      else if is_zero b = False then
        Inr ((if lg_errorCount st < 1
              then st\<lparr>lg_printed := lg_printed st @ [NonDefault (if name = '''' then tname else name)]\<rparr> else st)
             \<lparr>lg_errorCount := lg_errorCount st + 1\<rparr>)
      else Inr st)"

fun checkDefault1 :: "(string \<Rightarrow> bool) \<Rightarrow> access \<Rightarrow> rvalue \<Rightarrow> int \<Rightarrow> string \<Rightarrow> 't labgob \<Rightarrow> 't labgob go"
  and checkDefault_fields :: "(string \<Rightarrow> bool) \<Rightarrow> access \<Rightarrow> (string \<times> bool \<times> rvalue) list \<Rightarrow> int \<Rightarrow> string \<Rightarrow> 't labgob \<Rightarrow> 't labgob go" where
  "checkDefault1 up a (StructV fs) depth name st = (if depth > 3 then Inr st else checkDefault_fields up a fs depth name st)"
| "checkDefault1 up a (PtrV None) depth name st = Inr st"
| "checkDefault1 up a (PtrV (Some v)) depth name st = (if depth > 3 then Inr st else checkDefault1 up a v (depth + 1) name st)"
| "checkDefault1 up a (BasicV tname b) depth name st = (if depth > 3 then Inr st else check_leaf a tname b name st)"
| "checkDefault1 up a OtherV depth name st = Inr st"
| "checkDefault_fields up a [] depth name st = Inr st"
| "checkDefault_fields up a ((fname, embedded, v) # fs) depth name st =
     go_bind (checkDefault1 up (field_access up a fname embedded) v (depth + 1) (if name \<noteq> '''' then name @ ''.'' @ fname else fname) st)
       (checkDefault_fields up a fs depth name)"

section \<open>The package's functions\<close>

text \<open>An \<open>interface{}\<close>: \<open>nil\<close>, or a value with its type. The result \<open>None\<close> is fuel used up.\<close>

type_synonym 't iface = "('t \<times> rvalue) option"

definition checkValue :: "(string \<Rightarrow> bool) \<Rightarrow> ('t \<Rightarrow> 't tdesc) \<Rightarrow> nat \<Rightarrow> 't iface \<Rightarrow> 't labgob \<Rightarrow> 't labgob go option" where
  "checkValue up kind n e st =
     (case e of None \<Rightarrow> Some (Inl NilDereference) | Some (t, v) \<Rightarrow> map_option Inr (checkType up kind n t st))"

definition checkDefault :: "(string \<Rightarrow> bool) \<Rightarrow> 't iface \<Rightarrow> 't labgob \<Rightarrow> 't labgob go" where
  "checkDefault up e st = (case e of None \<Rightarrow> Inr st | Some (t, v) \<Rightarrow> checkDefault1 up Exported v 1 '''' st)"

definition gob_after :: "'t labgob go option \<Rightarrow> ('t labgob \<Rightarrow> 'x) \<Rightarrow> 'x go option" where
  "gob_after m f = (case m of None \<Rightarrow> None | Some r \<Rightarrow> Some (go_bind r (\<lambda>st. Inr (f st))))"

text \<open>\<open>gobEncode\<close>, \<open>gobDecode\<close> and \<open>gobRegister\<close> are what \<open>encoding/gob\<close> does then.\<close>

definition Encode :: "(string \<Rightarrow> bool) \<Rightarrow> ('t \<Rightarrow> 't tdesc) \<Rightarrow> nat \<Rightarrow> ('t iface \<Rightarrow> 'x) \<Rightarrow> 't iface \<Rightarrow> 't labgob \<Rightarrow> ('t labgob \<times> 'x) go option" where
  "Encode up kind n gobEncode e st = gob_after (checkValue up kind n e st) (\<lambda>st. (st, gobEncode e))"

definition EncodeValue :: "(string \<Rightarrow> bool) \<Rightarrow> ('t \<Rightarrow> 't tdesc) \<Rightarrow> nat \<Rightarrow> ('t \<times> rvalue \<Rightarrow> 'x) \<Rightarrow> 't \<times> rvalue \<Rightarrow> 't labgob \<Rightarrow> ('t labgob \<times> 'x) go option" where
  "EncodeValue up kind n gobEncodeValue val st = gob_after (checkValue up kind n (Some val) st) (\<lambda>st. (st, gobEncodeValue val))"

definition Decode :: "(string \<Rightarrow> bool) \<Rightarrow> ('t \<Rightarrow> 't tdesc) \<Rightarrow> nat \<Rightarrow> ('t iface \<Rightarrow> 'x) \<Rightarrow> 't iface \<Rightarrow> 't labgob \<Rightarrow> ('t labgob \<times> 'x) go option" where
  "Decode up kind n gobDecode e st =
     gob_after (case checkValue up kind n e st of None \<Rightarrow> None | Some r \<Rightarrow> Some (go_bind r (checkDefault up e))) (\<lambda>st. (st, gobDecode e))"

definition Register :: "(string \<Rightarrow> bool) \<Rightarrow> ('t \<Rightarrow> 't tdesc) \<Rightarrow> nat \<Rightarrow> ('t iface \<Rightarrow> 'x) \<Rightarrow> 't iface \<Rightarrow> 't labgob \<Rightarrow> ('t labgob \<times> 'x) go option" where
  "Register up kind n gobRegister value st = gob_after (checkValue up kind n value st) (\<lambda>st. (st, gobRegister value))"

definition RegisterName ::
  "(string \<Rightarrow> bool) \<Rightarrow> ('t \<Rightarrow> 't tdesc) \<Rightarrow> nat \<Rightarrow> (string \<Rightarrow> 't iface \<Rightarrow> 'x) \<Rightarrow> string \<Rightarrow> 't iface \<Rightarrow> 't labgob \<Rightarrow> ('t labgob \<times> 'x) go option" where
  "RegisterName up kind n gobRegisterName name value st = gob_after (checkValue up kind n value st) (\<lambda>st. (st, gobRegisterName name value))"

section \<open>The search through a type\<close>

definition part_rel :: "('t \<Rightarrow> 't tdesc) \<Rightarrow> ('t \<times> 't) set" where
  "part_rel kind = {(t, u). u \<in> set (parts (kind t))}"

definition components :: "('t \<Rightarrow> 't tdesc) \<Rightarrow> 't \<Rightarrow> 't set" where
  "components kind t = (part_rel kind)\<^sup>* `` {t}"

text \<open>The number of fields of a struct whose names gob will not transmit.\<close>

definition lower_fields :: "(string \<Rightarrow> bool) \<Rightarrow> 't tdesc \<Rightarrow> int" where
  "lower_fields up d = (case d of StructOf fs \<Rightarrow> int (length (filter (\<lambda>(name, _). \<not> up name) fs)) | _ \<Rightarrow> 0)"

definition closed_types :: "('t \<Rightarrow> 't tdesc) \<Rightarrow> 't set \<Rightarrow> bool" where
  "closed_types kind T \<longleftrightarrow> (\<forall>t\<in>T. set (parts (kind t)) \<subseteq> T)"

text \<open>
  What a part of the search does: it checks more types out of \<open>U\<close>, all parts of the ones it
  adds, and counts their lower-case fields and \<open>extra\<close> others.
\<close>

definition searched :: "(string \<Rightarrow> bool) \<Rightarrow> ('t \<Rightarrow> 't tdesc) \<Rightarrow> 't set \<Rightarrow> int \<Rightarrow> 't labgob \<Rightarrow> 't labgob \<Rightarrow> bool" where
  "searched up kind U extra st st' \<longleftrightarrow>
     lg_checked st \<subseteq> lg_checked st' \<and> lg_checked st' \<subseteq> lg_checked st \<union> U \<and>
     (\<forall>t\<in>lg_checked st' - lg_checked st. set (parts (kind t)) \<subseteq> lg_checked st') \<and>
     lg_errorCount st' = lg_errorCount st + extra + (\<Sum>t\<in>lg_checked st' - lg_checked st. lower_fields up (kind t))"

lemma searched_refl: "searched up kind U 0 st st"
  by (simp add: searched_def)

lemma searched_trans:
  assumes "finite U" and "searched up kind U a st st'" and "searched up kind U b st' st''"
  shows "searched up kind U (a + b) st st''"
proof -
  let ?f = "\<lambda>t. lower_fields up (kind t)"
  have "lg_checked st'' - lg_checked st = (lg_checked st' - lg_checked st) \<union> (lg_checked st'' - lg_checked st')"
    "lg_checked st' - lg_checked st \<subseteq> U" "lg_checked st'' - lg_checked st' \<subseteq> U"
    using assms(2,3) by (auto simp: searched_def)
  then have "sum ?f (lg_checked st'' - lg_checked st) = sum ?f (lg_checked st' - lg_checked st) + sum ?f (lg_checked st'' - lg_checked st')"
    using assms(1) by (simp add: sum.union_disjoint finite_subset Diff_Int_distrib)
      (rule sum.union_disjoint, auto intro: finite_subset)
  then show ?thesis using assms(2,3) unfolding searched_def by (auto, blast+)
qed

lemma searched_name:
  "searched up kind U (if up name then 0 else 1) st (check_name up t name st)" "lg_checked (check_name up t name st) = lg_checked st"
  by (simp_all add: searched_def check_name_def)

text \<open>The type itself is marked first; its own fields are counted by the loop that follows.\<close>

lemma searched_mark:
  assumes "finite U" and "t \<in> U" and "t \<notin> lg_checked st"
    and "searched up kind U (lower_fields up (kind t)) (st\<lparr>lg_checked := insert t (lg_checked st)\<rparr>) st'"
    and "set (parts (kind t)) \<subseteq> lg_checked st'"
  shows "searched up kind U 0 st st' \<and> t \<in> lg_checked st'"
proof -
  let ?A = "lg_checked st' - insert t (lg_checked st)"
  have A: "lg_checked st' - lg_checked st = insert t ?A" "t \<notin> ?A" using assms(3,4) by (auto simp: searched_def)
  have "?A \<subseteq> U" using assms(4) by (auto simp: searched_def)
  then have "finite ?A" using assms(1) finite_subset by blast
  then have "(\<Sum>u\<in>lg_checked st' - lg_checked st. lower_fields up (kind u)) = lower_fields up (kind t) + (\<Sum>u\<in>?A. lower_fields up (kind u))"
    unfolding A(1) by (simp only: sum.insert[OF _ A(2)])
  moreover have "\<forall>u\<in>insert t ?A. set (parts (kind u)) \<subseteq> lg_checked st'" using assms(4,5) by (auto simp: searched_def)
  moreover have "insert t (lg_checked st) \<subseteq> lg_checked st'" "lg_checked st' \<subseteq> insert t (lg_checked st) \<union> U"
    using assms(4) by (auto simp: searched_def)
  ultimately show ?thesis using assms(2,4) unfolding searched_def A(1) by auto
qed

lemma fold_fields:
  assumes fin: "finite U" and step: "\<And>u st. u \<in> U \<Longrightarrow> card (U - lg_checked st) < n \<Longrightarrow>
      \<exists>st'. checkType up kind n u st = Some st' \<and> searched up kind U 0 st st' \<and> u \<in> lg_checked st'"
    and "snd ` set fs \<subseteq> U" and "card (U - lg_checked st) < n"
  shows "\<exists>st'. fold_option (\<lambda>(name, ft) st. checkType up kind n ft (check_name up t name st)) fs st = Some st' \<and>
     searched up kind U (lower_fields up (StructOf fs)) st st' \<and> snd ` set fs \<subseteq> lg_checked st'"
  using assms(3,4)
proof (induction fs arbitrary: st)
  case Nil
  then show ?case by (simp add: searched_refl lower_fields_def)
next
  case (Cons f fs)
  obtain name ft where f: "f = (name, ft)" by fastforce
  let ?st = "check_name up t name st"
  have "ft \<in> U" "card (U - lg_checked ?st) < n" using Cons.prems f by (auto simp: searched_name)
  from step[OF this] obtain st1 where st1: "checkType up kind n ft ?st = Some st1" "searched up kind U 0 ?st st1" "ft \<in> lg_checked st1" by blast
  have "lg_checked st \<subseteq> lg_checked st1" using st1(2) by (simp add: searched_def searched_name)
  then have "card (U - lg_checked st1) \<le> card (U - lg_checked st)" using fin by (intro card_mono) auto
  then have "card (U - lg_checked st1) < n" using Cons.prems(2) by simp
  with Cons.IH[of st1] Cons.prems(1) obtain st2 where
    st2: "fold_option (\<lambda>(name, ft) st. checkType up kind n ft (check_name up t name st)) fs st1 = Some st2"
      "searched up kind U (lower_fields up (StructOf fs)) st1 st2" "snd ` set fs \<subseteq> lg_checked st2" by auto
  have "searched up kind U ((if up name then 0 else 1) + 0 + lower_fields up (StructOf fs)) st st2"
    by (rule searched_trans[OF fin searched_trans[OF fin searched_name(1) st1(2)] st2(2)])
  moreover have "lower_fields up (StructOf (f # fs)) = (if up name then 0 else 1) + 0 + lower_fields up (StructOf fs)"
    by (simp add: lower_fields_def f)
  moreover have "ft \<in> lg_checked st2" using st1(3) st2(2) by (auto simp: searched_def)
  ultimately show ?case using st1(1) st2(1,3) f by simp
qed

lemma checkType_searches:
  assumes fin: "finite U" and clos: "closed_types kind U"
  shows "t \<in> U \<Longrightarrow> card (U - lg_checked st) < n \<Longrightarrow>
     \<exists>st'. checkType up kind n t st = Some st' \<and> searched up kind U 0 st st' \<and> t \<in> lg_checked st'"
proof (induction n arbitrary: t st)
  case (Suc n)
  show ?case
  proof (cases "t \<in> lg_checked st")
    case False
    let ?st = "st\<lparr>lg_checked := insert t (lg_checked st)\<rparr>"
    have parts: "set (parts (kind t)) \<subseteq> U" using clos Suc.prems(1) by (simp add: closed_types_def)
    have "card (U - lg_checked ?st) < card (U - lg_checked st)"
      using False Suc.prems(1) fin by (intro psubset_card_mono) auto
    then have less: "card (U - lg_checked ?st) < n" using Suc.prems(2) by simp
    note mark = searched_mark[OF fin Suc.prems(1) False, of up kind]
    have one: "\<exists>st'. checkType up kind n u s = Some st' \<and> searched up kind U 0 s st' \<and> u \<in> lg_checked st'"
      if "u \<in> U" "lg_checked ?st \<subseteq> lg_checked s" for u s
    proof -
      have "card (U - lg_checked s) \<le> card (U - lg_checked ?st)" using that(2) fin by (intro card_mono) auto
      then show ?thesis using Suc.IH[OF that(1)] less by simp
    qed
    show ?thesis
    proof (cases "kind t")
      case (StructOf fs)
      from fold_fields[OF fin Suc.IH _ less, of fs] parts StructOf mark False show ?thesis by (fastforce simp: Let_def)
    next
      case (MapOf el ky)
      then have "el \<in> U" "ky \<in> U" using parts by auto
      then obtain s1 where s1: "checkType up kind n el ?st = Some s1" "searched up kind U 0 ?st s1" "el \<in> lg_checked s1" using one by blast
      then obtain s2 where s2: "checkType up kind n ky s1 = Some s2" "searched up kind U 0 s1 s2" "ky \<in> lg_checked s2"
        using one[OF \<open>ky \<in> U\<close>, of s1] by (auto simp: searched_def)
      moreover have "searched up kind U (lower_fields up (kind t)) ?st s2"
        using searched_trans[OF fin s1(2) s2(2)] MapOf by (simp add: lower_fields_def)
      moreover have "el \<in> lg_checked s2" using s1(3) s2(2) by (auto simp: searched_def)
      ultimately show ?thesis using s1(1) mark False MapOf by (simp add: Let_def)
    next
      case Plain
      then have "searched up kind U (lower_fields up (kind t)) ?st ?st" by (simp add: lower_fields_def searched_refl)
      then show ?thesis using mark False Plain by (simp add: Let_def)
    qed (use one[of _ ?st] parts mark False in \<open>fastforce simp: Let_def lower_fields_def\<close>)+
  qed (simp add: searched_refl)
qed simp


lemma closed_reach: "closed_types kind T \<Longrightarrow> t \<in> T \<Longrightarrow> components kind t \<subseteq> T"
proof
  fix u assume T: "closed_types kind T" "t \<in> T" "u \<in> components kind t"
  then have "(t, u) \<in> (part_rel kind)\<^sup>*" by (simp add: components_def)
  then show "u \<in> T"
    by (induction rule: rtrancl_induct) (use T in \<open>auto simp: part_rel_def closed_types_def\<close>)
qed

lemma components_closed: "closed_types kind (components kind t)" "t \<in> components kind t"
  by (auto simp: closed_types_def components_def part_rel_def intro: rtrancl_into_rtrancl)

text \<open>A whole check, from a table of types that contains all parts of its types.\<close>

lemma checkType_all:
  assumes "finite (components kind t)" and "closed_types kind (lg_checked st)" and "card (components kind t) < n"
  shows "\<exists>st'. checkType up kind n t st = Some st' \<and> lg_checked st' = lg_checked st \<union> components kind t \<and>
     closed_types kind (lg_checked st') \<and>
     lg_errorCount st' = lg_errorCount st + (\<Sum>u\<in>components kind t - lg_checked st. lower_fields up (kind u))"
proof -
  have "card (components kind t - lg_checked st) < n"
    using assms(1,3) card_mono[of "components kind t" "components kind t - lg_checked st"] by auto
  from checkType_searches[OF assms(1) components_closed this]
  obtain st' where st': "checkType up kind n t st = Some st'" "searched up kind (components kind t) 0 st st'" "t \<in> lg_checked st'" by blast
  have cl: "closed_types kind (lg_checked st')" unfolding closed_types_def
  proof
    fix u assume "u \<in> lg_checked st'"
    then show "set (parts (kind u)) \<subseteq> lg_checked st'"
      using assms(2) st'(2) by (cases "u \<in> lg_checked st") (force simp: searched_def closed_types_def)+
  qed
  from closed_reach[OF this st'(3)] have "components kind t \<subseteq> lg_checked st'" .
  then have eq: "lg_checked st' = lg_checked st \<union> components kind t" using st'(2) by (auto simp: searched_def)
  then have "lg_checked st' - lg_checked st = components kind t - lg_checked st" by auto
  then show ?thesis using st' cl eq by (simp add: searched_def)
qed

section \<open>The leaves of a value\<close>

text \<open>The values of basic type \<open>checkDefault1\<close> gets to: how it reached them, and whether they are not the default.\<close>

fun leaves :: "(string \<Rightarrow> bool) \<Rightarrow> access \<Rightarrow> int \<Rightarrow> rvalue \<Rightarrow> (access \<times> bool) list" where
  "leaves up a depth (StructV fs) =
     (if depth > 3 then [] else concat (map (\<lambda>(fname, embedded, v). leaves up (field_access up a fname embedded) (depth + 1) v) fs))"
| "leaves up a depth (PtrV None) = []"
| "leaves up a depth (PtrV (Some v)) = (if depth > 3 then [] else leaves up a (depth + 1) v)"
| "leaves up a depth (BasicV tname b) = (if depth > 3 then [] else [(a, \<not> is_zero b)])"
| "leaves up a depth OtherV = []"

abbreviation readable :: "(access \<times> bool) list \<Rightarrow> bool" where
  "readable ls \<equiv> list_all (\<lambda>l. fst l = Exported) ls"

abbreviation changed_leaves :: "(access \<times> bool) list \<Rightarrow> int" where
  "changed_leaves ls \<equiv> int (length (filter snd ls))"

lemma checkDefault_leaves:
  shows "if readable (leaves up a depth v)
     then \<exists>st'. checkDefault1 up a v depth name st = Inr st' \<and> lg_checked st' = lg_checked st \<and>
       lg_errorCount st' = lg_errorCount st + changed_leaves (leaves up a depth v)
     else \<exists>p. checkDefault1 up a v depth name st = Inl p"
    and "depth \<le> 3 \<Longrightarrow> if readable (leaves up a depth (StructV fs))
     then \<exists>st'. checkDefault_fields up a fs depth name st = Inr st' \<and> lg_checked st' = lg_checked st \<and>
       lg_errorCount st' = lg_errorCount st + changed_leaves (leaves up a depth (StructV fs))
     else \<exists>p. checkDefault_fields up a fs depth name st = Inl p"
proof (induction up a v depth name st and up a fs depth name st rule: checkDefault1_checkDefault_fields.induct)
  case (1 up a fs depth name st)
  then show ?case by (cases "depth > 3") auto
next
  case (4 up a tname b depth name st)
  then show ?case by (auto simp: check_leaf_def)
next
  case (7 up a fname embedded v fs depth name st)
  let ?l = "leaves up (field_access up a fname embedded) (depth + 1) v" and ?ls = "leaves up a depth (StructV fs)"
  have l: "leaves up a depth (StructV ((fname, embedded, v) # fs)) = ?l @ ?ls" using 7(3) by simp
  show ?case
  proof (cases "readable ?l")
    case True
    then obtain st1 where st1: "checkDefault1 up (field_access up a fname embedded) v (depth + 1)
        (if name \<noteq> '''' then name @ ''.'' @ fname else fname) st = Inr st1"
      "lg_checked st1 = lg_checked st" "lg_errorCount st1 = lg_errorCount st + changed_leaves ?l" using 7(1) by auto
    from 7(2)[OF st1(1) 7(3)] have r: "if readable ?ls
     then \<exists>st'. checkDefault_fields up a fs depth name st1 = Inr st' \<and> lg_checked st' = lg_checked st1 \<and>
       lg_errorCount st' = lg_errorCount st1 + changed_leaves ?ls
     else \<exists>p. checkDefault_fields up a fs depth name st1 = Inl p" .
    show ?thesis
    proof (cases "readable ?ls")
      case ls: True
      then have "readable (?l @ ?ls)" using True by (simp only: list_all_append)
      moreover obtain st' where "checkDefault_fields up a fs depth name st1 = Inr st'" "lg_checked st' = lg_checked st1"
        "lg_errorCount st' = lg_errorCount st1 + changed_leaves ?ls" using r ls by (simp only: if_True) blast
      ultimately show ?thesis unfolding l using st1 by (simp only: if_True checkDefault_fields.simps go_bind_simps) simp
    next
      case ls: False
      then have "\<not> readable (?l @ ?ls)" unfolding list_all_append by blast
      then show ?thesis unfolding l using r ls st1(1) by (simp only: if_False checkDefault_fields.simps go_bind_simps) 
    qed
  next
    case False
    then have "\<not> readable (?l @ ?ls)" unfolding list_all_append by blast
    moreover obtain p where "checkDefault1 up (field_access up a fname embedded) v (depth + 1)
        (if name \<noteq> '''' then name @ ''.'' @ fname else fname) st = Inl p" using 7(1) False by (simp only: if_False) blast
    ultimately show ?thesis unfolding l by (simp only: if_False checkDefault_fields.simps go_bind_simps) blast
  qed
qed auto


section \<open>Decoding\<close>

text \<open>
  C39. Decoding checks the type of the variable and its value and returns, for recursive types
  too. It warns once per lower-case field of every type the variable is made of that has not
  been seen before, the table of seen types again contains all parts of its types, and each
  non-default value within reach is counted. But it panics, instead of warning, whenever a
  value of basic type is within reach through a lower-case field.
\<close>

theorem decode_checks:
  assumes "finite (components kind t)" and "closed_types kind (lg_checked st)" and "card (components kind t) < n"
  shows "if readable (leaves up Exported 1 v)
     then \<exists>st'. Decode up kind n gobDecode (Some (t, v)) st = Some (Inr (st', gobDecode (Some (t, v)))) \<and>
       lg_checked st' = lg_checked st \<union> components kind t \<and> closed_types kind (lg_checked st') \<and>
       lg_errorCount st' = lg_errorCount st + (\<Sum>u\<in>components kind t - lg_checked st. lower_fields up (kind u)) +
         changed_leaves (leaves up Exported 1 v)
     else \<exists>p. Decode up kind n gobDecode (Some (t, v)) st = Some (Inl p)"
proof -
  obtain st1 where st1: "checkType up kind n t st = Some st1" "lg_checked st1 = lg_checked st \<union> components kind t"
    "closed_types kind (lg_checked st1)"
    "lg_errorCount st1 = lg_errorCount st + (\<Sum>u\<in>components kind t - lg_checked st. lower_fields up (kind u))"
    using checkType_all[OF assms, of up] by blast
  have d: "Decode up kind n gobDecode (Some (t, v)) st =
    Some (go_bind (checkDefault1 up Exported v 1 '''' st1) (\<lambda>st. Inr (st, gobDecode (Some (t, v)))))"
    using st1(1) by (simp add: Decode_def checkValue_def checkDefault_def gob_after_def)
  show ?thesis unfolding d using st1(2-4) checkDefault_leaves(1)[of up Exported 1 v "''''" st1] by (auto split: if_splits)
qed

text \<open>A pointer to a recursive struct type with the lower-case field \<open>no\<close>.\<close>

definition sample_kind :: "nat \<Rightarrow> nat tdesc" where
  "sample_kind t = (if t = 0 then PtrTo 1 else if t = 1 then StructOf [(''Next'', 0), (''Value'', 2), (''no'', 3)] else Plain)"

definition ascii_upper :: "string \<Rightarrow> bool" where
  "ascii_upper s = (case s of [] \<Rightarrow> False | c # _ \<Rightarrow> c \<in> set ''ABCDEFGHIJKLMNOPQRSTUVWXYZ'')"

lemma sample_components: "components sample_kind 0 = {0, 1, 2, 3}"
proof
  have "closed_types sample_kind {0, 1, 2, 3}" by (simp add: closed_types_def sample_kind_def)
  then show "components sample_kind 0 \<subseteq> {0, 1, 2, 3}" by (rule closed_reach) simp
  have "(0, 1) \<in> part_rel sample_kind" "(1, 2) \<in> part_rel sample_kind" "(1, 3) \<in> part_rel sample_kind"
    by (simp_all add: part_rel_def sample_kind_def)
  then show "{0, 1, 2, 3} \<subseteq> components sample_kind 0" by (auto simp: components_def intro: rtrancl_trans)
qed

theorem decode_checks_witness:
  "\<exists>st'. Decode ascii_upper sample_kind 5 (\<lambda>_. True) (Some (0, PtrV (Some (StructV [(''Next'', False, PtrV None), (''Value'', False, BasicV ''int'' (IntV 7)), (''no'', False, OtherV)]))))
       \<lparr>lg_errorCount = 0, lg_checked = {}, lg_printed = []\<rparr> = Some (Inr (st', True)) \<and> lg_errorCount st' = 2"
proof -
  let ?v = "PtrV (Some (StructV [(''Next'', False, PtrV None), (''Value'', False, BasicV ''int'' (IntV 7)), (''no'', False, OtherV)]))"
  have l: "leaves ascii_upper Exported 1 ?v = [(Exported, True)]" by (simp add: field_access_def ascii_upper_def)
  have s: "(\<Sum>u\<in>components sample_kind 0. lower_fields ascii_upper (sample_kind u)) = 1"
    unfolding sample_components by (simp add: sample_kind_def lower_fields_def ascii_upper_def)
  show ?thesis
    using decode_checks[of sample_kind 0 "\<lparr>lg_errorCount = 0, lg_checked = {}, lg_printed = []\<rparr>" 5 ascii_upper ?v "\<lambda>_. True"] l s
    by (auto simp: sample_components closed_types_def)
qed

end
