(* ===== verification/Shards.thy ===== *)
theory Shards
  imports Raft_Peer
begin

text \<open>
  \<open>src/src/shardmaster\<close> and \<open>src/src/shardkv\<close>: the configuration service and the sharded
  store, whose servers the repository leaves empty, and their clerks, which it does not. The
  answers to RPCs are a function of the number of the call, of the server and of the
  arguments, \<open>None\<close> when \<open>Call\<close> fails; the clerks' endless loops get fuel, and \<open>None\<close> is a
  call that has not returned. Both servers keep nothing but the Raft peer that they start.
\<close>

section \<open>Shard master\<close>

definition NShards :: int where
  "NShards = 10"

record Config =
  cf_Num :: int
  cf_Shards :: "int list"
  cf_Groups :: "int \<rightharpoonup> string list"

record JoinArgs =
  ja_Servers :: "int \<rightharpoonup> string list"

record JoinReply =
  jr_WrongLeader :: bool
  jr_Err :: string

record LeaveArgs =
  la_GIDs :: "int list"

record LeaveReply =
  lr_WrongLeader :: bool
  lr_Err :: string

record MoveArgs =
  ma_Shard :: int
  ma_GID :: int

record MoveReply =
  mr_WrongLeader :: bool
  mr_Err :: string

record QueryArgs =
  qa_Num :: int

record QueryReply =
  qr_WrongLeader :: bool
  qr_Err :: string
  qr_Config :: Config

definition Config0 :: Config where
  "Config0 = \<lparr>cf_Num = 0, cf_Shards = replicate (nat NShards) 0, cf_Groups = Map.empty\<rparr>"

record ShardMaster =
  sm_me :: int
  sm_rf :: "unit Raft"
  sm_configs :: "Config list"

definition sm_Join :: "JoinArgs \<Rightarrow> JoinReply \<Rightarrow> ShardMaster \<Rightarrow> ShardMaster \<times> JoinReply" where
  "sm_Join args reply sm = (sm, reply)"

definition sm_Leave :: "LeaveArgs \<Rightarrow> LeaveReply \<Rightarrow> ShardMaster \<Rightarrow> ShardMaster \<times> LeaveReply" where
  "sm_Leave args reply sm = (sm, reply)"

definition sm_Move :: "MoveArgs \<Rightarrow> MoveReply \<Rightarrow> ShardMaster \<Rightarrow> ShardMaster \<times> MoveReply" where
  "sm_Move args reply sm = (sm, reply)"

definition sm_Query :: "QueryArgs \<Rightarrow> QueryReply \<Rightarrow> ShardMaster \<Rightarrow> ShardMaster \<times> QueryReply" where
  "sm_Query args reply sm = (sm, reply)"

definition sm_Kill :: "ShardMaster \<Rightarrow> ShardMaster" where
  "sm_Kill sm = sm\<lparr>sm_rf := Kill (sm_rf sm)\<rparr>"

definition sm_Raft :: "ShardMaster \<Rightarrow> unit Raft" where
  "sm_Raft sm = sm_rf sm"

definition sm_StartServer :: "nat \<Rightarrow> int \<Rightarrow> unit gob Persister \<Rightarrow> int \<Rightarrow> nat \<Rightarrow> ShardMaster go" where
  "sm_StartServer nservers me persister now rnd =
     go_bind (Make nservers me persister now rnd) (\<lambda>rf. Inr \<lparr>sm_me = me, sm_rf = rf, sm_configs = [Config0]\<rparr>)"

section \<open>Clerk of the shard master\<close>

text \<open>
  One round over the servers: \<open>Some r\<close> is the first reply of a server that is not the wrong
  leader; the second component counts the calls made.
\<close>

fun try_servers :: "(nat \<Rightarrow> 's \<Rightarrow> 'r option) \<Rightarrow> ('r \<Rightarrow> bool) \<Rightarrow> 's list \<Rightarrow> nat \<Rightarrow> 'r option \<times> nat" where
  "try_servers rpc wrong [] c = (None, c)"
| "try_servers rpc wrong (srv # servers) c =
     (case rpc c srv of
        Some reply \<Rightarrow> if wrong reply = False then (Some reply, c + 1) else try_servers rpc wrong servers (c + 1)
      | None \<Rightarrow> try_servers rpc wrong servers (c + 1))"

primrec ask_servers :: "(nat \<Rightarrow> 's \<Rightarrow> 'r option) \<Rightarrow> ('r \<Rightarrow> bool) \<Rightarrow> 's list \<Rightarrow> nat \<Rightarrow> nat \<Rightarrow> ('r \<times> nat) option" where
  "ask_servers rpc wrong servers 0 c = None"
| "ask_servers rpc wrong servers (Suc n) c =
     (case try_servers rpc wrong servers c of
        (Some reply, c) \<Rightarrow> Some (reply, c)
      | (None, c) \<Rightarrow> ask_servers rpc wrong servers n c)"

definition sm_MakeClerk :: "'s list \<Rightarrow> 's list" where
  "sm_MakeClerk servers = servers"

definition Query :: "(nat \<Rightarrow> 's \<Rightarrow> QueryArgs \<Rightarrow> QueryReply option) \<Rightarrow> 's list \<Rightarrow> int \<Rightarrow> nat \<Rightarrow> nat \<Rightarrow> (Config \<times> nat) option" where
  "Query rpc ck num n c =
     map_option (\<lambda>(reply, c). (qr_Config reply, c)) (ask_servers (\<lambda>c srv. rpc c srv \<lparr>qa_Num = num\<rparr>) qr_WrongLeader ck n c)"

definition Join :: "(nat \<Rightarrow> 's \<Rightarrow> JoinArgs \<Rightarrow> JoinReply option) \<Rightarrow> 's list \<Rightarrow> (int \<rightharpoonup> string list) \<Rightarrow> nat \<Rightarrow> nat \<Rightarrow> nat option" where
  "Join rpc ck servers n c = map_option snd (ask_servers (\<lambda>c srv. rpc c srv \<lparr>ja_Servers = servers\<rparr>) jr_WrongLeader ck n c)"

definition Leave :: "(nat \<Rightarrow> 's \<Rightarrow> LeaveArgs \<Rightarrow> LeaveReply option) \<Rightarrow> 's list \<Rightarrow> int list \<Rightarrow> nat \<Rightarrow> nat \<Rightarrow> nat option" where
  "Leave rpc ck gids n c = map_option snd (ask_servers (\<lambda>c srv. rpc c srv \<lparr>la_GIDs = gids\<rparr>) lr_WrongLeader ck n c)"

definition Move :: "(nat \<Rightarrow> 's \<Rightarrow> MoveArgs \<Rightarrow> MoveReply option) \<Rightarrow> 's list \<Rightarrow> int \<Rightarrow> int \<Rightarrow> nat \<Rightarrow> nat \<Rightarrow> nat option" where
  "Move rpc ck shard gid n c = map_option snd (ask_servers (\<lambda>c srv. rpc c srv \<lparr>ma_Shard = shard, ma_GID = gid\<rparr>) mr_WrongLeader ck n c)"

section \<open>Sharded server\<close>

abbreviation (input) skv_OK :: string where "skv_OK \<equiv> ''OK''"
abbreviation (input) skv_ErrNoKey :: string where "skv_ErrNoKey \<equiv> ''ErrNoKey''"
abbreviation (input) skv_ErrWrongGroup :: string where "skv_ErrWrongGroup \<equiv> ''ErrWrongGroup''"

record skv_PutAppendArgs =
  sp_Key :: string
  sp_Value :: string
  sp_Op :: string

record skv_PutAppendReply =
  spr_Err :: string

record skv_GetArgs =
  sg_Key :: string

record skv_GetReply =
  sgr_Err :: string
  sgr_Value :: string

record 's ShardKV =
  sk_me :: int
  sk_rf :: "unit Raft"
  sk_make_end :: "string \<Rightarrow> 's"
  sk_gid :: int
  sk_masters :: "'s list"
  sk_maxraftstate :: int

definition skv_Get :: "skv_GetArgs \<Rightarrow> skv_GetReply \<Rightarrow> 's ShardKV \<Rightarrow> 's ShardKV \<times> skv_GetReply" where
  "skv_Get args reply kv = (kv, reply)"

definition skv_PutAppend :: "skv_PutAppendArgs \<Rightarrow> skv_PutAppendReply \<Rightarrow> 's ShardKV \<Rightarrow> 's ShardKV \<times> skv_PutAppendReply" where
  "skv_PutAppend args reply kv = (kv, reply)"

definition skv_Kill :: "'s ShardKV \<Rightarrow> 's ShardKV" where
  "skv_Kill kv = kv\<lparr>sk_rf := Kill (sk_rf kv)\<rparr>"

definition skv_StartServer ::
  "nat \<Rightarrow> int \<Rightarrow> unit gob Persister \<Rightarrow> int \<Rightarrow> int \<Rightarrow> 's list \<Rightarrow> (string \<Rightarrow> 's) \<Rightarrow> int \<Rightarrow> nat \<Rightarrow> 's ShardKV go" where
  "skv_StartServer nservers me persister maxraftstate gid masters make_end now rnd =
     go_bind (Make nservers me persister now rnd) (\<lambda>rf.
       Inr \<lparr>sk_me = me, sk_rf = rf, sk_make_end = make_end, sk_gid = gid, sk_masters = masters, sk_maxraftstate = maxraftstate\<rparr>)"

section \<open>Clerk of the sharded store\<close>

definition key2shard :: "string \<Rightarrow> int" where
  "key2shard key =
     (let shard = 0;
          shard = (if length key > 0 then of_char (key ! 0) else shard)
      in shard mod NShards)"

record 's skv_Clerk =
  sc_sm :: "'s list"
  sc_config :: Config
  sc_make_end :: "string \<Rightarrow> 's"

definition skv_MakeClerk :: "'s list \<Rightarrow> (string \<Rightarrow> 's) \<Rightarrow> 's skv_Clerk" where
  "skv_MakeClerk masters make_end = \<lparr>sc_sm = sm_MakeClerk masters, sc_config = Config0, sc_make_end = make_end\<rparr>"

text \<open>
  The loop over a group: \<open>Some r\<close> is the reply with which the clerk returns; \<open>again\<close> is the
  test that leaves the loop for a new configuration.
\<close>

fun try_group :: "(nat \<Rightarrow> 's \<Rightarrow> 'r option) \<Rightarrow> ('r \<Rightarrow> bool) \<Rightarrow> ('r \<Rightarrow> bool) \<Rightarrow> 's list \<Rightarrow> nat \<Rightarrow> 'r option \<times> nat" where
  "try_group rpc final again [] c = (None, c)"
| "try_group rpc final again (srv # servers) c =
     (case rpc c srv of
        Some reply \<Rightarrow>
          if final reply then (Some reply, c + 1)
          else if again reply then (None, c + 1)
          else try_group rpc final again servers (c + 1)
      | None \<Rightarrow> try_group rpc final again servers (c + 1))"

definition get_final :: "skv_GetReply \<Rightarrow> bool" where
  "get_final reply \<longleftrightarrow> sgr_Err reply = skv_OK \<or> sgr_Err reply = skv_ErrNoKey"

text \<open>Lines 72-93 and 109-129; the fuel also bounds the rounds of each \<open>Query\<close>.\<close>

primrec clerk_loop ::
  "(nat \<Rightarrow> 's \<Rightarrow> QueryArgs \<Rightarrow> QueryReply option) \<Rightarrow> (nat \<Rightarrow> 's \<Rightarrow> 'r option) \<Rightarrow> ('r \<Rightarrow> bool) \<Rightarrow> ('r \<Rightarrow> bool) \<Rightarrow> string \<Rightarrow>
   nat \<Rightarrow> 's skv_Clerk \<Rightarrow> nat \<Rightarrow> ('s skv_Clerk \<times> 'r \<times> nat) go option" where
  "clerk_loop query rpc final again key 0 ck c = None"
| "clerk_loop query rpc final again key (Suc n) ck c =
     (case go_index (cf_Shards (sc_config ck)) (key2shard key) of
        Inl p \<Rightarrow> Some (Inl p)
      | Inr gid \<Rightarrow>
          (case (case cf_Groups (sc_config ck) gid of
                   Some servers \<Rightarrow> try_group rpc final again (map (sc_make_end ck) servers) c
                 | None \<Rightarrow> (None, c)) of
             (Some reply, c) \<Rightarrow> Some (Inr (ck, reply, c))
           | (None, c) \<Rightarrow>
               (case Query query (sc_sm ck) (-1) n c of
                  None \<Rightarrow> None
                | Some (config, c) \<Rightarrow> clerk_loop query rpc final again key n (ck\<lparr>sc_config := config\<rparr>) c)))"

definition skv_clerk_Get ::
  "(nat \<Rightarrow> 's \<Rightarrow> QueryArgs \<Rightarrow> QueryReply option) \<Rightarrow> (nat \<Rightarrow> 's \<Rightarrow> skv_GetArgs \<Rightarrow> skv_GetReply option) \<Rightarrow>
   's skv_Clerk \<Rightarrow> string \<Rightarrow> nat \<Rightarrow> nat \<Rightarrow> ('s skv_Clerk \<times> string \<times> nat) go option" where
  "skv_clerk_Get query rpc ck key n c =
     map_option (map_sum id (\<lambda>(ck, reply, c). (ck, sgr_Value reply, c)))
       (clerk_loop query (\<lambda>c srv. rpc c srv \<lparr>sg_Key = key\<rparr>) get_final (\<lambda>r. sgr_Err r = skv_ErrWrongGroup) key n ck c)"

definition skv_clerk_PutAppend ::
  "(nat \<Rightarrow> 's \<Rightarrow> QueryArgs \<Rightarrow> QueryReply option) \<Rightarrow> (nat \<Rightarrow> 's \<Rightarrow> skv_PutAppendArgs \<Rightarrow> skv_PutAppendReply option) \<Rightarrow>
   's skv_Clerk \<Rightarrow> string \<Rightarrow> string \<Rightarrow> string \<Rightarrow> nat \<Rightarrow> nat \<Rightarrow> ('s skv_Clerk \<times> nat) go option" where
  "skv_clerk_PutAppend query rpc ck key val opn n c =
     map_option (map_sum id (\<lambda>(ck, reply, c). (ck, c)))
       (clerk_loop query (\<lambda>c srv. rpc c srv \<lparr>sp_Key = key, sp_Value = val, sp_Op = opn\<rparr>) (\<lambda>r. spr_Err r = skv_OK)
          (\<lambda>r. spr_Err r = skv_ErrWrongGroup) key n ck c)"

definition skv_clerk_Put ::
  "(nat \<Rightarrow> 's \<Rightarrow> QueryArgs \<Rightarrow> QueryReply option) \<Rightarrow> (nat \<Rightarrow> 's \<Rightarrow> skv_PutAppendArgs \<Rightarrow> skv_PutAppendReply option) \<Rightarrow>
   's skv_Clerk \<Rightarrow> string \<Rightarrow> string \<Rightarrow> nat \<Rightarrow> nat \<Rightarrow> ('s skv_Clerk \<times> nat) go option" where
  "skv_clerk_Put query rpc ck key val n c = skv_clerk_PutAppend query rpc ck key val ''Put'' n c"

definition skv_clerk_Append ::
  "(nat \<Rightarrow> 's \<Rightarrow> QueryArgs \<Rightarrow> QueryReply option) \<Rightarrow> (nat \<Rightarrow> 's \<Rightarrow> skv_PutAppendArgs \<Rightarrow> skv_PutAppendReply option) \<Rightarrow>
   's skv_Clerk \<Rightarrow> string \<Rightarrow> string \<Rightarrow> nat \<Rightarrow> nat \<Rightarrow> ('s skv_Clerk \<times> nat) go option" where
  "skv_clerk_Append query rpc ck key val n c = skv_clerk_PutAppend query rpc ck key val ''Append'' n c"

section \<open>The loops\<close>

lemma key2shard_range: "0 \<le> key2shard key \<and> key2shard key < NShards"
  by (simp add: key2shard_def NShards_def)

lemma try_servers_reply:
  "try_servers rpc wrong servers c = (Some r, c') \<Longrightarrow> \<exists>i srv. srv \<in> set servers \<and> rpc i srv = Some r \<and> \<not> wrong r"
  by (induction rpc wrong servers c rule: try_servers.induct) (auto split: option.splits if_splits)

lemma ask_servers_reply:
  "ask_servers rpc wrong servers n c = Some (r, c') \<Longrightarrow> \<exists>i srv. srv \<in> set servers \<and> rpc i srv = Some r \<and> \<not> wrong r"
  by (induction n arbitrary: c) (auto split: option.splits prod.splits dest: try_servers_reply)

lemma try_group_reply:
  "try_group rpc final again servers c = (Some r, c') \<Longrightarrow> \<exists>i srv. srv \<in> set servers \<and> rpc i srv = Some r \<and> final r"
  by (induction rpc final again servers c rule: try_group.induct) (auto split: option.splits if_splits)

text \<open>The configurations a clerk can come to hold: its own and what the masters answer.\<close>

definition seen_config :: "(nat \<Rightarrow> 's \<Rightarrow> QueryArgs \<Rightarrow> QueryReply option) \<Rightarrow> 's skv_Clerk \<Rightarrow> Config \<Rightarrow> bool" where
  "seen_config query ck cfg \<longleftrightarrow> cfg = sc_config ck \<or>
     (\<exists>i srv r. srv \<in> set (sc_sm ck) \<and> query i srv \<lparr>qa_Num = -1\<rparr> = Some r \<and> \<not> qr_WrongLeader r \<and> cfg = qr_Config r)"

lemma Query_seen: "Query query (sc_sm ck) (-1) n c = Some (cfg, c') \<Longrightarrow> seen_config query ck cfg"
  by (auto simp: Query_def seen_config_def dest!: ask_servers_reply)

text \<open>A configuration assigns the key's shard to a group to which the server belongs.\<close>

definition responsible :: "(string \<Rightarrow> 's) \<Rightarrow> Config \<Rightarrow> string \<Rightarrow> 's \<Rightarrow> bool" where
  "responsible make_end cfg key srv \<longleftrightarrow>
     (\<exists>servers. cf_Groups cfg (cf_Shards cfg ! nat (key2shard key)) = Some servers \<and> srv \<in> make_end ` set servers)"

lemma clerk_loop_routed:
  assumes "clerk_loop query rpc final again key n ck c = Some res"
    and "\<forall>cfg. seen_config query ck cfg \<longrightarrow> length (cf_Shards cfg) = nat NShards"
  shows "\<exists>ck' r c'. res = Inr (ck', r, c') \<and> final r \<and> seen_config query ck (sc_config ck') \<and>
     (\<exists>i srv. responsible (sc_make_end ck) (sc_config ck') key srv \<and> rpc i srv = Some r)"
  using assms
proof (induction n arbitrary: ck c)
  case (Suc n)
  let ?gid = "cf_Shards (sc_config ck) ! nat (key2shard key)"
  let ?round = "case cf_Groups (sc_config ck) ?gid of Some servers \<Rightarrow> try_group rpc final again (map (sc_make_end ck) servers) c | None \<Rightarrow> (None, c)"
  have "length (cf_Shards (sc_config ck)) = nat NShards" using Suc.prems(2) by (simp add: seen_config_def)
  then have ix: "go_index (cf_Shards (sc_config ck)) (key2shard key) = Inr ?gid"
    using key2shard_range[of key] by (simp add: go_index_def go_len_def)
  obtain rep c1 where tr: "?round = (rep, c1)" by fastforce
  show ?case
  proof (cases rep)
    case (Some r)
    then obtain servers where "cf_Groups (sc_config ck) ?gid = Some servers"
      "try_group rpc final again (map (sc_make_end ck) servers) c = (Some r, c1)" using tr by (auto split: option.splits)
    moreover from try_group_reply[OF this(2)] obtain i srv where "srv \<in> sc_make_end ck ` set servers" "rpc i srv = Some r" "final r" by auto
    ultimately have "responsible (sc_make_end ck) (sc_config ck) key srv" "rpc i srv = Some r" "final r" by (auto simp: responsible_def)
    moreover have "res = Inr (ck, r, c1)" using Suc.prems(1) ix tr Some by simp
    ultimately show ?thesis by (auto simp: seen_config_def)
  next
    case None
    then obtain cfg c2 where q: "Query query (sc_sm ck) (-1) n c1 = Some (cfg, c2)"
      and l: "clerk_loop query rpc final again key n (ck\<lparr>sc_config := cfg\<rparr>) c2 = Some res"
      using Suc.prems(1) ix tr by (auto split: option.splits)
    have seen: "seen_config query (ck\<lparr>sc_config := cfg\<rparr>) cfg' \<Longrightarrow> seen_config query ck cfg'" for cfg'
      using Query_seen[OF q] by (auto simp: seen_config_def)
    from Suc.IH[OF l] seen Suc.prems(2) show ?thesis by fastforce
  qed
qed simp

text \<open>The empty servers of the repository: a call to them is lost or answered with the zeroed reply.\<close>

definition stub_masters :: "(nat \<Rightarrow> 's \<Rightarrow> QueryArgs \<Rightarrow> QueryReply option) \<Rightarrow> bool" where
  "stub_masters query \<longleftrightarrow> (\<forall>i srv args r. query i srv args = Some r \<longrightarrow>
     (\<exists>sm. snd (sm_Query args \<lparr>qr_WrongLeader = False, qr_Err = '''', qr_Config = Config0\<rparr> sm) = r))"

lemma stub_query:
  assumes "stub_masters query" and "Query query masters num n c = Some (cfg, c')"
  shows "cfg = Config0"
proof -
  obtain r where r: "ask_servers (\<lambda>c srv. query c srv \<lparr>qa_Num = num\<rparr>) qr_WrongLeader masters n c = Some (r, c')" "cfg = qr_Config r"
    using assms(2) by (auto simp: Query_def)
  obtain i srv where "query i srv \<lparr>qa_Num = num\<rparr> = Some r" using ask_servers_reply[OF r(1)] by blast
  with assms(1) obtain sm where "snd (sm_Query \<lparr>qa_Num = num\<rparr> \<lparr>qr_WrongLeader = False, qr_Err = '''', qr_Config = Config0\<rparr> sm) = r"
    unfolding stub_masters_def by blast
  then show ?thesis using r(2) by (auto simp: sm_Query_def)
qed

lemma stub_never_returns:
  assumes "stub_masters query"
  shows "sc_config ck = Config0 \<Longrightarrow> clerk_loop query rpc final again key n ck c = None"
proof (induction n arbitrary: ck c)
  case (Suc n)
  have "go_index (cf_Shards Config0) (key2shard key) = Inr 0"
    using key2shard_range[of key] by (simp add: go_index_def go_len_def Config0_def)
  moreover have "cf_Groups Config0 0 = None" by (simp add: Config0_def)
  ultimately show ?case using Suc stub_query[OF assms] by (auto split: option.splits)
qed simp

section \<open>Routing\<close>


definition sample_config :: Config where
  "sample_config = \<lparr>cf_Num = 1, cf_Shards = replicate 10 7, cf_Groups = [7 \<mapsto> [''a'', ''b'']]\<rparr>"

definition sample_query :: "nat \<Rightarrow> string \<Rightarrow> QueryArgs \<Rightarrow> QueryReply option" where
  "sample_query c srv args = (if c = 0 then None else Some \<lparr>qr_WrongLeader = False, qr_Err = '''', qr_Config = sample_config\<rparr>)"

definition sample_get :: "nat \<Rightarrow> string \<Rightarrow> skv_GetArgs \<Rightarrow> skv_GetReply option" where
  "sample_get c srv args = (if srv = ''b'' then Some \<lparr>sgr_Err = skv_OK, sgr_Value = ''v''\<rparr> else None)"


end
