(* ===== verification/Shard_Tester.thy ===== *)
theory Shard_Tester
  imports Shards Labrpc
begin

text \<open>
  \<open>src/src/shardkv/config.go\<close>: the harness of the sharded store, which starts three shard
  masters and three groups of \<open>n\<close> servers. Servers and clerks are addresses, an end is its
  name. \<open>randstring\<close> gives the names \<open>names 0\<close>, \<open>names 1\<close>, and so on; \<open>tc_drawn\<close> counts them.
  The closures handed to servers and clerks are \<open>make_end_to\<close> when they run; \<open>ends\<close> are the
  names they will return. The persister handed to \<open>StartServer\<close> is shared with the server's
  Raft peer (\<open>tc_saved_of\<close>).
\<close>

section \<open>State\<close>

record group =
  g_gid :: int
  g_servers :: "nat option list"
  g_saved :: "unit gob Persister option list"
  g_endnames :: "string list option list"
  g_mendnames :: "string list option list"

record ('a, 'r) shard_config =
  tc_net :: "(string, string, nat, 'a, 'r) Network"
  tc_start :: int
  tc_nmasters :: nat
  tc_masterservers :: "nat option list"
  tc_mck :: "string list"
  tc_ngroups :: nat
  tc_n :: nat
  tc_groups :: "group option list"
  tc_clerks :: "nat \<rightharpoonup> string list"
  tc_nextClientId :: int
  tc_maxraftstate :: int
  tc_failed :: bool
  tc_drawn :: nat
  tc_heap :: "nat \<Rightarrow> string ShardKV"
  tc_mheap :: "nat \<Rightarrow> ShardMaster"
  tc_next :: nat

text \<open>\<open>cfg.groups[gi]\<close>, dereferenced.\<close>

definition tc_group :: "nat \<Rightarrow> ('a, 'r) shard_config \<Rightarrow> group go" where
  "tc_group gi cfg =
     go_bind (go_index (tc_groups cfg) (int gi)) (\<lambda>g. case g of None \<Rightarrow> Inl NilDereference | Some gg \<Rightarrow> Inr gg)"

definition set_group :: "nat \<Rightarrow> group \<Rightarrow> ('a, 'r) shard_config \<Rightarrow> ('a, 'r) shard_config" where
  "set_group gi gg cfg = cfg\<lparr>tc_groups := (tc_groups cfg)[gi := Some gg]\<rparr>"

definition tc_saved_of :: "group \<Rightarrow> nat \<Rightarrow> ('a, 'r) shard_config \<Rightarrow> unit gob Persister option go" where
  "tc_saved_of gg i cfg =
     go_bind (go_index (g_saved gg) (int i)) (\<lambda>sv.
     go_bind (go_index (g_servers gg) (int i)) (\<lambda>kv.
       Inr (case sv of
              None \<Rightarrow> None
            | Some ps \<Rightarrow> Some (case kv of None \<Rightarrow> ps | Some a \<Rightarrow> rf_persister (sk_rf (tc_heap cfg a))))))"

definition tc_checkTimeout :: "int \<Rightarrow> ('a, 'r) shard_config \<Rightarrow> unit go" where
  "tc_checkTimeout now cfg =
     (if \<not> tc_failed cfg \<and> now - tc_start cfg > 120 * 1000000000 then Inl (Fatal ''test took longer than 120 seconds'') else Inr ())"

definition checklogs :: "('a, 'r) shard_config \<Rightarrow> unit go" where
  "checklogs cfg =
     go_each (\<lambda>gi _.
       go_each (\<lambda>i _.
         go_bind (tc_group gi cfg) (\<lambda>gg.
         go_bind (tc_saved_of gg i cfg) (\<lambda>sv.
           case sv of
             None \<Rightarrow> Inl NilDereference
           | Some ps \<Rightarrow>
               let raft = RaftStateSize ps; snap = go_len (ReadSnapshot ps)
               in if tc_maxraftstate cfg \<ge> 0 \<and> raft > 8 * tc_maxraftstate cfg then Inl (Fatal ''persister.RaftStateSize() too big'')
                  else if tc_maxraftstate cfg < 0 \<and> snap > 0 then Inl (Fatal ''maxraftstate is -1, but snapshot is non-empty!'')
                  else Inr ()))) [0..<tc_n cfg] ()) [0..<tc_ngroups cfg] ()"

definition mastername :: "nat \<Rightarrow> string" where
  "mastername i = ''master'' @ Itoa (int i)"

definition servername :: "int \<Rightarrow> nat \<Rightarrow> string" where
  "servername gid i = ''server-'' @ Itoa gid @ ''-'' @ Itoa (int i)"

section \<open>Ends\<close>

text \<open>A new end with a random name that leads to a server and is enabled.\<close>

definition make_end_to :: "(nat \<Rightarrow> string) \<Rightarrow> string \<Rightarrow> ('a, 'r) shard_config \<Rightarrow> (string \<times> ('a, 'r) shard_config) go" where
  "make_end_to names sname cfg =
     (let name = names (tc_drawn cfg); cfg = cfg\<lparr>tc_drawn := tc_drawn cfg + 1\<rparr>
      in go_bind (MakeEnd name (tc_net cfg)) (\<lambda>rn.
           Inr (name, cfg\<lparr>tc_net := Enable name True (Connect name sname rn)\<rparr>)))"

text \<open>Ends to every server of a list, in order; the second component collects their names.\<close>

definition make_ends_to :: "(nat \<Rightarrow> string) \<Rightarrow> string list \<Rightarrow> ('a, 'r) shard_config \<Rightarrow> (string list \<times> ('a, 'r) shard_config) go" where
  "make_ends_to names servers cfg =
     go_each (\<lambda>srv (ends, cfg). go_bind (make_end_to names srv cfg) (\<lambda>(e, cfg). Inr (ends @ [e], cfg))) servers ([], cfg)"

section \<open>Clients\<close>

text \<open>The array for the names of a clerk's ends to the masters has \<open>cfg.n\<close> places.\<close>

definition tc_makeClient ::
  "(nat \<Rightarrow> string) \<Rightarrow> (string \<Rightarrow> string) \<Rightarrow> ('a, 'r) shard_config \<Rightarrow> (nat \<times> string skv_Clerk \<times> ('a, 'r) shard_config) go" where
  "tc_makeClient names ends cfg =
     go_bind (go_each (\<lambda>j (endnames, masters, cfg).
         go_bind (go_set endnames (int j) (names (tc_drawn cfg))) (\<lambda>endnames.
         go_bind (make_end_to names (mastername j) cfg) (\<lambda>(e, cfg). Inr (endnames, masters @ [e], cfg))))
         [0..<tc_nmasters cfg] (replicate (tc_n cfg) '''', [], cfg)) (\<lambda>(endnames, masters, cfg).
       let ck = skv_MakeClerk masters ends; a = tc_next cfg
       in Inr (a, ck, cfg\<lparr>tc_next := a + 1, tc_clerks := (tc_clerks cfg)(a \<mapsto> endnames), tc_nextClientId := tc_nextClientId cfg + 1\<rparr>))"

definition tc_deleteClient :: "nat \<Rightarrow> ('a, 'r) shard_config \<Rightarrow> ('a, 'r) shard_config" where
  "tc_deleteClient ck cfg = cfg\<lparr>tc_clerks := (tc_clerks cfg)(ck := None)\<rparr>"

section \<open>Groups\<close>

definition disable_ends :: "string list \<Rightarrow> ('a, 'r) shard_config \<Rightarrow> ('a, 'r) shard_config" where
  "disable_ends ends cfg = cfg\<lparr>tc_net := fold (\<lambda>e. Enable e False) ends (tc_net cfg)\<rparr>"

definition tc_ShutdownServer :: "nat \<Rightarrow> nat \<Rightarrow> ('a, 'r) shard_config \<Rightarrow> ('a, 'r) shard_config go" where
  "tc_ShutdownServer gi i cfg =
     go_bind (tc_group gi cfg) (\<lambda>gg.
     go_bind (go_each (\<lambda>j cfg.
         go_bind (go_index (g_endnames gg) (int i)) (\<lambda>row.
         go_bind (case row of None \<Rightarrow> Inl IndexOutOfRange | Some r \<Rightarrow> go_index r (int j)) (\<lambda>name.
           Inr (cfg\<lparr>tc_net := Enable name False (tc_net cfg)\<rparr>)))) [0..<length (g_servers gg)] cfg) (\<lambda>cfg.
     go_bind (go_index (g_mendnames gg) (int i)) (\<lambda>mrow.
     let cfg = disable_ends (case mrow of None \<Rightarrow> [] | Some r \<Rightarrow> r) cfg;
         cfg = cfg\<lparr>tc_net := DeleteServer (servername (g_gid gg) i) (tc_net cfg)\<rparr> in
     go_bind (tc_saved_of gg i cfg) (\<lambda>sv.
     go_bind (go_index (g_servers gg) (int i)) (\<lambda>kv.
       let gg = gg\<lparr>g_saved := (g_saved gg)[i := map_option Copy sv]\<rparr>
       in Inr (case kv of
                 None \<Rightarrow> set_group gi gg cfg
               | Some a \<Rightarrow> set_group gi (gg\<lparr>g_servers := (g_servers gg)[i := None]\<rparr>) (cfg\<lparr>tc_heap := (tc_heap cfg)(a := skv_Kill (tc_heap cfg a))\<rparr>)))))))"

definition ShutdownGroup :: "nat \<Rightarrow> ('a, 'r) shard_config \<Rightarrow> ('a, 'r) shard_config go" where
  "ShutdownGroup gi cfg = go_each (tc_ShutdownServer gi) [0..<tc_n cfg] cfg"

definition tc_cleanup :: "int \<Rightarrow> ('a, 'r) shard_config \<Rightarrow> ('a, 'r) shard_config go" where
  "tc_cleanup now cfg =
     go_bind (go_each ShutdownGroup [0..<tc_ngroups cfg] cfg) (\<lambda>cfg.
     go_bind (Cleanup (tc_net cfg)) (\<lambda>rn.
       let cfg = cfg\<lparr>tc_net := rn\<rparr>
       in go_bind (tc_checkTimeout now cfg) (\<lambda>_. Inr cfg)))"

text \<open>
  \<open>kvmethods\<close>, \<open>rfmethods\<close> and \<open>smmethods\<close> are what \<open>reflect\<close> finds in \<open>*ShardKV\<close>, \<open>*Raft\<close> and
  \<open>*ShardMaster\<close>. The names of the group's ends are drawn before the ends are made.
\<close>

definition tc_StartServer ::
  "(nat, 'a, 'r) Method list \<Rightarrow> (nat, 'a, 'r) Method list \<Rightarrow> (nat \<Rightarrow> string) \<Rightarrow> (string \<Rightarrow> string) \<Rightarrow> int \<Rightarrow> nat \<Rightarrow> nat \<Rightarrow> nat \<Rightarrow>
   ('a, 'r) shard_config \<Rightarrow> ('a, 'r) shard_config go" where
  "tc_StartServer kvmethods rfmethods names ends now rnd gi i cfg =
     go_bind (tc_group gi cfg) (\<lambda>gg.
     let row = map (\<lambda>j. names (tc_drawn cfg + j)) [0..<tc_n cfg]; cfg' = cfg\<lparr>tc_drawn := tc_drawn cfg + tc_n cfg\<rparr> in
     go_bind (go_set (g_endnames gg) (int i) (Some row)) (\<lambda>es.
     let gg = gg\<lparr>g_endnames := es\<rparr> in
     go_bind (go_each (\<lambda>j cfg.
         go_bind (go_index row (int j)) (\<lambda>e.
         go_bind (MakeEnd e (tc_net cfg)) (\<lambda>rn.
           Inr (cfg\<lparr>tc_net := Enable e True (Connect e (servername (g_gid gg) j) rn)\<rparr>)))) [0..<tc_n cfg] cfg') (\<lambda>cfg.
     go_bind (go_set (g_mendnames gg) (int i) (Some [])) (\<lambda>_.
     go_bind (make_ends_to names (map mastername [0..<tc_nmasters cfg]) cfg) (\<lambda>(mends, cfg).
     let gg = gg\<lparr>g_mendnames := (g_mendnames gg)[i := Some mends]\<rparr> in
     go_bind (tc_saved_of gg i cfg) (\<lambda>sv.
     let saved = (case sv of Some ps \<Rightarrow> Copy ps | None \<Rightarrow> MakePersister) in
     go_bind (skv_StartServer (tc_n cfg) (int i) saved (tc_maxraftstate cfg) (g_gid gg) mends ends now rnd) (\<lambda>kv.
       let a = tc_next cfg;
           srv = AddService (MakeService ''Raft'' a rfmethods) (AddService (MakeService ''ShardKV'' a kvmethods) MakeServer);
           rn = tc_net cfg;
           gg = gg\<lparr>g_saved := (g_saved gg)[i := Some saved], g_servers := (g_servers gg)[i := Some a]\<rparr>
       in Inr (set_group gi gg (cfg\<lparr>tc_heap := (tc_heap cfg)(a := kv), tc_next := a + 1,
                                    tc_net := AddServer (servername (g_gid gg) i) a (rn\<lparr>n_srv := (n_srv rn)(a := srv)\<rparr>)\<rparr>)))))))))"

definition StartGroup ::
  "(nat, 'a, 'r) Method list \<Rightarrow> (nat, 'a, 'r) Method list \<Rightarrow> (nat \<Rightarrow> string) \<Rightarrow> (string \<Rightarrow> string) \<Rightarrow> int \<Rightarrow> nat \<Rightarrow> nat \<Rightarrow>
   ('a, 'r) shard_config \<Rightarrow> ('a, 'r) shard_config go" where
  "StartGroup kvmethods rfmethods names ends now rnd gi cfg =
     go_each (\<lambda>i. tc_StartServer kvmethods rfmethods names ends now rnd gi i) [0..<tc_n cfg] cfg"

section \<open>Shard masters\<close>

definition StartMasterServer ::
  "(nat, 'a, 'r) Method list \<Rightarrow> (nat, 'a, 'r) Method list \<Rightarrow> (nat \<Rightarrow> string) \<Rightarrow> int \<Rightarrow> nat \<Rightarrow> nat \<Rightarrow>
   ('a, 'r) shard_config \<Rightarrow> ('a, 'r) shard_config go" where
  "StartMasterServer smmethods rfmethods names now rnd i cfg =
     go_bind (make_ends_to names (map mastername [0..<tc_nmasters cfg]) cfg) (\<lambda>(_, cfg).
     go_bind (sm_StartServer (tc_nmasters cfg) (int i) MakePersister now rnd) (\<lambda>sm.
       let a = tc_next cfg;
           srv = AddService (MakeService ''Raft'' a rfmethods) (AddService (MakeService ''ShardMaster'' a smmethods) MakeServer);
           rn = tc_net cfg
       in go_bind (go_set (tc_masterservers cfg) (int i) (Some a)) (\<lambda>ms.
          Inr (cfg\<lparr>tc_masterservers := ms, tc_mheap := (tc_mheap cfg)(a := sm), tc_next := a + 1,
                   tc_net := AddServer (mastername i) a (rn\<lparr>n_srv := (n_srv rn)(a := srv)\<rparr>)\<rparr>))))"

definition shardclerk :: "(nat \<Rightarrow> string) \<Rightarrow> ('a, 'r) shard_config \<Rightarrow> (string list \<times> ('a, 'r) shard_config) go" where
  "shardclerk names cfg =
     go_bind (make_ends_to names (map mastername [0..<tc_nmasters cfg]) cfg) (\<lambda>(ends, cfg). Inr (sm_MakeClerk ends, cfg))"

text \<open>The clerk's loop has fuel \<open>k\<close>; \<open>rpc\<close> gives the answers and \<open>c\<close> numbers the calls.\<close>

definition joinm ::
  "(nat \<Rightarrow> string \<Rightarrow> JoinArgs \<Rightarrow> JoinReply option) \<Rightarrow> nat \<Rightarrow> nat \<Rightarrow> nat list \<Rightarrow> ('a, 'r) shard_config \<Rightarrow> nat option go" where
  "joinm rpc k c gis cfg =
     go_bind (go_each (\<lambda>g m. go_bind (tc_group g cfg) (\<lambda>gg. Inr (m(g_gid gg \<mapsto> map (servername (g_gid gg)) [0..<tc_n cfg])))) gis Map.empty)
       (\<lambda>m. Inr (Join rpc (tc_mck cfg) m k c))"

definition join ::
  "(nat \<Rightarrow> string \<Rightarrow> JoinArgs \<Rightarrow> JoinReply option) \<Rightarrow> nat \<Rightarrow> nat \<Rightarrow> nat \<Rightarrow> ('a, 'r) shard_config \<Rightarrow> nat option go" where
  "join rpc k c gi cfg = joinm rpc k c [gi] cfg"

definition leavem ::
  "(nat \<Rightarrow> string \<Rightarrow> LeaveArgs \<Rightarrow> LeaveReply option) \<Rightarrow> nat \<Rightarrow> nat \<Rightarrow> nat list \<Rightarrow> ('a, 'r) shard_config \<Rightarrow> nat option go" where
  "leavem rpc k c gis cfg =
     go_bind (go_each (\<lambda>g gids. go_bind (tc_group g cfg) (\<lambda>gg. Inr (gids @ [g_gid gg]))) gis [])
       (\<lambda>gids. Inr (Leave rpc (tc_mck cfg) gids k c))"

definition leave ::
  "(nat \<Rightarrow> string \<Rightarrow> LeaveArgs \<Rightarrow> LeaveReply option) \<Rightarrow> nat \<Rightarrow> nat \<Rightarrow> nat \<Rightarrow> ('a, 'r) shard_config \<Rightarrow> nat option go" where
  "leave rpc k c gi cfg = leavem rpc k c [gi] cfg"

text \<open>Lines 360-371, the body of the loop over the groups; \<open>mendnames\<close> has \<open>cfg.nmasters\<close> places.\<close>

definition make_group ::
  "(nat, 'a, 'r) Method list \<Rightarrow> (nat, 'a, 'r) Method list \<Rightarrow> (nat \<Rightarrow> string) \<Rightarrow> (string \<Rightarrow> string) \<Rightarrow> int \<Rightarrow> nat \<Rightarrow> nat \<Rightarrow>
   ('a, 'r) shard_config \<Rightarrow> ('a, 'r) shard_config go" where
  "make_group kvmethods rfmethods names ends now rnd gi cfg =
     (let n = tc_n cfg;
          gg = \<lparr>g_gid = 100 + int gi, g_servers = replicate n None, g_saved = replicate n None, g_endnames = replicate n None,
                g_mendnames = replicate (tc_nmasters cfg) None\<rparr>
      in go_bind (go_set (tc_groups cfg) (int gi) (Some gg)) (\<lambda>gs.
         go_each (\<lambda>i. tc_StartServer kvmethods rfmethods names ends now rnd gi i) [0..<n] (cfg\<lparr>tc_groups := gs\<rparr>)))"

definition tc_make_config ::
  "(nat, 'a, 'r) Method list \<Rightarrow> (nat, 'a, 'r) Method list \<Rightarrow> (nat, 'a, 'r) Method list \<Rightarrow> (nat \<Rightarrow> string) \<Rightarrow> (string \<Rightarrow> string) \<Rightarrow> int \<Rightarrow> nat \<Rightarrow>
   (nat \<Rightarrow> string ShardKV) \<Rightarrow> (nat \<Rightarrow> ShardMaster) \<Rightarrow> nat \<Rightarrow> bool \<Rightarrow> int \<Rightarrow> ('a, 'r) shard_config go" where
  "tc_make_config smmethods kvmethods rfmethods names ends now rnd heap mheap n unreliable maxraftstate =
     (let cfg = \<lparr>tc_net = MakeNetwork, tc_start = now, tc_nmasters = 3, tc_masterservers = replicate 3 None, tc_mck = [], tc_ngroups = 0, tc_n = 0,
                 tc_groups = [], tc_clerks = Map.empty, tc_nextClientId = 0, tc_maxraftstate = maxraftstate, tc_failed = False,
                 tc_drawn = 0, tc_heap = heap, tc_mheap = mheap, tc_next = 0\<rparr>
      in go_bind (go_each (StartMasterServer smmethods rfmethods names now rnd) [0..<tc_nmasters cfg] cfg) (\<lambda>cfg.
         go_bind (shardclerk names cfg) (\<lambda>(mck, cfg).
         let cfg = cfg\<lparr>tc_mck := mck, tc_ngroups := 3, tc_groups := replicate 3 None, tc_n := n\<rparr> in
         go_bind (go_each (make_group kvmethods rfmethods names ends now rnd) [0..<tc_ngroups cfg] cfg) (\<lambda>cfg.
         Inr (cfg\<lparr>tc_clerks := Map.empty, tc_nextClientId := int n + 1000, tc_net := Reliable (\<not> unreliable) (tc_net cfg)\<rparr>)))))"

section \<open>How many servers a group can have\<close>

text \<open>The names drawn so far, and a configuration that differs in its network and in what is drawn only.\<close>

definition drawn_ok :: "(nat \<Rightarrow> string) \<Rightarrow> ('a, 'r) shard_config \<Rightarrow> bool" where
  "drawn_ok names cfg \<longleftrightarrow> n_ends (tc_net cfg) \<subseteq> names ` {..<tc_drawn cfg}"

definition same_setup :: "('a, 'r) shard_config \<Rightarrow> ('a, 'r) shard_config \<Rightarrow> bool" where
  "same_setup cfg cfg' \<longleftrightarrow> tc_n cfg' = tc_n cfg \<and> tc_nmasters cfg' = tc_nmasters cfg \<and> tc_ngroups cfg' = tc_ngroups cfg \<and> tc_groups cfg' = tc_groups cfg \<and>
     tc_heap cfg' = tc_heap cfg \<and> tc_masterservers cfg' = tc_masterservers cfg \<and> tc_next cfg' = tc_next cfg \<and> tc_maxraftstate cfg' = tc_maxraftstate cfg"

lemma same_setup_refl [simp]: "same_setup cfg cfg"
  by (simp add: same_setup_def)

lemma same_setup_trans: "same_setup a b \<Longrightarrow> same_setup b c \<Longrightarrow> same_setup a c"
  by (simp add: same_setup_def)

lemma make_end_to_returns:
  assumes "inj names" and "drawn_ok names cfg"
  shows "\<exists>e cfg'. make_end_to names sname cfg = Inr (e, cfg') \<and> drawn_ok names cfg' \<and> same_setup cfg cfg'"
proof -
  have "names (tc_drawn cfg) \<notin> n_ends (tc_net cfg)" using assms by (auto simp: drawn_ok_def dest: injD)
  then show ?thesis using assms(2) by (auto simp: make_end_to_def Let_def MakeEnd_def Connect_def Enable_def drawn_ok_def same_setup_def lessThan_Suc)
qed

lemma make_ends_to_returns:
  assumes "inj names" and "drawn_ok names cfg"
  shows "\<exists>ends cfg'. make_ends_to names servers cfg = Inr (ends, cfg') \<and> drawn_ok names cfg' \<and> same_setup cfg cfg'"
proof -
  let ?P = "\<lambda>(_, c). drawn_ok names c \<and> same_setup cfg c"
  have "\<exists>s'. go_each (\<lambda>srv (ends, cfg). go_bind (make_end_to names srv cfg) (\<lambda>(e, cfg). Inr (ends @ [e], cfg))) servers ([], cfg) = Inr s' \<and> ?P s'"
  proof (rule go_each_returns)
    show "?P ([], cfg)" using assms(2) by simp
    fix srv and s :: "string list \<times> ('a, 'b) shard_config" assume "?P s"
    then show "\<exists>s'. (case s of (ends, cfg) \<Rightarrow> go_bind (make_end_to names srv cfg) (\<lambda>(e, cfg). Inr (ends @ [e], cfg))) = Inr s' \<and> ?P s'"
      using make_end_to_returns[OF assms(1), of "snd s" srv] same_setup_trans by (fastforce split: prod.splits)
  qed
  then show ?thesis by (auto simp: make_ends_to_def)
qed

text \<open>What the loops keep, and group \<open>gi\<close> when its first \<open>i\<close> servers have been started.\<close>

definition set_up :: "(nat \<Rightarrow> string) \<Rightarrow> nat \<Rightarrow> ('a, 'r) shard_config \<Rightarrow> bool" where
  "set_up names n cfg \<longleftrightarrow> drawn_ok names cfg \<and> tc_n cfg = n \<and> tc_nmasters cfg = 3 \<and> tc_ngroups cfg = 3 \<and> length (tc_groups cfg) = 3"

definition starting :: "nat \<Rightarrow> nat \<Rightarrow> nat \<Rightarrow> ('a, 'r) shard_config \<Rightarrow> bool" where
  "starting n gi i cfg \<longleftrightarrow> (\<exists>gg. tc_groups cfg ! gi = Some gg \<and> length (g_servers gg) = n \<and> length (g_saved gg) = n \<and> length (g_endnames gg) = n \<and>
     length (g_mendnames gg) = 3 \<and> (\<forall>j<n. i \<le> j \<longrightarrow> g_saved gg ! j = None))"

text \<open>The ends within a group.\<close>

lemma group_ends_return:
  assumes inj: "inj names" and d: "n_ends (tc_net cfg) \<subseteq> names ` {..<d}" and row: "row = map (\<lambda>j. names (d + j)) [0..<n]"
  shows "\<exists>rn. go_each (\<lambda>j cfg. go_bind (go_index row (int j)) (\<lambda>e. go_bind (MakeEnd e (tc_net cfg)) (\<lambda>rn.
       Inr (cfg\<lparr>tc_net := Enable e True (Connect e (servername gid j) rn)\<rparr>)))) [0..<n] cfg = Inr (cfg\<lparr>tc_net := rn\<rparr>) \<and> n_ends rn \<subseteq> names ` {..<d + n}"
proof -
  let ?f = "\<lambda>j cfg. go_bind (go_index row (int j)) (\<lambda>e. go_bind (MakeEnd e (tc_net cfg)) (\<lambda>rn.
       Inr (cfg\<lparr>tc_net := Enable e True (Connect e (servername gid j) rn)\<rparr>)))"
  have "\<exists>rn. go_each ?f [0..<m] cfg = Inr (cfg\<lparr>tc_net := rn\<rparr>) \<and> n_ends rn \<subseteq> names ` {..<d + m}" if "m \<le> n" for m
    using that
  proof (induction m)
    case 0
    show ?case using d by (intro exI[of _ "tc_net cfg"]) simp
  next
    case (Suc m)
    then obtain rn where IH: "go_each ?f [0..<m] cfg = Inr (cfg\<lparr>tc_net := rn\<rparr>)" "n_ends rn \<subseteq> names ` {..<d + m}" by auto
    have "names (d + m) \<notin> n_ends rn" using IH(2) inj by (auto dest: injD)
    then obtain rn' where "go_each ?f [0..<Suc m] cfg = Inr (cfg\<lparr>tc_net := rn'\<rparr>)" "n_ends rn' = insert (names (d + m)) (n_ends rn)"
      using IH(1) Suc.prems by (simp add: go_each_append row go_index_def go_len_def MakeEnd_def Enable_def Connect_def)
    then show ?case using IH(2) by (auto simp: lessThan_Suc)
  qed
  then show ?thesis by blast
qed


text \<open>Server \<open>i\<close> of a group starts when \<open>mendnames\<close> has a place for it.\<close>

lemma tc_StartServer_cases:
  assumes inj: "inj names" and c: "set_up names n cfg" and g: "gi < 3" and s: "starting n gi i cfg" and i: "i < n"
  shows "if i < 3 then \<exists>cfg'. tc_StartServer kvmethods rfmethods names ends now rnd gi i cfg = Inr cfg' \<and> set_up names n cfg' \<and> starting n gi (Suc i) cfg'
    else tc_StartServer kvmethods rfmethods names ends now rnd gi i cfg = Inl IndexOutOfRange"
proof -
  have d: "drawn_ok names cfg" "tc_n cfg = n" "tc_nmasters cfg = 3" "length (tc_groups cfg) = 3" using c by (auto simp: set_up_def)
  obtain gg where gg: "tc_groups cfg ! gi = Some gg" "length (g_servers gg) = n" "length (g_saved gg) = n" "length (g_endnames gg) = n"
    "length (g_mendnames gg) = 3" "\<forall>j<n. i \<le> j \<longrightarrow> g_saved gg ! j = None" using s by (auto simp: starting_def)
  have grp: "tc_group gi cfg = Inr gg" using g d(4) gg(1) by (simp add: tc_group_def go_index_def go_len_def)
  let ?row = "map (\<lambda>j. names (tc_drawn cfg + j)) [0..<n]" and ?c = "cfg\<lparr>tc_drawn := tc_drawn cfg + n\<rparr>"
  have row: "go_set (g_endnames gg) (int i) (Some ?row) = Inr ((g_endnames gg)[i := Some ?row])" using i gg(4) by (simp add: go_set_def go_len_def)
  obtain rn where rn: "go_each (\<lambda>j cfg. go_bind (go_index ?row (int j)) (\<lambda>e. go_bind (MakeEnd e (tc_net cfg)) (\<lambda>rn.
       Inr (cfg\<lparr>tc_net := Enable e True (Connect e (servername (g_gid gg) j) rn)\<rparr>)))) [0..<n] ?c = Inr (?c\<lparr>tc_net := rn\<rparr>)" "n_ends rn \<subseteq> names ` {..<tc_drawn cfg + n}"
    using group_ends_return[OF inj _ refl, of ?c "tc_drawn cfg" n "g_gid gg"] d(1) by (auto simp: drawn_ok_def)
  show ?thesis
  proof (cases "i < 3")
    case False
    then have "go_set (g_mendnames gg) (int i) (Some []) = Inl IndexOutOfRange" using gg(5) by (simp add: go_set_def go_len_def)
    then show ?thesis using False by (simp add: tc_StartServer_def grp d(2) row rn(1) Let_def)
  next
    case True
    then have m: "go_set (g_mendnames gg) (int i) (Some []) = Inr ((g_mendnames gg)[i := Some []])" using gg(5) by (simp add: go_set_def go_len_def)
    have "drawn_ok names (?c\<lparr>tc_net := rn\<rparr>)" using rn(2) by (simp add: drawn_ok_def)
    from make_ends_to_returns[OF inj this, of "map mastername [0..<3]"] obtain mends c2 where
      c2: "make_ends_to names (map mastername [0..<3]) (?c\<lparr>tc_net := rn\<rparr>) = Inr (mends, c2)" "drawn_ok names c2" "same_setup (?c\<lparr>tc_net := rn\<rparr>) c2" by blast
    note S = c2(3)[unfolded same_setup_def]
    let ?g2 = "gg\<lparr>g_endnames := (g_endnames gg)[i := Some ?row], g_mendnames := (g_mendnames gg)[i := Some mends]\<rparr>"
    have sv: "tc_saved_of ?g2 i c2 = Inr None" using i gg(2,3,6) by (simp add: tc_saved_of_def go_index_def go_len_def)
    obtain kv where kv: "skv_StartServer n (int i) MakePersister (tc_maxraftstate cfg) (g_gid gg) mends ends now rnd = Inr kv"
      by (simp add: skv_StartServer_def Make_fresh)
    obtain cfg' where cfg': "tc_StartServer kvmethods rfmethods names ends now rnd gi i cfg = Inr cfg'"
      "tc_groups cfg' = (tc_groups cfg)[gi := Some (?g2\<lparr>g_saved := (g_saved gg)[i := Some MakePersister], g_servers := (g_servers gg)[i := Some (tc_next c2)]\<rparr>)]"
      "n_ends (tc_net cfg') = n_ends (tc_net c2)" "tc_drawn cfg' = tc_drawn c2" "tc_n cfg' = n" "tc_nmasters cfg' = 3" "tc_ngroups cfg' = tc_ngroups cfg"
      using S d(3) by (simp add: tc_StartServer_def grp d(2) row rn(1) m c2(1) sv kv Let_def set_group_def AddServer_def)
    have "set_up names n cfg'" using c2(2) cfg'(2-) c by (simp add: set_up_def drawn_ok_def)
    moreover have "starting n gi (Suc i) cfg'" using g d(4) gg(2-) by (simp add: starting_def cfg'(2))
    ultimately show ?thesis using True cfg'(1) by auto
  qed
qed

lemma start_servers:
  assumes inj: "inj names" and c: "set_up names n cfg" and g: "gi < 3" and s: "starting n gi 0 cfg" and m: "m \<le> n" "m \<le> 3"
  shows "\<exists>cfg'. go_each (\<lambda>i. tc_StartServer kvmethods rfmethods names ends now rnd gi i) [0..<m] cfg = Inr cfg' \<and> set_up names n cfg' \<and> starting n gi m cfg'"
  using m
proof (induction m)
  case (Suc m)
  then obtain c1 where c1: "go_each (\<lambda>i. tc_StartServer kvmethods rfmethods names ends now rnd gi i) [0..<m] cfg = Inr c1" "set_up names n c1" "starting n gi m c1" by auto
  from tc_StartServer_cases[OF inj c1(2) g c1(3), of kvmethods rfmethods ends now rnd] Suc.prems c1(1) show ?case by (auto simp: go_each_append)
qed (use c s in simp)

lemma make_group_cases:
  assumes inj: "inj names" and c: "set_up names n cfg" and g: "gi < 3"
  shows "if n \<le> 3 then \<exists>cfg'. make_group kvmethods rfmethods names ends now rnd gi cfg = Inr cfg' \<and> set_up names n cfg'
    else make_group kvmethods rfmethods names ends now rnd gi cfg = Inl IndexOutOfRange"
proof -
  have d: "tc_n cfg = n" "tc_nmasters cfg = 3" "length (tc_groups cfg) = 3" using c by (auto simp: set_up_def)
  let ?gg = "\<lparr>g_gid = 100 + int gi, g_servers = replicate n None, g_saved = replicate n None, g_endnames = replicate n None, g_mendnames = replicate 3 None\<rparr>"
  let ?c = "cfg\<lparr>tc_groups := (tc_groups cfg)[gi := Some ?gg]\<rparr>"
  let ?f = "\<lambda>i. tc_StartServer kvmethods rfmethods names ends now rnd gi i"
  have mg: "make_group kvmethods rfmethods names ends now rnd gi cfg = go_each ?f [0..<n] ?c"
    using g d by (simp add: make_group_def go_set_def go_len_def Let_def)
  have c': "set_up names n ?c" "starting n gi 0 ?c" using c g d by (auto simp: set_up_def drawn_ok_def starting_def)
  show ?thesis
  proof (cases "n \<le> 3")
    case True
    then show ?thesis using start_servers[OF inj c'(1) g c'(2), of n kvmethods rfmethods ends now rnd] by (auto simp: mg)
  next
    case False
    then obtain c1 where c1: "go_each ?f [0..<3] ?c = Inr c1" "set_up names n c1" "starting n gi 3 c1"
      using start_servers[OF inj c'(1) g c'(2), of 3 kvmethods rfmethods ends now rnd] by auto
    have "?f 3 c1 = Inl IndexOutOfRange" using tc_StartServer_cases[OF inj c1(2) g c1(3), of kvmethods rfmethods ends now rnd] False by auto
    moreover have "[0..<n] = [0..<3] @ 3 # [4..<n]" using False upt_add_eq_append[of 0 3 "n - 3"] upt_conv_Cons[of 3 n] by simp
    ultimately show ?thesis using False c1(1) by (simp add: mg go_each_append)
  qed
qed


lemma start_masters:
  assumes inj: "inj names" and c: "drawn_ok names cfg" "tc_nmasters cfg = 3" "length (tc_masterservers cfg) = 3"
  shows "\<exists>cfg'. go_each (StartMasterServer smmethods rfmethods names now rnd) [0..<3] cfg = Inr cfg' \<and>
     drawn_ok names cfg' \<and> tc_nmasters cfg' = 3 \<and> length (tc_masterservers cfg') = 3"
proof (rule go_each_returns)
  show "drawn_ok names cfg \<and> tc_nmasters cfg = 3 \<and> length (tc_masterservers cfg) = 3" using c by simp
  fix i and c :: "('a, 'b) shard_config"
  assume i: "i \<in> set [0..<3]" and c: "drawn_ok names c \<and> tc_nmasters c = 3 \<and> length (tc_masterservers c) = 3"
  obtain ends c1 where c1: "make_ends_to names (map mastername [0..<3]) c = Inr (ends, c1)" "drawn_ok names c1" "same_setup c c1"
    using make_ends_to_returns[OF inj, of c "map mastername [0..<3]"] c by blast
  obtain sm where "sm_StartServer 3 (int i) MakePersister now rnd = Inr sm" by (simp add: sm_StartServer_def Make_fresh)
  then show "\<exists>c'. StartMasterServer smmethods rfmethods names now rnd i c = Inr c' \<and> drawn_ok names c' \<and> tc_nmasters c' = 3 \<and> length (tc_masterservers c') = 3"
    using i c c1 by (simp add: StartMasterServer_def same_setup_def Let_def go_set_def go_len_def drawn_ok_def AddServer_def)
qed

lemma tc_make_config_cases:
  fixes kvmethods :: "(nat, 'a, 'r) Method list"
  assumes inj: "inj names"
  shows "if n \<le> 3 then \<exists>cfg. tc_make_config smmethods kvmethods rfmethods names ends now rnd heap mheap n unreliable maxraftstate = Inr cfg \<and> set_up names n cfg
    else tc_make_config smmethods kvmethods rfmethods names ends now rnd heap mheap n unreliable maxraftstate = Inl IndexOutOfRange"
proof -
  define c0 :: "('a, 'r) shard_config" where "c0 = \<lparr>tc_net = MakeNetwork, tc_start = now, tc_nmasters = 3, tc_masterservers = replicate 3 None, tc_mck = [], tc_ngroups = 0, tc_n = 0,
     tc_groups = [], tc_clerks = Map.empty, tc_nextClientId = 0, tc_maxraftstate = maxraftstate, tc_failed = False,
     tc_drawn = 0, tc_heap = heap, tc_mheap = mheap, tc_next = 0\<rparr>"
  have "drawn_ok names c0" by (simp add: c0_def drawn_ok_def MakeNetwork_def)
  then obtain c1 where c1: "go_each (StartMasterServer smmethods rfmethods names now rnd) [0..<3] c0 = Inr c1" "drawn_ok names c1" "tc_nmasters c1 = 3"
    using start_masters[OF inj, of c0 smmethods rfmethods now rnd] by (auto simp: c0_def)
  obtain mck c2 where c2: "shardclerk names c1 = Inr (mck, c2)" "drawn_ok names c2" "tc_nmasters c2 = 3"
    using make_ends_to_returns[OF inj c1(2), of "map mastername [0..<3]"] c1(3) by (auto simp: shardclerk_def same_setup_def)
  let ?c3 = "c2\<lparr>tc_mck := mck, tc_ngroups := 3, tc_groups := replicate 3 None, tc_n := n\<rparr>"
  have c3: "set_up names n ?c3" using c2 by (simp add: set_up_def drawn_ok_def)
  let ?mg = "make_group kvmethods rfmethods names ends now rnd"
  have mk: "tc_make_config smmethods kvmethods rfmethods names ends now rnd heap mheap n unreliable maxraftstate =
      go_bind (go_each ?mg [0..<3] ?c3) (\<lambda>cfg.
        Inr (cfg\<lparr>tc_clerks := Map.empty, tc_nextClientId := int n + 1000, tc_net := Reliable (\<not> unreliable) (tc_net cfg)\<rparr>))"
    using c1(1) c2(1) by (simp add: tc_make_config_def Let_def c0_def)
  show ?thesis
  proof (cases "n \<le> 3")
    case True
    have "\<exists>c. go_each ?mg [0..<3] ?c3 = Inr c \<and> set_up names n c"
      by (rule go_each_returns[where P = "set_up names n", OF c3]) (use make_group_cases[OF inj, of n] True in auto)
    then show ?thesis using True by (auto simp: mk set_up_def drawn_ok_def Reliable_def)
  next
    case False
    then have "?mg 0 ?c3 = Inl IndexOutOfRange" using make_group_cases[OF inj c3, of 0 kvmethods rfmethods ends now rnd] by simp
    moreover have "[0..<3] = 0 # [1..<3]" by (simp add: upt_conv_Cons)
    ultimately show ?thesis using False by (simp add: mk)
  qed
qed

lemma tc_makeClient_cases:
  assumes inj: "inj names" and c: "set_up names n cfg"
  shows "if 3 \<le> n then \<exists>r. tc_makeClient names ends cfg = Inr r else tc_makeClient names ends cfg = Inl IndexOutOfRange"
proof -
  let ?f = "\<lambda>j (endnames, masters, cfg).
         go_bind (go_set endnames (int j) (names (tc_drawn cfg))) (\<lambda>endnames.
         go_bind (make_end_to names (mastername j) cfg) (\<lambda>(e, cfg). Inr (endnames, masters @ [e], cfg)))"
  let ?s = "(replicate n '''', [], cfg)" and ?P = "\<lambda>(endnames, _ :: string list, c). length endnames = n \<and> drawn_ok names c"
  have step: "if j < n then \<exists>s'. ?f j s = Inr s' \<and> ?P s' else ?f j s = Inl IndexOutOfRange" if "?P s" for j s
    using that make_end_to_returns[OF inj, of "snd (snd s)" "mastername j"] by (auto simp: go_set_def go_len_def split: prod.splits)
  have loop: "\<exists>s'. go_each ?f [0..<m] ?s = Inr s' \<and> ?P s'" if m: "m \<le> n" for m
  proof (rule go_each_returns)
    show "?P ?s" using c by (simp add: set_up_def)
    show "\<exists>s'. ?f j s = Inr s' \<and> ?P s'" if "j \<in> set [0..<m]" "?P s" for j s
    proof -
      have "j < n" using that(1) m by simp
      then show ?thesis using step[OF that(2), of j] by (simp only: if_True)
    qed
  qed
  have mk: "tc_makeClient names ends cfg = go_bind (go_each ?f [0..<3] ?s) (\<lambda>(endnames, masters, cfg).
       let ck = skv_MakeClerk masters ends; a = tc_next cfg
       in Inr (a, ck, cfg\<lparr>tc_next := a + 1, tc_clerks := (tc_clerks cfg)(a \<mapsto> endnames), tc_nextClientId := tc_nextClientId cfg + 1\<rparr>))"
    using c by (simp add: tc_makeClient_def set_up_def)
  show ?thesis
  proof (cases "3 \<le> n")
    case True
    then show ?thesis using loop[of 3] by (auto simp: mk Let_def)
  next
    case False
    obtain s' where s': "go_each ?f [0..<n] ?s = Inr s'" "?P s'" using loop by blast
    have "[0..<3] = [0..<n] @ n # [Suc n..<3]" using False upt_add_eq_append[of 0 n "3 - n"] upt_conv_Cons[of n 3] by simp
    then have "go_each ?f [0..<3] ?s = go_bind (?f n s') (go_each ?f [Suc n..<3])" using s'(1) by (simp only: go_each_append go_each.simps) simp
    then show ?thesis using step[OF s'(2), of n] False by (simp add: mk)
  qed
qed


text \<open>
  C15. The harness of the sharded store works for groups of three servers only. As long as
  all random names differ, \<open>make_config\<close> returns for at most three servers per group, because
  it allocates the rows of a group's ends to the masters by the number of masters and then
  indexes them by server; and afterwards \<open>makeClient\<close> returns for at least three, because it
  allocates the names of a clerk's ends by the number of servers and indexes them by master.
\<close>

theorem shard_tester_three:
  assumes "inj names"
  shows "((\<exists>cfg. tc_make_config smmethods kvmethods rfmethods names ends now rnd heap mheap n unreliable maxraftstate = Inr cfg) \<longleftrightarrow> n \<le> 3) \<and>
     ((\<exists>cfg r. tc_make_config smmethods kvmethods rfmethods names ends now rnd heap mheap n unreliable maxraftstate = Inr cfg \<and>
        tc_makeClient names clerk_ends cfg = Inr r) \<longleftrightarrow> n = 3)"
proof (cases "n \<le> 3")
  case True
  then obtain cfg where cfg: "tc_make_config smmethods kvmethods rfmethods names ends now rnd heap mheap n unreliable maxraftstate = Inr cfg" "set_up names n cfg"
    using tc_make_config_cases[OF assms, of n smmethods kvmethods rfmethods ends now rnd heap mheap unreliable maxraftstate] by auto
  then show ?thesis using tc_makeClient_cases[OF assms cfg(2), of clerk_ends] True by (auto split: if_splits)
next
  case False
  then show ?thesis using tc_make_config_cases[OF assms, of n smmethods kvmethods rfmethods ends now rnd heap mheap unreliable maxraftstate] by simp
qed

theorem shard_tester_three_witness:
  "(\<exists>cfg :: (unit, unit) shard_config. tc_make_config [] [] [] (\<lambda>i. replicate i CHR ''a'') id 0 0 (\<lambda>_. undefined) (\<lambda>_. undefined) 3 False (-1) = Inr cfg) \<and>
   \<not> (\<exists>cfg :: (unit, unit) shard_config. tc_make_config [] [] [] (\<lambda>i. replicate i CHR ''a'') id 0 0 (\<lambda>_. undefined) (\<lambda>_. undefined) 5 False (-1) = Inr cfg)"
proof -
  have inj: "inj (\<lambda>i. replicate i CHR ''a'')" by (rule injI) (metis length_replicate)
  note T = shard_tester_three[OF this, THEN conjunct1]
  show ?thesis by (intro conjI) (simp_all add: T)
qed

end
