(* ===== verification/Lecture_KV.thy ===== *)
theory Lecture_KV
  imports Prelude
begin

text \<open>
  \<open>src/notes/lec02/kv.go\<close>: the key/value server of the second lecture, with \<open>net/rpc\<close>. The
  handlers run under the server's mutex. \<open>dial\<close> and \<open>call\<close> say whether \<open>rpc.Dial\<close> and
  \<open>client.Call\<close> report an error; otherwise a call runs its handler on the server's state.
  The client functions do not use their arguments: both always speak of \<open>subject\<close>.
\<close>

record lk_PutArgs =
  lk_putKey :: string
  lk_putValue :: string

record lk_PutReply =
  lk_putErr :: string

record lk_GetArgs =
  lk_getKey :: string

record lk_GetReply =
  lk_getErr :: string
  lk_getValue :: string

record lk_KV =
  lk_data :: "string \<rightharpoonup> string"

definition lk_server :: lk_KV where
  "lk_server = \<lparr>lk_data = Map.empty\<rparr>"

definition lk_Get :: "lk_GetArgs \<Rightarrow> lk_KV \<Rightarrow> lk_KV \<times> lk_GetReply" where
  "lk_Get args kv =
     (case lk_data kv (lk_getKey args) of
        Some val \<Rightarrow> (kv, \<lparr>lk_getErr = ''OK'', lk_getValue = val\<rparr>)
      | None \<Rightarrow> (kv, \<lparr>lk_getErr = ''ErrNoKey'', lk_getValue = ''''\<rparr>))"

definition lk_Put :: "lk_PutArgs \<Rightarrow> lk_KV \<Rightarrow> lk_KV \<times> lk_PutReply" where
  "lk_Put args kv = (kv\<lparr>lk_data := (lk_data kv)(lk_putKey args \<mapsto> lk_putValue args)\<rparr>, \<lparr>lk_putErr = ''OK''\<rparr>)"

definition lk_connect :: "bool \<Rightarrow> unit go" where
  "lk_connect dial = (if dial then Inl (Fatal ''dialing:'') else Inr ())"

definition lk_get :: "bool \<Rightarrow> bool \<Rightarrow> string \<Rightarrow> lk_KV \<Rightarrow> (lk_KV \<times> string) go" where
  "lk_get dial call key kv =
     go_bind (lk_connect dial) (\<lambda>_.
       if call then Inl (Fatal ''error:'')
       else let (kv, reply) = lk_Get \<lparr>lk_getKey = ''subject''\<rparr> kv in Inr (kv, lk_getValue reply))"

definition lk_put :: "bool \<Rightarrow> bool \<Rightarrow> string \<Rightarrow> string \<Rightarrow> lk_KV \<Rightarrow> lk_KV go" where
  "lk_put dial call key val kv =
     go_bind (lk_connect dial) (\<lambda>_.
       if call then Inl (Fatal ''error:'')
       else let (kv, _) = lk_Put \<lparr>lk_putKey = ''subject'', lk_putValue = ''6.824''\<rparr> kv in Inr kv)"

text \<open>What \<open>main\<close> prints as the value of \<open>subject\<close>.\<close>

definition lk_main :: "bool \<Rightarrow> bool \<Rightarrow> string go" where
  "lk_main dial call =
     go_bind (lk_put dial call ''subject'' ''6.824'' lk_server) (\<lambda>kv.
     go_bind (lk_get dial call ''subject'' kv) (\<lambda>(_, val). Inr val))"

section \<open>What the handlers and the client do\<close>

text \<open>The handlers are a map: a \<open>Get\<close> returns the value of the last \<open>Put\<close> of its key.\<close>

lemma lk_Get_after_Puts:
  "snd (lk_Get \<lparr>lk_getKey = k\<rparr> (fold (\<lambda>a kv. fst (lk_Put a kv)) puts lk_server)) =
     (case filter (\<lambda>a. lk_putKey a = k) puts of
        [] \<Rightarrow> \<lparr>lk_getErr = ''ErrNoKey'', lk_getValue = ''''\<rparr>
      | ps \<Rightarrow> \<lparr>lk_getErr = ''OK'', lk_getValue = lk_putValue (last ps)\<rparr>)"
proof -
  have "lk_data (fold (\<lambda>a kv. fst (lk_Put a kv)) puts lk_server) k =
      (case filter (\<lambda>a. lk_putKey a = k) puts of [] \<Rightarrow> None | ps \<Rightarrow> Some (lk_putValue (last ps)))"
    by (induction puts rule: rev_induct) (auto simp: lk_Put_def lk_server_def split: list.splits)
  then show ?thesis by (simp add: lk_Get_def split: list.splits)
qed

text \<open>The client: \<open>main\<close> works because it asks for the one key the functions know.\<close>

lemma lk_main_prints: "lk_main False False = Inr ''6.824''"
  by code_simp

lemma lk_get_ignores_key: "lk_get d c key kv = lk_get d c key' kv"
  by (simp add: lk_get_def)

end
