(* ===== verification/Spec2Isabelle.thy ===== *)
theory Spec2Isabelle
  imports Raft_Theorems Tester_Theorems KV_Cluster Clerk_Theorems KV_Tester_Theorems MR_Apps Visualization Labrpc_Theorems Labgob
    Shard_Tester Lecture_KV
begin

text \<open>
  A verification of the distributed-systems code under \<open>src/src\<close>: MapReduce, Raft, a
  replicated key/value service on top of Raft, the simulated network, the harnesses and the
  linearizability checker its tests use, and the beginnings of a sharded store.

  \<^bold>\<open>Conventions.\<close> A Go function is a HOL function on records with the fields of the structs;
  a critical section is one function. A panic, and \<open>log.Fatal\<close>, is the \<open>Inl\<close> of type \<open>'a go\<close>
  (theory \<open>Prelude\<close>), indexing and slicing check their bounds, an \<open>int\<close> is an integer, and
  64-bit words are kept where the code lets them overflow (\<open>time.Duration\<close>, bit sets,
  byte counts). Clock readings and random numbers are arguments. What goroutines do between
  critical sections, and what the network does to messages, is the nondeterminism of step
  relations. Debug output is left out. Strings are sequences of bytes; \<open>Utf8\<close> has how Go
  decodes them where runes matter.

  \<^bold>\<open>Raft\<close> (\<open>raft/raft.go\<close>, \<open>raft/persister.go\<close>). \<open>Persister\<close> is the disk. \<open>Raft\<close> has the peer: \<open>AppendEntries\<close>,
  \<open>RequestVote\<close>, \<open>Start\<close>, \<open>Make\<close>, \<open>Kill\<close>, and the locked sections of the goroutines
  \<open>checkElection\<close>, \<open>sendHeartbeat\<close> and \<open>checkApply\<close>. \<open>Raft_Peer\<close> shows that each keeps the
  peer well-formed and in agreement with its disk, does not panic, and only lets the
  state evolve in certain ways. \<open>Raft_Cluster\<close> puts peers, goroutines and messages
  together: a step is one critical section, the delivery or the loss of a message, or a
  crash with restart. \<open>Quorums\<close> is the contract of majorities. \<open>Raft_Safety\<close> has the
  invariant of all reachable clusters, \<open>Raft_Election\<close> the one that gives at most one
  leader per term when vote requests are built in their election's term, \<open>Raft_Log\<close> what one
  leader and one follower do to each other's logs. \<open>Raft_Spec\<close> is an abstract protocol with
  six rules and its safety, \<open>Raft_Refine\<close> shows that every such cluster follows it,
  \<open>Raft_Commit\<close> carries what is committed over to the cluster, and \<open>Raft_Agreement\<close> and
  \<open>Raft_Feed\<close> draw the conclusions for logs and for apply channels. \<open>Raft_Theorems\<close> states the properties,
  among them a run of the code with two leaders in one term when that condition on the
  requests fails. The loop of a heartbeat goroutine has fuel \<open>2 * length + 2\<close>, which is shown
  to be enough.

  \<^bold>\<open>Raft's harness\<close> (\<open>raft/config.go\<close>). \<open>Raft_Tester\<close> has the code: starting, crashing and
  connecting servers, the readers of the apply channels, the checks that tests make.
  \<open>Tester_Run\<close> runs the readers beside a cluster, \<open>Tester_Checks\<close> says what the checks compute
  and \<open>Tester_Wiring\<close> what the operations do to the network and the disks. \<open>Tester_Theorems\<close>
  states that the readers never complain about the code, that what they accept is agreement,
  that the links are as the flags say, and that a restart recovers the saved state.

  \<^bold>\<open>Key/value service\<close> (\<open>kvraft\<close>). \<open>Apply_Channel\<close> is the contract between a Raft peer and
  the service that reads its channel, with the peer of \<open>Raft\<close> as its instance. \<open>KVServer\<close>
  has the server's handlers and its apply loop, and the specification they refine: a store
  that executes each clerk's commands at most once. \<open>KVClerk\<close> has the clerk with the
  goroutines of a call and the contract of its retry protocol, which \<open>Get\<close> and \<open>PutAppend\<close>
  instantiate. \<open>KV_Cluster\<close> puts servers on the peers of a cluster: all
  replicas apply the same operations, and acknowledged ones stay in every store.
  \<open>KV_Theorems\<close> states what a server makes of a sequence of messages, \<open>Clerk_Theorems\<close>, for
  servers along a history of the cluster, what a returned call means in their stores. These
  statements assume what the clerks see to: numbers in order, no two operations with the same
  numbers. \<open>KV_Tester\<close> is the harness \<open>kvraft/config.go\<close>, \<open>KV_Tester_Theorems\<close> what
  its partitions do to the network.

  \<^bold>\<open>MapReduce\<close> (\<open>mr\<close>, \<open>mrapps\<close>, \<open>main/mrsequential.go\<close>). \<open>MR_Master\<close> has the master and the
  runs of its handlers, \<open>MR_Worker\<close> the worker's two loops on a directory of files, with what
  \<open>encoding/json\<close> does to the records on the way, and the sequential program, \<open>MR_Job\<close> the contract of an application under which both give the same
  output, \<open>MR_Apps\<close> the applications and the properties. The worker's loops have fuel, the
  larger number of tasks plus two, which is shown to be enough for a single worker.

  \<^bold>\<open>Linearizability checker\<close> (\<open>porcupine\<close>, \<open>models/kv.go\<close>). \<open>Bitset\<close> and \<open>Porcupine\<close> have
  the code, the doubly linked list of entries in an explicit heap. \<open>Porcupine_List\<close> relates
  the heap to lists, \<open>Porcupine_Search\<close> the search to an abstract one, \<open>Porcupine_History\<close>
  that to linearizability of a history, \<open>Porcupine_Check\<close> puts them together, \<open>Porcupine_Ops\<close>
  and \<open>Porcupine_Events\<close> go through the two formats of histories, \<open>KvModel\<close> is the model of
  the key/value tests and, apart from it, what an accepted history means, and \<open>Checker_Theorems\<close> states that the checker decides
  linearizability. The search has fuel; the statements give a number of iterations after
  which the answer is there and does not change. \<open>Visualization\<close> has the data of the page that
  shows a check (\<open>porcupine/visualization.go\<close>) and what it shows.

  \<^bold>\<open>Network\<close> (\<open>labrpc\<close>, \<open>labgob\<close>). \<open>Labrpc\<close> has the network with the phases of every call,
  \<open>Labrpc_Theorems\<close> its contract: at most one execution, true replies, silence of removed
  servers. \<open>Labgob\<close> has the checks made before encoding and decoding. \<open>checkType\<close> has fuel:
  one more than the number of types a type is made of is enough.

  \<^bold>\<open>Sharding\<close> (\<open>shardmaster\<close>, \<open>shardkv\<close>). \<open>Shards\<close> has the clerks, and the servers as far as
  they exist; \<open>Shard_Tester\<close> the harness \<open>shardkv/config.go\<close>, which works for groups of
  three servers only.

  \<^bold>\<open>Lecture notes.\<close> \<open>Lecture_KV\<close> has the server and client of \<open>notes/lec02/kv.go\<close>.

  \<^bold>\<open>Parameters.\<close> Code outside the repository is an argument: \<open>encoding/gob\<close> (\<open>codec\<close>,
  \<open>gobDecode\<close>), the order in which \<open>sort\<close> and \<open>range\<close> over a map leave equal or unordered
  elements, \<open>unicode.IsUpper\<close> and \<open>unicode.IsLetter\<close>. Of the standard library's JSON only the
  effect on a record is modelled, not the text between.

  \<^bold>\<open>Not modelled.\<close> \<open>shardmaster/config.go\<close>, the code of \<open>kvraft/config.go\<close> with another type of
  server. The HTML page of \<open>porcupine/visualization.go\<close> and writing it to a file. The
  programs under \<open>main\<close> other than \<open>mrsequential.go\<close>, of which the drivers only call the
  packages and the others import packages that are not there. The functions
  \<open>nparallel\<close> of two MapReduce applications, which count processes by signals. RPC over
  sockets in \<open>mr\<close> and \<open>notes/lec02\<close>. Data races: fields the code reads without its lock are
  read in the critical section that follows.
\<close>

end
